(* ===== verification/Go_Prelude.thy ===== *)
theory Go_Prelude
  imports Main "HOL-Library.Word"
begin

text \<open>
  Shared vocabulary of the development: the machine types of the Go source, the fixed-width
  arithmetic it relies on, \<open>encoding/binary\<close>'s big-endian integers, the readers and writers of
  package \<open>io\<close>, and the generic interfaces (locales) that several components implement:
  \<open>codec\<close> (an encoder with a prefix-decoding inverse), \<open>io_writer\<close> (Go's \<open>io.Writer\<close> contract)
  and \<open>transition_system\<close> (a step relation with an inductive invariant).
\<close>

section \<open>Machine types\<close>

type_synonym byte = "8 word"
type_synonym bytes = "byte list"
type_synonym u16 = "16 word"
type_synonym u32 = "32 word"
type_synonym u64 = "64 word"

type_synonym instant = int \<comment> \<open>\<open>time.Time\<close>: nanoseconds on the process clock\<close>
type_synonym duration = int \<comment> \<open>\<open>time.Duration\<close>: signed 64-bit nanoseconds\<close>

named_theorems codec_simps \<open>prefix-decoding equations of the encoders\<close>
named_theorems inv_intros \<open>invariant preservation, one rule per operation\<close>
named_theorems frame_simps \<open>state components an operation leaves alone\<close>

text \<open>Signed 64-bit wrap-around: what \<open>+\<close> on \<open>int64\<close> and \<open>time.Duration\<close> computes.\<close>

definition wrap64 :: "int \<Rightarrow> int" where
  "wrap64 x = (x + 2 ^ 63) mod 2 ^ 64 - 2 ^ 63"

definition in_int64 :: "int \<Rightarrow> bool" where
  "in_int64 x \<longleftrightarrow> - (2 ^ 63) \<le> x \<and> x < 2 ^ 63"

lemma wrap64_id [simp]: "in_int64 x \<Longrightarrow> wrap64 x = x"
  by (simp add: wrap64_def in_int64_def)

lemma in_int64_wrap64 [simp]: "in_int64 (wrap64 x)"
proof -
  have "0 \<le> (x + 2 ^ 63) mod 2 ^ 64" and "(x + 2 ^ 63) mod 2 ^ 64 < 2 ^ 64"
    by (simp_all add: pos_mod_bound)
  then show ?thesis by (simp add: wrap64_def in_int64_def)
qed

section \<open>Bytes and strings\<close>

definition byte_of_char :: "char \<Rightarrow> byte" where
  "byte_of_char c = word_of_nat (of_char c)"

definition char_of_byte :: "byte \<Rightarrow> char" where
  "char_of_byte b = char_of (unat b)"

lemma unat_byte_of_char [simp]: "unat (byte_of_char c) = of_char c"
proof -
  have "of_char c < (256 :: nat)" by simp
  then show ?thesis
    by (simp add: byte_of_char_def unsigned_of_nat take_bit_nat_eq_self)
qed

lemma char_of_byte_of_char [simp]: "char_of_byte (byte_of_char c) = c"
  by (simp add: char_of_byte_def)

lemma byte_of_char_of_byte [simp]: "byte_of_char (char_of_byte b) = b"
proof -
  have "unat b < 2 ^ LENGTH(8)" by (rule unsigned_less)
  then have "unat b < 256" by simp
  then show ?thesis by (simp add: byte_of_char_def char_of_byte_def)
qed

definition bytes_of_string :: "string \<Rightarrow> bytes" where
  "bytes_of_string s = map byte_of_char s"

definition string_of_bytes :: "bytes \<Rightarrow> string" where
  "string_of_bytes bs = map char_of_byte bs"

lemma string_of_bytes_of_string [simp]: "string_of_bytes (bytes_of_string s) = s"
  by (simp add: bytes_of_string_def string_of_bytes_def comp_def)

lemma bytes_of_string_of_bytes [simp]: "bytes_of_string (string_of_bytes bs) = bs"
  by (simp add: bytes_of_string_def string_of_bytes_def comp_def)

lemma length_bytes_of_string [simp]: "length (bytes_of_string s) = length s"
  by (simp add: bytes_of_string_def)

lemma length_string_of_bytes [simp]: "length (string_of_bytes bs) = length bs"
  by (simp add: string_of_bytes_def)

section \<open>Big-endian integers (\<open>encoding/binary\<close>)\<close>

text \<open>
  \<open>put_be n x\<close> is \<open>binary.BigEndian.PutUint{16,32,64}\<close> for \<open>n = 2, 4, 8\<close>: the low \<open>n\<close> bytes of
  \<open>x\<close>, most significant first; \<open>get_be\<close> is \<open>binary.BigEndian.Uint{16,32,64}\<close> on a slice of that
  length.
\<close>

fun put_be :: "nat \<Rightarrow> nat \<Rightarrow> bytes" where
  "put_be 0 x = []"
| "put_be (Suc n) x = put_be n (x div 256) @ [word_of_nat (x mod 256)]"

definition get_be :: "bytes \<Rightarrow> nat" where
  "get_be bs = foldl (\<lambda>a b. a * 256 + unat b) 0 bs"

lemma length_put_be [simp]: "length (put_be n x) = n"
  by (induction n arbitrary: x) simp_all

lemma unat_byte_mod [simp]: "unat (word_of_nat (x mod 256) :: byte) = x mod 256"
  by (simp add: unsigned_of_nat take_bit_eq_mod)

lemma get_be_snoc [simp]: "get_be (bs @ [b]) = get_be bs * 256 + unat b"
  by (simp add: get_be_def)

lemma get_be_Nil [simp]: "get_be [] = 0"
  by (simp add: get_be_def)

lemma get_put_be: "get_be (put_be n x) = x mod 256 ^ n"
proof (induction n arbitrary: x)
  case 0
  then show ?case by simp
next
  case (Suc n)
  have "x mod 256 ^ Suc n = (x div 256 mod 256 ^ n) * 256 + x mod 256"
    using mod_mult2_eq [of x 256 "256 ^ n"] by (simp add: mult.commute)
  with Suc show ?case by simp
qed

lemma get_put_be_id [simp]: "x < 256 ^ n \<Longrightarrow> get_be (put_be n x) = x"
  by (simp add: get_put_be)

lemma get_be_bound: "get_be bs < 256 ^ length bs"
proof (induction bs rule: rev_induct)
  case Nil
  then show ?case by simp
next
  case (snoc b bs)
  have "unat b < 2 ^ LENGTH(8)" by (rule unsigned_less)
  then have "unat b < 256" by simp
  with snoc show ?case by simp
qed

lemma put_get_be: "length bs = n \<Longrightarrow> put_be n (get_be bs) = bs"
proof (induction n arbitrary: bs)
  case 0
  then show ?case by simp
next
  case (Suc n)
  then obtain cs c where bs: "bs = cs @ [c]" and len: "length cs = n"
    by (metis length_Suc_conv_rev)
  have "unat c < 2 ^ LENGTH(8)" by (rule unsigned_less)
  then have c: "unat c < 256" by simp
  with bs len Suc.IH [OF len] show ?case by simp
qed

section \<open>Readers and writers (package \<open>io\<close>)\<close>

text \<open>
  A reader is the list of bytes it still has to deliver, and a read returns what is left.
  \<open>ReadFull\<close> is \<open>io.ReadFull\<close>: \<open>EOF\<close> when nothing could be read, \<open>UnexpectedEOF\<close> when the
  stream ended in the middle.
\<close>

datatype io_error = EOF | UnexpectedEOF | ErrShortWrite

definition ReadFull :: "nat \<Rightarrow> bytes \<Rightarrow> io_error + bytes \<times> bytes" where
  "ReadFull n bs =
     (if n = 0 then Inr ([], bs)
      else if bs = [] then Inl EOF
      else if length bs < n then Inl UnexpectedEOF
      else Inr (take n bs, drop n bs))"

lemma ReadFull_append [codec_simps]:
  "length xs = n \<Longrightarrow> ReadFull n (xs @ rest) = Inr (xs, rest)"
  by (auto simp: ReadFull_def)

lemma ReadFull_InrD:
  "ReadFull n bs = Inr (xs, rest) \<Longrightarrow> bs = xs @ rest \<and> length xs = n"
  by (auto simp: ReadFull_def split: if_splits)

text \<open>
  A writer is a state with a write function: the new state, the number of bytes accepted and an
  error if there was one. \<open>buffer_write\<close> is \<open>bytes.Buffer\<close>, which accepts everything.
\<close>

type_synonym ('w, 'e) write_fn = "'w \<Rightarrow> bytes \<Rightarrow> 'w \<times> nat \<times> 'e option"

definition buffer_write :: "(bytes, 'e) write_fn" where
  "buffer_write w p = (w @ p, length p, None)"

text \<open>The part of the \<open>io.Writer\<close> contract a caller can rely on when no error is returned.\<close>

locale io_writer =
  fixes wr :: "('w, 'e) write_fn"
    and content :: "'w \<Rightarrow> bytes"
  assumes write_accepts: "wr w p = (w', n, None) \<Longrightarrow> n \<le> length p"
    and write_content: "wr w p = (w', n, None) \<Longrightarrow> content w' = content w @ take n p"
begin

lemma write_all: "wr w p = (w', length p, None) \<Longrightarrow> content w' = content w @ p"
  using write_content [of w p w' "length p"] by simp

end

interpretation buffer: io_writer "buffer_write :: (bytes, 'e) write_fn" "\<lambda>w. w"
  by unfold_locales (auto simp: buffer_write_def)

section \<open>Interfaces shared by several components\<close>

text \<open>
  A codec: whatever \<open>enc\<close> writes for a well-formed value, \<open>dec\<close> reads back and leaves the bytes
  behind it alone. Fields encoded by codecs can be written one after the other.
\<close>

fun read_n :: "('b list \<Rightarrow> 'e + 'a \<times> 'b list) \<Rightarrow> nat \<Rightarrow> 'b list \<Rightarrow> 'e + 'a list \<times> 'b list" where
  "read_n dec 0 bs = Inr ([], bs)"
| "read_n dec (Suc n) bs =
     (case dec bs of
        Inl e \<Rightarrow> Inl e
      | Inr (x, bs') \<Rightarrow>
          (case read_n dec n bs' of Inl e \<Rightarrow> Inl e | Inr (xs, rest) \<Rightarrow> Inr (x # xs, rest)))"

locale codec =
  fixes enc :: "'a \<Rightarrow> 'b list"
    and dec :: "'b list \<Rightarrow> 'e + 'a \<times> 'b list"
    and wf :: "'a \<Rightarrow> bool"
  assumes dec_enc: "wf x \<Longrightarrow> dec (enc x @ rest) = Inr (x, rest)"
begin

lemma enc_prefix_free:
  assumes "wf x" and "wf y" and "enc x @ r = enc y @ s"
  shows "x = y \<and> r = s"
proof -
  have "Inr (x, r) = dec (enc x @ r)" by (simp only: dec_enc [OF assms(1)])
  also have "\<dots> = Inr (y, s)" by (simp only: assms(3) dec_enc [OF assms(2)])
  finally show ?thesis by simp
qed

lemma enc_inj: "wf x \<Longrightarrow> wf y \<Longrightarrow> enc x = enc y \<Longrightarrow> x = y"
  using enc_prefix_free [of x y "[]" "[]"] by simp

lemma enc_concat_inj:
  assumes "list_all wf xs" and "list_all wf ys" and "\<And>x. wf x \<Longrightarrow> enc x \<noteq> []"
    and "concat (map enc xs) = concat (map enc ys)"
  shows "xs = ys"
  using assms
proof (induction xs arbitrary: ys)
  case Nil
  then show ?case by (cases ys) auto
next
  case (Cons x xs)
  then obtain y ys' where ys: "ys = y # ys'" by (cases ys) auto
  with Cons.prems have "x = y \<and> concat (map enc xs) = concat (map enc ys')"
    by (intro enc_prefix_free) auto
  with Cons.IH [of ys'] Cons.prems ys show ?case by auto
qed

lemma read_n_enc:
  "list_all wf xs \<Longrightarrow> read_n dec (length xs) (concat (map enc xs) @ rest) = Inr (xs, rest)"
  by (induction xs) (auto simp: dec_enc)

end

text \<open>
  A transition system with an inductive invariant. \<open>reach\<close> are the states some run from an
  initial state ends in; a run is an arbitrary sequence of labelled steps, which is how
  concurrent callers interleave.
\<close>

inductive reach :: "('s \<Rightarrow> bool) \<Rightarrow> ('s \<Rightarrow> 'l \<Rightarrow> 's \<Rightarrow> bool) \<Rightarrow> 's \<Rightarrow> bool"
  for init step where
  reach_init: "init s \<Longrightarrow> reach init step s"
| reach_step: "reach init step s \<Longrightarrow> step s l s' \<Longrightarrow> reach init step s'"

locale transition_system =
  fixes init :: "'s \<Rightarrow> bool"
    and step :: "'s \<Rightarrow> 'l \<Rightarrow> 's \<Rightarrow> bool"
    and inv :: "'s \<Rightarrow> bool"
  assumes inv_init: "init s \<Longrightarrow> inv s"
    and inv_step: "inv s \<Longrightarrow> step s l s' \<Longrightarrow> inv s'"
begin

lemma reach_inv: "reach init step s \<Longrightarrow> inv s"
  by (induction rule: reach.induct) (auto intro: inv_init inv_step)

end

section \<open>Lists and maps\<close>

lemma list_all_take: "list_all P xs \<Longrightarrow> list_all P (take n xs)"
  by (auto simp: list_all_iff dest: in_set_takeD)

lemma list_all_drop: "list_all P xs \<Longrightarrow> list_all P (drop n xs)"
  by (auto simp: list_all_iff dest: in_set_dropD)

lemma sum_list_filter_partition:
  fixes f :: "'a \<Rightarrow> int"
  shows "sum_list (map f (filter P xs)) + sum_list (map f (filter (\<lambda>x. \<not> P x) xs))
       = sum_list (map f xs)"
  by (induction xs) auto

section \<open>Go maps\<close>

text \<open>
  A Go map whose length or iteration order matters is an association list with distinct keys, in
  some iteration order.
\<close>

definition map_delete :: "'k \<Rightarrow> ('k \<times> 'v) list \<Rightarrow> ('k \<times> 'v) list" where
  "map_delete k m = filter (\<lambda>kv. fst kv \<noteq> k) m"

definition map_put :: "'k \<Rightarrow> 'v \<Rightarrow> ('k \<times> 'v) list \<Rightarrow> ('k \<times> 'v) list" where
  "map_put k v m = (k, v) # map_delete k m"

lemma distinct_map_delete [intro]: "distinct (map fst m) \<Longrightarrow> distinct (map fst (map_delete k m))"
  by (auto simp: map_delete_def distinct_map inj_on_def)

lemma map_of_map_delete [simp]: "map_of (map_delete k m) = (map_of m)(k := None)"
  by (induction m) (auto simp: map_delete_def fun_eq_iff)

lemma set_map_delete: "set (map_delete k m) = {kv \<in> set m. fst kv \<noteq> k}"
  by (auto simp: map_delete_def)

lemma length_map_delete_le: "length (map_delete k m) \<le> length m"
  by (simp add: map_delete_def)

lemma length_map_delete:
  "distinct (map fst m) \<Longrightarrow> map_of m k = Some v \<Longrightarrow> Suc (length (map_delete k m)) = length m"
proof (induction m)
  case Nil
  then show ?case by simp
next
  case (Cons x m)
  show ?case
  proof (cases "fst x = k")
    case True
    with Cons.prems have "map_delete k m = m"
      by (auto simp: map_delete_def filter_id_conv image_iff)
    with True show ?thesis by (simp add: map_delete_def)
  next
    case False
    with Cons have "Suc (length (map_delete k m)) = length m" by (cases x) auto
    with False show ?thesis by (simp add: map_delete_def)
  qed
qed

lemma map_delete_absent: "map_of m k = None \<Longrightarrow> map_delete k m = m"
  by (auto simp: map_delete_def filter_id_conv map_of_eq_None_iff)

lemma map_of_map_put [simp]: "map_of (map_put k v m) = (map_of m)(k \<mapsto> v)"
  by (simp add: map_put_def)

lemma distinct_map_put [intro]: "distinct (map fst m) \<Longrightarrow> distinct (map fst (map_put k v m))"
  by (auto simp: map_put_def set_map_delete intro: distinct_map_delete)

lemma map_of_filter_vals:
  "distinct (map fst m) \<Longrightarrow>
   map_of (filter (\<lambda>(k, v). P v) m) k = (case map_of m k of Some v \<Rightarrow> if P v then Some v else None | None \<Rightarrow> None)"
  by (induction m) (auto split: option.splits dest: map_of_SomeD simp: rev_image_eqI)

lemma distinct_filter_keys [intro]: "distinct (map fst m) \<Longrightarrow> distinct (map fst (filter P m))"
  by (auto simp: distinct_map inj_on_def)

lemma map_filter_append: "List.map_filter f (xs @ ys) = List.map_filter f xs @ List.map_filter f ys"
  by (simp add: List.map_filter_def)

end
