(* ===== verification/FastCGI_Protocol.thy ===== *)
theory FastCGI_Protocol
  imports Go_Prelude
begin

text \<open>
  The FastCGI record layer, \<open>pkg/fastcgi/protocol.go\<close>: headers, records, name-value lengths and
  parameter streams. Writers are arbitrary \<open>io.Writer\<close>s (a write function that may fail or accept
  too little), readers are byte lists. The lemmas show that each layer is a codec, and that a
  record written to any writer that honours the contract is read back unchanged.
\<close>

unbundle bit_operations_syntax

section \<open>Data\<close>

definition headerSize :: nat where "headerSize = 8"
definition version1 :: byte where "version1 = 1"
definition maxContentLength :: nat where "maxContentLength = 65535"

definition TypeBeginRequest :: byte where "TypeBeginRequest = 1"
definition TypeEndRequest :: byte where "TypeEndRequest = 3"
definition TypeParams :: byte where "TypeParams = 4"
definition TypeStdin :: byte where "TypeStdin = 5"
definition TypeStdout :: byte where "TypeStdout = 6"
definition TypeStderr :: byte where "TypeStderr = 7"
definition RoleResponder :: u16 where "RoleResponder = 1"
definition FlagKeepConn :: byte where "FlagKeepConn = 1"

record fcgi_header =
  hVersion :: byte
  hType :: byte
  hRequestID :: u16
  hContentLength :: u16
  hPaddingLength :: byte
  hReserved :: byte

record fcgi_record =
  recHeader :: fcgi_header
  recContent :: bytes

datatype 'e fcgi_error =
    WriteError 'e
  | ShortWrite
  | RecordTooLong nat nat
  | HeaderError io_error
  | ContentError io_error
  | PaddingError io_error

section \<open>Operations\<close>

text \<open>
  The check the source repeats after every \<open>w.Write\<close>: the writer's own error first, then a
  short write.
\<close>

definition write_checked ::
  "('w, 'e) write_fn \<Rightarrow> 'w \<Rightarrow> bytes \<Rightarrow> 'w \<times> 'e fcgi_error option" where
  "write_checked wr w buf =
     (case wr w buf of (w', n, err) \<Rightarrow>
        (case err of
           Some e \<Rightarrow> (w', Some (WriteError e))
         | None \<Rightarrow> if n \<noteq> length buf then (w', Some ShortWrite) else (w', None)))"

definition header_bytes :: "fcgi_header \<Rightarrow> bytes" where
  "header_bytes h =
     [hVersion h, hType h] @ put_be 2 (unat (hRequestID h)) @ put_be 2 (unat (hContentLength h))
       @ [hPaddingLength h, hReserved h]"

definition EncodeHeader ::
  "('w, 'e) write_fn \<Rightarrow> 'w \<Rightarrow> fcgi_header \<Rightarrow> 'w \<times> 'e fcgi_error option" where
  "EncodeHeader wr w h = write_checked wr w (header_bytes h)"

definition DecodeHeader :: "bytes \<Rightarrow> 'e fcgi_error + fcgi_header \<times> bytes" where
  "DecodeHeader r =
     (case ReadFull headerSize r of
        Inl e \<Rightarrow> Inl (HeaderError e)
      | Inr (buf, r') \<Rightarrow>
          Inr (\<lparr>hVersion = buf ! 0, hType = buf ! 1,
                hRequestID = word_of_nat (get_be (take 2 (drop 2 buf))),
                hContentLength = word_of_nat (get_be (take 2 (drop 4 buf))),
                hPaddingLength = buf ! 6, hReserved = buf ! 7\<rparr>, r'))"

definition record_header :: "byte \<Rightarrow> u16 \<Rightarrow> nat \<Rightarrow> fcgi_header" where
  "record_header recType requestID contentLen =
     \<lparr>hVersion = version1, hType = recType, hRequestID = requestID,
      hContentLength = word_of_nat contentLen,
      hPaddingLength = word_of_nat ((8 - contentLen mod 8) mod 8), hReserved = 0\<rparr>"

definition WriteRecord ::
  "('w, 'e) write_fn \<Rightarrow> 'w \<Rightarrow> byte \<Rightarrow> u16 \<Rightarrow> bytes \<Rightarrow> 'w \<times> 'e fcgi_error option" where
  "WriteRecord wr w recType requestID content =
     (let contentLen = length content; padding = (8 - contentLen mod 8) mod 8 in
      if contentLen > maxContentLength then (w, Some (RecordTooLong contentLen maxContentLength))
      else
        (case EncodeHeader wr w (record_header recType requestID contentLen) of
           (w1, Some e) \<Rightarrow> (w1, Some e)
         | (w1, None) \<Rightarrow>
             (case (if contentLen > 0 then write_checked wr w1 content else (w1, None)) of
                (w2, Some e) \<Rightarrow> (w2, Some e)
              | (w2, None) \<Rightarrow>
                  (if padding > 0 then write_checked wr w2 (replicate padding 0)
                   else (w2, None)))))"

definition ReadRecord :: "bytes \<Rightarrow> 'e fcgi_error + fcgi_record \<times> bytes" where
  "ReadRecord r =
     (case DecodeHeader r of
        Inl e \<Rightarrow> Inl e
      | Inr (h, r1) \<Rightarrow>
          (case ReadFull (unat (hContentLength h)) r1 of
             Inl e \<Rightarrow> Inl (ContentError e)
           | Inr (content, r2) \<Rightarrow>
               (case ReadFull (unat (hPaddingLength h)) r2 of
                  Inl e \<Rightarrow> Inl (PaddingError e)
                | Inr (pad, r3) \<Rightarrow> Inr (\<lparr>recHeader = h, recContent = content\<rparr>, r3))))"

definition EncodeBeginRequest :: "u16 \<Rightarrow> byte \<Rightarrow> bytes" where
  "EncodeBeginRequest role flags = put_be 2 (unat role) @ [flags] @ replicate 5 0"

text \<open>
  Lengths below 128 take one byte, others four with the top bit set; the conversion to
  \<open>uint32\<close> keeps the low 32 bits of the length.
\<close>

definition encodeLength :: "nat \<Rightarrow> bytes" where
  "encodeLength n =
     (if n < 128 then [word_of_nat n]
      else put_be 4 (unat ((word_of_nat n :: u32) OR 0x80000000)))"

definition decodeLength :: "bytes \<Rightarrow> io_error + nat \<times> bytes" where
  "decodeLength r =
     (case r of
        [] \<Rightarrow> Inl EOF
      | b # r1 \<Rightarrow>
          (if b < 128 then Inr (unat b, r1)
           else
             (case r1 of
                b0 # b1 # b2 # r2 \<Rightarrow>
                  Inr (unat (push_bit 24 (ucast (b AND 0x7F)) OR push_bit 16 (ucast b0)
                             OR push_bit 8 (ucast b1) OR (ucast b2 :: u32)), r2)
              | _ \<Rightarrow> Inl EOF)))"

definition EncodeParam :: "string \<Rightarrow> string \<Rightarrow> bytes" where
  "EncodeParam name val =
     encodeLength (length name) @ encodeLength (length val)
       @ bytes_of_string name @ bytes_of_string val"

text \<open>
  Go ranges over a map in an unspecified order: the argument lists the map's pairs in the order
  the iteration visits them.
\<close>

definition EncodeParams :: "(string \<times> string) list \<Rightarrow> bytes" where
  "EncodeParams params =
     concat (map (\<lambda>(k, v). encodeLength (length k) @ encodeLength (length v)
                             @ bytes_of_string k @ bytes_of_string v) params)"

datatype param_error = ParamRead io_error | ParamLength nat nat nat

definition decodeParam :: "bytes \<Rightarrow> param_error + (string \<times> string) \<times> bytes" where
  "decodeParam r =
     (case decodeLength r of
        Inl e \<Rightarrow> Inl (ParamRead e)
      | Inr (nameLen, r1) \<Rightarrow>
          (case decodeLength r1 of
             Inl e \<Rightarrow> Inl (ParamRead e)
           | Inr (valueLen, r2) \<Rightarrow>
               (if nameLen > length r2 \<or> valueLen > length r2 - nameLen
                then Inl (ParamLength nameLen valueLen (length r2))
                else
                  (case ReadFull nameLen r2 of
                     Inl e \<Rightarrow> Inl (ParamRead e)
                   | Inr (name, r3) \<Rightarrow>
                       (case ReadFull valueLen r3 of
                          Inl e \<Rightarrow> Inl (ParamRead e)
                        | Inr (val, r4) \<Rightarrow>
                            Inr ((string_of_bytes name, string_of_bytes val), r4))))))"

lemma decodeLength_consumes: "decodeLength r = Inr (n, r') \<Longrightarrow> length r' < length r"
  by (auto simp: decodeLength_def split: list.splits if_splits)

lemma decodeParam_consumes: "decodeParam r = Inr (kv, r') \<Longrightarrow> length r' < length r"
  by (auto simp: decodeParam_def split: sum.splits prod.splits if_splits
           dest!: decodeLength_consumes ReadFull_InrD)

text \<open>The decoding loop returns the pairs stored so far together with the error that ended it.\<close>

function decodeParamsLoop ::
  "bytes \<Rightarrow> (string \<rightharpoonup> string) \<Rightarrow> (string \<rightharpoonup> string) \<times> param_error option" where
  "decodeParamsLoop r params =
     (if r = [] then (params, None)
      else
        (case decodeParam r of
           Inl e \<Rightarrow> (params, Some e)
         | Inr ((name, val), r') \<Rightarrow> decodeParamsLoop r' (params(name \<mapsto> val))))"
  by pat_completeness auto
termination
  by (relation "measure (\<lambda>(r, params). length r)") (auto dest: decodeParam_consumes)

declare decodeParamsLoop.simps [simp del]

definition DecodeParams :: "bytes \<Rightarrow> (string \<rightharpoonup> string) \<times> param_error option" where
  "DecodeParams data = decodeParamsLoop data Map.empty"

section \<open>Headers and records\<close>

lemma length_header_bytes [simp]: "length (header_bytes h) = headerSize"
  by (simp add: header_bytes_def headerSize_def)

lemma word_of_get_put_be2 [simp]: "word_of_nat (get_be (put_be 2 (unat (w :: u16)))) = w"
proof -
  have "unat w < 2 ^ LENGTH(16)" by (rule unsigned_less)
  then show ?thesis by simp
qed

lemma DecodeHeader_header_bytes [codec_simps]:
  "DecodeHeader (header_bytes h @ rest) = Inr (h, rest)"
proof -
  have put2: "\<exists>a b. put_be 2 x = [a, b]" for x
    by (simp add: numeral_2_eq_2)
  obtain a b where ab: "put_be 2 (unat (hRequestID h)) = [a, b]" using put2 by blast
  obtain c d where cd: "put_be 2 (unat (hContentLength h)) = [c, d]" using put2 by blast
  have "word_of_nat (get_be [a, b]) = hRequestID h"
    by (simp flip: ab)
  moreover have "word_of_nat (get_be [c, d]) = hContentLength h"
    by (simp flip: cd)
  ultimately show ?thesis
    by (simp add: DecodeHeader_def header_bytes_def headerSize_def ReadFull_def ab cd)
qed

interpretation header_codec: codec header_bytes
  "DecodeHeader :: bytes \<Rightarrow> 'e fcgi_error + fcgi_header \<times> bytes" "\<lambda>_. True"
  by unfold_locales (rule DecodeHeader_header_bytes)

text \<open>What a complete record looks like on the wire.\<close>

definition record_padding :: "nat \<Rightarrow> nat" where
  "record_padding n = (8 - n mod 8) mod 8"

definition record_bytes :: "byte \<Rightarrow> u16 \<Rightarrow> bytes \<Rightarrow> bytes" where
  "record_bytes recType requestID content =
     header_bytes (record_header recType requestID (length content)) @ content
       @ replicate (record_padding (length content)) 0"

lemma record_padding_less: "record_padding n < 8"
  by (simp add: record_padding_def)

lemma record_padding_aligns: "(n + record_padding n) mod 8 = 0"
proof (cases "n mod 8 = 0")
  case True
  then show ?thesis by (simp add: record_padding_def)
next
  case False
  then have "record_padding n = 8 - n mod 8" and "n mod 8 < 8"
    by (simp_all add: record_padding_def)
  then have "n + record_padding n = 8 * (n div 8 + 1)"
    using mult_div_mod_eq [of 8 n] by arith
  then show ?thesis by simp
qed

lemma record_bytes_aligned: "length (record_bytes t i content) mod 8 = 0"
  using record_padding_aligns [of "length content"]
  by (simp add: record_bytes_def headerSize_def)

lemma record_header_fields:
  assumes "n \<le> maxContentLength"
  shows "unat (hContentLength (record_header t i n)) = n"
    and "unat (hPaddingLength (record_header t i n)) = record_padding n"
proof -
  have "n < 2 ^ 16" using assms by (simp add: maxContentLength_def)
  then show "unat (hContentLength (record_header t i n)) = n"
    by (simp add: record_header_def unsigned_of_nat take_bit_nat_eq_self)
  have "record_padding n < 256" using record_padding_less [of n] by simp
  then show "unat (hPaddingLength (record_header t i n)) = record_padding n"
    by (simp add: record_header_def record_padding_def unsigned_of_nat take_bit_nat_eq_self)
qed

text \<open>The record a reader hands back for a payload.\<close>

definition mk_record :: "byte \<Rightarrow> u16 \<Rightarrow> bytes \<Rightarrow> fcgi_record" where
  "mk_record t i content =
     \<lparr>recHeader = record_header t i (length content), recContent = content\<rparr>"

lemma ReadRecord_record_bytes [codec_simps]:
  assumes "length content \<le> maxContentLength"
  shows "ReadRecord (record_bytes t i content @ rest) = Inr (mk_record t i content, rest)"
  by (simp add: ReadRecord_def record_bytes_def mk_record_def codec_simps
                record_header_fields [OF assms])

interpretation record_codec: codec "\<lambda>(t, i, content). record_bytes t i content"
  "\<lambda>r. case ReadRecord r of
         Inl (e :: 'e fcgi_error) \<Rightarrow> Inl e
       | Inr (rec, rest) \<Rightarrow>
           Inr ((hType (recHeader rec), hRequestID (recHeader rec), recContent rec), rest)"
  "\<lambda>(t, i, content). length content \<le> maxContentLength"
  by unfold_locales (auto simp: codec_simps mk_record_def record_header_def)

lemma ReadRecord_consumes: "ReadRecord r = Inr (rec, r') \<Longrightarrow> length r' < length r"
  by (auto simp: ReadRecord_def DecodeHeader_def headerSize_def
           split: sum.splits prod.splits dest!: ReadFull_InrD)

lemma ReadRecord_content_bound: 
  assumes "ReadRecord r = Inr (rec, r')"
  shows "length (recContent rec) \<le> maxContentLength"
proof -
  from assms obtain h r1 where "length (recContent rec) = unat (hContentLength (h :: fcgi_header))"
    by (auto simp: ReadRecord_def split: sum.splits prod.splits dest!: ReadFull_InrD)
  moreover have "unat (hContentLength h) < 2 ^ LENGTH(16)" by (rule unsigned_less)
  ultimately show ?thesis by (simp add: maxContentLength_def)
qed

text \<open>
  The client of the writer interface: for every writer that honours the \<open>io.Writer\<close> contract,
  a \<open>WriteRecord\<close> that reports no error has appended exactly the record's wire image.
\<close>

context io_writer
begin

lemma write_checked_ok:
  "write_checked wr w buf = (w', None) \<Longrightarrow> content w' = content w @ buf"
  by (auto simp: write_checked_def split: prod.splits option.splits if_splits
           dest: write_content)

lemma EncodeHeader_ok:
  "EncodeHeader wr w h = (w', None) \<Longrightarrow> content w' = content w @ header_bytes h"
  by (simp add: EncodeHeader_def write_checked_ok)

lemma WriteRecord_appends:
  assumes "WriteRecord wr w t i payload = (w', None)"
  shows "length payload \<le> maxContentLength \<and> content w' = content w @ record_bytes t i payload"
proof -
  let ?n = "length payload" and ?p = "record_padding (length payload)"
  from assms have len: "?n \<le> maxContentLength"
    by (auto simp: WriteRecord_def Let_def split: if_splits)
  from assms len obtain w1 w2
    where h: "EncodeHeader wr w (record_header t i ?n) = (w1, None)"
      and c: "(if ?n > 0 then write_checked wr w1 payload else (w1, None)) = (w2, None)"
      and d: "(if ?p > 0 then write_checked wr w2 (replicate ?p 0) else (w2, None)) = (w', None)"
    by (auto simp: WriteRecord_def Let_def record_padding_def
             split: prod.splits option.splits if_splits)
  from c have "content w2 = content w1 @ payload"
    by (auto split: if_splits dest: write_checked_ok)
  moreover from d have "content w' = content w2 @ replicate ?p 0"
    by (auto split: if_splits dest: write_checked_ok)
  ultimately show ?thesis
    using EncodeHeader_ok [OF h] len by (simp add: record_bytes_def)
qed

end

lemma WriteRecord_buffer:
  "length payload \<le> maxContentLength \<Longrightarrow>
     WriteRecord (buffer_write :: (bytes, 'e) write_fn) w t i payload
       = (w @ record_bytes t i payload, None)"
  by (simp add: WriteRecord_def EncodeHeader_def write_checked_def buffer_write_def
                record_bytes_def record_padding_def Let_def)

section \<open>Lengths and parameters\<close>

lemma put_be_4_word:
  "put_be 4 (unat (w :: u32))
     = [ucast (drop_bit 24 w), ucast (drop_bit 16 w), ucast (drop_bit 8 w), ucast w]"
proof -
  have lane: "word_of_nat (unat w div 2 ^ k mod 256) = (ucast (drop_bit k w) :: byte)" for k
  proof (rule word_unat_eq_iff [THEN iffD2])
    have "unat (drop_bit k w) = unat w div 2 ^ k"
      by (simp only: unat_drop_bit_eq) (simp only: drop_bit_eq_div)
    then show "unat (word_of_nat (unat w div 2 ^ k mod 256) :: byte)
                 = unat (ucast (drop_bit k w) :: byte)"
      by (simp add: unsigned_ucast_eq take_bit_eq_mod)
  qed
  have four: "(4 :: nat) = Suc (Suc (Suc (Suc 0)))" by simp
  have "put_be 4 (unat w)
      = [word_of_nat (unat w div 2 ^ 24 mod 256), word_of_nat (unat w div 2 ^ 16 mod 256),
         word_of_nat (unat w div 2 ^ 8 mod 256), word_of_nat (unat w div 2 ^ 0 mod 256)]"
    unfolding four put_be.simps by (simp flip: div_mult2_eq)
  then show ?thesis unfolding lane by simp
qed

lemma bit_lane:
  "bit (push_bit k (ucast (ucast (drop_bit k x) :: byte)) :: u32) n \<longleftrightarrow>
     k \<le> n \<and> n < k + 8 \<and> bit (x :: u32) n"
  by (auto simp: bit_simps dest: bit_imp_le_length)

lemma bit_lane_mask:
  "bit (push_bit k (ucast ((ucast (drop_bit k x) :: byte) AND M)) :: u32) n \<longleftrightarrow>
     k \<le> n \<and> n < k + 8 \<and> bit (x :: u32) n \<and> bit M (n - k)"
  by (auto simp: bit_simps dest: bit_imp_le_length)

lemma long_length_bits_gen:
  fixes w H :: u32 and M :: byte
  assumes top: "\<not> bit w 31" and H: "\<And>k. bit H k \<longleftrightarrow> k = 31" and M: "\<And>k. bit M k \<longleftrightarrow> k < 7"
  shows "push_bit 24 (ucast ((ucast (drop_bit 24 (w OR H)) :: byte) AND M))
           OR push_bit 16 (ucast (ucast (drop_bit 16 (w OR H)) :: byte))
           OR push_bit 8 (ucast (ucast (drop_bit 8 (w OR H)) :: byte))
           OR push_bit 0 (ucast (ucast (drop_bit 0 (w OR H)) :: byte)) = w"
    (is "?l = w")
proof (rule bit_word_eqI)
  fix n
  assume n: "n < LENGTH(32)"
  have "bit ?l n \<longleftrightarrow> (if n < 24 then bit (w OR H) n else bit (w OR H) n \<and> n - 24 < 7)"
    unfolding bit_or_iff bit_lane bit_lane_mask M using n by auto
  also have "\<dots> \<longleftrightarrow> bit w n"
    using n top by (cases "n = 31") (auto simp: bit_or_iff H)
  finally show "bit ?l n = bit w n" .
qed

lemma bit_top_u32: "bit (0x80000000 :: u32) k \<longleftrightarrow> k = 31"
proof -
  have eq: "(0x80000000 :: u32) = 2 ^ 31" by simp
  show ?thesis unfolding eq bit_exp_iff by auto
qed

lemma bit_low7_byte: "bit (0x7F :: byte) k \<longleftrightarrow> k < 7"
proof -
  have eq: "(0x7F :: byte) = mask 7" by (simp add: mask_eq_exp_minus_1)
  show ?thesis unfolding eq bit_mask_iff by auto
qed

lemma bit7_not_less: "bit (b :: byte) 7 \<Longrightarrow> \<not> b < 128"
proof
  assume "bit b 7" and "b < 128"
  then have "bit (unat b) 7" and "unat b < 128"
    by (simp_all add: bit_unsigned_iff word_less_nat_alt)
  then show False by (simp add: bit_iff_odd)
qed

lemma decode_encodeLength [codec_simps]:
  assumes "n < 2 ^ 31"
  shows "decodeLength (encodeLength n @ rest) = Inr (n, rest)"
proof (cases "n < 128")
  case True
  then have u: "unat (word_of_nat n :: byte) = n"
    by (simp add: unsigned_of_nat take_bit_nat_eq_self)
  then have "(word_of_nat n :: byte) < 128" using True by (simp add: word_less_nat_alt)
  with True u show ?thesis by (simp add: encodeLength_def decodeLength_def)
next
  case False
  let ?w = "word_of_nat n :: u32" and ?v = "(word_of_nat n :: u32) OR 0x80000000"
  have u: "unat ?w = n" using assms by (simp add: unsigned_of_nat take_bit_nat_eq_self)
  have "\<not> bit n 31" using assms by (simp add: bit_iff_odd)
  then have top: "\<not> bit ?w 31" by (simp add: bit_simps)
  have "bit (ucast (drop_bit 24 ?v) :: byte) 7"
    by (simp only: bit_ucast_iff bit_drop_bit_eq comp_def bit_or_iff bit_top_u32) simp
  then have big: "\<not> (ucast (drop_bit 24 ?v) :: byte) < 128"
    by (rule bit7_not_less)
  show ?thesis
    using False big long_length_bits_gen [OF top bit_top_u32 bit_low7_byte]
    by (simp add: encodeLength_def decodeLength_def put_be_4_word u)
qed

interpretation length_codec: codec encodeLength decodeLength "\<lambda>n. n < 2 ^ 31"
  by unfold_locales (rule decode_encodeLength)

definition param_wf :: "string \<times> string \<Rightarrow> bool" where
  "param_wf kv \<longleftrightarrow> length (fst kv) < 2 ^ 31 \<and> length (snd kv) < 2 ^ 31"

lemma decodeParam_EncodeParam [codec_simps]:
  "param_wf (k, v) \<Longrightarrow> decodeParam (EncodeParam k v @ rest) = Inr ((k, v), rest)"
  by (simp add: decodeParam_def EncodeParam_def param_wf_def codec_simps)

interpretation param_codec: codec "\<lambda>(k, v). EncodeParam k v" decodeParam param_wf
  by unfold_locales (auto simp: codec_simps)

lemma EncodeParams_concat: "EncodeParams kvs = concat (map (\<lambda>(k, v). EncodeParam k v) kvs)"
  by (simp add: EncodeParams_def EncodeParam_def)

lemma encodeLength_nonempty: "encodeLength n \<noteq> []"
proof -
  have "length (encodeLength n) = (if n < 128 then 1 else 4)" by (simp add: encodeLength_def)
  then show ?thesis by (auto split: if_splits)
qed

lemma EncodeParam_nonempty: "EncodeParam k v \<noteq> []"
  by (simp add: EncodeParam_def encodeLength_nonempty)

lemma decodeParamsLoop_step:
  "param_wf (k, v) \<Longrightarrow>
     decodeParamsLoop (EncodeParam k v @ rest) m = decodeParamsLoop rest (m(k \<mapsto> v))"
  by (subst decodeParamsLoop.simps) (simp add: EncodeParam_nonempty codec_simps)

text \<open>A repeated name overwrites the earlier value, as storing in a Go map does.\<close>

lemma decodeParamsLoop_EncodeParams:
  "list_all param_wf kvs \<Longrightarrow> decodeParamsLoop (EncodeParams kvs) m = (m ++ map_of (rev kvs), None)"
proof (induction kvs arbitrary: m)
  case Nil
  then show ?case by (simp add: EncodeParams_def decodeParamsLoop.simps)
next
  case (Cons kv kvs)
  obtain k v where kv: "kv = (k, v)" by (cases kv)
  with Cons have "decodeParamsLoop (EncodeParams (kv # kvs)) m
      = (m(k \<mapsto> v) ++ map_of (rev kvs), None)"
    by (simp add: EncodeParams_concat decodeParamsLoop_step)
  then show ?case by (simp add: kv map_add_def fun_eq_iff split: option.splits)
qed

section \<open>Properties\<close>

text \<open>
  C1. Record round trip through any writer. Whenever \<open>WriteRecord\<close> reports success on a writer
  that honours the \<open>io.Writer\<close> contract, what it appended to the stream is a whole number of
  8-byte units and \<open>ReadRecord\<close> reads it back as one record with the same type, request id and
  payload, leaving whatever follows in the stream untouched.
\<close>

theorem WriteRecord_ReadRecord:
  fixes wr :: "('w, 'e) write_fn"
  assumes "io_writer wr content"
    and "WriteRecord wr w t i payload = (w', None)"
  shows "\<exists>wire. content w' = content w @ wire \<and> length wire mod 8 = 0
           \<and> ReadRecord (wire @ rest) = (Inr (mk_record t i payload, rest) :: 'e fcgi_error + _)"
proof -
  from io_writer.WriteRecord_appends [OF assms]
  have "length payload \<le> maxContentLength" and "content w' = content w @ record_bytes t i payload"
    by simp_all
  then show ?thesis
    by (intro exI [of _ "record_bytes t i payload"]) (simp add: record_bytes_aligned codec_simps)
qed

theorem WriteRecord_ReadRecord_witness:
  "\<exists>wire. (fst (WriteRecord (buffer_write :: (bytes, io_error) write_fn) [] TypeStdin 1 [7, 8])
             = [] @ wire) \<and> length wire mod 8 = 0
      \<and> ReadRecord (wire @ [9]) = (Inr (mk_record TypeStdin 1 [7, 8], [9]) :: io_error fcgi_error + _)"
proof -
  let ?wr = "buffer_write :: (bytes, io_error) write_fn"
  have w: "io_writer ?wr (\<lambda>w. w)" by (rule buffer.io_writer_axioms)
  have ok: "WriteRecord ?wr [] TypeStdin 1 [7, 8] = ([] @ record_bytes TypeStdin 1 [7, 8], None)"
    by (rule WriteRecord_buffer) (simp add: maxContentLength_def)
  show ?thesis using WriteRecord_ReadRecord [OF w ok, of "[9]"] by (simp only: ok fst_conv)
qed

text \<open>
  Parameter round trip. Decoding an encoded parameter map succeeds and gives the map back,
  whatever order the map was iterated in, as long as no name or value reaches 2 GiB (the
  31-bit length the format can express).
\<close>

theorem DecodeParams_EncodeParams:
  assumes "distinct (map fst kvs)"
    and "\<forall>(k, v) \<in> set kvs. length k < 2 ^ 31 \<and> length v < 2 ^ 31"
  shows "DecodeParams (EncodeParams kvs) = (map_of kvs, None)"
proof -
  have "list_all param_wf kvs"
    using assms(2) by (auto simp: list_all_iff param_wf_def)
  moreover have "map_of (rev kvs) = map_of kvs"
    using assms(1) by (subst map_of_inject_set) (simp_all add: rev_map [symmetric])
  ultimately show ?thesis
    by (simp add: DecodeParams_def decodeParamsLoop_EncodeParams)
qed

theorem DecodeParams_EncodeParams_witness:
  "DecodeParams (EncodeParams [(''A'', ''1''), (''PATH'', replicate 200 (CHR ''x''))])
     = (map_of [(''A'', ''1''), (''PATH'', replicate 200 (CHR ''x''))], None)"
  by (rule DecodeParams_EncodeParams) simp_all

text \<open>
  Oversized payloads fail loudly: a payload whose length does not fit the 16-bit length
  field is refused with the sizes in the error before anything reaches the writer, so the
  stream never carries a truncated length.
\<close>

theorem WriteRecord_too_long:
  assumes "length payload > 65535"
  shows "WriteRecord wr w t i payload = (w, Some (RecordTooLong (length payload) 65535))"
  using assms by (simp add: WriteRecord_def maxContentLength_def)

theorem WriteRecord_too_long_witness:
  "WriteRecord (buffer_write :: (bytes, io_error) write_fn) [] TypeStdin 1 (replicate 65536 0)
     = ([], Some (RecordTooLong 65536 65535))"
  using WriteRecord_too_long [of "replicate 65536 0" "buffer_write :: (bytes, io_error) write_fn" "[]" TypeStdin 1]
  by simp

end
