(* ===== verification/FastCGI_Client.thy ===== *)
theory FastCGI_Client
  imports FastCGI_Protocol
begin

text \<open>
  The FastCGI client's request and response streams, \<open>pkg/fastcgi/client.go\<close>: the begin record,
  the parameter stream cut into records, the body stream, and the response loop with its size
  cap. The body is written by a second goroutine; the model takes how far that goroutine had got
  when \<open>joinWriter\<close> looked at it as an argument, so a theorem about \<open>Execute\<close> holds for every
  interleaving.
\<close>

section \<open>Sending the request\<close>

datatype ('e, 'b) exec_error =
    WriteBegin "'e fcgi_error"
  | WriteParams "'e fcgi_error"
  | WriteParamsEnd "'e fcgi_error"
  | FlushFailed 'e
  | WriteStdin "'e fcgi_error"
  | ReadStdin 'b
  | WriteStdinEnd "'e fcgi_error"
  | ReadRecordFailed "'e fcgi_error"
  | RequestRejected byte
  | ResponseTooLarge nat nat
  | Stale "('e, 'b) exec_error"

definition requestID :: u16 where "requestID = 1"

text \<open>The loop that cuts the encoded parameters into records of at most \<open>maxContentLength\<close>.\<close>

function writeParams ::
  "('w, 'e) write_fn \<Rightarrow> 'w \<Rightarrow> bytes \<Rightarrow> 'w \<times> ('e, 'b) exec_error option" where
  "writeParams wr w params =
     (if length params > maxContentLength then
        (case WriteRecord wr w TypeParams requestID (take maxContentLength params) of
           (w', Some e) \<Rightarrow> (w', Some (WriteParams e))
         | (w', None) \<Rightarrow> writeParams wr w' (drop maxContentLength params))
      else if length params > 0 then
        (case WriteRecord wr w TypeParams requestID params of
           (w', Some e) \<Rightarrow> (w', Some (WriteParams e))
         | (w', None) \<Rightarrow> (w', None))
      else (w, None))"
  by pat_completeness auto
termination
  by (relation "measure (\<lambda>(wr, w, params). length params)") (auto simp: maxContentLength_def)

declare writeParams.simps [simp del]

definition sendHead ::
  "('w, 'e) write_fn \<Rightarrow> ('w \<Rightarrow> 'w \<times> 'e option) \<Rightarrow> 'w \<Rightarrow> (string \<times> string) list
     \<Rightarrow> 'w \<times> ('e, 'b) exec_error option" where
  "sendHead wr flush w env =
     (case WriteRecord wr w TypeBeginRequest requestID
             (EncodeBeginRequest RoleResponder FlagKeepConn) of
        (w1, Some e) \<Rightarrow> (w1, Some (WriteBegin e))
      | (w1, None) \<Rightarrow>
          (case writeParams wr w1 (EncodeParams env) of
             (w2, Some e) \<Rightarrow> (w2, Some e)
           | (w2, None) \<Rightarrow>
               (case WriteRecord wr w2 TypeParams requestID [] of
                  (w3, Some e) \<Rightarrow> (w3, Some (WriteParamsEnd e))
                | (w3, None) \<Rightarrow>
                    (case flush w3 of
                       (w4, Some e) \<Rightarrow> (w4, Some (FlushFailed e))
                     | (w4, None) \<Rightarrow> (w4, None)))))"

text \<open>
  The request body is the list of results its \<open>Read\<close> calls deliver: the bytes read and, with
  them, an end-of-file or a failure. A body that delivers nothing more is at its end.
\<close>

datatype 'b read_status = ReadMore | ReadEOF | ReadFail 'b

type_synonym 'b body_reads = "(bytes \<times> 'b read_status) list"

fun writeStdinLoop ::
  "('w, 'e) write_fn \<Rightarrow> 'w \<Rightarrow> 'b body_reads \<Rightarrow> 'w \<times> ('e, 'b) exec_error option" where
  "writeStdinLoop wr w [] = (w, None)"
| "writeStdinLoop wr w ((buf, st) # body) =
     (case (if length buf > 0 then WriteRecord wr w TypeStdin requestID buf else (w, None)) of
        (w', Some e) \<Rightarrow> (w', Some (WriteStdin e))
      | (w', None) \<Rightarrow>
          (case st of
             ReadEOF \<Rightarrow> (w', None)
           | ReadFail b \<Rightarrow> (w', Some (ReadStdin b))
           | ReadMore \<Rightarrow> writeStdinLoop wr w' body))"

definition writeStdin ::
  "('w, 'e) write_fn \<Rightarrow> ('w \<Rightarrow> 'w \<times> 'e option) \<Rightarrow> 'w \<Rightarrow> 'b body_reads option
     \<Rightarrow> 'w \<times> ('e, 'b) exec_error option" where
  "writeStdin wr flush w stdin =
     (case (case stdin of None \<Rightarrow> (w, None) | Some body \<Rightarrow> writeStdinLoop wr w body) of
        (w1, Some e) \<Rightarrow> (w1, Some e)
      | (w1, None) \<Rightarrow>
          (case WriteRecord wr w1 TypeStdin requestID [] of
             (w2, Some e) \<Rightarrow> (w2, Some (WriteStdinEnd e))
           | (w2, None) \<Rightarrow>
               (case flush w2 of
                  (w3, Some e) \<Rightarrow> (w3, Some (FlushFailed e))
                | (w3, None) \<Rightarrow> (w3, None))))"

section \<open>Reading the response\<close>

record fcgi_response =
  stdout :: bytes
  stderr :: bytes
  AppStatus :: nat

text \<open>
  What \<open>joinWriter\<close> finds: the body writer already done with a result, or still running; in
  the second case the argument is what a bounded wait for it ends with (\<open>None\<close> when the request
  context ended first).
\<close>

datatype ('e, 'b) writer_state =
    WriterDone "('e, 'b) exec_error option"
  | WriterRunning "('e, 'b) exec_error option"

text \<open>\<open>joinWriter wait\<close>: the writer's error, and whether the connection is now broken.\<close>

fun joinWriter :: "('e, 'b) writer_state \<Rightarrow> bool \<Rightarrow> ('e, 'b) exec_error option \<times> bool" where
  "joinWriter (WriterDone werr) wait = (werr, werr \<noteq> None)"
| "joinWriter (WriterRunning werr) wait = (if wait then (werr, True) else (None, True))"

record ('e, 'b) exec_outcome =
  outResult :: "('e, 'b) exec_error + fcgi_response"
  outBroken :: bool
  outGotRecord :: bool

text \<open>
  One pass of the response loop: \<open>Inl\<close> ends it, \<open>Inr\<close> goes on with the buffered response.
\<close>

definition handleRecord ::
  "nat \<Rightarrow> ('e, 'b) writer_state \<Rightarrow> fcgi_record \<Rightarrow> fcgi_response
     \<Rightarrow> ('e, 'b) exec_outcome + fcgi_response" where
  "handleRecord maxResponseBytes ws rec resp =
     (let content = recContent rec; t = hType (recHeader rec) in
      if t = TypeEndRequest then
        (let resp1 = (if length content \<ge> 4 then resp\<lparr>AppStatus := get_be (take 4 content)\<rparr> else resp) in
         if length content \<ge> 5 \<and> content ! 4 \<noteq> 0
         then Inl \<lparr>outResult = Inl (RequestRejected (content ! 4)), outBroken = True, outGotRecord = True\<rparr>
         else Inl \<lparr>outResult = Inr resp1, outBroken = snd (joinWriter ws False), outGotRecord = True\<rparr>)
      else
        (let resp1 = (if t = TypeStdout then resp\<lparr>stdout := stdout resp @ content\<rparr>
                      else if t = TypeStderr then resp\<lparr>stderr := stderr resp @ content\<rparr>
                      else resp);
             buffered = length (stdout resp1) + length (stderr resp1) in
         if buffered > maxResponseBytes
         then Inl \<lparr>outResult = Inl (ResponseTooLarge buffered maxResponseBytes), outBroken = True,
                   outGotRecord = True\<rparr>
         else Inr resp1))"

function readLoop ::
  "nat \<Rightarrow> ('e, 'b) writer_state \<Rightarrow> bytes \<Rightarrow> fcgi_response \<Rightarrow> bool \<Rightarrow> ('e, 'b) exec_outcome" where
  "readLoop maxResponseBytes ws r resp gotRecord =
     (case ReadRecord r of
        Inl err \<Rightarrow>
          (case joinWriter ws True of
             (Some werr, _) \<Rightarrow> \<lparr>outResult = Inl werr, outBroken = True, outGotRecord = gotRecord\<rparr>
           | (None, _) \<Rightarrow>
               \<lparr>outResult = Inl (ReadRecordFailed err), outBroken = True, outGotRecord = gotRecord\<rparr>)
      | Inr (rec, r') \<Rightarrow>
          (case handleRecord maxResponseBytes ws rec resp of
             Inl out \<Rightarrow> out
           | Inr resp' \<Rightarrow> readLoop maxResponseBytes ws r' resp' True))"
  by pat_completeness auto
termination
  by (relation "measure (\<lambda>(m, ws, r, resp, g). length r)") (auto dest: ReadRecord_consumes)

declare readLoop.simps [simp del]

definition empty_response :: fcgi_response where
  "empty_response = \<lparr>stdout = [], stderr = [], AppStatus = 0\<rparr>"

text \<open>
  \<open>Execute\<close> on a connection the pool handed out. \<open>interrupted\<close> says that the context's cancel
  function fired, \<open>ctxErr\<close> that the context has an error at the end; the last two results are
  what the deferred functions do with the connection.
\<close>

datatype conn_fate = Discarded | ReturnedToPool

definition Execute ::
  "('w, 'e) write_fn \<Rightarrow> ('w \<Rightarrow> 'w \<times> 'e option) \<Rightarrow> nat \<Rightarrow> bool \<Rightarrow> bool \<Rightarrow> bool
     \<Rightarrow> ('e, 'b) writer_state \<Rightarrow> 'w \<Rightarrow> (string \<times> string) list \<Rightarrow> bytes
     \<Rightarrow> (('e, 'b) exec_error + fcgi_response) \<times> conn_fate" where
  "Execute wr flush maxResponseBytes reused interrupted ctxErr ws w env peer =
     (let out = (case sendHead wr flush w env of
                   (w', Some e) \<Rightarrow> \<lparr>outResult = Inl e, outBroken = True, outGotRecord = False\<rparr>
                 | (w', None) \<Rightarrow> readLoop maxResponseBytes ws peer empty_response False);
          broken = (outBroken out \<or> interrupted);
          result = (case outResult out of
                      Inl e \<Rightarrow> Inl (if reused \<and> \<not> outGotRecord out \<and> \<not> ctxErr then Stale e else e)
                    | Inr resp \<Rightarrow> Inr resp)
      in (result, if broken then Discarded else ReturnedToPool))"

section \<open>What the peer receives\<close>

text \<open>
  The receiving side of the protocol, as the specification of the parameter stream: records of
  type \<open>TypeParams\<close> are concatenated up to the empty one.
\<close>

function peerParams :: "bytes \<Rightarrow> bytes \<Rightarrow> (bytes \<times> bytes) option" where
  "peerParams r acc =
     (case (ReadRecord r :: unit fcgi_error + _) of
        Inl _ \<Rightarrow> None
      | Inr (rec, r') \<Rightarrow>
          (if hType (recHeader rec) \<noteq> TypeParams then None
           else if recContent rec = [] then Some (acc, r')
           else peerParams r' (acc @ recContent rec)))"
  by pat_completeness auto
termination
  by (relation "measure (\<lambda>(r, acc). length r)") (auto dest: ReadRecord_consumes)

declare peerParams.simps [simp del]

abbreviation wire :: "byte \<Rightarrow> bytes list \<Rightarrow> bytes" where
  "wire t chunks \<equiv> concat (map (record_bytes t requestID) chunks)"

definition chunks_wf :: "bytes list \<Rightarrow> bool" where
  "chunks_wf chunks \<longleftrightarrow> (\<forall>c \<in> set chunks. c \<noteq> [] \<and> length c \<le> maxContentLength)"

lemma chunks_wf_simps [simp]:
  "chunks_wf []"
  "chunks_wf (c # cs) \<longleftrightarrow> c \<noteq> [] \<and> length c \<le> maxContentLength \<and> chunks_wf cs"
  by (auto simp: chunks_wf_def)

lemma mk_record_fields [simp]:
  "hType (recHeader (mk_record t i c)) = t" "recContent (mk_record t i c) = c"
  by (simp_all add: mk_record_def record_header_def)

lemma peerParams_wire:
  "chunks_wf chunks \<Longrightarrow>
     peerParams (wire TypeParams chunks @ record_bytes TypeParams requestID [] @ rest) acc
       = Some (acc @ concat chunks, rest)"
proof (induction chunks arbitrary: acc)
  case Nil
  then show ?case by (subst peerParams.simps) (simp add: codec_simps)
next
  case (Cons c cs)
  then show ?case by (subst peerParams.simps) (simp add: codec_simps)
qed

text \<open>The bytes a body delivers before it ends, and how it ends.\<close>

fun body_bytes :: "'b body_reads \<Rightarrow> bytes" where
  "body_bytes [] = []"
| "body_bytes ((buf, st) # body) = buf @ (if st = ReadMore then body_bytes body else [])"

fun body_error :: "'b body_reads \<Rightarrow> ('e, 'b) exec_error option" where
  "body_error [] = None"
| "body_error ((buf, st) # body) =
     (case st of ReadMore \<Rightarrow> body_error body | ReadEOF \<Rightarrow> None | ReadFail b \<Rightarrow> Some (ReadStdin b))"

locale flushing_writer = io_writer wr content
  for wr :: "('w, 'e) write_fn" and content :: "'w \<Rightarrow> bytes" +
  fixes flush :: "'w \<Rightarrow> 'w \<times> 'e option"
  assumes flush_content: "flush w = (w', None) \<Longrightarrow> content w' = content w"
begin

lemma writeParams_appends:
  "writeParams wr w params = (w', None :: ('e, 'b) exec_error option) \<Longrightarrow>
     \<exists>chunks. content w' = content w @ wire TypeParams chunks
       \<and> concat chunks = params \<and> chunks_wf chunks"
proof (induction params arbitrary: w rule: length_induct)
  case (1 params)
  consider (long) "length params > maxContentLength"
    | (short) "\<not> length params > maxContentLength" "params \<noteq> []"
    | (empty) "params = []"
    by blast
  then show ?case
  proof cases
    case long
    with 1(2) obtain w1 where
        w1: "WriteRecord wr w TypeParams requestID (take maxContentLength params) = (w1, None)"
      and rest: "writeParams wr w1 (drop maxContentLength params) = (w', None :: ('e, 'b) exec_error option)"
      by (subst (asm) writeParams.simps) (auto split: prod.splits option.splits)
    from long have "length (drop maxContentLength params) < length params"
      by (simp add: maxContentLength_def)
    with 1(1) rest obtain chunks where
        c: "content w' = content w1 @ wire TypeParams chunks"
           "concat chunks = drop maxContentLength params" "chunks_wf chunks"
      by blast
    with WriteRecord_appends [OF w1] long show ?thesis
      by (intro exI [of _ "take maxContentLength params # chunks"])
         (auto simp: maxContentLength_def)
  next
    case short
    with 1(2) have "WriteRecord wr w TypeParams requestID params = (w', None)"
      by (subst (asm) writeParams.simps) (auto split: prod.splits option.splits)
    from WriteRecord_appends [OF this] short show ?thesis
      by (intro exI [of _ "[params]"]) simp
  next
    case empty
    with 1(2) show ?thesis
      by (subst (asm) writeParams.simps) (auto intro: exI [of _ "[]"])
  qed
qed

lemma sendHead_appends:
  assumes "sendHead wr flush w env = (w', None :: ('e, 'b) exec_error option)"
  shows "\<exists>chunks. content w' = content w
            @ record_bytes TypeBeginRequest requestID (EncodeBeginRequest RoleResponder FlagKeepConn)
            @ wire TypeParams chunks @ record_bytes TypeParams requestID []
       \<and> concat chunks = EncodeParams env \<and> chunks_wf chunks"
proof -
  from assms obtain w1 w2 w3 where
      a: "WriteRecord wr w TypeBeginRequest requestID
            (EncodeBeginRequest RoleResponder FlagKeepConn) = (w1, None)"
    and b: "writeParams wr w1 (EncodeParams env) = (w2, None :: ('e, 'b) exec_error option)"
    and c: "WriteRecord wr w2 TypeParams requestID [] = (w3, None)"
    and d: "flush w3 = (w', None)"
    by (auto simp: sendHead_def split: prod.splits option.splits)
  from writeParams_appends [OF b] obtain chunks where
      "content w2 = content w1 @ wire TypeParams chunks" "concat chunks = EncodeParams env"
      "chunks_wf chunks"
    by blast
  with WriteRecord_appends [OF a] WriteRecord_appends [OF c] flush_content [OF d] show ?thesis
    by (intro exI [of _ chunks]) simp
qed

lemma writeStdinLoop_appends:
  "writeStdinLoop wr w body = (w', r) \<Longrightarrow> r = None \<or> (\<exists>b. r = Some (ReadStdin b)) \<Longrightarrow>
     \<exists>chunks. content w' = content w @ wire TypeStdin chunks \<and> chunks_wf chunks
       \<and> concat chunks = body_bytes body \<and> r = body_error body"
proof (induction body arbitrary: w)
  case Nil
  then show ?case by (auto intro: exI [of _ "[]"])
next
  case (Cons x body)
  obtain buf st where x: "x = (buf, st)" by (cases x)
  let ?c = "if buf = [] then [] else [buf]"
  let ?step = "if length buf > 0 then WriteRecord wr w TypeStdin requestID buf else (w, None)"
  from Cons.prems x obtain w1 where step: "?step = (w1, None)"
    by (auto split: prod.splits option.splits if_splits)
  then have w1: "content w1 = content w @ wire TypeStdin ?c" and wf1: "chunks_wf ?c"
    by (auto split: if_splits dest: WriteRecord_appends)
  show ?case
  proof (cases st)
    case ReadMore
    with Cons.prems x step have "writeStdinLoop wr w1 body = (w', r)" by simp
    with Cons.IH Cons.prems(2) obtain chunks where
        "content w' = content w1 @ wire TypeStdin chunks" "chunks_wf chunks"
        "concat chunks = body_bytes body" "r = body_error body"
      by blast
    with w1 wf1 ReadMore x show ?thesis
      by (intro exI [of _ "?c @ chunks"]) (auto split: if_splits)
  next
    case ReadEOF
    with Cons.prems x step w1 wf1 show ?thesis
      by (intro exI [of _ ?c]) auto
  next
    case (ReadFail b)
    with Cons.prems x step w1 wf1 show ?thesis
      by (intro exI [of _ ?c]) auto
  qed
qed

lemma writeStdin_appends:
  assumes "writeStdin wr flush w (Some body) = (w', r)" and "r = None \<or> (\<exists>b. r = Some (ReadStdin b))"
  shows "\<exists>chunks. content w' = content w @ wire TypeStdin chunks
             @ (if r = None then record_bytes TypeStdin requestID [] else [])
           \<and> chunks_wf chunks \<and> concat chunks = body_bytes body \<and> r = body_error body"
proof -
  obtain w1 r1 where l: "writeStdinLoop wr w body = (w1, r1)" by (cases "writeStdinLoop wr w body")
  with assms have ok: "r1 = None \<or> (\<exists>b. r1 = Some (ReadStdin b))"
    by (auto simp: writeStdin_def split: option.splits prod.splits)
  from writeStdinLoop_appends [OF l ok] obtain chunks where
      c: "content w1 = content w @ wire TypeStdin chunks" "chunks_wf chunks"
         "concat chunks = body_bytes body" "r1 = body_error body"
    by blast
  show ?thesis
  proof (cases r1)
    case None
    with assms l obtain w2 where "WriteRecord wr w1 TypeStdin requestID [] = (w2, None)"
        and "flush w2 = (w', None)" and "r = None"
      by (auto simp: writeStdin_def split: option.splits prod.splits)
    with c None WriteRecord_appends [of w1 TypeStdin requestID "[]" w2] flush_content show ?thesis
      by (intro exI [of _ chunks]) simp
  next
    case (Some e)
    with assms(1) l have "w' = w1 \<and> r = r1" by (simp add: writeStdin_def)
    with c Some show ?thesis by (intro exI [of _ chunks]) (auto split: if_splits)
  qed
qed

end

interpretation buffered: flushing_writer "buffer_write :: (bytes, 'e) write_fn" "\<lambda>w. w"
  "\<lambda>w. (w, None)"
  by unfold_locales simp

section \<open>The response loop\<close>

definition resp_size :: "fcgi_response \<Rightarrow> nat" where
  "resp_size resp = length (stdout resp) + length (stderr resp)"

lemma handleRecord_Inr:
  assumes "handleRecord m ws rec resp = Inr resp'"
  shows "hType (recHeader rec) \<noteq> TypeEndRequest" and "resp_size resp' \<le> m"
  using assms by (auto simp: handleRecord_def resp_size_def Let_def split: if_splits)

lemma handleRecord_Inl:
  assumes "handleRecord m ws rec resp = Inl out"
  shows "outGotRecord out"
    and "(\<exists>e. outResult out = Inl e) \<Longrightarrow> outBroken out"
    and "\<not> outBroken out \<Longrightarrow> ws = WriterDone None"
    and "outResult out = Inr resp' \<Longrightarrow> resp_size resp' = resp_size resp"
  using assms by (cases ws; auto simp: handleRecord_def resp_size_def Let_def split: if_splits)+

lemma readLoop_bounded:
  "resp_size resp \<le> m \<Longrightarrow> outResult (readLoop m ws r resp g) = Inr resp' \<Longrightarrow> resp_size resp' \<le> m"
proof (induction m ws r resp g rule: readLoop.induct)
  case (1 m ws r resp g)
  show ?case
  proof (cases "ReadRecord r :: 'a fcgi_error + _")
    case (Inl err)
    with 1(3) show ?thesis
      by (subst (asm) readLoop.simps) (auto split: prod.splits option.splits)
  next
    case (Inr p)
    then obtain rec r' where rd: "ReadRecord r = (Inr (rec, r') :: 'a fcgi_error + _)"
      by (cases p) simp
    show ?thesis
    proof (cases "handleRecord m ws rec resp")
      case (Inl out)
      with 1(2,3) rd show ?thesis
        by (subst (asm) readLoop.simps) (simp add: handleRecord_Inl(4))
    next
      case (Inr resp1)
      with 1(3) rd have "outResult (readLoop m ws r' resp1 True) = Inr resp'"
        by (subst (asm) readLoop.simps) simp
      with 1(1) [OF rd refl Inr] handleRecord_Inr(2) [OF Inr] show ?thesis by simp
    qed
  qed
qed

text \<open>Errors break the connection; an unbroken connection has a finished writer.\<close>

lemma readLoop_broken:
  "outBroken (readLoop m ws r resp g) \<or>
     (ws = WriterDone None \<and> (\<exists>resp'. outResult (readLoop m ws r resp g) = Inr resp'))"
proof (induction m ws r resp g rule: readLoop.induct)
  case (1 m ws r resp g)
  show ?case
  proof (cases "ReadRecord r :: 'a fcgi_error + _")
    case (Inl err)
    then show ?thesis
      by (subst (1 2) readLoop.simps) (auto split: prod.splits option.splits)
  next
    case (Inr p)
    then obtain rec r' where rd: "ReadRecord r = (Inr (rec, r') :: 'a fcgi_error + _)"
      by (cases p) simp
    show ?thesis
    proof (cases "handleRecord m ws rec resp")
      case (Inl out)
      with rd handleRecord_Inl(2,3) [OF Inl] show ?thesis
        by (subst (1 2) readLoop.simps) (cases "outResult out"; auto)
    next
      case (Inr resp1)
      with rd have "readLoop m ws r resp g = readLoop m ws r' resp1 True"
        by (subst readLoop.simps) simp
      with 1 [OF rd refl Inr] show ?thesis by simp
    qed
  qed
qed

text \<open>The output of one kind in a sequence of records.\<close>

definition collected :: "byte \<Rightarrow> (byte \<times> bytes) list \<Rightarrow> bytes" where
  "collected t rs = concat (map snd (filter (\<lambda>(t', c). t' = t) rs))"

definition stream :: "(byte \<times> bytes) list \<Rightarrow> bytes" where
  "stream rs = concat (map (\<lambda>(t, c). record_bytes t requestID c) rs)"

definition records_wf :: "(byte \<times> bytes) list \<Rightarrow> bool" where
  "records_wf rs \<longleftrightarrow> (\<forall>(t, c) \<in> set rs. t \<noteq> TypeEndRequest \<and> length c \<le> maxContentLength)"

lemma handleRecord_collected:
  assumes "t \<noteq> TypeEndRequest"
    and "resp_size resp + length (collected TypeStdout [(t, c)]) + length (collected TypeStderr [(t, c)]) \<le> m"
  shows "handleRecord m ws (mk_record t requestID c) resp
       = Inr (resp\<lparr>stdout := stdout resp @ collected TypeStdout [(t, c)],
                   stderr := stderr resp @ collected TypeStderr [(t, c)]\<rparr>)"
  using assms by (auto simp: handleRecord_def collected_def resp_size_def TypeStdout_def TypeStderr_def)

lemma collected_Cons: "collected t (x # rs) = collected t [x] @ collected t rs"
  by (simp add: collected_def)

lemma readLoop_stream:
  assumes "records_wf rs"
    and "resp_size resp + length (collected TypeStdout rs) + length (collected TypeStderr rs) \<le> m"
    and "rs \<noteq> [] \<or> g"
  shows "readLoop m ws (stream rs @ r) resp g
       = readLoop m ws r (resp\<lparr>stdout := stdout resp @ collected TypeStdout rs,
                               stderr := stderr resp @ collected TypeStderr rs\<rparr>) True"
  using assms
proof (induction rs arbitrary: resp g)
  case Nil
  then show ?case by (simp add: stream_def collected_def)
next
  case (Cons x rs)
  obtain t c where x: "x = (t, c)" by (cases x)
  let ?resp = "resp\<lparr>stdout := stdout resp @ collected TypeStdout [x],
                    stderr := stderr resp @ collected TypeStderr [x]\<rparr>"
  from Cons.prems x have t: "t \<noteq> TypeEndRequest" and c: "length c \<le> maxContentLength"
    and wf: "records_wf rs"
    by (auto simp: records_wf_def)
  have size: "resp_size resp + length (collected TypeStdout [x]) + length (collected TypeStderr [x]) \<le> m"
    and size': "resp_size ?resp + length (collected TypeStdout rs) + length (collected TypeStderr rs) \<le> m"
    using Cons.prems(2) by (simp_all add: collected_Cons [of _ x rs] resp_size_def)
  have "readLoop m ws (stream (x # rs) @ r) resp g = readLoop m ws (stream rs @ r) ?resp True"
    using size by (subst readLoop.simps)
      (simp add: stream_def x codec_simps c handleRecord_collected [OF t])
  with Cons.IH [OF wf size'] show ?case by (simp add: collected_Cons [of _ x rs])
qed

lemma readLoop_end:
  assumes "length c \<le> maxContentLength" and "5 \<le> length c" and "c ! 4 = 0"
  shows "readLoop m ws (record_bytes TypeEndRequest requestID c @ r) resp g
       = \<lparr>outResult = Inr (resp\<lparr>AppStatus := get_be (take 4 c)\<rparr>),
          outBroken = snd (joinWriter ws False), outGotRecord = True\<rparr>"
  using assms by (subst readLoop.simps) (simp add: codec_simps handleRecord_def Let_def)

section \<open>Properties\<close>

text \<open>
  The peer reassembles the environment. If sending the request head succeeds on a buffered
  writer that honours its contract, then behind the begin record the peer reads parameter
  records whose concatenation, up to the terminating empty record, decodes without error to
  exactly the environment map; cutting the stream at record boundaries loses nothing, however
  large the environment is.
\<close>

theorem sendHead_peer_receives_env:
  fixes wr :: "('w, 'e) write_fn"
  assumes "flushing_writer wr content flush"
    and "sendHead wr flush w env = (w', None :: ('e, 'b) exec_error option)"
    and "distinct (map fst env)"
    and "\<forall>(k, v) \<in> set env. length k < 2 ^ 31 \<and> length v < 2 ^ 31"
  shows "\<exists>sent params. content w' = content w
             @ record_bytes TypeBeginRequest requestID (EncodeBeginRequest RoleResponder FlagKeepConn) @ sent
           \<and> peerParams (sent @ rest) [] = Some (params, rest)
           \<and> DecodeParams params = (map_of env, None)"
proof -
  from flushing_writer.sendHead_appends [OF assms(1,2)] obtain chunks where
      c: "content w' = content w
            @ record_bytes TypeBeginRequest requestID (EncodeBeginRequest RoleResponder FlagKeepConn)
            @ wire TypeParams chunks @ record_bytes TypeParams requestID []"
    and p: "concat chunks = EncodeParams env" and wf: "chunks_wf chunks"
    by blast
  have "list_all param_wf env" using assms(4) by (auto simp: list_all_iff param_wf_def)
  moreover have "map_of (rev env) = map_of env"
    using assms(3) by (subst map_of_inject_set) (simp_all add: rev_map [symmetric])
  ultimately have "DecodeParams (concat chunks) = (map_of env, None)"
    by (simp add: p DecodeParams_def decodeParamsLoop_EncodeParams)
  with c peerParams_wire [OF wf, of rest "[]"] show ?thesis
    by (intro exI [of _ "wire TypeParams chunks @ record_bytes TypeParams requestID []"]
              exI [of _ "concat chunks"]) simp
qed

lemma buffered_sendHead_example:
  "sendHead (buffer_write :: (bytes, unit) write_fn) (\<lambda>w. (w, None)) [] [(''A'', ''b'')]
     = (fst (sendHead (buffer_write :: (bytes, unit) write_fn) (\<lambda>w. (w, None)) [] [(''A'', ''b'')]
               :: _ \<times> (unit, unit) exec_error option),
        None :: (unit, unit) exec_error option)"
proof -
  have l: "length (EncodeParams [(''A'', ''b'')]) = 4"
    by (simp add: EncodeParams_def encodeLength_def)
  have "EncodeParams [(''A'', ''b'')] \<noteq> []" using l by auto
  with l have p: "writeParams (buffer_write :: (bytes, unit) write_fn) w (EncodeParams [(''A'', ''b'')])
      = (w @ record_bytes TypeParams requestID (EncodeParams [(''A'', ''b'')]),
         None :: (unit, unit) exec_error option)" for w
    by (subst writeParams.simps) (simp add: WriteRecord_buffer maxContentLength_def)
  show ?thesis
    by (simp add: sendHead_def p WriteRecord_buffer EncodeBeginRequest_def maxContentLength_def)
qed

theorem sendHead_peer_receives_env_witness:
  "\<exists>sent params. fst (sendHead (buffer_write :: (bytes, unit) write_fn) (\<lambda>w. (w, None)) []
                        [(''A'', ''b'')] :: _ \<times> (unit, unit) exec_error option)
      = [] @ record_bytes TypeBeginRequest requestID (EncodeBeginRequest RoleResponder FlagKeepConn) @ sent
     \<and> peerParams (sent @ [1]) [] = Some (params, [1])
     \<and> DecodeParams params = (map_of [(''A'', ''b'')], None)"
  by (rule sendHead_peer_receives_env
        [OF buffered.flushing_writer_axioms buffered_sendHead_example]) simp_all

text \<open>
  C2. The body is terminated only when it is complete. On a writer that honours its contract,
  a successful \<open>writeStdin\<close> has sent the whole body followed by the empty end-of-input record;
  when reading the body failed, the records sent carry what was read but no empty record, so the
  application is never told that a broken-off body is complete.
\<close>

theorem writeStdin_terminates_complete_bodies_only:
  fixes wr :: "('w, 'e) write_fn"
  assumes "flushing_writer wr content flush"
    and "writeStdin wr flush w (Some body) = (w', r)"
    and "r = None \<or> (\<exists>b. r = Some (ReadStdin b))"
  shows "\<exists>chunks. content w' = content w @ wire TypeStdin chunks
              @ (if r = None then record_bytes TypeStdin requestID [] else [])
           \<and> (\<forall>c \<in> set chunks. c \<noteq> [] \<and> length c \<le> 65535) \<and> concat chunks = body_bytes body
           \<and> r = (body_error body :: ('e, 'b) exec_error option)"
  using flushing_writer.writeStdin_appends [OF assms]
  by (simp add: chunks_wf_def maxContentLength_def)

theorem writeStdin_terminates_complete_bodies_only_witness:
  "\<exists>chunks. fst (writeStdin (buffer_write :: (bytes, unit) write_fn) (\<lambda>w. (w, None)) []
                   (Some [([1, 2], ReadMore), ([3], ReadFail ())]))
      = [] @ wire TypeStdin chunks @ (if Some (ReadStdin ()) = (None :: (unit, unit) exec_error option)
                                      then record_bytes TypeStdin requestID [] else [])
     \<and> (\<forall>c \<in> set chunks. c \<noteq> [] \<and> length c \<le> 65535)
     \<and> concat chunks = body_bytes [([1, 2], ReadMore), ([3], ReadFail ())]
     \<and> Some (ReadStdin ()) = (body_error [([1, 2], ReadMore), ([3], ReadFail ())] :: (unit, unit) exec_error option)"
proof (rule writeStdin_terminates_complete_bodies_only [OF buffered.flushing_writer_axioms])
  show "writeStdin (buffer_write :: (bytes, unit) write_fn) (\<lambda>w. (w, None)) []
          (Some [([1, 2], ReadMore), ([3], ReadFail ())])
        = (fst (writeStdin (buffer_write :: (bytes, unit) write_fn) (\<lambda>w. (w, None)) []
             (Some [([1, 2], ReadMore), ([3], ReadFail ())])), Some (ReadStdin ()))"
    by (simp add: writeStdin_def WriteRecord_buffer maxContentLength_def)
qed simp

text \<open>
  Response reassembly. A response sent as any sequence of output records (records of other
  types included), closed by an end-request record with protocol status 0 and followed by
  anything, is returned whole: standard output and standard error are the concatenations of
  their records in order, the application status is the record's, as long as the output stays
  within the configured cap.
\<close>

theorem readLoop_reassembles:
  assumes "\<forall>(t, c) \<in> set rs. t \<noteq> TypeEndRequest \<and> length c \<le> 65535"
    and "length (collected TypeStdout rs) + length (collected TypeStderr rs) \<le> maxResponseBytes"
    and "length status = 8" and "status ! 4 = 0"
  shows "outResult (readLoop maxResponseBytes ws
             (stream rs @ record_bytes TypeEndRequest requestID status @ rest) empty_response False)
       = Inr \<lparr>stdout = collected TypeStdout rs, stderr = collected TypeStderr rs,
              AppStatus = get_be (take 4 status)\<rparr>"
proof -
  have wf: "records_wf rs" using assms(1) by (auto simp: records_wf_def maxContentLength_def)
  have size: "resp_size empty_response + length (collected TypeStdout rs)
                + length (collected TypeStderr rs) \<le> maxResponseBytes"
    using assms(2) by (simp add: resp_size_def empty_response_def)
  have last: "length status \<le> maxContentLength" "5 \<le> length status"
    using assms(3) by (simp_all add: maxContentLength_def)
  show ?thesis
  proof (cases "rs = []")
    case True
    then show ?thesis
      by (simp add: stream_def readLoop_end last assms(4) empty_response_def collected_def)
  next
    case False
    then have ne: "rs \<noteq> [] \<or> False" by simp
    show ?thesis
      by (simp only: readLoop_stream [OF wf size ne] readLoop_end [OF last assms(4)])
         (simp add: empty_response_def)
  qed
qed

theorem readLoop_reassembles_witness:
  "outResult (readLoop 100 (WriterDone (None :: (unit, unit) exec_error option))
      (stream [(TypeStdout, [72, 105]), (TypeStderr, [33]), (TypeStdout, [10])]
         @ record_bytes TypeEndRequest requestID [0, 0, 0, 7, 0, 0, 0, 0] @ [1, 2])
      empty_response False)
   = Inr \<lparr>stdout = collected TypeStdout [(TypeStdout, [72, 105]), (TypeStderr, [33]), (TypeStdout, [10])],
          stderr = collected TypeStderr [(TypeStdout, [72, 105]), (TypeStderr, [33]), (TypeStdout, [10])],
          AppStatus = get_be (take 4 [0, 0, 0, 7, 0, 0, 0, 0])\<rparr>"
  by (rule readLoop_reassembles)
     (simp_all add: collected_def TypeStdout_def TypeStderr_def TypeEndRequest_def)

text \<open>
  Bounded buffering. Whatever the peer sends and however it cuts it into records, a response
  handed to the caller never exceeds the pool's \<open>maxResponseBytes\<close>; the loop is total, so a
  peer that keeps streaming ends in an error and not in an unbounded buffer.
\<close>

theorem readLoop_response_capped:
  "outResult (readLoop maxResponseBytes ws peer empty_response False) = Inr resp \<Longrightarrow>
     length (stdout resp) + length (stderr resp) \<le> maxResponseBytes"
  using readLoop_bounded [of empty_response maxResponseBytes ws peer False resp]
  by (simp add: resp_size_def empty_response_def)

lemma readLoop_capped_example:
  "outResult (readLoop 100 (WriterDone (None :: (unit, unit) exec_error option))
      (record_bytes TypeStdout requestID [72, 105]
         @ record_bytes TypeEndRequest requestID [0, 0, 0, 7, 0, 0, 0, 0])
      empty_response False) = Inr \<lparr>stdout = [72, 105], stderr = [], AppStatus = 7\<rparr>"
proof -
  have t: "TypeStdout \<noteq> TypeEndRequest" "TypeStdout \<noteq> TypeStderr"
    by (simp_all add: TypeStdout_def TypeEndRequest_def TypeStderr_def)
  have "readLoop 100 (WriterDone (None :: (unit, unit) exec_error option))
      (record_bytes TypeStdout requestID [72, 105] @ r) empty_response False
    = readLoop 100 (WriterDone None) r \<lparr>stdout = [72, 105], stderr = [], AppStatus = 0\<rparr> True" for r
    by (subst readLoop.simps)
       (simp add: codec_simps maxContentLength_def handleRecord_def t empty_response_def)
  then show ?thesis
    by (simp add: readLoop_end [where r = "[]", simplified] maxContentLength_def get_be_def)
qed

theorem readLoop_response_capped_witness:
  "length (stdout \<lparr>stdout = [72, 105], stderr = [], AppStatus = 7\<rparr>)
     + length (stderr \<lparr>stdout = [72, 105], stderr = [], AppStatus = 7\<rparr>) \<le> 100"
  by (rule readLoop_response_capped [OF readLoop_capped_example])

text \<open>
  C3. Only clean connections are reused. If \<open>Execute\<close> puts its connection back into the pool,
  the request body had been written completely and without error, the context did not interrupt
  the exchange, and the caller got a complete response; in particular every error discards the
  connection.
\<close>

theorem Execute_returns_clean_connections:
  assumes "Execute wr flush m reused interrupted ctxErr ws w env peer = (result, ReturnedToPool)"
  shows "ws = WriterDone None \<and> \<not> interrupted \<and> (\<exists>resp. result = Inr resp)"
  using assms readLoop_broken [of m ws peer empty_response False]
  by (auto simp: Execute_def Let_def split: prod.splits option.splits if_splits)

theorem Execute_returns_clean_connections_witness:
  "WriterDone None = WriterDone (None :: (unit, unit) exec_error option) \<and> \<not> False
     \<and> (\<exists>resp. fst (Execute (buffer_write :: (bytes, unit) write_fn) (\<lambda>w. (w, None)) 100 True False False
          (WriterDone (None :: (unit, unit) exec_error option)) [] [(''A'', ''b'')]
          (record_bytes TypeEndRequest requestID [0, 0, 0, 7, 0, 0, 0, 0])) = Inr resp)"
proof (rule Execute_returns_clean_connections
         [of buffer_write "\<lambda>w. (w, None)" 100 True False False _ "[]" "[(''A'', ''b'')]"
             "record_bytes TypeEndRequest requestID [0, 0, 0, 7, 0, 0, 0, 0]"])
  show "Execute (buffer_write :: (bytes, unit) write_fn) (\<lambda>w. (w, None)) 100 True False False
          (WriterDone (None :: (unit, unit) exec_error option)) [] [(''A'', ''b'')]
          (record_bytes TypeEndRequest requestID [0, 0, 0, 7, 0, 0, 0, 0])
      = (fst (Execute (buffer_write :: (bytes, unit) write_fn) (\<lambda>w. (w, None)) 100 True False False
          (WriterDone (None :: (unit, unit) exec_error option)) [] [(''A'', ''b'')]
          (record_bytes TypeEndRequest requestID [0, 0, 0, 7, 0, 0, 0, 0])), ReturnedToPool)"
    unfolding Execute_def
    by (subst (1 2) buffered_sendHead_example)
       (simp add: readLoop_end [where r = "[]", simplified] maxContentLength_def)
qed

end
