(* ===== verification/Go_Strings.thy ===== *)
theory Go_Strings
  imports Go_Prelude "HOL-Library.Sublist"
begin

text \<open>
  The parts of Go's packages \<open>strings\<close>, \<open>strconv\<close> and \<open>net/textproto\<close> that the modelled
  components call. A Go string is a sequence of bytes, as is a HOL string. Case mapping is exact
  for ASCII text; where the source maps the case of arbitrary text (\<open>strings.ToLower\<close>,
  \<open>strings.ToUpper\<close>), the Unicode tables for text outside ASCII are a parameter \<open>uni\<close>.
\<close>

section \<open>Searching and trimming\<close>

definition HasPrefix :: "string \<Rightarrow> string \<Rightarrow> bool" where
  "HasPrefix s p \<longleftrightarrow> prefix p s"

definition HasSuffix :: "string \<Rightarrow> string \<Rightarrow> bool" where
  "HasSuffix s p \<longleftrightarrow> suffix p s"

definition TrimPrefix :: "string \<Rightarrow> string \<Rightarrow> string" where
  "TrimPrefix s p = (if HasPrefix s p then drop (length p) s else s)"

definition TrimSuffix :: "string \<Rightarrow> string \<Rightarrow> string" where
  "TrimSuffix s p = (if HasSuffix s p then take (length s - length p) s else s)"

text \<open>\<open>IndexByte\<close> and \<open>LastIndexByte\<close> give a position, or \<open>None\<close> where Go returns -1.\<close>

fun IndexByte :: "string \<Rightarrow> char \<Rightarrow> nat option" where
  "IndexByte [] c = None"
| "IndexByte (x # xs) c = (if x = c then Some 0 else map_option Suc (IndexByte xs c))"

definition LastIndexByte :: "string \<Rightarrow> char \<Rightarrow> nat option" where
  "LastIndexByte s c = map_option (\<lambda>i. length s - 1 - i) (IndexByte (rev s) c)"

definition ContainsByte :: "string \<Rightarrow> char \<Rightarrow> bool" where
  "ContainsByte s c \<longleftrightarrow> c \<in> set s"

fun Contains :: "string \<Rightarrow> string \<Rightarrow> bool" where
  "Contains [] p = (p = [])"
| "Contains (x # xs) p = (prefix p (x # xs) \<or> Contains xs p)"

text \<open>\<open>strings.Split\<close> with a one-byte separator.\<close>

fun SplitByte :: "string \<Rightarrow> char \<Rightarrow> string list" where
  "SplitByte [] c = [[]]"
| "SplitByte (x # xs) c =
     (if x = c then [] # SplitByte xs c
      else (case SplitByte xs c of [] \<Rightarrow> [[x]] | p # ps \<Rightarrow> (x # p) # ps))"

fun Join :: "string list \<Rightarrow> string \<Rightarrow> string" where
  "Join [] sep = []"
| "Join [s] sep = s"
| "Join (s # ss) sep = s @ sep @ Join ss sep"

definition TrimLeftSet :: "string \<Rightarrow> char set \<Rightarrow> string" where
  "TrimLeftSet s cs = dropWhile (\<lambda>c. c \<in> cs) s"

definition TrimRightSet :: "string \<Rightarrow> char set \<Rightarrow> string" where
  "TrimRightSet s cs = rev (dropWhile (\<lambda>c. c \<in> cs) (rev s))"

definition TrimSet :: "string \<Rightarrow> char set \<Rightarrow> string" where
  "TrimSet s cs = TrimRightSet (TrimLeftSet s cs) cs"

text \<open>
  \<open>strings.TrimSpace\<close> removes Unicode white space: the six ASCII blanks and the UTF-8 encodings
  of the code points \<open>unicode.IsSpace\<close> accepts beyond ASCII.
\<close>

definition space_encodings :: "string list" where
  "space_encodings =
     [[CHR 0x09], [CHR 0x0A], [CHR 0x0B], [CHR 0x0C], [CHR 0x0D], [CHR 0x20],
      [CHR 0xC2, CHR 0x85], [CHR 0xC2, CHR 0xA0], [CHR 0xE1, CHR 0x9A, CHR 0x80],
      [CHR 0xE2, CHR 0x80, CHR 0x80], [CHR 0xE2, CHR 0x80, CHR 0x81], [CHR 0xE2, CHR 0x80, CHR 0x82],
      [CHR 0xE2, CHR 0x80, CHR 0x83], [CHR 0xE2, CHR 0x80, CHR 0x84], [CHR 0xE2, CHR 0x80, CHR 0x85],
      [CHR 0xE2, CHR 0x80, CHR 0x86], [CHR 0xE2, CHR 0x80, CHR 0x87], [CHR 0xE2, CHR 0x80, CHR 0x88],
      [CHR 0xE2, CHR 0x80, CHR 0x89], [CHR 0xE2, CHR 0x80, CHR 0x8A], [CHR 0xE2, CHR 0x80, CHR 0xA8],
      [CHR 0xE2, CHR 0x80, CHR 0xA9], [CHR 0xE2, CHR 0x80, CHR 0xAF], [CHR 0xE2, CHR 0x81, CHR 0x9F],
      [CHR 0xE3, CHR 0x80, CHR 0x80]]"

definition strip1 :: "string list \<Rightarrow> string \<Rightarrow> string option" where
  "strip1 encs s = map_option (\<lambda>e. drop (length e) s) (find (\<lambda>e. e \<noteq> [] \<and> prefix e s) encs)"

lemma strip1_shorter: "strip1 encs s = Some s' \<Longrightarrow> length s' < length s"
  by (auto simp: strip1_def find_Some_iff prefix_def)

function strip_all :: "string list \<Rightarrow> string \<Rightarrow> string" where
  "strip_all encs s = (case strip1 encs s of None \<Rightarrow> s | Some s' \<Rightarrow> strip_all encs s')"
  by pat_completeness auto
termination
  by (relation "measure (\<lambda>(encs, s). length s)") (auto dest: strip1_shorter)

declare strip_all.simps [simp del]

definition TrimSpace :: "string \<Rightarrow> string" where
  "TrimSpace s =
     rev (strip_all (map rev space_encodings) (rev (strip_all space_encodings s)))"

section \<open>Case\<close>

definition is_upper :: "char \<Rightarrow> bool" where
  "is_upper c \<longleftrightarrow> 65 \<le> (of_char c :: nat) \<and> (of_char c :: nat) \<le> 90"

definition is_lower :: "char \<Rightarrow> bool" where
  "is_lower c \<longleftrightarrow> 97 \<le> (of_char c :: nat) \<and> (of_char c :: nat) \<le> 122"

definition is_digit :: "char \<Rightarrow> bool" where
  "is_digit c \<longleftrightarrow> 48 \<le> (of_char c :: nat) \<and> (of_char c :: nat) \<le> 57"

definition to_lower :: "char \<Rightarrow> char" where
  "to_lower c = (if is_upper c then char_of ((of_char c :: nat) + 32) else c)"

definition to_upper :: "char \<Rightarrow> char" where
  "to_upper c = (if is_lower c then char_of ((of_char c :: nat) - 32) else c)"

definition isASCII :: "string \<Rightarrow> bool" where
  "isASCII s \<longleftrightarrow> list_all (\<lambda>c. (of_char c :: nat) < 128) s"

definition ToLower :: "(string \<Rightarrow> string) \<Rightarrow> string \<Rightarrow> string" where
  "ToLower uni s = (if isASCII s then map to_lower s else uni s)"

definition ToUpper :: "(string \<Rightarrow> string) \<Rightarrow> string \<Rightarrow> string" where
  "ToUpper uni s = (if isASCII s then map to_upper s else uni s)"

text \<open>
  \<open>strings.EqualFold\<close> against an ASCII text without the letters K and S, whose folding orbits
  are the only ones that leave ASCII; every use in the modelled source is of this kind.
\<close>

definition EqualFold :: "string \<Rightarrow> string \<Rightarrow> bool" where
  "EqualFold s t \<longleftrightarrow> map to_lower s = map to_lower t"

lemma to_lower_idem [simp]: "to_lower (to_lower c) = to_lower c"
  by (simp add: to_lower_def is_upper_def)

lemma of_char_to_lower_bound: "(of_char c :: nat) < 128 \<Longrightarrow> (of_char (to_lower c) :: nat) < 128"
  by (auto simp: to_lower_def is_upper_def)

lemma isASCII_map_to_lower [simp]: "isASCII s \<Longrightarrow> isASCII (map to_lower s)"
  by (auto simp: isASCII_def list_all_iff of_char_to_lower_bound)

lemma ToLower_idem_ascii: "isASCII s \<Longrightarrow> ToLower uni (ToLower uni s) = ToLower uni s"
  by (simp add: ToLower_def comp_def)

lemma isASCII_append [simp]: "isASCII (s @ t) \<longleftrightarrow> isASCII s \<and> isASCII t"
  by (simp add: isASCII_def)

lemma isASCII_take [intro]: "isASCII s \<Longrightarrow> isASCII (take n s)"
  by (simp add: isASCII_def list_all_take)

lemma isASCII_drop [intro]: "isASCII s \<Longrightarrow> isASCII (drop n s)"
  by (simp add: isASCII_def list_all_drop)

lemma IndexByte_None: "IndexByte s c = None \<longleftrightarrow> c \<notin> set s"
  by (induction s) auto

lemma SplitByte_nonempty [simp]: "SplitByte s c \<noteq> []"
  by (induction s c rule: SplitByte.induct) (auto split: list.splits)

lemma Join_SplitByte: "Join (SplitByte s c) [c] = s"
proof (induction s c rule: SplitByte.induct)
  case (2 x xs c)
  obtain p ps where ps: "SplitByte xs c = p # ps" by (meson SplitByte_nonempty neq_Nil_conv)
  with 2 show ?case by (cases ps) auto
qed simp

lemma SplitByte_no_sep: "p \<in> set (SplitByte s c) \<Longrightarrow> c \<notin> set p"
proof (induction s c arbitrary: p rule: SplitByte.induct)
  case (2 x xs c)
  then show ?case by (cases "x = c") (auto split: list.splits)
qed simp

section \<open>Decimal numbers (\<open>strconv.Itoa\<close>)\<close>

fun Itoa :: "nat \<Rightarrow> string" where
  "Itoa n = (if n < 10 then [char_of (48 + n)] else Itoa (n div 10) @ [char_of (48 + n mod 10)])"

declare Itoa.simps [simp del]

definition digits_value :: "string \<Rightarrow> nat" where
  "digits_value s = foldl (\<lambda>a c. a * 10 + ((of_char c :: nat) - 48)) 0 s"

lemma Itoa_digits: "list_all is_digit (Itoa n)"
proof (induction n rule: Itoa.induct)
  case (1 n)
  have "is_digit (char_of (48 + n mod 10))"
  proof -
    have "n mod 10 < 10" by simp
    then show ?thesis by (simp add: is_digit_def)
  qed
  moreover have "n < 10 \<Longrightarrow> is_digit (char_of (48 + n))" by (simp add: is_digit_def)
  ultimately show ?case using 1 by (subst Itoa.simps) simp
qed

lemma Itoa_nonempty: "Itoa n \<noteq> []"
  by (subst Itoa.simps) simp

lemma digits_value_Itoa [simp]: "digits_value (Itoa n) = n"
proof (induction n rule: Itoa.induct)
  case (1 n)
  have v: "(of_char (char_of (48 + n mod 10) :: char) :: nat) = 48 + n mod 10"
  proof -
    have "n mod 10 < 10" by simp
    then show ?thesis by simp
  qed
  show ?case
  proof (cases "n < 10")
    case True
    then show ?thesis by (subst Itoa.simps) (simp add: digits_value_def)
  next
    case False
    with 1 have "digits_value (Itoa n) = (n div 10) * 10 + n mod 10"
      by (subst Itoa.simps) (simp add: digits_value_def v)
    then show ?thesis by simp
  qed
qed

section \<open>Canonical header names (\<open>net/textproto\<close>)\<close>

definition validHeaderFieldByte :: "char \<Rightarrow> bool" where
  "validHeaderFieldByte c \<longleftrightarrow> is_upper c \<or> is_lower c \<or> is_digit c \<or> c \<in> set ''!#$%&*+-.^_|~'' \<or> c = CHR 0x27 \<or> c = CHR 0x60"

fun canon_from :: "bool \<Rightarrow> string \<Rightarrow> string" where
  "canon_from up [] = []"
| "canon_from up (c # cs) = (if up then to_upper c else to_lower c) # canon_from (c = CHR ''-'') cs"

definition CanonicalMIMEHeaderKey :: "string \<Rightarrow> string" where
  "CanonicalMIMEHeaderKey s = (if list_all validHeaderFieldByte s then canon_from True s else s)"

section \<open>Headers (\<open>net/http\<close>)\<close>

text \<open>
  An \<open>http.Header\<close> is a map from names to value lists; the list of its pairs also fixes the
  order a \<open>range\<close> over it visits, which Go leaves open. Well-formed headers have one pair per
  name, in canonical spelling.
\<close>

type_synonym header = "(string \<times> string list) list"

fun header_append :: "string \<Rightarrow> string \<Rightarrow> header \<Rightarrow> header" where
  "header_append k v [] = [(k, [v])]"
| "header_append k v ((k', vs) # hs) =
     (if k' = k then (k', vs @ [v]) # hs else (k', vs) # header_append k v hs)"

definition HeaderAdd :: "string \<Rightarrow> string \<Rightarrow> header \<Rightarrow> header" where
  "HeaderAdd k v h = header_append (CanonicalMIMEHeaderKey k) v h"

definition HeaderValues :: "header \<Rightarrow> string \<Rightarrow> string list" where
  "HeaderValues h k = (case map_of h (CanonicalMIMEHeaderKey k) of None \<Rightarrow> [] | Some vs \<Rightarrow> vs)"

definition HeaderGet :: "header \<Rightarrow> string \<Rightarrow> string" where
  "HeaderGet h k = (case HeaderValues h k of [] \<Rightarrow> [] | v # _ \<Rightarrow> v)"

lemma header_append_new: "k \<notin> fst ` set h \<Longrightarrow> header_append k v h = h @ [(k, [v])]"
  by (induction h) auto

lemma header_append_last: "k \<notin> fst ` set h \<Longrightarrow> header_append k v (h @ [(k, vs)]) = h @ [(k, vs @ [v])]"
  by (induction h) auto

end
