(* ===== verification/FastCGI_Pool.thy ===== *)
theory FastCGI_Pool
  imports Go_Strings
begin

text \<open>
  The FastCGI connection pool, \<open>pkg/fastcgi/pool.go\<close>. The buffered channels \<open>idle\<close> and \<open>freed\<close>
  are a queue and a counter, the atomic \<open>active\<close> an integer. Every operation under the pool's
  synchronisation (a channel receive, a CAS loop, a mutex section) is one function; concurrent
  callers are an arbitrary sequence of these steps (\<open>pool_step\<close>), with the connections callers
  hold and the dials in flight kept beside the pool. The invariant accounts for every slot.
\<close>

record pool_conn =
  netConn :: nat
  createdAt :: instant
  usedAt :: instant
  reused :: bool

record pool =
  network :: string
  address :: string
  maxIdle :: nat
  maxOpen :: nat
  maxLife :: duration
  maxResponseBytes :: int
  idle :: "pool_conn list"
  idleClosed :: bool
  freed :: nat
  active :: int
  closed :: bool

record pool_config =
  cfgAddress :: string
  cfgMaxIdle :: int
  cfgMaxOpen :: int
  cfgMaxLifetime :: duration
  cfgMaxResponseBytes :: int

definition second :: duration where "second = 1000000000"

section \<open>Operations\<close>

definition parseAddress :: "string \<Rightarrow> string \<times> string" where
  "parseAddress addr =
     (if HasPrefix addr ''unix:'' then (''unix'', drop 5 addr)
      else if HasPrefix addr ''tcp:'' then (''tcp'', drop 4 addr)
      else if HasPrefix addr ''/'' then (''unix'', addr)
      else (''tcp'', addr))"

definition NewPool :: "pool_config \<Rightarrow> pool" where
  "NewPool cfg =
     \<lparr>network = fst (parseAddress (cfgAddress cfg)), address = snd (parseAddress (cfgAddress cfg)),
      maxIdle = (if cfgMaxIdle cfg \<le> 0 then 10 else nat (cfgMaxIdle cfg)),
      maxOpen = (if cfgMaxOpen cfg \<le> 0 then 64 else nat (cfgMaxOpen cfg)),
      maxLife = (if cfgMaxLifetime cfg \<le> 0 then 300 * second else cfgMaxLifetime cfg),
      maxResponseBytes = (if cfgMaxResponseBytes cfg \<le> 0 then 67108864 else cfgMaxResponseBytes cfg),
      idle = [], idleClosed = False, freed = 0, active = 0, closed = False\<rparr>"

definition release :: "pool \<Rightarrow> pool" where
  "release p = p\<lparr>active := active p - 1,
                 freed := (if freed p < maxOpen p then freed p + 1 else freed p)\<rparr>"

text \<open>The CAS loop ends with a claimed slot or with the limit reached; no other end is possible.\<close>

definition reserve :: "pool \<Rightarrow> pool \<times> bool" where
  "reserve p = (if active p \<ge> int (maxOpen p) then (p, False) else (p\<lparr>active := active p + 1\<rparr>, True))"

definition stale :: "pool \<Rightarrow> instant \<Rightarrow> pool_conn \<Rightarrow> bool" where
  "stale p now c \<longleftrightarrow> now - usedAt c > 30 * second \<or> now - createdAt c > maxLife p"

datatype get_result = GotConn pool_conn | PoolClosed | NoIdle

text \<open>
  Receiving from \<open>idle\<close>, as the fast path and the wait loop of \<open>Get\<close> both do: stale
  connections are closed and their slots released until a usable one is found, the channel is
  found closed and empty, or it is empty.
\<close>

function getIdle :: "instant \<Rightarrow> pool \<Rightarrow> pool \<times> get_result" where
  "getIdle now p =
     (case idle p of
        [] \<Rightarrow> (p, if idleClosed p then PoolClosed else NoIdle)
      | c # cs \<Rightarrow>
          (if stale p now c then getIdle now (release (p\<lparr>idle := cs\<rparr>))
           else (p\<lparr>idle := cs\<rparr>, GotConn (c\<lparr>usedAt := now, reused := True\<rparr>))))"
  by pat_completeness auto
termination
  by (relation "measure (\<lambda>(now, p). length (idle p))") (auto simp: release_def)

declare getIdle.simps [simp del]

text \<open>Dialing for a reserved slot: \<open>dialed\<close> is the new socket, \<open>None\<close> when the dial failed.\<close>

definition create :: "instant \<Rightarrow> nat option \<Rightarrow> pool \<Rightarrow> pool \<times> pool_conn option" where
  "create now dialed p =
     (case dialed of
        None \<Rightarrow> (release p, None)
      | Some nc \<Rightarrow> (p, Some \<lparr>netConn = nc, createdAt = now, usedAt = now, reused = False\<rparr>))"

text \<open>\<open>Get\<close> up to the point where it has to wait for an idle connection or a freed slot.\<close>

datatype get_outcome = GetConn pool_conn | ErrPoolClosed | DialFailed | MustWait

definition Get :: "instant \<Rightarrow> nat option \<Rightarrow> pool \<Rightarrow> pool \<times> get_outcome" where
  "Get now dialed p =
     (case getIdle now p of
        (p1, GotConn c) \<Rightarrow> (p1, GetConn c)
      | (p1, PoolClosed) \<Rightarrow> (p1, ErrPoolClosed)
      | (p1, NoIdle) \<Rightarrow>
          (case reserve p1 of
             (p2, False) \<Rightarrow> (p2, MustWait)
           | (p2, True) \<Rightarrow>
               (case create now dialed p2 of
                  (p3, None) \<Rightarrow> (p3, DialFailed)
                | (p3, Some c) \<Rightarrow> (p3, GetConn c))))"

text \<open>
  The wait loop of \<open>Get\<close>: the events are the cases its \<open>select\<close> takes, in order. A case that is not
  ready cannot be taken, so it leaves the loop where it is.
\<close>

datatype wait_event = EvIdle instant | EvFreed instant "nat option" | EvTimer | EvDone

datatype wait_outcome = WaitGot pool_conn | WaitClosed | WaitDialFailed | Exhausted | CtxErr | Waiting

fun GetWait :: "wait_event list \<Rightarrow> pool \<Rightarrow> pool \<times> wait_outcome" where
  "GetWait [] p = (p, Waiting)"
| "GetWait (EvIdle now # evs) p =
     (case idle p of
        [] \<Rightarrow> if idleClosed p then (p, WaitClosed) else GetWait evs p
      | c # cs \<Rightarrow>
          (if stale p now c then GetWait evs (release (p\<lparr>idle := cs\<rparr>))
           else (p\<lparr>idle := cs\<rparr>, WaitGot (c\<lparr>usedAt := now, reused := True\<rparr>))))"
| "GetWait (EvFreed now dialed # evs) p =
     (if freed p = 0 then GetWait evs p
      else
        (case reserve (p\<lparr>freed := freed p - 1\<rparr>) of
           (p1, False) \<Rightarrow> GetWait evs p1
         | (p1, True) \<Rightarrow>
             (case create now dialed p1 of
                (p2, None) \<Rightarrow> (p2, WaitDialFailed)
              | (p2, Some c) \<Rightarrow> (p2, WaitGot c))))"
| "GetWait (EvTimer # evs) p = (p, Exhausted)"
| "GetWait (EvDone # evs) p = (p, CtxErr)"

text \<open>
  \<open>Put\<close>: the result says what became of the connection; sending on a closed channel panics.
\<close>

datatype put_result = Pooled | ConnClosed | Panic

definition Put :: "instant \<Rightarrow> pool_conn \<Rightarrow> pool \<Rightarrow> pool \<times> put_result" where
  "Put now c p =
     (if closed p then (release p, ConnClosed)
      else if idleClosed p then (p, Panic)
      else if length (idle p) < maxIdle p then (p\<lparr>idle := idle p @ [c\<lparr>usedAt := now\<rparr>]\<rparr>, Pooled)
      else (release p, ConnClosed))"

definition Discard :: "pool \<Rightarrow> pool" where
  "Discard p = release p"

text \<open>
  \<open>Close\<close> marks the pool under the mutex; only the call that set the mark goes on to close the
  channel and drain it.
\<close>

definition Close_mark :: "pool \<Rightarrow> pool \<times> bool" where
  "Close_mark p = (if closed p then (p, False) else (p\<lparr>closed := True\<rparr>, True))"

definition Close_drain :: "pool \<Rightarrow> pool" where
  "Close_drain p = p\<lparr>idleClosed := True, idle := [], active := active p - int (length (idle p))\<rparr>"

definition Close :: "pool \<Rightarrow> pool" where
  "Close p = (case Close_mark p of (p', first) \<Rightarrow> if first then Close_drain p' else p')"

definition Stats :: "pool \<Rightarrow> int \<times> nat" where
  "Stats p = (active p, length (idle p))"

section \<open>Concurrent use\<close>

record pool_sys =
  thePool :: pool
  held :: "pool_conn list"     \<comment> \<open>handed out to callers\<close>
  dialing :: nat               \<comment> \<open>slots reserved by a \<open>create\<close> in flight\<close>
  closing :: bool              \<comment> \<open>a \<open>Close\<close> that has marked but not drained\<close>
  nextConn :: nat              \<comment> \<open>sockets dialled so far\<close>

datatype pool_op =
    OpGetIdle instant
  | OpTakeToken
  | OpReserve
  | OpDial instant bool
  | OpPut instant nat
  | OpDiscard nat
  | OpCloseMark
  | OpCloseDrain

definition remove_nth :: "nat \<Rightarrow> 'a list \<Rightarrow> 'a list" where
  "remove_nth i xs = take i xs @ drop (Suc i) xs"

inductive pool_step :: "pool_sys \<Rightarrow> pool_op \<Rightarrow> pool_sys \<Rightarrow> bool" where
  step_get: "getIdle now (thePool s) = (p, r) \<Longrightarrow>
     pool_step s (OpGetIdle now)
       (s\<lparr>thePool := p, held := (case r of GotConn c \<Rightarrow> c # held s | _ \<Rightarrow> held s)\<rparr>)"
| step_token: "0 < freed (thePool s) \<Longrightarrow>
     pool_step s OpTakeToken (s\<lparr>thePool := (thePool s)\<lparr>freed := freed (thePool s) - 1\<rparr>\<rparr>)"
| step_reserve: "reserve (thePool s) = (p, ok) \<Longrightarrow>
     pool_step s OpReserve (s\<lparr>thePool := p, dialing := (if ok then dialing s + 1 else dialing s)\<rparr>)"
| step_dial_ok: "0 < dialing s \<Longrightarrow> create now (Some (nextConn s)) (thePool s) = (p, Some c) \<Longrightarrow>
     pool_step s (OpDial now True)
       (s\<lparr>thePool := p, dialing := dialing s - 1, held := c # held s, nextConn := nextConn s + 1\<rparr>)"
| step_dial_fail: "0 < dialing s \<Longrightarrow> create now None (thePool s) = (p, None) \<Longrightarrow>
     pool_step s (OpDial now False) (s\<lparr>thePool := p, dialing := dialing s - 1\<rparr>)"
| step_put: "i < length (held s) \<Longrightarrow> Put now (held s ! i) (thePool s) = (p, r) \<Longrightarrow>
     pool_step s (OpPut now i) (s\<lparr>thePool := p, held := remove_nth i (held s)\<rparr>)"
| step_discard: "i < length (held s) \<Longrightarrow>
     pool_step s (OpDiscard i) (s\<lparr>thePool := Discard (thePool s), held := remove_nth i (held s)\<rparr>)"
| step_close_mark: "Close_mark (thePool s) = (p, first) \<Longrightarrow>
     pool_step s OpCloseMark (s\<lparr>thePool := p, closing := (first \<or> closing s)\<rparr>)"
| step_close_drain: "closing s \<Longrightarrow>
     pool_step s OpCloseDrain (s\<lparr>thePool := Close_drain (thePool s), closing := False\<rparr>)"

definition pool_init :: "pool_sys \<Rightarrow> bool" where
  "pool_init s \<longleftrightarrow> (\<exists>cfg. thePool s = NewPool cfg) \<and> held s = [] \<and> dialing s = 0
     \<and> \<not> closing s \<and> nextConn s = 0"

definition sockets :: "pool_sys \<Rightarrow> nat list" where
  "sockets s = map netConn (idle (thePool s)) @ map netConn (held s)"

definition pool_inv :: "pool_sys \<Rightarrow> bool" where
  "pool_inv s \<longleftrightarrow>
     active (thePool s) = int (length (idle (thePool s)) + length (held s) + dialing s)
   \<and> active (thePool s) \<le> int (maxOpen (thePool s))
   \<and> length (idle (thePool s)) \<le> maxIdle (thePool s)
   \<and> 0 < maxOpen (thePool s) \<and> freed (thePool s) \<le> maxOpen (thePool s)
   \<and> (idleClosed (thePool s) \<longrightarrow> closed (thePool s)) \<and> (closing s \<longrightarrow> closed (thePool s))
   \<and> distinct (sockets s) \<and> (\<forall>k \<in> set (sockets s). k < nextConn s)"

section \<open>The invariant\<close>

lemma release_simps [simp]:
  "idle (release p) = idle p" "maxIdle (release p) = maxIdle p" "maxOpen (release p) = maxOpen p"
  "maxLife (release p) = maxLife p" "closed (release p) = closed p"
  "idleClosed (release p) = idleClosed p" "active (release p) = active p - 1"
  by (simp_all add: release_def)

lemma freed_release: "freed p \<le> maxOpen p \<Longrightarrow> freed (release p) \<le> maxOpen p"
  by (simp add: release_def)

text \<open>The configuration and the closed marks, which most operations leave alone.\<close>

definition same_frame :: "pool \<Rightarrow> pool \<Rightarrow> bool" where
  "same_frame p q \<longleftrightarrow> maxIdle q = maxIdle p \<and> maxOpen q = maxOpen p
     \<and> closed q = closed p \<and> idleClosed q = idleClosed p"

lemma getIdle_spec:
  assumes "getIdle now p = (p', r)" and "freed p \<le> maxOpen p"
  shows "same_frame p p' \<and> freed p' \<le> maxOpen p \<and>
    (case r of
       GotConn c \<Rightarrow> \<exists>k < length (idle p). active p' = active p - int k
          \<and> idle p' = drop (Suc k) (idle p) \<and> netConn c = netConn (idle p ! k)
     | _ \<Rightarrow> active p' = active p - int (length (idle p)) \<and> idle p' = [])"
  using assms
proof (induction now p rule: getIdle.induct)
  case (1 now p)
  show ?case
  proof (cases "idle p")
    case Nil
    with 1(2,3) show ?thesis by (subst (asm) getIdle.simps) (auto simp: same_frame_def)
  next
    case (Cons c cs)
    show ?thesis
    proof (cases "stale p now c")
      case True
      let ?q = "release (p\<lparr>idle := cs\<rparr>)"
      have q: "same_frame p ?q" "freed ?q \<le> maxOpen p" "active ?q = active p - 1" "idle ?q = cs"
        using 1(3) by (auto simp: same_frame_def release_def)
      from Cons True 1(2) have rec: "getIdle now ?q = (p', r)"
        by (subst (asm) getIdle.simps) simp
      from 1(1) [OF Cons True rec] q have
        IH: "same_frame ?q p' \<and> freed p' \<le> maxOpen ?q \<and>
          (case r of
             GotConn c' \<Rightarrow> \<exists>k < length cs. active p' = active p - 1 - int k
                \<and> idle p' = drop (Suc k) cs \<and> netConn c' = netConn (cs ! k)
           | _ \<Rightarrow> active p' = active p - 1 - int (length cs) \<and> idle p' = [])"
        by (cases r) simp_all
      show ?thesis
      proof (cases r)
        case (GotConn c')
        with IH obtain k where k: "k < length cs" "active p' = active p - 1 - int k"
            "idle p' = drop (Suc k) cs" "netConn c' = netConn (cs ! k)"
          by auto
        with IH Cons GotConn q(1) show ?thesis
          by (auto simp: same_frame_def intro!: exI [of _ "Suc k"])
      qed (use IH Cons q(1) in \<open>auto simp: same_frame_def\<close>)
    next
      case False
      with Cons 1(2,3) show ?thesis
        by (subst (asm) getIdle.simps) (auto simp: same_frame_def intro!: exI [of _ 0])
    qed
  qed
qed

lemma length_remove_nth [simp]: "i < length xs \<Longrightarrow> length (remove_nth i xs) = length xs - 1"
  by (auto simp: remove_nth_def)

lemma map_remove_nth: "map f (remove_nth i xs) = remove_nth i (map f xs)"
  by (simp add: remove_nth_def take_map drop_map)

lemma mset_remove_nth_split: "i < length xs \<Longrightarrow> xs = take i xs @ xs ! i # drop (Suc i) xs"
  by (simp add: id_take_nth_drop)

lemma distinct_remove_nth:
  assumes "i < length xs" and "distinct (ys @ xs)"
  shows "distinct (ys @ remove_nth i xs)" and "xs ! i \<notin> set (ys @ remove_nth i xs)"
    and "set (remove_nth i xs) \<subseteq> set xs"
proof -
  have s: "xs = take i xs @ xs ! i # drop (Suc i) xs"
    using assms(1) by (rule mset_remove_nth_split)
  have "distinct (ys @ take i xs @ xs ! i # drop (Suc i) xs)"
    using assms(2) by (subst (asm) s)
  then show "distinct (ys @ remove_nth i xs)" and "xs ! i \<notin> set (ys @ remove_nth i xs)"
    by (auto simp: remove_nth_def)
  show "set (remove_nth i xs) \<subseteq> set xs"
    by (auto simp: remove_nth_def dest: in_set_takeD in_set_dropD)
qed

lemma distinct_drop_pick:
  assumes "k < length xs" and "distinct (xs @ ys)"
  shows "distinct (drop (Suc k) xs @ xs ! k # ys)"
    and "set (drop (Suc k) xs @ xs ! k # ys) \<subseteq> set (xs @ ys)"
proof -
  have s: "xs = take k xs @ xs ! k # drop (Suc k) xs"
    using assms(1) by (rule mset_remove_nth_split)
  have "distinct ((take k xs @ xs ! k # drop (Suc k) xs) @ ys)"
    using assms(2) by (subst (asm) s)
  then show "distinct (drop (Suc k) xs @ xs ! k # ys)" by auto
  show "set (drop (Suc k) xs @ xs ! k # ys) \<subseteq> set (xs @ ys)"
    using assms(1) by (auto dest: in_set_dropD)
qed

lemma pool_inv_get:
  assumes inv: "pool_inv s" and g: "getIdle now (thePool s) = (p, r)"
  shows "pool_inv (s\<lparr>thePool := p, held := (case r of GotConn c \<Rightarrow> c # held s | _ \<Rightarrow> held s)\<rparr>)"
proof -
  from inv have f: "freed (thePool s) \<le> maxOpen (thePool s)" by (simp add: pool_inv_def)
  note spec = getIdle_spec [OF g f]
  show ?thesis
  proof (cases r)
    case (GotConn c)
    with spec obtain k where k: "k < length (idle (thePool s))"
        "active p = active (thePool s) - int k" "idle p = drop (Suc k) (idle (thePool s))"
        "netConn c = netConn (idle (thePool s) ! k)"
      by auto
    have km: "k < length (map netConn (idle (thePool s)))" using k(1) by simp
    have "distinct (map netConn (idle (thePool s)) @ map netConn (held s))"
      using inv by (simp add: pool_inv_def sockets_def)
    note d = distinct_drop_pick [OF km this]
    have "distinct (map netConn (idle p) @ netConn c # map netConn (held s))"
      and "set (map netConn (idle p) @ netConn c # map netConn (held s)) \<subseteq> set (sockets s)"
      using d k by (simp_all add: drop_map sockets_def)
    with inv GotConn spec k show ?thesis
      by (auto simp: pool_inv_def sockets_def same_frame_def)
  qed (use inv spec in \<open>auto simp: pool_inv_def sockets_def same_frame_def\<close>)
qed

lemma held_sockets:
  assumes "pool_inv s" and "i < length (held s)"
  shows "distinct (map netConn (idle (thePool s)) @ remove_nth i (map netConn (held s)))"
    and "netConn (held s ! i) \<notin> set (map netConn (idle (thePool s)) @ remove_nth i (map netConn (held s)))"
    and "\<forall>k \<in> set (map netConn (idle (thePool s)) @ remove_nth i (map netConn (held s))). k < nextConn s"
    and "netConn (held s ! i) < nextConn s"
proof -
  have im: "i < length (map netConn (held s))" using assms(2) by simp
  have d0: "distinct (map netConn (idle (thePool s)) @ map netConn (held s))"
    and lt: "\<forall>k \<in> set (map netConn (idle (thePool s)) @ map netConn (held s)). k < nextConn s"
    using assms(1) by (simp_all add: pool_inv_def sockets_def)
  note d = distinct_remove_nth [OF im d0]
  show "distinct (map netConn (idle (thePool s)) @ remove_nth i (map netConn (held s)))"
    by (rule d(1))
  show "netConn (held s ! i) \<notin> set (map netConn (idle (thePool s)) @ remove_nth i (map netConn (held s)))"
    using d(2) assms(2) by simp
  show "\<forall>k \<in> set (map netConn (idle (thePool s)) @ remove_nth i (map netConn (held s))). k < nextConn s"
    using d(3) lt by auto
  show "netConn (held s ! i) < nextConn s"
    using lt assms(2) by simp
qed

lemma pool_inv_release_held:
  assumes "pool_inv s" and "i < length (held s)"
  shows "pool_inv (s\<lparr>thePool := release (thePool s), held := remove_nth i (held s)\<rparr>)"
  using assms held_sockets [OF assms] freed_release [of "thePool s"]
  by (simp add: pool_inv_def sockets_def map_remove_nth)

lemma pool_inv_pooled:
  assumes "pool_inv s" and "i < length (held s)" and "length (idle (thePool s)) < maxIdle (thePool s)"
    and "netConn c = netConn (held s ! i)"
  shows "pool_inv (s\<lparr>thePool := (thePool s)\<lparr>idle := idle (thePool s) @ [c]\<rparr>,
                     held := remove_nth i (held s)\<rparr>)"
  using assms held_sockets [OF assms(1,2)]
  by (simp add: pool_inv_def sockets_def map_remove_nth)

lemma Put_no_panic: "pool_inv s \<Longrightarrow> snd (Put now c (thePool s)) \<noteq> Panic"
  by (auto simp: Put_def pool_inv_def)

lemma pool_inv_put:
  assumes "pool_inv s" and "i < length (held s)" and "Put now (held s ! i) (thePool s) = (p, r)"
  shows "pool_inv (s\<lparr>thePool := p, held := remove_nth i (held s)\<rparr>)"
  using assms(3) pool_inv_release_held [OF assms(1,2)] pool_inv_pooled [OF assms(1,2)]
    Put_no_panic [OF assms(1), of now "held s ! i"]
  by (auto simp: Put_def split: if_splits)

lemma pool_inv_step: "pool_step s l s' \<Longrightarrow> pool_inv s \<Longrightarrow> pool_inv s'"
proof (induction rule: pool_step.induct)
  case (step_get now s p r)
  then show ?case by (simp add: pool_inv_get)
next
  case (step_put i s now p r)
  then show ?case by (simp add: pool_inv_put)
next
  case (step_discard i s)
  then show ?case by (simp add: Discard_def pool_inv_release_held)
next
  case (step_dial_ok s now p c)
  then have "\<forall>k \<in> set (sockets s). k < nextConn s" by (simp add: pool_inv_def)
  then have "nextConn s \<notin> set (sockets s)" and "\<forall>k \<in> set (sockets s). k < Suc (nextConn s)"
    by (auto simp: less_Suc_eq)
  with step_dial_ok show ?case by (simp add: pool_inv_def sockets_def create_def) force
next
  case (step_dial_fail s now p)
  then show ?case
    using freed_release [of "thePool s"] by (clarsimp simp: pool_inv_def sockets_def create_def)
next
  case (step_token s)
  then have "freed (thePool s) - 1 \<le> maxOpen (thePool s)" by (auto simp: pool_inv_def)
  with step_token show ?case by (simp add: pool_inv_def sockets_def)
next
  case (step_reserve s p ok)
  then show ?case by (cases ok) (clarsimp simp: pool_inv_def sockets_def reserve_def split: if_splits)+
next
  case (step_close_mark s p first)
  then show ?case by (cases first) (clarsimp simp: pool_inv_def sockets_def Close_mark_def split: if_splits)+
next
  case (step_close_drain s)
  then show ?case by (simp add: pool_inv_def sockets_def Close_drain_def)
qed

lemma pool_inv_init: "pool_init s \<Longrightarrow> pool_inv s"
  by (auto simp: pool_init_def pool_inv_def NewPool_def sockets_def)

interpretation pool_ts: transition_system pool_init pool_step pool_inv
  by unfold_locales (auto intro: pool_inv_init pool_inv_step)

text \<open>
  The wait loop takes exactly one slot when it hands out a connection and none otherwise: the
  connections outside the idle queue grow by one or stay.
\<close>

lemma GetWait_accounts:
  "GetWait evs p = (p', r) \<Longrightarrow>
     active p' - int (length (idle p'))
       = active p - int (length (idle p)) + (case r of WaitGot c \<Rightarrow> 1 | _ \<Rightarrow> 0)"
proof (induction evs p arbitrary: p' r rule: GetWait.induct)
  case (2 now evs p)
  then show ?case
    by (cases "idle p") (auto split: if_splits)
next
  case (3 now dialed evs p)
  then show ?case
    by (auto simp: reserve_def create_def split: if_splits option.splits)
qed simp_all

section \<open>Properties\<close>

text \<open>
  C4. Slot accounting under concurrency. In every state concurrent callers can reach, the pool's
  \<open>active\<close> counter is exactly the number of idle, handed-out and in-dial connections, it never
  exceeds \<open>maxOpen\<close>, at most \<open>maxIdle\<close> connections sit idle, and no socket is both idle and in
  use or in use twice.
\<close>

theorem pool_slots_accounted:
  assumes "reach pool_init pool_step s"
  shows "active (thePool s) = int (length (idle (thePool s)) + length (held s) + dialing s)
       \<and> length (idle (thePool s)) + length (held s) + dialing s \<le> maxOpen (thePool s)
       \<and> length (idle (thePool s)) \<le> maxIdle (thePool s)
       \<and> distinct (map netConn (idle (thePool s)) @ map netConn (held s))"
  using pool_ts.reach_inv [OF assms] by (simp add: pool_inv_def sockets_def)

definition example_pool_sys :: pool_sys where
  "example_pool_sys =
     \<lparr>thePool = NewPool \<lparr>cfgAddress = ''unix:/run/php.sock'', cfgMaxIdle = 1, cfgMaxOpen = 2, cfgMaxLifetime = 0, cfgMaxResponseBytes = 0\<rparr>,
      held = [], dialing = 0, closing = False, nextConn = 0\<rparr>"

lemma reach_example_pool: "reach pool_init pool_step example_pool_sys"
  by (rule reach_init) (auto simp: pool_init_def example_pool_sys_def)

lemma reach_example_reserved:
  "reach pool_init pool_step
     (example_pool_sys\<lparr>thePool := (thePool example_pool_sys)\<lparr>active := 1\<rparr>, dialing := 1\<rparr>)"
proof (rule reach_step [OF reach_example_pool])
  show "pool_step example_pool_sys OpReserve
     (example_pool_sys\<lparr>thePool := (thePool example_pool_sys)\<lparr>active := 1\<rparr>, dialing := 1\<rparr>)"
    using step_reserve [of example_pool_sys "(thePool example_pool_sys)\<lparr>active := 1\<rparr>" True]
    by (simp add: reserve_def example_pool_sys_def NewPool_def)
qed

theorem pool_slots_accounted_witness:
  "let s = example_pool_sys\<lparr>thePool := (thePool example_pool_sys)\<lparr>active := 1\<rparr>, dialing := 1\<rparr> in
     active (thePool s) = int (length (idle (thePool s)) + length (held s) + dialing s)
       \<and> length (idle (thePool s)) + length (held s) + dialing s \<le> maxOpen (thePool s)
       \<and> length (idle (thePool s)) \<le> maxIdle (thePool s)
       \<and> distinct (map netConn (idle (thePool s)) @ map netConn (held s))"
  using pool_slots_accounted [OF reach_example_reserved] by (simp only: Let_def)

text \<open>
  Returning a connection never panics: in no reachable state, whatever \<open>Close\<close> and other
  callers do in between, does \<open>Put\<close> send on the closed idle channel.
\<close>

theorem pool_Put_never_panics:
  assumes "reach pool_init pool_step s"
  shows "snd (Put now c (thePool s)) \<noteq> Panic"
  using pool_ts.reach_inv [OF assms] by (rule Put_no_panic)

theorem pool_Put_never_panics_witness:
  "snd (Put 5 \<lparr>netConn = 0, createdAt = 0, usedAt = 0, reused = False\<rparr>
      (thePool (example_pool_sys\<lparr>thePool := (thePool example_pool_sys)\<lparr>active := 1\<rparr>, dialing := 1\<rparr>)))
    \<noteq> Panic"
  by (rule pool_Put_never_panics [OF reach_example_reserved])

end
