(* ===== verification/Cache_Entry.thy ===== *)
theory Cache_Entry
  imports Go_Strings
begin

text \<open>
  Cached responses, \<open>internal/cache/entry.go\<close>: sizes, freshness and the binary format of the
  disk cache. Reads from the serialized data are written so that an out-of-range slice is an
  explicit \<open>SlicePanic\<close>; the theorems show that the format is a codec and that the length checks
  of \<open>Deserialize\<close> rule the panic out for every input.
\<close>

section \<open>Data\<close>

record CachedResponse =
  StatusCode :: int
  Headers :: header
  Body :: bytes
  Created :: instant
  TTL :: duration
  GraceTTL :: duration
  Tags :: "string list"
  ESITemplate :: bool

definition headers_size :: "header \<Rightarrow> int" where
  "headers_size hs =
     sum_list (map (\<lambda>(k, vals). int (length k) + sum_list (map (\<lambda>v. int (length v)) vals)) hs)"

definition Size :: "CachedResponse \<Rightarrow> int" where
  "Size r = int (length (Body r)) + headers_size (Headers r)
     + sum_list (map (\<lambda>tag. int (length tag)) (Tags r)) + 64"

text \<open>\<open>time.Since\<close>: the elapsed time, saturating at the range of a duration.\<close>

definition since :: "instant \<Rightarrow> instant \<Rightarrow> duration" where
  "since now t = max (- (2 ^ 63)) (min (2 ^ 63 - 1) (now - t))"

definition Age :: "instant \<Rightarrow> CachedResponse \<Rightarrow> duration" where
  "Age now r = since now (Created r)"

definition IsFresh :: "instant \<Rightarrow> CachedResponse \<Rightarrow> bool" where
  "IsFresh now r \<longleftrightarrow> since now (Created r) < TTL r"

definition IsStale :: "instant \<Rightarrow> CachedResponse \<Rightarrow> bool" where
  "IsStale now r \<longleftrightarrow>
     (let age = since now (Created r) in age \<ge> TTL r \<and> age < wrap64 (TTL r + GraceTTL r))"

definition IsExpired :: "instant \<Rightarrow> CachedResponse \<Rightarrow> bool" where
  "IsExpired now r \<longleftrightarrow> since now (Created r) \<ge> wrap64 (TTL r + GraceTTL r)"

section \<open>Serialization\<close>

definition put_u32 :: "int \<Rightarrow> bytes" where
  "put_u32 x = put_be 4 (nat (x mod 2 ^ 32))"

definition put_u64 :: "int \<Rightarrow> bytes" where
  "put_u64 x = put_be 8 (nat (x mod 2 ^ 64))"

definition header_lines :: "header \<Rightarrow> (string \<times> string) list" where
  "header_lines hs = concat (map (\<lambda>(k, vals). map (\<lambda>v. (k, v)) vals) hs)"

definition put_header_line :: "string \<times> string \<Rightarrow> bytes" where
  "put_header_line kv = (case kv of (k, v) \<Rightarrow>
     put_u32 (int (length k)) @ put_u32 (int (length v)) @ bytes_of_string k @ bytes_of_string v)"

definition put_tag :: "string \<Rightarrow> bytes" where
  "put_tag tag = put_u32 (int (length tag)) @ bytes_of_string tag"

definition Serialize :: "CachedResponse \<Rightarrow> bytes" where
  "Serialize r =
     put_u32 (StatusCode r) @ put_u64 (Created r) @ put_u64 (TTL r) @ put_u64 (GraceTTL r)
     @ put_u32 (int (length (header_lines (Headers r))))
     @ concat (map put_header_line (header_lines (Headers r)))
     @ put_u32 (int (length (Body r))) @ Body r
     @ [if ESITemplate r then 1 else 0]
     @ (if Tags r = [] then []
        else put_u32 (int (length (Tags r))) @ concat (map put_tag (Tags r)))"

datatype cache_error = ErrCorrupt | SlicePanic

text \<open>\<open>binary.BigEndian.Uint32(data[pos:])\<close> and a slice \<open>data[pos:pos+n]\<close>: both panic when short.\<close>

definition get_u32 :: "bytes \<Rightarrow> cache_error + nat \<times> bytes" where
  "get_u32 d = (if length d < 4 then Inl SlicePanic else Inr (get_be (take 4 d), drop 4 d))"

definition get_i64 :: "bytes \<Rightarrow> cache_error + int \<times> bytes" where
  "get_i64 d = (if length d < 8 then Inl SlicePanic
                else Inr (wrap64 (int (get_be (take 8 d))), drop 8 d))"

definition slice :: "nat \<Rightarrow> bytes \<Rightarrow> cache_error + bytes \<times> bytes" where
  "slice n d = (if length d < n then Inl SlicePanic else Inr (take n d, drop n d))"

definition bind_dec :: "'e + 'a \<times> 'b \<Rightarrow> ('a \<Rightarrow> 'b \<Rightarrow> 'e + 'c) \<Rightarrow> 'e + 'c" where
  "bind_dec m f = (case m of Inl e \<Rightarrow> Inl e | Inr (x, d) \<Rightarrow> f x d)"

definition get_header_line :: "bytes \<Rightarrow> cache_error + (string \<times> string) \<times> bytes" where
  "get_header_line d =
     (if length d < 8 then Inl ErrCorrupt
      else bind_dec (get_u32 d) (\<lambda>keyLen d.
           bind_dec (get_u32 d) (\<lambda>valLen d.
           if length d < keyLen + valLen then Inl ErrCorrupt
           else bind_dec (slice keyLen d) (\<lambda>key d.
                bind_dec (slice valLen d) (\<lambda>val d.
                Inr ((string_of_bytes key, string_of_bytes val), d))))))"

definition get_tag :: "bytes \<Rightarrow> cache_error + string \<times> bytes" where
  "get_tag d =
     (if length d < 4 then Inl ErrCorrupt
      else bind_dec (get_u32 d) (\<lambda>tagLen d.
           if length d < tagLen then Inl ErrCorrupt
           else bind_dec (slice tagLen d) (\<lambda>tag d. Inr (string_of_bytes tag, d))))"

definition get_tags :: "bytes \<Rightarrow> cache_error + string list" where
  "get_tags d =
     (if d = [] then Inr []
      else if length d < 4 then Inl ErrCorrupt
      else bind_dec (get_u32 d) (\<lambda>tagCount d.
           if tagCount > length d div 4 then Inl ErrCorrupt
           else bind_dec (read_n get_tag tagCount d) (\<lambda>tags d. Inr tags)))"

definition get_body :: "bytes \<Rightarrow> cache_error + bytes \<times> bytes" where
  "get_body d =
     (if length d < 4 then Inl ErrCorrupt
      else bind_dec (get_u32 d) (\<lambda>bodyLen d.
           if length d < bodyLen then Inl ErrCorrupt else slice bodyLen d))"

definition Deserialize :: "bytes \<Rightarrow> cache_error + CachedResponse" where
  "Deserialize data =
     (if length data < 32 then Inl ErrCorrupt
      else
        bind_dec (get_u32 data) (\<lambda>status d.
        bind_dec (get_i64 d) (\<lambda>created d.
        bind_dec (get_i64 d) (\<lambda>ttl d.
        bind_dec (get_i64 d) (\<lambda>grace d.
        bind_dec (get_u32 d) (\<lambda>headerCount d.
        bind_dec (read_n get_header_line headerCount d) (\<lambda>hls d.
        bind_dec (get_body d) (\<lambda>body d.
        case get_tags (tl d) of
          Inl e \<Rightarrow> Inl e
        | Inr tags \<Rightarrow>
            Inr \<lparr>StatusCode = int status,
                 Headers = fold (\<lambda>(k, v) h. HeaderAdd k v h) hls [],
                 Body = body, Created = created, TTL = ttl, GraceTTL = grace, Tags = tags,
                 ESITemplate = (d \<noteq> [] \<and> hd d = 1)\<rparr>))))))))"

section \<open>The format is a codec\<close>

lemma length_put_u32 [simp]: "length (put_u32 x) = 4"
  by (simp add: put_u32_def)

lemma length_put_u64 [simp]: "length (put_u64 x) = 8"
  by (simp add: put_u64_def)

lemma get_put_u32 [codec_simps]:
  "0 \<le> x \<Longrightarrow> x < 2 ^ 32 \<Longrightarrow> get_u32 (put_u32 x @ rest) = Inr (nat x, rest)"
  by (simp add: get_u32_def put_u32_def get_put_be nat_mod_distrib)

lemma wrap64_mod [simp]: "wrap64 (x mod 2 ^ 64) = wrap64 x"
  unfolding wrap64_def by (simp only: mod_add_left_eq)

lemma get_put_u64 [codec_simps]: "in_int64 x \<Longrightarrow> get_i64 (put_u64 x @ rest) = Inr (x, rest)"
proof -
  assume x: "in_int64 x"
  have b: "nat (x mod 2 ^ 64) < 256 ^ 8" by (simp add: nat_less_iff)
  have "int (get_be (put_be 8 (nat (x mod 2 ^ 64)))) = x mod 2 ^ 64"
    by (simp only: get_put_be_id [OF b]) simp
  then have "wrap64 (int (get_be (put_be 8 (nat (x mod 2 ^ 64))))) = x"
    by (simp only: wrap64_mod wrap64_id [OF x])
  then show ?thesis by (simp add: get_i64_def put_u64_def)
qed

lemma slice_append [codec_simps]: "length xs = n \<Longrightarrow> slice n (xs @ rest) = Inr (xs, rest)"
  by (simp add: slice_def)

lemma bind_dec_simps [simp]:
  "bind_dec (Inl e) f = Inl e" "bind_dec (Inr (x, d)) f = f x d"
  by (simp_all add: bind_dec_def)

definition line_wf :: "string \<times> string \<Rightarrow> bool" where
  "line_wf kv \<longleftrightarrow> length (fst kv) < 2 ^ 32 \<and> length (snd kv) < 2 ^ 32"

lemma get_put_header_line [codec_simps]:
  "line_wf kv \<Longrightarrow> get_header_line (put_header_line kv @ rest) = Inr (kv, rest)"
  by (cases kv) (simp add: get_header_line_def put_header_line_def line_wf_def codec_simps)

interpretation header_line_codec: codec put_header_line get_header_line line_wf
  by unfold_locales (rule get_put_header_line)

lemma get_put_tag [codec_simps]:
  "length tag < 2 ^ 32 \<Longrightarrow> get_tag (put_tag tag @ rest) = Inr (tag, rest)"
  by (simp add: get_tag_def put_tag_def codec_simps)

interpretation tag_codec: codec put_tag get_tag "\<lambda>tag. length tag < 2 ^ 32"
  by unfold_locales (rule get_put_tag)

lemma length_concat_put_tag: "4 * length tags \<le> length (concat (map put_tag tags))"
  by (induction tags) (simp_all add: put_tag_def)

lemma get_put_tags:
  assumes "length tags < 2 ^ 32" and "list_all (\<lambda>tag. length tag < 2 ^ 32) tags"
  shows "get_tags (if tags = [] then []
                   else put_u32 (int (length tags)) @ concat (map put_tag tags)) = Inr tags"
proof (cases "tags = []")
  case True
  then show ?thesis by (simp add: get_tags_def)
next
  case False
  have "\<not> length tags > length (concat (map put_tag tags)) div 4"
    using length_concat_put_tag [of tags] by simp
  moreover have "put_u32 x \<noteq> []" for x
    using length_put_u32 [of x] by (auto simp del: length_put_u32)
  ultimately show ?thesis
    using False assms tag_codec.read_n_enc [OF assms(2), of "[]"]
    by (simp add: get_tags_def codec_simps)
qed

lemma get_put_body [codec_simps]:
  "length body < 2 ^ 32 \<Longrightarrow>
     get_body (put_u32 (int (length body)) @ body @ rest) = Inr (body, rest)"
  by (simp add: get_body_def codec_simps)

text \<open>Adding the stored lines one by one rebuilds a well-formed header.\<close>

definition header_wf :: "header \<Rightarrow> bool" where
  "header_wf hs \<longleftrightarrow> distinct (map fst hs) \<and>
     (\<forall>(k, vals) \<in> set hs. CanonicalMIMEHeaderKey k = k \<and> vals \<noteq> [])"

abbreviation add_lines :: "(string \<times> string) list \<Rightarrow> header \<Rightarrow> header" where
  "add_lines ls h \<equiv> fold (\<lambda>(k, v) h. HeaderAdd k v h) ls h"

lemma add_lines_last:
  assumes "CanonicalMIMEHeaderKey k = k" and "k \<notin> fst ` set h"
  shows "add_lines (map (\<lambda>v. (k, v)) vals) (h @ [(k, us)]) = h @ [(k, us @ vals)]"
  using assms by (induction vals arbitrary: us) (simp_all add: HeaderAdd_def header_append_last)

lemma add_lines_new:
  assumes "CanonicalMIMEHeaderKey k = k" and "k \<notin> fst ` set h" and "vals \<noteq> []"
  shows "add_lines (map (\<lambda>v. (k, v)) vals) h = h @ [(k, vals)]"
proof -
  obtain v vs where "vals = v # vs" using assms(3) by (cases vals) auto
  with add_lines_last [OF assms(1,2), of vs "[v]"] assms show ?thesis
    by (simp add: HeaderAdd_def header_append_new)
qed

lemma add_lines_header_lines:
  "header_wf (h @ hs) \<Longrightarrow> add_lines (header_lines hs) h = h @ hs"
proof (induction hs arbitrary: h)
  case Nil
  then show ?case by (simp add: header_lines_def)
next
  case (Cons x hs)
  obtain k vals where x: "x = (k, vals)" by (cases x)
  with Cons.prems have "CanonicalMIMEHeaderKey k = k" "k \<notin> fst ` set h" "vals \<noteq> []"
    by (auto simp: header_wf_def)
  note new = add_lines_new [OF this]
  have "header_wf ((h @ [x]) @ hs)" using Cons.prems by simp
  from Cons.IH [OF this] show ?case by (simp add: header_lines_def x new)
qed

section \<open>No input makes the decoder panic\<close>

lemma get_u32_no_panic: "4 \<le> length d \<Longrightarrow> \<exists>n. get_u32 d = Inr (n, drop 4 d)"
  by (simp add: get_u32_def)

lemma get_header_line_no_panic: "get_header_line d \<noteq> Inl SlicePanic"
  by (auto simp: get_header_line_def get_u32_def slice_def bind_dec_def)

lemma get_tag_no_panic: "get_tag d \<noteq> Inl SlicePanic"
  by (auto simp: get_tag_def get_u32_def slice_def bind_dec_def)

lemma get_body_no_panic: "get_body d \<noteq> Inl SlicePanic"
  by (auto simp: get_body_def get_u32_def slice_def bind_dec_def)

lemma read_n_no_panic:
  "(\<And>d. dec d \<noteq> Inl e) \<Longrightarrow> read_n dec n d \<noteq> Inl e"
  by (induction n arbitrary: d) (auto split: sum.splits)

lemma get_tags_no_panic: "get_tags d \<noteq> Inl SlicePanic"
  using read_n_no_panic [of get_tag SlicePanic, OF get_tag_no_panic]
  by (auto simp: get_tags_def get_u32_def bind_dec_def split: sum.splits)

section \<open>Properties\<close>

definition response_wf :: "CachedResponse \<Rightarrow> bool" where
  "response_wf r \<longleftrightarrow> 0 \<le> StatusCode r \<and> StatusCode r < 2 ^ 32
     \<and> in_int64 (Created r) \<and> in_int64 (TTL r) \<and> in_int64 (GraceTTL r)
     \<and> header_wf (Headers r) \<and> list_all line_wf (header_lines (Headers r))
     \<and> length (header_lines (Headers r)) < 2 ^ 32 \<and> length (Body r) < 2 ^ 32
     \<and> length (Tags r) < 2 ^ 32 \<and> list_all (\<lambda>tag. length tag < 2 ^ 32) (Tags r)"

definition example_response :: CachedResponse where
  "example_response =
     \<lparr>StatusCode = 200, Headers = [(''Vary'', [''Cookie'', ''Accept'']), (''Etag'', [''x''])],
      Body = [1, 2, 3], Created = 1700000000000000000, TTL = 60000000000, GraceTTL = 5000000000,
      Tags = [''site:example.com'', ''a''], ESITemplate = True\<rparr>"

lemma example_response_wf: "response_wf example_response"
  by (simp add: response_wf_def example_response_def in_int64_def header_wf_def header_lines_def
        line_wf_def CanonicalMIMEHeaderKey_def validHeaderFieldByte_def is_upper_def is_lower_def
        is_digit_def to_upper_def to_lower_def)

lemma Deserialize_Serialize_wf:
  assumes "response_wf r"
  shows "Deserialize (Serialize r) = Inr r"
proof -
  note wf = assms [unfolded response_wf_def]
  let ?tags = "if Tags r = [] then []
               else put_u32 (int (length (Tags r))) @ concat (map put_tag (Tags r))"
  have "length (Serialize r) \<ge> 32" by (simp add: Serialize_def)
  moreover have "read_n get_header_line (length (header_lines (Headers r)))
        (concat (map put_header_line (header_lines (Headers r))) @ rest)
      = Inr (header_lines (Headers r), rest)" for rest
    using wf by (intro header_line_codec.read_n_enc) simp
  moreover have "get_tags ?tags = Inr (Tags r)"
    using wf by (intro get_put_tags) simp_all
  moreover have "add_lines (header_lines (Headers r)) [] = Headers r"
    using wf add_lines_header_lines [of "[]" "Headers r"] by simp
  ultimately show ?thesis
    using wf by (simp add: Deserialize_def Serialize_def codec_simps)
qed

text \<open>
  C5. Disk-format round trip: every response whose fields fit their widths and whose headers are
  canonical is rebuilt exactly from its serialized form, headers with several values, tags, the
  ESI flag and negative durations included.
\<close>

theorem Deserialize_Serialize:
  assumes "response_wf r"
  shows "Deserialize (Serialize r) = Inr r"
  using assms by (rule Deserialize_Serialize_wf)

theorem Deserialize_Serialize_witness:
  "Deserialize (Serialize example_response) = Inr example_response"
  by (rule Deserialize_Serialize [OF example_response_wf])

text \<open>
  Corrupt cache files never crash the server: for every byte string, \<open>Deserialize\<close> returns a
  response or the corruption error; none of its slices can run out of range, whatever lengths
  and counts the data claims.
\<close>

theorem Deserialize_never_panics: "Deserialize data \<noteq> Inl SlicePanic"
proof (cases "length data < 32")
  case True
  then show ?thesis by (simp add: Deserialize_def)
next
  case False
  have "read_n get_header_line n d \<noteq> Inl SlicePanic" for n d
    by (rule read_n_no_panic) (rule get_header_line_no_panic)
  with False get_body_no_panic get_tags_no_panic show ?thesis
    by (auto simp: Deserialize_def get_u32_def get_i64_def bind_dec_def split: sum.splits)
qed

text \<open>
  Life cycle of an entry. With a non-negative grace period and a life time that fits a
  duration, an entry is at every moment exactly one of fresh, stale and expired, and as time
  passes it moves only forward through the three.
\<close>

theorem entry_life_cycle:
  assumes "0 \<le> GraceTTL r" and "in_int64 (TTL r)" and "in_int64 (TTL r + GraceTTL r)"
    and "now \<le> later"
  shows "(if IsFresh now r then \<not> IsStale now r \<and> \<not> IsExpired now r
          else IsStale now r \<longleftrightarrow> \<not> IsExpired now r)
       \<and> (IsExpired now r \<longrightarrow> IsExpired later r) \<and> (IsStale now r \<longrightarrow> \<not> IsFresh later r)"
  using assms by (auto simp: IsFresh_def IsStale_def IsExpired_def since_def Let_def)

theorem entry_life_cycle_witness:
  "IsStale 1700000061000000000 example_response \<and> \<not> IsExpired 1700000061000000000 example_response
   \<and> \<not> IsFresh 1700000066000000000 example_response"
proof -
  have w: "IsStale 1700000061000000000 example_response" "\<not> IsFresh 1700000061000000000 example_response"
    by (simp_all add: IsStale_def IsFresh_def since_def example_response_def wrap64_def)
  show ?thesis
    using entry_life_cycle [of example_response 1700000061000000000 1700000066000000000] w
    by (simp add: example_response_def in_int64_def)
qed

end
