(* ===== verification/Cache_Memory.thy ===== *)
theory Cache_Memory
  imports Cache_Entry "HOL-Library.Multiset"
begin

text \<open>
  The in-memory response cache, \<open>internal/cache/memory.go\<close>: 256 shards, each a map from keys to
  entries and a list of the same entries in LRU order, under one global byte budget. Operations
  that hold a shard's lock are one step; sweeps over all shards are folds over the shard indices.
  The invariant ties the map, the LRU list and the byte count together, and the interface
  \<open>response_store\<close> states what a client may expect of a cache that can forget.
\<close>

unbundle bit_operations_syntax

section \<open>State\<close>

datatype cache_status = StatusHit | StatusMiss | StatusStale

record mem_entry =
  ekey :: string
  eresp :: CachedResponse
  esize :: int

record shard =
  items :: "(string \<times> mem_entry) list"  \<comment> \<open>the Go map, its pairs in iteration order\<close>
  lru :: "mem_entry list"                \<comment> \<open>the \<open>container/list\<close>, front first\<close>
  readCount :: u64

record MemoryCache =
  shards :: "byte \<Rightarrow> shard"
  maxBytes :: int
  usedBytes :: int
  hits :: int
  misses :: int
  stales :: int

definition lruPromotionRate :: u64 where "lruPromotionRate = 16"
definition memEntryOverhead :: int where "memEntryOverhead = 640"
definition memHeaderOverhead :: int where "memHeaderOverhead = 96"

definition memoryCost :: "string \<Rightarrow> CachedResponse \<Rightarrow> int" where
  "memoryCost key resp =
     Size resp + int (length key) + memEntryOverhead + memHeaderOverhead * int (length (Headers resp))"

definition empty_shard :: shard where
  "empty_shard = \<lparr>items = [], lru = [], readCount = 0\<rparr>"

definition NewMemoryCache :: "int \<Rightarrow> MemoryCache" where
  "NewMemoryCache maxB =
     \<lparr>shards = (\<lambda>_. empty_shard), maxBytes = maxB, usedBytes = 0, hits = 0, misses = 0, stales = 0\<rparr>"

definition shardIdx :: "string \<Rightarrow> byte" where
  "shardIdx key =
     ucast (foldl (\<lambda>(h :: u32) c. (h XOR ucast (byte_of_char c)) * 16777619) 2166136261 key)"

abbreviation getShard :: "MemoryCache \<Rightarrow> string \<Rightarrow> shard" where
  "getShard mc key \<equiv> shards mc (shardIdx key)"

abbreviation set_shard :: "byte \<Rightarrow> shard \<Rightarrow> MemoryCache \<Rightarrow> MemoryCache" where
  "set_shard i s mc \<equiv> mc\<lparr>shards := (shards mc)(i := s)\<rparr>"

text \<open>\<open>list.MoveToFront\<close> does nothing when the element has left the list.\<close>

definition MoveToFront :: "'a \<Rightarrow> 'a list \<Rightarrow> 'a list" where
  "MoveToFront e xs = (if e \<in> set xs then e # remove1 e xs else xs)"

section \<open>Operations\<close>

definition MemGet ::
  "instant \<Rightarrow> string \<Rightarrow> MemoryCache \<Rightarrow> MemoryCache \<times> CachedResponse option \<times> cache_status" where
  "MemGet now key mc =
     (let i = shardIdx key; s = shards mc i in
      case map_of (items s) key of
        None \<Rightarrow> (mc\<lparr>misses := misses mc + 1\<rparr>, None, StatusMiss)
      | Some e \<Rightarrow>
          (if IsFresh now (eresp e) then
             (let n = readCount s + 1;
                  s' = s\<lparr>readCount := n,
                         lru := (if n mod lruPromotionRate = 0 then MoveToFront e (lru s) else lru s)\<rparr>
              in ((set_shard i s' mc)\<lparr>hits := hits mc + 1\<rparr>, Some (eresp e), StatusHit))
           else if IsStale now (eresp e) then
             (mc\<lparr>stales := stales mc + 1\<rparr>, Some (eresp e), StatusStale)
           else (mc\<lparr>misses := misses mc + 1\<rparr>, None, StatusMiss)))"

text \<open>Unlinking one entry: the three statements every removal consists of.\<close>

definition drop_entry :: "byte \<Rightarrow> mem_entry \<Rightarrow> MemoryCache \<Rightarrow> MemoryCache" where
  "drop_entry i e mc =
     (let s = shards mc i in
      (set_shard i (s\<lparr>lru := remove1 e (lru s), items := map_delete (ekey e) (items s)\<rparr>) mc)
        \<lparr>usedBytes := usedBytes mc - esize e\<rparr>)"

definition evictLRU :: "byte \<Rightarrow> MemoryCache \<Rightarrow> MemoryCache" where
  "evictLRU i mc =
     (if lru (shards mc i) = [] then mc else drop_entry i (last (lru (shards mc i))) mc)"

lemma evictLRU_shorter:
  "lru (shards mc i) \<noteq> [] \<Longrightarrow> length (lru (shards (evictLRU i mc) i)) < length (lru (shards mc i))"
  by (simp add: evictLRU_def drop_entry_def Let_def length_remove1)

function evictLoop :: "byte \<Rightarrow> int \<Rightarrow> MemoryCache \<Rightarrow> MemoryCache" where
  "evictLoop i sz mc =
     (if usedBytes mc + sz > maxBytes mc \<and> lru (shards mc i) \<noteq> []
      then evictLoop i sz (evictLRU i mc) else mc)"
  by pat_completeness auto
termination
  by (relation "measure (\<lambda>(i, sz, mc). length (lru (shards mc i)))")
     (auto simp: evictLRU_shorter simp del: length_greater_0_conv)

declare evictLoop.simps [simp del]

definition MemSet :: "string \<Rightarrow> CachedResponse \<Rightarrow> MemoryCache \<Rightarrow> MemoryCache" where
  "MemSet key resp mc =
     (let sz = memoryCost key resp; i = shardIdx key;
          mc1 = (case map_of (items (shards mc i)) key of
                   Some old \<Rightarrow> drop_entry i old mc
                 | None \<Rightarrow> mc)
      in if sz > maxBytes mc1 then mc1
         else
           (let mc2 = evictLoop i sz mc1 in
            if usedBytes mc2 + sz > maxBytes mc2 then mc2
            else
              (let e = \<lparr>ekey = key, eresp = resp, esize = sz\<rparr>; s = shards mc2 i in
               (set_shard i (s\<lparr>lru := e # lru s, items := (key, e) # items s\<rparr>) mc2)
                 \<lparr>usedBytes := usedBytes mc2 + sz\<rparr>)))"

definition MemDelete :: "string \<Rightarrow> MemoryCache \<Rightarrow> MemoryCache" where
  "MemDelete key mc =
     (case map_of (items (getShard mc key)) key of
        Some e \<Rightarrow> drop_entry (shardIdx key) e mc
      | None \<Rightarrow> mc)"

definition shard_indices :: "byte list" where
  "shard_indices = map word_of_nat [0..<256]"

text \<open>The loop over one shard's items that removes those satisfying \<open>P\<close>.\<close>

fun drop_matching ::
  "(mem_entry \<Rightarrow> bool) \<Rightarrow> byte \<Rightarrow> (string \<times> mem_entry) list \<Rightarrow> MemoryCache \<times> nat \<Rightarrow> MemoryCache \<times> nat" where
  "drop_matching P i [] (mc, n) = (mc, n)"
| "drop_matching P i ((k, e) # kes) (mc, n) =
     drop_matching P i kes (if P e then (drop_entry i e mc, n + 1) else (mc, n))"

definition PurgeByTag :: "string list \<Rightarrow> MemoryCache \<Rightarrow> MemoryCache \<times> nat" where
  "PurgeByTag tags mc =
     fold (\<lambda>i st. drop_matching (\<lambda>e. \<exists>t \<in> set (Tags (eresp e)). t \<in> set tags) i
                    (items (shards (fst st) i)) st)
       shard_indices (mc, 0)"

definition purge_shard :: "byte \<Rightarrow> MemoryCache \<Rightarrow> MemoryCache" where
  "purge_shard i mc =
     (let s = shards mc i; freed = sum_list (map (esize \<circ> snd) (items s)) in
      (set_shard i (s\<lparr>items := [], lru := []\<rparr>) mc)\<lparr>usedBytes := usedBytes mc - freed\<rparr>)"

definition PurgeAll :: "MemoryCache \<Rightarrow> MemoryCache" where
  "PurgeAll mc = fold purge_shard shard_indices mc"

definition cleanExpired :: "instant \<Rightarrow> MemoryCache \<Rightarrow> MemoryCache" where
  "cleanExpired now mc =
     fst (fold (\<lambda>i st. drop_matching (\<lambda>e. IsExpired now (eresp e)) i (items (shards (fst st) i)) st)
            shard_indices (mc, 0))"

definition MemStats :: "MemoryCache \<Rightarrow> int \<times> int \<times> int \<times> int" where
  "MemStats mc = (hits mc, misses mc, stales mc, usedBytes mc)"

definition MemLen :: "MemoryCache \<Rightarrow> nat" where
  "MemLen mc = sum_list (map (\<lambda>i. length (items (shards mc i))) shard_indices)"

section \<open>The invariant\<close>

definition shard_bytes :: "shard \<Rightarrow> int" where
  "shard_bytes s = sum_list (map esize (lru s))"

definition shard_ok :: "byte \<Rightarrow> shard \<Rightarrow> bool" where
  "shard_ok i s \<longleftrightarrow> distinct (map fst (items s)) \<and> mset (lru s) = mset (map snd (items s))
     \<and> (\<forall>(k, e) \<in> set (items s). ekey e = k \<and> shardIdx k = i \<and> esize e = memoryCost k (eresp e))"

definition cache_inv :: "MemoryCache \<Rightarrow> bool" where
  "cache_inv mc \<longleftrightarrow> (\<forall>i. shard_ok i (shards mc i))
     \<and> usedBytes mc = (\<Sum>i\<in>UNIV. shard_bytes (shards mc i))
     \<and> usedBytes mc \<le> maxBytes mc"

lemma sum_fun_upd:
  fixes f :: "'b \<Rightarrow> int" and g :: "'a :: finite \<Rightarrow> 'b"
  shows "(\<Sum>j\<in>UNIV. f ((g(i := x)) j)) = (\<Sum>j\<in>UNIV. f (g j)) - f (g i) + f x"
proof -
  have "(\<Sum>j\<in>UNIV. f ((g(i := x)) j)) = f x + (\<Sum>j\<in>UNIV - {i}. f ((g(i := x)) j))"
    by (simp add: sum.remove [of UNIV i])
  also have "(\<Sum>j\<in>UNIV - {i}. f ((g(i := x)) j)) = (\<Sum>j\<in>UNIV - {i}. f (g j))"
    by (rule sum.cong) auto
  also have "(\<Sum>j\<in>UNIV - {i}. f (g j)) = (\<Sum>j\<in>UNIV. f (g j)) - f (g i)"
    by (simp add: sum.remove [of UNIV i])
  finally show ?thesis by simp
qed

lemma headers_size_nonneg: "0 \<le> headers_size hs"
  by (induction hs) (auto simp: headers_size_def intro!: add_nonneg_nonneg sum_list_nonneg)

lemma memoryCost_pos: "0 < memoryCost k r"
proof -
  have "0 \<le> sum_list (map (\<lambda>tag. int (length tag)) (Tags r))"
    by (rule sum_list_nonneg) auto
  then show ?thesis
    using headers_size_nonneg [of "Headers r"]
    by (simp add: memoryCost_def Size_def memEntryOverhead_def memHeaderOverhead_def)
qed

lemma shard_ok_entry:
  assumes "shard_ok i s" and "e \<in> set (lru s)"
  shows "map_of (items s) (ekey e) = Some e" and "shardIdx (ekey e) = i" and "0 < esize e"
proof -
  from assms have "e \<in> snd ` set (items s)"
    by (metis (no_types, lifting) shard_ok_def set_map set_mset_mset)
  then obtain k where k: "(k, e) \<in> set (items s)" by auto
  with assms(1) have e: "ekey e = k" "shardIdx k = i" "esize e = memoryCost k (eresp e)"
    by (auto simp: shard_ok_def)
  with k assms(1) show "map_of (items s) (ekey e) = Some e"
    by (simp add: shard_ok_def)
  show "shardIdx (ekey e) = i" using e by simp
  show "0 < esize e" using e memoryCost_pos by simp
qed

lemma shard_ok_lookup:
  assumes "shard_ok i s" and "map_of (items s) k = Some e"
  shows "e \<in> set (lru s)" and "ekey e = k"
proof -
  from assms(2) have k: "(k, e) \<in> set (items s)" by (rule map_of_SomeD)
  then have "e \<in> set (map snd (items s))" by force
  then show "e \<in> set (lru s)" using assms(1) by (metis shard_ok_def set_mset_mset)
  show "ekey e = k" using k assms(1) by (auto simp: shard_ok_def)
qed

lemma map_delete_mset:
  "distinct (map fst m) \<Longrightarrow> map_of m k = Some e \<Longrightarrow> mset (map snd (map_delete k m)) = mset (map snd m) - {#e#}"
proof (induction m)
  case Nil
  then show ?case by simp
next
  case (Cons x m)
  obtain k' e' where x: "x = (k', e')" by (cases x)
  show ?case
  proof (cases "k' = k")
    case True
    with Cons.prems x have "k \<notin> fst ` set m" by auto
    then have "map_delete k m = m" by (auto simp: map_delete_def filter_id_conv)
    with True Cons.prems x show ?thesis by (simp add: map_delete_def)
  next
    case False
    with Cons x have "mset (map snd (map_delete k m)) = mset (map snd m) - {#e#}"
      and "e \<in># mset (map snd m)"
      by (auto dest!: map_of_SomeD intro: rev_image_eqI)
    with False x show ?thesis by (simp add: map_delete_def)
  qed
qed

lemma shard_bytes_remove1:
  "e \<in> set (lru s) \<Longrightarrow> sum_list (map esize (remove1 e (lru s))) = shard_bytes s - esize e"
  by (simp add: shard_bytes_def sum_list_map_remove1)

lemma shard_ok_drop:
  assumes "shard_ok i s" and "e \<in> set (lru s)"
  shows "shard_ok i (s\<lparr>lru := remove1 e (lru s), items := map_delete (ekey e) (items s)\<rparr>)"
  using assms shard_ok_entry(1) [OF assms] map_delete_mset [of "items s" "ekey e" e]
  by (auto simp: shard_ok_def distinct_map_delete set_map_delete)

lemma drop_entry_simps [simp]:
  "maxBytes (drop_entry i e mc) = maxBytes mc"
  "usedBytes (drop_entry i e mc) = usedBytes mc - esize e"
  "lru (shards (drop_entry i e mc) i) = remove1 e (lru (shards mc i))"
  "items (shards (drop_entry i e mc) i) = map_delete (ekey e) (items (shards mc i))"
  "j \<noteq> i \<Longrightarrow> shards (drop_entry i e mc) j = shards mc j"
  by (simp_all add: drop_entry_def Let_def)

lemma drop_entry_inv [inv_intros]:
  assumes "cache_inv mc" and "e \<in> set (lru (shards mc i))"
  shows "cache_inv (drop_entry i e mc)"
proof -
  from assms(1) have ok: "shard_ok i (shards mc i)" by (simp add: cache_inv_def)
  let ?s = "(shards mc i)\<lparr>lru := remove1 e (lru (shards mc i)),
                           items := map_delete (ekey e) (items (shards mc i))\<rparr>"
  have b: "shard_bytes ?s = shard_bytes (shards mc i) - esize e"
    using shard_bytes_remove1 [OF assms(2)] by (simp add: shard_bytes_def)
  have "(\<Sum>j\<in>UNIV. shard_bytes (((shards mc)(i := ?s)) j))
      = (\<Sum>j\<in>UNIV. shard_bytes (shards mc j)) - esize e"
    by (simp only: sum_fun_upd b)
  with assms shard_ok_drop [OF ok assms(2)] shard_ok_entry(3) [OF ok assms(2)] show ?thesis
    by (simp add: cache_inv_def drop_entry_def Let_def)
qed

section \<open>Lookups\<close>

text \<open>The abstract content of the cache: a partial map from keys to responses.\<close>

definition lookup :: "MemoryCache \<Rightarrow> string \<Rightarrow> CachedResponse option" where
  "lookup mc k = map_option eresp (map_of (items (getShard mc k)) k)"

lemma lookup_drop_entry:
  assumes "cache_inv mc" and "e \<in> set (lru (shards mc i))"
  shows "lookup (drop_entry i e mc) = (lookup mc)(ekey e := None)"
proof
  fix k
  from assms have i: "shardIdx (ekey e) = i"
    by (auto simp: cache_inv_def dest: shard_ok_entry(2))
  show "lookup (drop_entry i e mc) k = ((lookup mc)(ekey e := None)) k"
    using i by (cases "shardIdx k = i") (auto simp: lookup_def map_of_map_delete)
qed

lemma shard_ok_distinct_lru:
  assumes "shard_ok i s" shows "distinct (lru s)"
proof -
  have "distinct (map ekey (map snd (items s)))"
  proof -
    have "map ekey (map snd (items s)) = map fst (items s)"
      using assms by (auto simp: shard_ok_def)
    moreover have "distinct (map fst (items s))" using assms by (simp add: shard_ok_def)
    ultimately show ?thesis by (simp only:)
  qed
  then have "distinct (map snd (items s))" by (simp only: distinct_map)
  then show ?thesis using assms by (metis shard_ok_def mset_eq_imp_distinct_iff)
qed

lemma remove1_last: "distinct xs \<Longrightarrow> xs \<noteq> [] \<Longrightarrow> remove1 (last xs) xs = butlast xs"
  by (metis append_butlast_last_id distinct_append list.set_intros(1) not_distinct_conv_prefix
        remove1_append remove1.simps(2) append_Nil2 disjoint_iff)

lemma evictLRU_inv [inv_intros]: "cache_inv mc \<Longrightarrow> cache_inv (evictLRU i mc)"
  by (simp add: evictLRU_def drop_entry_inv)

text \<open>
  \<open>shrinks mc mc'\<close>: the cache may have forgotten entries of shard \<open>i\<close>, the least recently used
  ones first, and nothing else has changed.
\<close>

definition shrinks :: "byte \<Rightarrow> MemoryCache \<Rightarrow> MemoryCache \<Rightarrow> bool" where
  "shrinks i mc mc' \<longleftrightarrow> maxBytes mc' = maxBytes mc \<and> (\<forall>j. j \<noteq> i \<longrightarrow> shards mc' j = shards mc j)
     \<and> (\<exists>n. lru (shards mc' i) = take n (lru (shards mc i)))
     \<and> (\<forall>k. lookup mc' k = lookup mc k \<or> lookup mc' k = None)"

lemma shrinks_refl: "shrinks i mc mc"
  by (auto simp: shrinks_def intro: exI [of _ "length (lru (shards mc i))"])

lemma shrinks_trans: "shrinks i a b \<Longrightarrow> shrinks i b c \<Longrightarrow> shrinks i a c"
  unfolding shrinks_def by (simp add: take_take) (metis take_take)

lemma evictLRU_shrinks: "cache_inv mc \<Longrightarrow> shrinks i mc (evictLRU i mc)"
proof (cases "lru (shards mc i) = []")
  case True
  then show ?thesis by (simp add: evictLRU_def shrinks_refl)
next
  case False
  assume inv: "cache_inv mc"
  then have "distinct (lru (shards mc i))"
    by (auto simp: cache_inv_def intro: shard_ok_distinct_lru)
  with False inv show ?thesis
    by (auto simp: evictLRU_def shrinks_def lookup_drop_entry remove1_last butlast_conv_take)
qed

lemma evictLoop_spec:
  "cache_inv mc \<Longrightarrow> cache_inv (evictLoop i sz mc) \<and> shrinks i mc (evictLoop i sz mc)
     \<and> (usedBytes (evictLoop i sz mc) + sz \<le> maxBytes mc \<or> lru (shards (evictLoop i sz mc) i) = [])"
proof (induction i sz mc rule: evictLoop.induct)
  case (1 i sz mc)
  show ?case
  proof (cases "usedBytes mc + sz > maxBytes mc \<and> lru (shards mc i) \<noteq> []")
    case True
    then have e: "evictLoop i sz mc = evictLoop i sz (evictLRU i mc)"
      by (subst evictLoop.simps) simp
    have s: "shrinks i mc (evictLRU i mc)" using 1(2) by (rule evictLRU_shrinks)
    then have "maxBytes (evictLRU i mc) = maxBytes mc" by (simp add: shrinks_def)
    with 1(1) [OF True evictLRU_inv [OF 1(2)]] s show ?thesis
      by (auto simp: e intro: shrinks_trans)
  next
    case False
    then show ?thesis using 1(2) by (subst (1 2 3 4) evictLoop.simps) (auto simp: shrinks_refl)
  qed
qed

text \<open>Storing a new entry at the front of its shard.\<close>

definition store_entry :: "string \<Rightarrow> CachedResponse \<Rightarrow> MemoryCache \<Rightarrow> MemoryCache" where
  "store_entry key resp mc =
     (let i = shardIdx key; s = shards mc i;
          e = \<lparr>ekey = key, eresp = resp, esize = memoryCost key resp\<rparr> in
      (set_shard i (s\<lparr>lru := e # lru s, items := (key, e) # items s\<rparr>) mc)
        \<lparr>usedBytes := usedBytes mc + memoryCost key resp\<rparr>)"

lemma lookup_store_entry: "lookup (store_entry key resp mc) = (lookup mc)(key \<mapsto> resp)"
  by (rule ext) (auto simp: lookup_def store_entry_def Let_def)

lemma store_entry_inv:
  assumes "cache_inv mc" and "lookup mc key = None"
    and "usedBytes mc + memoryCost key resp \<le> maxBytes mc"
  shows "cache_inv (store_entry key resp mc)"
proof -
  let ?i = "shardIdx key" and ?e = "\<lparr>ekey = key, eresp = resp, esize = memoryCost key resp\<rparr>"
  let ?s = "(shards mc ?i)\<lparr>lru := ?e # lru (shards mc ?i), items := (key, ?e) # items (shards mc ?i)\<rparr>"
  have "shard_ok ?i (shards mc ?i)" using assms(1) by (simp add: cache_inv_def)
  moreover have "key \<notin> fst ` set (items (shards mc ?i))"
    using assms(2) by (simp add: lookup_def map_of_eq_None_iff)
  ultimately have ok: "shard_ok ?i ?s" by (auto simp: shard_ok_def)
  have b: "shard_bytes ?s = shard_bytes (shards mc ?i) + memoryCost key resp"
    by (simp add: shard_bytes_def)
  have "(\<Sum>j\<in>UNIV. shard_bytes (((shards mc)(?i := ?s)) j))
      = (\<Sum>j\<in>UNIV. shard_bytes (shards mc j)) + memoryCost key resp"
    by (simp only: sum_fun_upd b)
  with assms ok show ?thesis
    by (simp add: cache_inv_def store_entry_def Let_def)
qed

section \<open>Operations against the abstract content\<close>

lemma MemDelete_spec:
  assumes "cache_inv mc"
  shows "cache_inv (MemDelete k mc)" and "lookup (MemDelete k mc) = (lookup mc)(k := None)"
    and "maxBytes (MemDelete k mc) = maxBytes mc"
    and "j \<noteq> shardIdx k \<Longrightarrow> shards (MemDelete k mc) j = shards mc j"
proof -
  have ok: "shard_ok (shardIdx k) (getShard mc k)" using assms by (simp add: cache_inv_def)
  have "cache_inv (MemDelete k mc) \<and> lookup (MemDelete k mc) = (lookup mc)(k := None)
      \<and> maxBytes (MemDelete k mc) = maxBytes mc
      \<and> (j \<noteq> shardIdx k \<longrightarrow> shards (MemDelete k mc) j = shards mc j)"
  proof (cases "map_of (items (getShard mc k)) k")
    case None
    with assms show ?thesis by (auto simp: MemDelete_def lookup_def fun_eq_iff)
  next
    case (Some e)
    from shard_ok_lookup [OF ok Some] assms show ?thesis
      by (simp add: MemDelete_def Some drop_entry_inv lookup_drop_entry)
  qed
  then show "cache_inv (MemDelete k mc)" and "lookup (MemDelete k mc) = (lookup mc)(k := None)"
    and "maxBytes (MemDelete k mc) = maxBytes mc"
    and "j \<noteq> shardIdx k \<Longrightarrow> shards (MemDelete k mc) j = shards mc j"
    by auto
qed

lemma MemSet_unfold:
  "MemSet key resp mc =
     (let mc1 = MemDelete key mc in
      if memoryCost key resp > maxBytes mc1 then mc1
      else
        (let mc2 = evictLoop (shardIdx key) (memoryCost key resp) mc1 in
         if usedBytes mc2 + memoryCost key resp > maxBytes mc2 then mc2
         else store_entry key resp mc2))"
  by (simp add: MemSet_def MemDelete_def store_entry_def Let_def cong: option.case_cong)

lemma MemSet_spec:
  assumes "cache_inv mc"
  shows "cache_inv (MemSet key resp mc) \<and> maxBytes (MemSet key resp mc) = maxBytes mc
     \<and> lookup (MemSet key resp mc) key \<in> {None, Some resp}
     \<and> (\<forall>k. k \<noteq> key \<longrightarrow> lookup (MemSet key resp mc) k \<in> {None, lookup mc k})"
proof -
  let ?mc1 = "MemDelete key mc" and ?c = "memoryCost key resp"
  let ?mc2 = "evictLoop (shardIdx key) ?c ?mc1"
  note d = MemDelete_spec [OF assms, where k = key]
  note ev = evictLoop_spec [OF d(1), of "shardIdx key" ?c]
  have l2: "lookup ?mc2 k = lookup ?mc1 k \<or> lookup ?mc2 k = None" for k
    using ev by (simp add: shrinks_def)
  have none: "lookup ?mc2 key = None" using l2 [of key] d(2) by auto
  have other: "lookup ?mc2 k \<in> {None, lookup mc k}" if "k \<noteq> key" for k
    using l2 [of k] d(2) that by auto
  have inv2: "cache_inv ?mc2" and max2: "maxBytes ?mc2 = maxBytes mc"
    using ev d(3) by (simp_all add: shrinks_def)
  consider (big) "?c > maxBytes ?mc1" "MemSet key resp mc = ?mc1"
    | (full) "MemSet key resp mc = ?mc2"
    | (stored) "usedBytes ?mc2 + ?c \<le> maxBytes ?mc2" "MemSet key resp mc = store_entry key resp ?mc2"
    by (cases "?c > maxBytes ?mc1"; cases "usedBytes ?mc2 + ?c > maxBytes ?mc2")
       (auto simp: MemSet_unfold Let_def)
  then show ?thesis
  proof cases
    case big
    with d show ?thesis by auto
  next
    case full
    with inv2 max2 none other show ?thesis by simp
  next
    case stored
    have "maxBytes (store_entry key resp ?mc2) = maxBytes ?mc2"
      by (simp add: store_entry_def Let_def)
    with stored max2 other store_entry_inv [OF inv2 none stored(1)] show ?thesis
      by (simp add: lookup_store_entry)
  qed
qed

text \<open>A sweep that removes what satisfies \<open>Q\<close> keeps everything else.\<close>

definition without :: "(CachedResponse \<Rightarrow> bool) \<Rightarrow> CachedResponse option \<Rightarrow> CachedResponse option" where
  "without Q x = (case x of Some r \<Rightarrow> if Q r then None else Some r | None \<Rightarrow> None)"

definition live_entries :: "MemoryCache \<Rightarrow> nat" where
  "live_entries mc = (\<Sum>i\<in>UNIV. length (items (shards mc i)))"

lemma live_entries_drop:
  assumes "cache_inv mc" and "e \<in> set (lru (shards mc i))"
  shows "live_entries (drop_entry i e mc) + 1 = live_entries mc"
proof -
  have ok: "shard_ok i (shards mc i)" using assms(1) by (simp add: cache_inv_def)
  have "mset (lru (shards mc i)) = mset (map snd (items (shards mc i)))"
    and "mset (remove1 e (lru (shards mc i))) = mset (map snd (map_delete (ekey e) (items (shards mc i))))"
    using ok shard_ok_drop [OF ok assms(2)] by (simp_all add: shard_ok_def)
  then have "length (lru (shards mc i)) = length (items (shards mc i))"
    and "length (remove1 e (lru (shards mc i))) = length (map_delete (ekey e) (items (shards mc i)))"
    by (metis length_map mset_eq_length)+
  moreover have "length (lru (shards mc i)) > 0" using assms(2) by (cases "lru (shards mc i)") auto
  ultimately have len: "length (map_delete (ekey e) (items (shards mc i))) + 1 = length (items (shards mc i))"
    using assms(2) by (simp add: length_remove1 del: length_greater_0_conv)
  have "live_entries (drop_entry i e mc)
      = length (map_delete (ekey e) (items (shards mc i))) + (\<Sum>j\<in>UNIV - {i}. length (items (shards mc j)))"
    unfolding live_entries_def by (subst sum.remove [of UNIV i]) (auto intro!: sum.cong)
  moreover have "live_entries mc
      = length (items (shards mc i)) + (\<Sum>j\<in>UNIV - {i}. length (items (shards mc j)))"
    unfolding live_entries_def by (subst sum.remove [of UNIV i]) auto
  ultimately show ?thesis using len by simp
qed

lemma drop_matching_spec:
  assumes "cache_inv mc" and "distinct (map fst kes)" and "set kes \<subseteq> set (items (shards mc i))"
    and "drop_matching P i kes (mc, n) = (mc', n')"
  shows "cache_inv mc' \<and> maxBytes mc' = maxBytes mc
     \<and> lookup mc' = (\<lambda>k. if \<exists>e. (k, e) \<in> set kes \<and> P e then None else lookup mc k)
     \<and> live_entries mc' + n' = live_entries mc + n"
  using assms
proof (induction kes arbitrary: mc n)
  case Nil
  then show ?case by simp
next
  case (Cons x kes)
  obtain k e where x: "x = (k, e)" by (cases x)
  have ok: "shard_ok i (shards mc i)" using Cons.prems(1) by (simp add: cache_inv_def)
  have "map_of (items (shards mc i)) k = Some e"
    using Cons.prems(3) ok x by (auto simp: shard_ok_def)
  with shard_ok_lookup [OF ok this] have e: "e \<in> set (lru (shards mc i))" "ekey e = k"
    by simp_all
  show ?case
  proof (cases "P e")
    case False
    then have "(\<exists>e'. (a, e') \<in> set (x # kes) \<and> P e') \<longleftrightarrow> (\<exists>e'. (a, e') \<in> set kes \<and> P e')" for a
      using x by auto
    with False Cons x show ?thesis by simp
  next
    case True
    let ?mc = "drop_entry i e mc"
    have "set kes \<subseteq> set (items (shards ?mc i))"
      using Cons.prems(2,3) x e by (force simp: set_map_delete)
    moreover have "drop_matching P i kes (?mc, n + 1) = (mc', n')"
      using Cons.prems(4) x True by simp
    moreover have "distinct (map fst kes)" using Cons.prems(2) x by simp
    ultimately have IH: "cache_inv mc' \<and> maxBytes mc' = maxBytes ?mc
       \<and> lookup mc' = (\<lambda>k. if \<exists>e. (k, e) \<in> set kes \<and> P e then None else lookup ?mc k)
       \<and> live_entries mc' + n' = live_entries ?mc + (n + 1)"
      using Cons.IH [OF drop_entry_inv [OF Cons.prems(1) e(1)]] by blast
    then show ?thesis
      using lookup_drop_entry [OF Cons.prems(1) e(1)] live_entries_drop [OF Cons.prems(1) e(1)] e x True
      by (auto simp: fun_eq_iff)
  qed
qed

lemma shard_lookup_cases:
  assumes "cache_inv mc"
  shows "(\<exists>e. (k, e) \<in> set (items (shards mc i)) \<and> Q (eresp e))
           \<longleftrightarrow> shardIdx k = i \<and> (\<exists>r. lookup mc k = Some r \<and> Q r)"
proof -
  have ok: "shard_ok i (shards mc i)" using assms by (simp add: cache_inv_def)
  then have "distinct (map fst (items (shards mc i)))" by (simp add: shard_ok_def)
  then have "(k, e) \<in> set (items (shards mc i)) \<longleftrightarrow> map_of (items (shards mc i)) k = Some e" for e
    by simp
  moreover have "shardIdx k = i" if "map_of (items (shards mc i)) k = Some e" for e
    using that ok by (auto simp: shard_ok_def dest!: map_of_SomeD)
  ultimately show ?thesis by (auto simp: lookup_def)
qed

text \<open>The sweep over all shards that removes the responses satisfying \<open>Q\<close>.\<close>

abbreviation sweep_step ::
  "(CachedResponse \<Rightarrow> bool) \<Rightarrow> byte \<Rightarrow> MemoryCache \<times> nat \<Rightarrow> MemoryCache \<times> nat" where
  "sweep_step Q i st \<equiv> drop_matching (\<lambda>e. Q (eresp e)) i (items (shards (fst st) i)) st"

lemma sweep_step_spec:
  assumes "cache_inv mc" and "sweep_step Q i (mc, n) = (mc', n')"
  shows "cache_inv mc' \<and> maxBytes mc' = maxBytes mc
     \<and> lookup mc' = (\<lambda>k. if shardIdx k = i then without Q (lookup mc k) else lookup mc k)
     \<and> live_entries mc' + n' = live_entries mc + n"
proof -
  have "distinct (map fst (items (shards mc i)))"
    using assms(1) by (simp add: cache_inv_def shard_ok_def)
  from drop_matching_spec [OF assms(1) this subset_refl assms(2) [simplified fst_conv]]
  show ?thesis
    by (auto simp: shard_lookup_cases [OF assms(1)] without_def fun_eq_iff split: option.splits)
qed

lemma without_idem [simp]: "without Q (without Q x) = without Q x"
  by (simp add: without_def split: option.splits)

lemma sweep_spec:
  assumes "cache_inv mc" and "fold (sweep_step Q) is (mc, n) = (mc', n')"
  shows "cache_inv mc' \<and> maxBytes mc' = maxBytes mc
     \<and> lookup mc' = (\<lambda>k. if shardIdx k \<in> set is then without Q (lookup mc k) else lookup mc k)
     \<and> live_entries mc' + n' = live_entries mc + n"
  using assms
proof (induction "is" arbitrary: mc n)
  case Nil
  then show ?case by simp
next
  case (Cons i js)
  obtain mc1 n1 where one: "sweep_step Q i (mc, n) = (mc1, n1)"
    by (cases "sweep_step Q i (mc, n)")
  note s1 = sweep_step_spec [OF Cons.prems(1) one]
  from Cons.prems(2) one have "fold (sweep_step Q) js (mc1, n1) = (mc', n')" by simp
  with Cons.IH s1 have "cache_inv mc' \<and> maxBytes mc' = maxBytes mc1
     \<and> lookup mc' = (\<lambda>k. if shardIdx k \<in> set js then without Q (lookup mc1 k) else lookup mc1 k)
     \<and> live_entries mc' + n' = live_entries mc1 + n1"
    by blast
  with s1 show ?case by (auto simp: fun_eq_iff)
qed

lemma set_shard_indices [simp]: "set shard_indices = UNIV"
proof -
  have "b \<in> set shard_indices" for b :: byte
  proof -
    have "unat b < 2 ^ LENGTH(8)" by (rule unsigned_less)
    then have "unat b \<in> set [0..<256]" by simp
    then have "word_of_nat (unat b) \<in> set shard_indices"
      unfolding shard_indices_def set_map by (rule imageI)
    then show ?thesis by simp
  qed
  then show ?thesis by auto
qed

lemma PurgeByTag_spec:
  assumes "cache_inv mc" and "PurgeByTag tags mc = (mc', n)"
  shows "cache_inv mc' \<and> maxBytes mc' = maxBytes mc
     \<and> lookup mc' = (\<lambda>k. without (\<lambda>r. \<exists>t \<in> set (Tags r). t \<in> set tags) (lookup mc k))
     \<and> live_entries mc' + n = live_entries mc"
  using sweep_spec [OF assms(1), of "\<lambda>r. \<exists>t \<in> set (Tags r). t \<in> set tags" shard_indices 0 mc' n]
    assms(2)
  by (simp add: PurgeByTag_def)

lemma cleanExpired_spec:
  assumes "cache_inv mc"
  shows "cache_inv (cleanExpired now mc) \<and> maxBytes (cleanExpired now mc) = maxBytes mc
     \<and> lookup (cleanExpired now mc) = (\<lambda>k. without (IsExpired now) (lookup mc k))"
proof -
  obtain mc' n where e: "fold (sweep_step (IsExpired now)) shard_indices (mc, 0) = (mc', n)"
    by (cases "fold (sweep_step (IsExpired now)) shard_indices (mc, 0)")
  then have "cleanExpired now mc = mc'" by (simp add: cleanExpired_def)
  with sweep_spec [OF assms e] show ?thesis by simp
qed

lemma purge_shard_spec:
  assumes "cache_inv mc"
  shows "cache_inv (purge_shard i mc) \<and> maxBytes (purge_shard i mc) = maxBytes mc
     \<and> lookup (purge_shard i mc) = (\<lambda>k. if shardIdx k = i then None else lookup mc k)"
proof -
  have ok: "shard_ok i (shards mc i)" using assms by (simp add: cache_inv_def)
  let ?s = "(shards mc i)\<lparr>items := [], lru := []\<rparr>"
  have "mset (map esize (lru (shards mc i))) = mset (map (esize \<circ> snd) (items (shards mc i)))"
    using ok by (simp add: shard_ok_def multiset.map_comp)
  then have freed: "sum_list (map (esize \<circ> snd) (items (shards mc i))) = shard_bytes (shards mc i)"
    unfolding shard_bytes_def by (metis sum_mset_sum_list)
  have pos: "0 \<le> shard_bytes (shards mc i)"
    unfolding shard_bytes_def using shard_ok_entry(3) [OF ok]
    by (intro sum_list_nonneg) (auto intro: less_imp_le)
  have "(\<Sum>j\<in>UNIV. shard_bytes (((shards mc)(i := ?s)) j))
      = (\<Sum>j\<in>UNIV. shard_bytes (shards mc j)) - shard_bytes (shards mc i)"
    by (simp only: sum_fun_upd) (simp add: shard_bytes_def)
  with assms pos have "cache_inv (purge_shard i mc)"
    by (simp add: cache_inv_def purge_shard_def Let_def freed shard_ok_def)
  then show ?thesis by (auto simp: purge_shard_def Let_def lookup_def fun_eq_iff)
qed

lemma PurgeAll_fold:
  "cache_inv mc \<Longrightarrow> cache_inv (fold purge_shard is mc) \<and> maxBytes (fold purge_shard is mc) = maxBytes mc
     \<and> lookup (fold purge_shard is mc) = (\<lambda>k. if shardIdx k \<in> set is then None else lookup mc k)"
proof (induction "is" arbitrary: mc)
  case Nil
  then show ?case by simp
next
  case (Cons i js)
  from Cons.IH [of "purge_shard i mc"] purge_shard_spec [OF Cons.prems, of i] show ?case
    by (auto simp: fun_eq_iff)
qed

lemma PurgeAll_spec:
  "cache_inv mc \<Longrightarrow> cache_inv (PurgeAll mc) \<and> maxBytes (PurgeAll mc) = maxBytes mc
     \<and> lookup (PurgeAll mc) = (\<lambda>_. None)"
  using PurgeAll_fold [of mc shard_indices] by (simp add: PurgeAll_def)

lemma mset_MoveToFront: "mset (MoveToFront e xs) = mset xs"
  by (simp add: MoveToFront_def)

lemma touch_shard_inv:
  assumes "cache_inv mc" and "items s' = items (shards mc i)" and "mset (lru s') = mset (lru (shards mc i))"
  shows "cache_inv (set_shard i s' mc)"
proof -
  have b: "shard_bytes s' = shard_bytes (shards mc i)"
    unfolding shard_bytes_def using assms(3) by (metis mset_map sum_mset_sum_list)
  have "(\<Sum>j\<in>UNIV. shard_bytes (((shards mc)(i := s')) j)) = (\<Sum>j\<in>UNIV. shard_bytes (shards mc j))"
    by (simp only: sum_fun_upd b)
  with assms show ?thesis by (simp add: cache_inv_def shard_ok_def)
qed

lemma cache_inv_counters [simp]:
  "cache_inv (mc\<lparr>hits := n\<rparr>) = cache_inv mc" "cache_inv (mc\<lparr>misses := n\<rparr>) = cache_inv mc"
  "cache_inv (mc\<lparr>stales := n\<rparr>) = cache_inv mc"
  by (simp_all add: cache_inv_def)

lemma MemGet_spec:
  assumes "cache_inv mc" and "MemGet now key mc = (mc', r, st)"
  shows "cache_inv mc'" and "lookup mc' = lookup mc" and "maxBytes mc' = maxBytes mc"
    and "usedBytes mc' = usedBytes mc"
    and "r = (case lookup mc key of
                None \<Rightarrow> None
              | Some v \<Rightarrow> if IsFresh now v \<or> IsStale now v then Some v else None)"
    and "st = (case lookup mc key of
                 None \<Rightarrow> StatusMiss
               | Some v \<Rightarrow> if IsFresh now v then StatusHit else if IsStale now v then StatusStale
                          else StatusMiss)"
    and "hits mc' + misses mc' + stales mc' = hits mc + misses mc + stales mc + 1"
proof -
  let ?i = "shardIdx key" and ?s = "getShard mc key"
  have t': "cache_inv (mc\<lparr>shards := (shards mc)(?i := (shards mc ?i)\<lparr>readCount := n, lru := l\<rparr>), hits := h\<rparr>)"
    if "mset l = mset (lru ?s)" for l n h
    using touch_shard_inv [OF assms(1), of "(shards mc ?i)\<lparr>readCount := n, lru := l\<rparr>" ?i] that by simp
  have mc': "mc' = fst (MemGet now key mc)" using assms(2) by simp
  have "mc' = (mc\<lparr>misses := misses mc + 1\<rparr>) \<or> mc' = (mc\<lparr>stales := stales mc + 1\<rparr>)
      \<or> (\<exists>l n. mset l = mset (lru ?s) \<and>
          mc' = (mc\<lparr>shards := (shards mc)(?i := (shards mc ?i)\<lparr>readCount := n, lru := l\<rparr>), hits := hits mc + 1\<rparr>))"
  proof (cases "map_of (items ?s) key")
    case None
    with assms(2) show ?thesis by (simp add: MemGet_def Let_def)
  next
    case (Some e)
    show ?thesis
    proof (cases "IsFresh now (eresp e)")
      case True
      let ?n = "readCount ?s + 1"
      let ?l = "if ?n mod lruPromotionRate = 0 then MoveToFront e (lru ?s) else lru ?s"
      have "mc' = (mc\<lparr>shards := (shards mc)(?i := (shards mc ?i)\<lparr>readCount := ?n, lru := ?l\<rparr>), hits := hits mc + 1\<rparr>)"
        unfolding mc' using Some True by (simp add: MemGet_def Let_def)
      moreover have "mset ?l = mset (lru ?s)" by (simp add: mset_MoveToFront)
      ultimately show ?thesis by blast
    next
      case False
      with assms(2) Some show ?thesis by (auto simp: MemGet_def Let_def split: if_splits)
    qed
  qed
  with assms(1) t' show "cache_inv mc'" by auto
  show "lookup mc' = lookup mc"
    using assms(2) by (auto simp: MemGet_def Let_def lookup_def fun_eq_iff split: option.splits if_splits)
  show "maxBytes mc' = maxBytes mc" "usedBytes mc' = usedBytes mc"
    "hits mc' + misses mc' + stales mc' = hits mc + misses mc + stales mc + 1"
    using assms(2) by (auto simp: MemGet_def Let_def split: option.splits if_splits)
  show "r = (case lookup mc key of None \<Rightarrow> None
              | Some v \<Rightarrow> if IsFresh now v \<or> IsStale now v then Some v else None)"
    and "st = (case lookup mc key of None \<Rightarrow> StatusMiss
               | Some v \<Rightarrow> if IsFresh now v then StatusHit else if IsStale now v then StatusStale
                          else StatusMiss)"
    using assms(2) by (auto simp: MemGet_def Let_def lookup_def split: option.splits if_splits)
qed

section \<open>A store that may forget\<close>

text \<open>
  What the cache engine relies on: a lookup never invents a response. The laws are the promises
  of one store; the client lemmas follow every sequence of operations and compare it with an
  unbounded reference map.
\<close>

datatype cache_op =
    OpSet string CachedResponse
  | OpDelete string
  | OpPurgeByTag "string list"
  | OpPurgeAll
  | OpGet instant string
  | OpClean instant

definition tagged :: "string list \<Rightarrow> CachedResponse \<Rightarrow> bool" where
  "tagged tags r \<longleftrightarrow> (\<exists>t \<in> set (Tags r). t \<in> set tags)"

text \<open>The reference: a map without a budget, from which nothing expires.\<close>

fun ref_op :: "cache_op \<Rightarrow> (string \<Rightarrow> CachedResponse option) \<Rightarrow> (string \<Rightarrow> CachedResponse option)" where
  "ref_op (OpSet k r) m = m(k \<mapsto> r)"
| "ref_op (OpDelete k) m = m(k := None)"
| "ref_op (OpPurgeByTag tags) m = (\<lambda>k. without (tagged tags) (m k))"
| "ref_op OpPurgeAll m = (\<lambda>_. None)"
| "ref_op (OpGet now k) m = m"
| "ref_op (OpClean now) m = m"

fun mem_op :: "cache_op \<Rightarrow> MemoryCache \<Rightarrow> MemoryCache" where
  "mem_op (OpSet k r) mc = MemSet k r mc"
| "mem_op (OpDelete k) mc = MemDelete k mc"
| "mem_op (OpPurgeByTag tags) mc = fst (PurgeByTag tags mc)"
| "mem_op OpPurgeAll mc = PurgeAll mc"
| "mem_op (OpGet now k) mc = fst (MemGet now k mc)"
| "mem_op (OpClean now) mc = cleanExpired now mc"

locale response_store =
  fixes inv :: "'s \<Rightarrow> bool" and content :: "'s \<Rightarrow> string \<Rightarrow> CachedResponse option"
    and perform :: "cache_op \<Rightarrow> 's \<Rightarrow> 's" and admissible :: "cache_op \<Rightarrow> bool"
  assumes perform_inv: "inv s \<Longrightarrow> inv (perform c s)"
    and perform_content: "inv s \<Longrightarrow> admissible c \<Longrightarrow> content (perform c s) k \<in> {None, ref_op c (content s) k}"
begin

lemma ref_op_mono:
  assumes "\<And>k. m k \<in> {None, m' k}"
  shows "ref_op c m k \<in> {None, ref_op c m' k}"
  using assms [of k] by (cases c) (auto simp: without_def split: option.splits)

lemma run_inv: "inv s \<Longrightarrow> inv (fold perform cs s)"
  by (induction cs arbitrary: s) (auto intro: perform_inv)

lemma run_coherent:
  assumes "inv s" and "list_all admissible cs" and "\<And>k. content s k \<in> {None, m k}"
  shows "content (fold perform cs s) k \<in> {None, fold ref_op cs m k}"
  using assms
proof (induction cs arbitrary: s m)
  case Nil
  then show ?case by simp
next
  case (Cons c cs)
  have "content (perform c s) k \<in> {None, ref_op c m k}" for k
    using perform_content [OF Cons.prems(1), of c k] ref_op_mono [of "content s" m c k] Cons.prems(2,3) by auto
  with Cons.IH [OF perform_inv [OF Cons.prems(1)]] Cons.prems(2) show ?case by simp
qed

end

text \<open>
  A weaker promise, for stores in which an older response may survive a write that was not carried out:
  whatever is found was set under that key and not deleted or purged since.
\<close>

fun hist_op :: "cache_op \<Rightarrow> (string \<Rightarrow> CachedResponse set) \<Rightarrow> (string \<Rightarrow> CachedResponse set)" where
  "hist_op (OpSet k r) H = H(k := insert r (H k))"
| "hist_op (OpDelete k) H = H(k := {})"
| "hist_op (OpPurgeByTag tags) H = (\<lambda>k. {r \<in> H k. \<not> tagged tags r})"
| "hist_op OpPurgeAll H = (\<lambda>_. {})"
| "hist_op (OpGet now k) H = H"
| "hist_op (OpClean now) H = H"

lemma hist_op_mono: "(\<And>k. H k \<subseteq> H' k) \<Longrightarrow> hist_op c H k \<subseteq> hist_op c H' k"
  by (cases c) auto

lemma ref_op_hist: "ref_op c m k = Some r \<Longrightarrow> r \<in> hist_op c (\<lambda>k. set_option (m k)) k"
  by (cases c) (auto simp: without_def split: if_splits option.splits)

locale history_store =
  fixes inv :: "'s \<Rightarrow> bool" and content :: "'s \<Rightarrow> string \<Rightarrow> CachedResponse option"
    and perform :: "cache_op \<Rightarrow> 's \<Rightarrow> 's" and admissible :: "cache_op \<Rightarrow> bool"
  assumes history_inv: "inv s \<Longrightarrow> inv (perform c s)"
    and history_content: "inv s \<Longrightarrow> admissible c \<Longrightarrow> content (perform c s) k = Some r \<Longrightarrow>
      r \<in> hist_op c (\<lambda>k. set_option (content s k)) k"
begin

lemma step_known:
  assumes "inv s" and "admissible c" and "\<And>k. set_option (content s k) \<subseteq> H k"
  shows "set_option (content (perform c s) k) \<subseteq> hist_op c H k"
  using history_content [OF assms(1,2)] hist_op_mono [OF assms(3)] by (auto simp: subset_iff)

lemma run_known:
  assumes "inv s" and "list_all admissible cs" and "\<And>k. set_option (content s k) \<subseteq> H k"
  shows "set_option (content (fold perform cs s) k) \<subseteq> fold hist_op cs H k"
  using assms
proof (induction cs arbitrary: s H)
  case (Cons c cs)
  have "set_option (content (fold perform cs (perform c s)) k) \<subseteq> fold hist_op cs (hist_op c H) k"
    using Cons.prems step_known by (intro Cons.IH history_inv) auto
  then show ?case by simp
qed simp

end

sublocale response_store \<subseteq> history_store
proof unfold_locales
  show "inv s \<Longrightarrow> inv (perform c s)" for s c by (rule perform_inv)
next
  fix s c k r
  assume "inv s" "admissible c" "content (perform c s) k = Some r"
  with perform_content [of s c k] have "ref_op c (content s) k = Some r" by auto
  then show "r \<in> hist_op c (\<lambda>k. set_option (content s k)) k" by (rule ref_op_hist)
qed

lemma mem_op_spec:
  assumes "cache_inv mc"
  shows "cache_inv (mem_op c mc)" and "maxBytes (mem_op c mc) = maxBytes mc"
    and "lookup (mem_op c mc) k \<in> {None, ref_op c (lookup mc) k}"
proof -
  have "cache_inv (mem_op c mc) \<and> maxBytes (mem_op c mc) = maxBytes mc
      \<and> lookup (mem_op c mc) k \<in> {None, ref_op c (lookup mc) k}"
  proof (cases c)
    case (OpSet k' r)
    then show ?thesis using MemSet_spec [OF assms, of k' r] by (cases "k = k'") auto
  next
    case (OpDelete k')
    then show ?thesis using MemDelete_spec [OF assms, where k = k'] by simp
  next
    case (OpPurgeByTag tags)
    obtain mc' n where "PurgeByTag tags mc = (mc', n)" by (cases "PurgeByTag tags mc")
    with PurgeByTag_spec [OF assms this] OpPurgeByTag show ?thesis by (simp add: tagged_def [abs_def])
  next
    case OpPurgeAll
    then show ?thesis using PurgeAll_spec [OF assms] by simp
  next
    case (OpGet now k')
    obtain mc' r st where "MemGet now k' mc = (mc', r, st)" by (cases "MemGet now k' mc")
    with MemGet_spec [OF assms this] OpGet show ?thesis by simp
  next
    case (OpClean now)
    then show ?thesis using cleanExpired_spec [OF assms, of now]
      by (simp add: without_def split: option.splits)
  qed
  then show "cache_inv (mem_op c mc)" and "maxBytes (mem_op c mc) = maxBytes mc"
    and "lookup (mem_op c mc) k \<in> {None, ref_op c (lookup mc) k}"
    by auto
qed

interpretation mem: response_store cache_inv lookup mem_op "\<lambda>_. True"
  by unfold_locales (simp_all only: mem_op_spec)

lemma cache_inv_New: "0 \<le> b \<Longrightarrow> cache_inv (NewMemoryCache b)"
  by (simp add: cache_inv_def NewMemoryCache_def shard_ok_def empty_shard_def shard_bytes_def)

lemma lookup_New [simp]: "lookup (NewMemoryCache b) = (\<lambda>_. None)"
  by (simp add: lookup_def NewMemoryCache_def empty_shard_def fun_eq_iff)

lemma maxBytes_run: "cache_inv mc \<Longrightarrow> maxBytes (fold mem_op cs mc) = maxBytes mc"
  by (induction cs arbitrary: mc) (simp_all add: mem_op_spec)

lemma shard_keys:
  assumes "cache_inv mc"
  shows "k \<in> fst ` set (items (shards mc i)) \<longleftrightarrow> shardIdx k = i \<and> lookup mc k \<noteq> None"
  using shard_lookup_cases [OF assms, of k i "\<lambda>_. True"] by force

lemma live_keys:
  assumes "cache_inv mc"
  shows "{k. lookup mc k \<noteq> None} = (\<Union>i. fst ` set (items (shards mc i)))"
  by (simp only: set_eq_iff UN_iff mem_Collect_eq shard_keys [OF assms]) simp

lemma card_live_keys:
  assumes "cache_inv mc"
  shows "card {k. lookup mc k \<noteq> None} = live_entries mc"
proof -
  have ok: "shard_ok i (shards mc i)" for i using assms by (simp add: cache_inv_def)
  have "card (\<Union>i. fst ` set (items (shards mc i))) = (\<Sum>i\<in>UNIV. card (fst ` set (items (shards mc i))))"
    by (rule card_UN_disjoint)
       (simp, simp, simp only: disjoint_iff shard_keys [OF assms] ball_UNIV, simp)
  also have "\<dots> = live_entries mc"
    unfolding live_entries_def
  proof (rule sum.cong [OF refl])
    fix i
    have "distinct (map fst (items (shards mc i)))" using ok by (simp add: shard_ok_def)
    from distinct_card [OF this] show "card (fst ` set (items (shards mc i))) = length (items (shards mc i))"
      by simp
  qed
  finally show ?thesis using live_keys [OF assms] by simp
qed

lemma MemLen_live_entries: "MemLen mc = live_entries mc"
proof -
  have "distinct shard_indices"
    by (rule card_distinct) (simp add: card_word, simp add: shard_indices_def)
  from sum_list_distinct_conv_sum_set [OF this] show ?thesis
    by (simp add: MemLen_def live_entries_def)
qed

lemma shard_bytes_items:
  assumes "shard_ok i s"
  shows "shard_bytes s = (\<Sum>(k, e)\<leftarrow>items s. memoryCost k (eresp e))"
proof -
  have "mset (map esize (lru s)) = mset (map (\<lambda>(k, e). esize e) (items s))"
    using assms by (simp add: shard_ok_def multiset.map_comp comp_def case_prod_unfold)
  then have "shard_bytes s = sum_list (map (\<lambda>(k, e). esize e) (items s))"
    unfolding shard_bytes_def by (metis sum_mset_sum_list)
  also have "map (\<lambda>(k, e). esize e) (items s) = map (\<lambda>(k, e). memoryCost k (eresp e)) (items s)"
    using assms by (auto simp: shard_ok_def)
  finally show ?thesis .
qed

section \<open>Properties\<close>

text \<open>
  C6. Coherence. Whatever sequence of \<open>Set\<close>, \<open>Delete\<close>, \<open>PurgeByTag\<close>, \<open>PurgeAll\<close>, \<open>Get\<close> and cleanup
  runs a cache has gone through, a response returned by \<open>Get\<close> is the one most recently set for
  exactly that key and not deleted or purged since (evictions may lose it, never replace it), it is
  reported as a hit exactly if it is fresh, and otherwise it is within its grace period.
\<close>

theorem MemGet_coherent:
  assumes "0 \<le> b"
  shows "case MemGet now k (fold mem_op cs (NewMemoryCache b)) of
           (mc', Some r, st) \<Rightarrow> fold ref_op cs (\<lambda>_. None) k = Some r
              \<and> (if IsFresh now r then st = StatusHit else IsStale now r \<and> st = StatusStale)
         | (mc', None, st) \<Rightarrow> st = StatusMiss"
proof -
  let ?mc = "fold mem_op cs (NewMemoryCache b)"
  obtain mc' r st where g: "MemGet now k ?mc = (mc', r, st)" by (cases "MemGet now k ?mc")
  note inv = mem.run_inv [OF cache_inv_New [OF assms], of cs]
  have c: "lookup ?mc k \<in> {None, fold ref_op cs (\<lambda>_. None) k}"
    by (rule mem.run_coherent [OF cache_inv_New [OF assms]]) (simp_all add: list_all_iff)
  show ?thesis
    using MemGet_spec(5,6) [OF inv g] c
    by (auto simp: g split: option.splits if_splits)
qed

theorem MemGet_coherent_witness:
  "case MemGet 5 ''k'' (fold mem_op [OpSet ''k'' example_response] (NewMemoryCache 100000)) of
      (mc', Some r, st) \<Rightarrow> fold ref_op [OpSet ''k'' example_response] (\<lambda>_. None) ''k'' = Some r
          \<and> (if IsFresh 5 r then st = StatusHit else IsStale 5 r \<and> st = StatusStale)
    | (mc', None, st) \<Rightarrow> st = StatusMiss"
  by (rule MemGet_coherent) simp



text \<open>
  Tag purge. \<open>PurgeByTag\<close> removes every entry that carries one of the tags and no other entry,
  and the number it returns is the number of entries removed.
\<close>

theorem PurgeByTag_exact:
  assumes "0 \<le> b" and "mc = fold mem_op cs (NewMemoryCache b)" and "PurgeByTag tags mc = (mc', n)"
  shows "(\<forall>k. lookup mc' k = (case lookup mc k of
             Some r \<Rightarrow> if set (Tags r) \<inter> set tags = {} then Some r else None | None \<Rightarrow> None))
     \<and> MemLen mc' + n = MemLen mc"
proof -
  note inv = mem.run_inv [OF cache_inv_New [OF assms(1)], of cs, folded assms(2)]
  from PurgeByTag_spec [OF inv assms(3)] show ?thesis
    by (auto simp: without_def MemLen_live_entries split: option.splits)
qed

theorem PurgeByTag_exact_witness:
  "\<exists>mc mc' n. mc = fold mem_op [OpSet ''k'' example_response] (NewMemoryCache 2000)
     \<and> PurgeByTag [''a''] mc = (mc', n) \<and> MemLen mc' + n = MemLen mc"
proof -
  obtain mc' n where p: "PurgeByTag [''a''] (fold mem_op [OpSet ''k'' example_response] (NewMemoryCache 2000)) = (mc', n)"
    by (cases "PurgeByTag [''a''] (fold mem_op [OpSet ''k'' example_response] (NewMemoryCache 2000))")
  from PurgeByTag_exact [OF _ refl p] have "MemLen mc' + n
      = MemLen (fold mem_op [OpSet ''k'' example_response] (NewMemoryCache 2000))" by simp
  with p show ?thesis by blast
qed

lemma other_shards_bytes:
  assumes "cache_inv mc"
  shows "usedBytes mc - shard_bytes (shards mc i) = (\<Sum>j\<in>UNIV - {i}. shard_bytes (shards mc j))"
  using assms sum.remove [of UNIV i "\<lambda>j. shard_bytes (shards mc j)"] by (simp add: cache_inv_def)

lemma shard_ok_remove1_filter:
  assumes "shard_ok i s" and "map_of (items s) key = Some e"
  shows "remove1 e (lru s) = filter (\<lambda>e. ekey e \<noteq> key) (lru s)"
proof -
  have "x = e \<longleftrightarrow> ekey x = key" if "x \<in> set (lru s)" for x
    using shard_ok_entry(1) [OF assms(1) that] shard_ok_lookup(2) [OF assms] assms(2)
    by (metis option.inject)
  then have "filter (\<lambda>x. ekey x \<noteq> key) (lru s) = filter (\<lambda>x. e \<noteq> x) (lru s)"
    by (intro filter_cong [OF refl]) metis
  also have "\<dots> = remove1 e (lru s)"
    unfolding removeAll_filter_not_eq [symmetric]
    using distinct_remove1_removeAll [OF shard_ok_distinct_lru [OF assms(1)]] by simp
  finally show ?thesis by simp
qed

lemma MemDelete_lru:
  assumes "cache_inv mc"
  shows "lru (getShard (MemDelete key mc) key) = filter (\<lambda>e. ekey e \<noteq> key) (lru (getShard mc key))"
proof -
  have ok: "shard_ok (shardIdx key) (getShard mc key)" using assms by (simp add: cache_inv_def)
  show ?thesis
  proof (cases "map_of (items (getShard mc key)) key")
    case None
    have "ekey e \<noteq> key" if "e \<in> set (lru (getShard mc key))" for e
      using shard_ok_entry(1) [OF ok that] None by auto
    then show ?thesis using None by (simp add: MemDelete_def)
  next
    case (Some e)
    with shard_ok_remove1_filter [OF ok Some] show ?thesis by (simp add: MemDelete_def)
  qed
qed

lemma MemSet_store:
  assumes "cache_inv mc" and "usedBytes mc - shard_bytes (getShard mc key) + memoryCost key resp \<le> maxBytes mc"
  defines "mc2 \<equiv> evictLoop (shardIdx key) (memoryCost key resp) (MemDelete key mc)"
  shows "MemSet key resp mc = store_entry key resp mc2"
proof -
  let ?i = "shardIdx key"
  note d = MemDelete_spec [OF assms(1), where k = key]
  note ev = evictLoop_spec [OF d(1), of ?i "memoryCost key resp", folded mc2_def]
  have inv2: "cache_inv mc2" and same: "shards mc2 j = shards mc j" if "j \<noteq> ?i" for j
    using ev d(4) that by (simp_all add: shrinks_def)
  have inv2: "cache_inv mc2" using ev by simp
  have max2: "maxBytes mc2 = maxBytes mc" using ev d(3) by (simp add: shrinks_def)
  have others: "usedBytes mc2 - shard_bytes (shards mc2 ?i) = usedBytes mc - shard_bytes (shards mc ?i)"
    unfolding other_shards_bytes [OF inv2] other_shards_bytes [OF assms(1)]
    by (rule sum.cong) (auto simp: same)
  have nonneg: "0 \<le> usedBytes mc - shard_bytes (shards mc ?i)"
    unfolding other_shards_bytes [OF assms(1)]
  proof (rule sum_nonneg)
    fix j
    have "shard_ok j (shards mc j)" using assms(1) by (simp add: cache_inv_def)
    from shard_ok_entry(3) [OF this] show "0 \<le> shard_bytes (shards mc j)"
      unfolding shard_bytes_def by (intro sum_list_nonneg) (auto intro: less_imp_le)
  qed
  have "usedBytes mc2 + memoryCost key resp \<le> maxBytes mc2"
  proof (cases "lru (shards mc2 ?i) = []")
    case True
    then have "shard_bytes (shards mc2 ?i) = 0" by (simp add: shard_bytes_def)
    with others assms(2) max2 show ?thesis by simp
  next
    case False
    with ev d(3) max2 show ?thesis by simp
  qed
  moreover have "memoryCost key resp \<le> maxBytes (MemDelete key mc)"
    using assms(2) nonneg d(3) by simp
  ultimately show ?thesis by (simp add: MemSet_unfold Let_def mc2_def)
qed

text \<open>
  Admission and eviction order. A response is stored exactly when it fits beside what the other
  shards hold; to make room its shard gives up its least recently used entries only, keeping the
  order of the rest, and entries of other shards are never touched.
\<close>

theorem MemSet_admits:
  assumes "0 \<le> b" and "mc = fold mem_op cs (NewMemoryCache b)"
    and "usedBytes mc - shard_bytes (getShard mc key) + memoryCost key resp \<le> b"
  shows "lookup (MemSet key resp mc) key = Some resp
     \<and> (\<exists>n. tl (lru (getShard (MemSet key resp mc) key))
             = take n (filter (\<lambda>e. ekey e \<noteq> key) (lru (getShard mc key))))
     \<and> (\<forall>i. i \<noteq> shardIdx key \<longrightarrow> shards (MemSet key resp mc) i = shards mc i)"
proof -
  note inv = mem.run_inv [OF cache_inv_New [OF assms(1)], of cs, folded assms(2)]
  have max: "maxBytes mc = b"
    using maxBytes_run [OF cache_inv_New [OF assms(1)], of cs] by (simp add: assms(2) NewMemoryCache_def)
  let ?i = "shardIdx key"
  let ?mc2 = "evictLoop ?i (memoryCost key resp) (MemDelete key mc)"
  note d = MemDelete_spec [OF inv, where k = key]
  have st: "MemSet key resp mc = store_entry key resp ?mc2"
    using assms(3) max by (intro MemSet_store [OF inv]) simp
  have sh: "shrinks ?i (MemDelete key mc) ?mc2" using evictLoop_spec [OF d(1)] by simp
  then obtain n where "lru (shards ?mc2 ?i) = take n (lru (getShard (MemDelete key mc) key))"
    by (auto simp: shrinks_def)
  moreover have "shards (store_entry key resp ?mc2) j = shards mc j" if "j \<noteq> ?i" for j
    using sh d(4) that by (simp add: shrinks_def store_entry_def Let_def)
  moreover have "tl (lru (getShard (store_entry key resp ?mc2) key)) = lru (shards ?mc2 ?i)"
    by (simp add: store_entry_def Let_def)
  ultimately show ?thesis
    unfolding st by (auto simp: lookup_store_entry MemDelete_lru [OF inv])
qed

theorem MemSet_admits_witness:
  "lookup (MemSet ''k'' example_response (NewMemoryCache 2000)) ''k'' = Some example_response"
  using MemSet_admits [of 2000 "NewMemoryCache 2000" "[]" "''k''" example_response]
  by (simp add: NewMemoryCache_def empty_shard_def shard_bytes_def memoryCost_def Size_def
        memEntryOverhead_def memHeaderOverhead_def example_response_def headers_size_def)

end
