(* ===== verification/Cache_Key.thy ===== *)
theory Cache_Key
  imports Cache_Entry "HOL-Library.Char_ord" "HOL-Library.List_Lexorder" "HOL-Library.Multiset"
begin

text \<open>
  Cache keys, \<open>internal/cache/key.go\<close>: host normalisation and the site tag, the length-prefixed key,
  query parameters sorted by decoded name, the class of an \<open>Accept-Encoding\<close> header, and the hash
  that shards the disk cache. Strings compare bytewise (\<open>List_Lexorder\<close> over \<open>Char_ord\<close>), as Go's do.
  Two standard-library functions on non-ASCII or numeric text are parameters: \<open>uni\<close> is the Unicode
  case of \<open>strings.ToLower\<close>, and \<open>floatPos s\<close> is \<open>None\<close> when \<open>strconv.ParseFloat(s, 64)\<close> fails and
  \<open>Some (f > 0)\<close> when it returns \<open>f\<close>.
\<close>

unbundle bit_operations_syntax

section \<open>Hosts\<close>

definition cut_port :: "string \<Rightarrow> string" where
  "cut_port host =
     (if HasPrefix host ''['' then
        (case LastIndexByte host CHR '']'' of Some idx \<Rightarrow> take (idx + 1) host | None \<Rightarrow> host)
      else
        (case LastIndexByte host CHR '':'' of Some idx \<Rightarrow> take idx host | None \<Rightarrow> host))"

definition NormalizeHost :: "(string \<Rightarrow> string) \<Rightarrow> string \<Rightarrow> string" where
  "NormalizeHost uni host = TrimSuffix (ToLower uni (cut_port host)) ''.''"

definition SiteTag :: "(string \<Rightarrow> string) \<Rightarrow> string \<Rightarrow> string" where
  "SiteTag uni host = ''site:'' @ NormalizeHost uni host"

section \<open>Query parameters\<close>

definition unhex :: "char \<Rightarrow> nat option" where
  "unhex c =
     (let n = (of_char c :: nat) in
      if 48 \<le> n \<and> n \<le> 57 then Some (n - 48)
      else if 97 \<le> n \<and> n \<le> 102 then Some (n - 87)
      else if 65 \<le> n \<and> n \<le> 70 then Some (n - 55)
      else None)"

text \<open>\<open>url.QueryUnescape\<close>: \<open>None\<close> is its error.\<close>

fun QueryUnescape :: "string \<Rightarrow> string option" where
  "QueryUnescape [] = Some []"
| "QueryUnescape (c # cs) =
     (if c = CHR ''%'' then
        (case cs of
           a # b # rest \<Rightarrow>
             (case (unhex a, unhex b) of
                (Some x, Some y) \<Rightarrow> map_option ((#) (char_of (16 * x + y))) (QueryUnescape rest)
              | _ \<Rightarrow> None)
         | _ \<Rightarrow> None)
      else map_option ((#) (if c = CHR ''+'' then CHR '' '' else c)) (QueryUnescape cs))"

text \<open>\<open>strings.Cut(p, "=")\<close>, the part before the separator.\<close>

definition cut_before :: "string \<Rightarrow> char \<Rightarrow> string" where
  "cut_before s c = takeWhile (\<lambda>x. x \<noteq> c) s"

definition paramName :: "string \<Rightarrow> string" where
  "paramName p =
     (let name = cut_before p CHR ''='' in
      case QueryUnescape name of Some decoded \<Rightarrow> decoded | None \<Rightarrow> name)"

definition stackParamsCap :: nat where "stackParamsCap = 16"

text \<open>
  The scan for \<open>&\<close> into a bounded array: the parts found so far, the current part (reversed), and
  the rest of the input. \<open>None\<close> is the overflow.
\<close>

fun scanParts :: "string list \<Rightarrow> string \<Rightarrow> string \<Rightarrow> string list option" where
  "scanParts parts cur [] =
     (if length parts = stackParamsCap then None else Some (parts @ [rev cur]))"
| "scanParts parts cur (c # cs) =
     (if c \<noteq> CHR ''&'' then scanParts parts (c # cur) cs
      else if length parts = stackParamsCap then None
      else scanParts (parts @ [rev cur]) [] cs)"

text \<open>
  The insertion sort, in place. \<open>shiftLoop vn n parts\<close> is the inner loop with \<open>j = n - 1\<close>; it
  returns \<open>j + 1\<close>, where \<open>v\<close> goes.
\<close>

fun shiftLoop :: "string \<Rightarrow> nat \<Rightarrow> string list \<Rightarrow> nat \<times> string list" where
  "shiftLoop vn 0 parts = (0, parts)"
| "shiftLoop vn (Suc j) parts =
     (if paramName (parts ! j) > vn then shiftLoop vn j (parts[Suc j := parts ! j])
      else (Suc j, parts))"

definition insertStep :: "string list \<Rightarrow> nat \<Rightarrow> string list" where
  "insertStep parts i =
     (let v = parts ! i in
      case shiftLoop (paramName v) i parts of (n, parts') \<Rightarrow> parts'[n := v])"

definition insertionSort :: "string list \<Rightarrow> string list" where
  "insertionSort parts = foldl insertStep parts [1..<length parts]"

text \<open>\<open>sort.SliceStable\<close> is a stable sort: \<open>sort_key\<close>.\<close>

definition writeSortedQuery :: "string \<Rightarrow> string" where
  "writeSortedQuery raw =
     (if \<not> ContainsByte raw CHR ''&'' then raw
      else case scanParts [] [] raw of
        None \<Rightarrow> Join (sort_key paramName (SplitByte raw CHR ''&'')) ''&''
      | Some parts \<Rightarrow> Join (insertionSort parts) ''&'')"

section \<open>Accept-Encoding\<close>

definition q_param :: "(string \<Rightarrow> bool option) \<Rightarrow> bool \<Rightarrow> string \<Rightarrow> bool" where
  "q_param floatPos q p0 =
     (let p = TrimSpace p0 in
      if length p \<ge> 2 \<and> (p ! 0 = CHR ''q'' \<or> p ! 0 = CHR ''Q'') \<and> p ! 1 = CHR ''=''
      then (case floatPos (TrimSpace (drop 2 p)) of Some f \<Rightarrow> f | None \<Rightarrow> q)
      else q)"

fun coding_in :: "(string \<Rightarrow> bool option) \<Rightarrow> string \<Rightarrow> string list \<Rightarrow> bool" where
  "coding_in floatPos coding [] = False"
| "coding_in floatPos coding (part0 # rest) =
     (let part = TrimSpace part0 in
      if part = [] then coding_in floatPos coding rest
      else
        (case IndexByte part CHR '';'' of
           None \<Rightarrow>
             if EqualFold part coding then True else coding_in floatPos coding rest
         | Some i \<Rightarrow>
             (let name = TrimSpace (take i part);
                  q = foldl (q_param floatPos) True (SplitByte (drop (i + 1) part) CHR '';'')
              in if EqualFold name coding then q else coding_in floatPos coding rest)))"

definition codingAccepted :: "(string \<Rightarrow> bool option) \<Rightarrow> string \<Rightarrow> string \<Rightarrow> bool" where
  "codingAccepted floatPos hdr coding = coding_in floatPos coding (SplitByte hdr CHR '','')"

definition acceptEncodingClass :: "(string \<Rightarrow> bool option) \<Rightarrow> string \<Rightarrow> string" where
  "acceptEncodingClass floatPos hdr =
     (if hdr = [] then []
      else if codingAccepted floatPos hdr ''br'' then ''br''
      else if codingAccepted floatPos hdr ''gzip'' then ''gzip''
      else [])"

section \<open>Keys\<close>

text \<open>The parts of a parsed request that a key depends on; \<open>EscapedPath\<close> is \<open>URL.EscapedPath()\<close>.\<close>

record key_request =
  Method :: string
  TLS :: bool
  Host :: string
  EscapedPath :: string
  RawQuery :: string
  ReqHeader :: header

definition writeKeyPart :: "string \<Rightarrow> string" where
  "writeKeyPart s = Itoa (length s) @ '':'' @ s"

definition vary_part :: "(string \<Rightarrow> bool option) \<Rightarrow> key_request \<Rightarrow> string \<Rightarrow> string" where
  "vary_part floatPos r name =
     (if EqualFold name ''Accept-Encoding'' then acceptEncodingClass floatPos (HeaderGet (ReqHeader r) name)
      else HeaderGet (ReqHeader r) name)"

definition generateKey ::
  "(string \<Rightarrow> string) \<Rightarrow> (string \<Rightarrow> bool option) \<Rightarrow> key_request \<Rightarrow> string list \<Rightarrow> bool \<Rightarrow> string" where
  "generateKey uni floatPos r varyHeaders varyByQuery =
     writeKeyPart (Method r)
     @ (if TLS r then writeKeyPart ''https'' else writeKeyPart ''http'')
     @ writeKeyPart (NormalizeHost uni (Host r))
     @ writeKeyPart (EscapedPath r)
     @ (if varyByQuery \<and> RawQuery r \<noteq> []
        then Itoa (length (RawQuery r)) @ '':'' @ writeSortedQuery (RawQuery r)
        else ''0:'')
     @ concat (map (\<lambda>name. writeKeyPart name @ writeKeyPart (vary_part floatPos r name)) varyHeaders)"

definition GenerateKey ::
  "(string \<Rightarrow> string) \<Rightarrow> (string \<Rightarrow> bool option) \<Rightarrow> key_request \<Rightarrow> string list \<Rightarrow> string" where
  "GenerateKey uni floatPos r varyHeaders = generateKey uni floatPos r varyHeaders True"

definition GenerateKeyWithoutQuery ::
  "(string \<Rightarrow> string) \<Rightarrow> (string \<Rightarrow> bool option) \<Rightarrow> key_request \<Rightarrow> string list \<Rightarrow> string" where
  "GenerateKeyWithoutQuery uni floatPos r varyHeaders = generateKey uni floatPos r varyHeaders False"

section \<open>Disk sharding\<close>

text \<open>\<open>fnv.New64a\<close>.\<close>

definition fnv64a :: "string \<Rightarrow> u64" where
  "fnv64a key =
     foldl (\<lambda>h c. (h XOR ucast (byte_of_char c)) * 1099511628211) 14695981039346656037 key"

definition hex_digit :: "nat \<Rightarrow> char" where
  "hex_digit d = ''0123456789abcdef'' ! d"

fun format_digits :: "nat \<Rightarrow> u64 \<Rightarrow> string" where
  "format_digits 0 n = []"
| "format_digits (Suc i) n = format_digits i (drop_bit 4 n) @ [hex_digit (unat (n AND 0xF))]"

definition formatKey :: "u64 \<Rightarrow> string" where
  "formatKey n = format_digits 16 n"

definition HashKey :: "string \<Rightarrow> string" where
  "HashKey key = formatKey (fnv64a key)"

definition KeyPrefix :: "string \<Rightarrow> string \<times> string" where
  "KeyPrefix key = (let h = HashKey key in (take 2 h, take 2 (drop 2 h)))"

section \<open>The sort\<close>

lemma scanParts_Split:
  "length parts \<le> stackParamsCap \<Longrightarrow>
   scanParts parts cur s =
     (let ps = SplitByte s CHR ''&''; all = parts @ (rev cur @ hd ps) # tl ps in
      if length all \<le> stackParamsCap then Some all else None)"
proof (induction parts cur s rule: scanParts.induct)
  case (1 parts cur)
  then show ?case by (auto simp: Let_def)
next
  case (2 parts cur c cs)
  obtain p ps where ps: "SplitByte cs CHR ''&'' = p # ps" by (meson SplitByte_nonempty neq_Nil_conv)
  show ?case
  proof (cases "c = CHR ''&''")
    case False
    with 2(1) [OF _ 2(3)] ps show ?thesis by (simp add: Let_def)
  next
    case True
    show ?thesis
    proof (cases "length parts = stackParamsCap")
      case full: True
      with True ps show ?thesis by (simp add: Let_def)
    next
      case False
      with 2(2) [OF _ False] 2(3) True ps show ?thesis by (simp add: Let_def)
    qed
  qed
qed

text \<open>Inserting behind every element that is not greater: what one outer iteration does.\<close>

definition insert_behind :: "string \<Rightarrow> string list \<Rightarrow> string list" where
  "insert_behind v xs =
     rev (dropWhile (\<lambda>x. paramName x > paramName v) (rev xs)) @ v
       # rev (takeWhile (\<lambda>x. paramName x > paramName v) (rev xs))"

lemma insert_behind_simps [simp]:
  "insert_behind v [] = [v]"
  "insert_behind v (xs @ [x]) =
     (if paramName x > paramName v then insert_behind v xs @ [x] else xs @ [x, v])"
  by (simp_all add: insert_behind_def)

lemma shiftLoop_insert:
  "case shiftLoop (paramName v) (length xs) (xs @ w # ys) of (n, r) \<Rightarrow>
     r[n := v] = insert_behind v xs @ ys"
proof (induction xs arbitrary: w ys rule: rev_induct)
  case Nil
  then show ?case by simp
next
  case (snoc x xs)
  have nth: "((xs @ [x]) @ w # ys) ! length xs = x" by simp
  have upd: "((xs @ [x]) @ w # ys)[Suc (length xs) := x] = xs @ x # (x # ys)"
    by (simp add: list_update_append)
  show ?case
  proof (cases "paramName x > paramName v")
    case True
    with snoc.IH [where w = x and ys = "x # ys"] nth upd show ?thesis by simp
  next
    case False
    with nth show ?thesis by (simp add: list_update_append)
  qed
qed

lemma insertStep_insert:
  "i < length parts \<Longrightarrow> insertStep parts i = insert_behind (parts ! i) (take i parts) @ drop (Suc i) parts"
  using shiftLoop_insert [where v = "parts ! i" and xs = "take i parts" and w = "parts ! i"
      and ys = "drop (Suc i) parts"]
  by (simp add: insertStep_def Let_def id_take_nth_drop [symmetric] min_def split: prod.splits)

lemma length_insert_behind [simp]: "length (insert_behind v xs) = Suc (length xs)"
  by (induction xs rule: rev_induct) auto

lemma mset_insert_behind [simp]: "mset (insert_behind v xs) = add_mset v (mset xs)"
  by (induction xs rule: rev_induct) auto

lemma set_insert_behind [simp]: "set (insert_behind v xs) = insert v (set xs)"
  by (metis mset_insert_behind set_mset_add_mset_insert set_mset_mset)

lemma sorted_insert_behind:
  "sorted (map paramName xs) \<Longrightarrow> sorted (map paramName (insert_behind v xs))"
  by (induction xs rule: rev_induct) (auto simp: sorted_append not_less)

lemma filter_insert_behind:
  "filter (\<lambda>x. k = paramName x) (insert_behind v xs) = filter (\<lambda>x. k = paramName x) (xs @ [v])"
  by (induction xs rule: rev_induct) auto

text \<open>The stable sort, from the left.\<close>

definition stable_prefix :: "string list \<Rightarrow> string list" where
  "stable_prefix xs = foldl (\<lambda>ys v. insert_behind v ys) [] xs"

lemma stable_prefix_snoc [simp]: "stable_prefix (xs @ [v]) = insert_behind v (stable_prefix xs)"
  by (simp add: stable_prefix_def)

lemma length_stable_prefix [simp]: "length (stable_prefix xs) = length xs"
  by (induction xs rule: rev_induct) (simp_all add: stable_prefix_def [of "[]"])

lemma stable_prefix_sort: "stable_prefix xs = sort_key paramName xs"
proof (rule properties_for_sort_key [symmetric])
  show "mset (stable_prefix xs) = mset xs"
    by (induction xs rule: rev_induct) (simp_all add: stable_prefix_def [of "[]"])
  show "sorted (map paramName (stable_prefix xs))"
    by (induction xs rule: rev_induct) (simp_all add: stable_prefix_def [of "[]"] sorted_insert_behind)
  show "filter (\<lambda>x. paramName k = paramName x) (stable_prefix xs)
      = filter (\<lambda>x. paramName k = paramName x) xs" for k
    by (induction xs rule: rev_induct) (simp_all add: stable_prefix_def [of "[]"] filter_insert_behind)
qed

lemma insertionSort_prefix:
  "n \<le> length parts \<Longrightarrow>
   foldl insertStep parts [0..<n] = stable_prefix (take n parts) @ drop n parts"
proof (induction n)
  case 0
  then show ?case by (simp add: stable_prefix_def)
next
  case (Suc n)
  then have n: "n < length parts" by simp
  then have d: "drop n parts = parts ! n # drop (Suc n) parts" by (simp add: Cons_nth_drop_Suc)
  have "foldl insertStep parts [0..<Suc n] = insertStep (stable_prefix (take n parts) @ drop n parts) n"
    using Suc by simp
  also have "\<dots> = insert_behind (parts ! n) (stable_prefix (take n parts)) @ drop (Suc n) parts"
    using n by (subst insertStep_insert) (simp_all add: nth_append d min_def)
  finally show ?case using n by (simp add: take_Suc_conv_app_nth)
qed

lemma insertStep_0: "insertStep parts 0 = parts"
  by (simp add: insertStep_def Let_def)

lemma insertionSort_sort: "insertionSort parts = sort_key paramName parts"
proof (cases parts)
  case Nil
  then show ?thesis by (simp add: insertionSort_def)
next
  case (Cons p ps)
  then have "[0..<length parts] = 0 # [1..<length parts]" by (simp add: upt_conv_Cons del: upt_Suc)
  then have "insertionSort parts = foldl insertStep parts [0..<length parts]"
    by (simp add: insertionSort_def insertStep_0)
  also have "\<dots> = stable_prefix parts" using insertionSort_prefix [of "length parts" parts] by simp
  finally show ?thesis by (simp add: stable_prefix_sort)
qed

lemma SplitByte_single: "c \<notin> set s \<Longrightarrow> SplitByte s c = [s]"
  by (induction s c rule: SplitByte.induct) auto

lemma writeSortedQuery_sort:
  "writeSortedQuery raw = Join (sort_key paramName (SplitByte raw CHR ''&'')) ''&''"
proof -
  obtain p ps where ps: "SplitByte raw CHR ''&'' = p # ps" by (meson SplitByte_nonempty neq_Nil_conv)
  have "scanParts [] [] raw = (let all = SplitByte raw CHR ''&'' in
      if length all \<le> stackParamsCap then Some all else None)"
    using scanParts_Split [of "[]" "[]" raw] ps by (simp add: Let_def)
  then show ?thesis
    by (auto simp: writeSortedQuery_def insertionSort_sort ContainsByte_def SplitByte_single Let_def
        split: if_splits)
qed

section \<open>Keys are uniquely decodable\<close>

definition getKeyPart :: "string \<Rightarrow> unit + string \<times> string" where
  "getKeyPart s =
     (let n = digits_value (takeWhile is_digit s) in
      case dropWhile is_digit s of
        [] \<Rightarrow> Inl ()
      | c # rest \<Rightarrow>
          if c \<noteq> CHR '':'' \<or> length rest < n then Inl () else Inr (take n rest, drop n rest))"

interpretation key_part: codec writeKeyPart getKeyPart "\<lambda>_. True"
proof unfold_locales
  fix s rest :: string
  have d: "\<And>c. c \<in> set (Itoa (length s)) \<Longrightarrow> is_digit c"
    using Itoa_digits [of "length s"] by (simp add: list_all_iff)
  have "\<not> is_digit CHR '':''" by (simp add: is_digit_def)
  with d show "getKeyPart (writeKeyPart s @ rest) = Inr (s, rest)"
    by (simp add: getKeyPart_def writeKeyPart_def takeWhile_append2 dropWhile_append2)
qed

lemma length_Join: "ps \<noteq> [] \<Longrightarrow> Suc (length (Join ps [c])) = sum_list (map (\<lambda>p. Suc (length p)) ps)"
proof (induction ps)
  case Nil
  then show ?case by simp
next
  case (Cons p ps)
  then show ?case by (cases ps) simp_all
qed

lemma length_writeSortedQuery [simp]: "length (writeSortedQuery raw) = length raw"
proof -
  let ?ps = "SplitByte raw CHR ''&''"
  have "mset (map (\<lambda>p. Suc (length p)) (sort_key paramName ?ps)) = mset (map (\<lambda>p. Suc (length p)) ?ps)"
    by simp
  then have "sum_list (map (\<lambda>p. Suc (length p)) (sort_key paramName ?ps))
      = sum_list (map (\<lambda>p. Suc (length p)) ?ps)"
    by (metis sum_mset_sum_list)
  moreover have "sort_key paramName ?ps \<noteq> []"
    by (metis SplitByte_nonempty length_0_conv length_sort)
  ultimately have "Suc (length (writeSortedQuery raw)) = Suc (length (Join ?ps ''&''))"
    by (simp add: writeSortedQuery_sort length_Join)
  then show ?thesis by (simp add: Join_SplitByte)
qed

lemma SplitByte_append_sep: "c \<notin> set p \<Longrightarrow> SplitByte (p @ c # s) c = p # SplitByte s c"
  by (induction p) auto

lemma SplitByte_Join:
  "ps \<noteq> [] \<Longrightarrow> \<forall>p\<in>set ps. c \<notin> set p \<Longrightarrow> SplitByte (Join ps [c]) c = ps"
proof (induction ps)
  case Nil
  then show ?case by simp
next
  case (Cons p ps)
  then show ?case by (cases ps) (simp_all add: SplitByte_single SplitByte_append_sep)
qed

lemma Join_inj:
  assumes "ps \<noteq> []" "qs \<noteq> []" "\<forall>p\<in>set ps. c \<notin> set p" "\<forall>q\<in>set qs. c \<notin> set q"
  shows "Join ps [c] = Join qs [c] \<longleftrightarrow> ps = qs"
  using SplitByte_Join [OF assms(1,3)] SplitByte_Join [OF assms(2,4)] by metis

text \<open>The query a key sees: the parameters in canonical order, or nothing.\<close>

definition key_query :: "bool \<Rightarrow> key_request \<Rightarrow> string list" where
  "key_query varyByQuery r =
     (if varyByQuery then sort_key paramName (SplitByte (RawQuery r) CHR ''&'') else [[]])"

lemma key_query_Join_inj:
  "Join (key_query q r) ''&'' = Join (key_query q' r') ''&'' \<longleftrightarrow> key_query q r = key_query q' r'"
proof (rule Join_inj)
  have ne: "sort_key paramName (SplitByte s CHR ''&'') \<noteq> []" for s
    by (metis SplitByte_nonempty length_0_conv length_sort)
  then show "key_query q r \<noteq> []" "key_query q' r' \<noteq> []" by (simp_all add: key_query_def)
  show "\<forall>p\<in>set (key_query q r). CHR ''&'' \<notin> set p" "\<forall>p\<in>set (key_query q' r'). CHR ''&'' \<notin> set p"
    by (auto simp: key_query_def dest: SplitByte_no_sep)
qed

definition key_parts ::
  "(string \<Rightarrow> string) \<Rightarrow> (string \<Rightarrow> bool option) \<Rightarrow> key_request \<Rightarrow> string list \<Rightarrow> bool \<Rightarrow> string list" where
  "key_parts uni floatPos r varyHeaders q =
     [Method r, if TLS r then ''https'' else ''http'', NormalizeHost uni (Host r), EscapedPath r,
      Join (key_query q r) ''&'']
     @ concat (map (\<lambda>name. [name, vary_part floatPos r name]) varyHeaders)"

lemma Itoa_0: "Itoa 0 = ''0''"
  by code_simp

lemma generateKey_parts:
  "generateKey uni floatPos r vs q = concat (map writeKeyPart (key_parts uni floatPos r vs q))"
proof -
  have "concat (map (\<lambda>name. writeKeyPart name @ writeKeyPart (vary_part floatPos r name)) vs)
      = concat (map writeKeyPart (concat (map (\<lambda>name. [name, vary_part floatPos r name]) vs)))"
    by (induction vs) simp_all
  moreover have "(if q \<and> RawQuery r \<noteq> [] then Itoa (length (RawQuery r)) @ '':'' @ writeSortedQuery (RawQuery r)
       else ''0:'') = writeKeyPart (Join (key_query q r) ''&'')"
    using length_writeSortedQuery [of "RawQuery r"]
    by (simp add: writeKeyPart_def key_query_def writeSortedQuery_sort Itoa_0)
  ultimately show ?thesis by (simp only: generateKey_def key_parts_def) simp
qed

lemma pairs_concat_inj:
  "concat (map (\<lambda>n. [n, f n]) xs) = concat (map (\<lambda>n. [n, g n]) ys)
     \<longleftrightarrow> map (\<lambda>n. (n, f n)) xs = map (\<lambda>n. (n, g n)) ys"
proof (induction xs arbitrary: ys)
  case Nil
  then show ?case by (cases ys) auto
next
  case (Cons x xs)
  then show ?case by (cases ys) auto
qed

section \<open>Properties\<close>

text \<open>
  C8. No two different requests share a cache key. For every pair of requests, vary lists and query
  settings, the keys are equal exactly when method, scheme, normalised host, escaped path, the
  canonically ordered query parameters and the list of vary names with their values are all equal,
  whatever separators these strings contain.
\<close>

theorem generateKey_injective:
  "generateKey uni floatPos r vs q = generateKey uni floatPos r' vs' q' \<longleftrightarrow>
     Method r = Method r' \<and> TLS r = TLS r' \<and> NormalizeHost uni (Host r) = NormalizeHost uni (Host r')
   \<and> EscapedPath r = EscapedPath r' \<and> key_query q r = key_query q' r'
   \<and> map (\<lambda>name. (name, vary_part floatPos r name)) vs = map (\<lambda>name. (name, vary_part floatPos r' name)) vs'"
proof -
  have "generateKey uni floatPos r vs q = generateKey uni floatPos r' vs' q'
      \<longleftrightarrow> key_parts uni floatPos r vs q = key_parts uni floatPos r' vs' q'"
    unfolding generateKey_parts
    using key_part.enc_concat_inj [of "key_parts uni floatPos r vs q" "key_parts uni floatPos r' vs' q'"]
    by (auto simp: list_all_iff writeKeyPart_def)
  also have "\<dots> \<longleftrightarrow> Method r = Method r' \<and> TLS r = TLS r'
      \<and> NormalizeHost uni (Host r) = NormalizeHost uni (Host r') \<and> EscapedPath r = EscapedPath r'
      \<and> key_query q r = key_query q' r'
      \<and> map (\<lambda>name. (name, vary_part floatPos r name)) vs = map (\<lambda>name. (name, vary_part floatPos r' name)) vs'"
    by (simp add: key_parts_def key_query_Join_inj pairs_concat_inj)
  finally show ?thesis .
qed

text \<open>
  Canonical query order. \<open>writeSortedQuery\<close>, on its fast path, its bounded insertion sort and
  its overflow path alike, writes exactly the given parameters, sorted by decoded name, and keeps
  the relative order of parameters that share a name; the length of the query does not change.
\<close>

theorem writeSortedQuery_canonical:
  "\<exists>ps. writeSortedQuery raw = Join ps ''&'' \<and> mset ps = mset (SplitByte raw CHR ''&'')
     \<and> sorted (map paramName ps)
     \<and> (\<forall>k. filter (\<lambda>p. paramName p = k) ps = filter (\<lambda>p. paramName p = k) (SplitByte raw CHR ''&''))
     \<and> length (writeSortedQuery raw) = length raw"
proof (intro exI conjI allI)
  show "writeSortedQuery raw = Join (sort_key paramName (SplitByte raw CHR ''&'')) ''&''"
    by (rule writeSortedQuery_sort)
  show "filter (\<lambda>p. paramName p = k) (sort_key paramName (SplitByte raw CHR ''&''))
      = filter (\<lambda>p. paramName p = k) (SplitByte raw CHR ''&'')" for k
    by (rule sort_key_stable)
qed simp_all

lemma hex_digit_inj: "a < 16 \<Longrightarrow> b < 16 \<Longrightarrow> hex_digit a = hex_digit b \<longleftrightarrow> a = b"
proof -
  have "distinct ''0123456789abcdef''" by simp
  then show "a < 16 \<Longrightarrow> b < 16 \<Longrightarrow> ?thesis"
    unfolding hex_digit_def by (intro nth_eq_iff_index_eq) simp_all
qed

lemma nibble_take_bit: "(n :: u64) AND 0xF = take_bit 4 n"
  by (simp add: take_bit_eq_mask mask_eq_exp_minus_1)

lemma nibble_bound: "unat ((n :: u64) AND 0xF) < 16"
proof -
  have "unat (take_bit 4 n) < 2 ^ 4" unfolding unsigned_take_bit_eq by (rule take_bit_nat_less_exp)
  then show ?thesis by (simp add: nibble_take_bit)
qed

lemma take_bit_split:
  fixes m n :: u64
  shows "take_bit (k + j) m = take_bit (k + j) n \<longleftrightarrow>
     take_bit j (drop_bit k m) = take_bit j (drop_bit k n) \<and> take_bit k m = take_bit k n"
proof
  assume "take_bit (k + j) m = take_bit (k + j) n"
  then have b: "bit m i = bit n i" if "i < k + j" for i
    using that by (metis bit_take_bit_iff)
  then show "take_bit j (drop_bit k m) = take_bit j (drop_bit k n) \<and> take_bit k m = take_bit k n"
    by (auto simp: bit_eq_iff bit_take_bit_iff bit_drop_bit_eq)
next
  assume h: "take_bit j (drop_bit k m) = take_bit j (drop_bit k n) \<and> take_bit k m = take_bit k n"
  have "bit m i = bit n i" if "i < k + j" for i
  proof (cases "i < k")
    case True
    with h show ?thesis by (metis bit_take_bit_iff)
  next
    case False
    with that h have "bit (drop_bit k m) (i - k) = bit (drop_bit k n) (i - k)"
      by (metis bit_take_bit_iff less_diff_conv2 not_less add.commute)
    with False show ?thesis by (simp add: bit_drop_bit_eq)
  qed
  then show "take_bit (k + j) m = take_bit (k + j) n"
    by (auto simp: bit_eq_iff bit_take_bit_iff)
qed

lemma length_format_digits [simp]: "length (format_digits i n) = i"
  by (induction i arbitrary: n) simp_all

lemma set_format_digits: "set (format_digits i n) \<subseteq> set ''0123456789abcdef''"
proof (induction i arbitrary: n)
  case 0
  then show ?case by simp
next
  case (Suc i)
  have "hex_digit (unat (n AND 0xF)) \<in> set ''0123456789abcdef''"
    unfolding hex_digit_def using nibble_bound [of n] by (intro nth_mem) simp
  with Suc show ?case by simp
qed

lemma format_digits_inj:
  "format_digits i m = format_digits i n \<longleftrightarrow> take_bit (4 * i) m = take_bit (4 * i) n"
proof (induction i arbitrary: m n)
  case 0
  then show ?case by simp
next
  case (Suc i)
  have "format_digits (Suc i) m = format_digits (Suc i) n
      \<longleftrightarrow> take_bit (4 * i) (drop_bit 4 m) = take_bit (4 * i) (drop_bit 4 n)
        \<and> unat (m AND 0xF) = unat (n AND 0xF)"
    using Suc by (simp add: hex_digit_inj nibble_bound)
  also have "\<dots> \<longleftrightarrow> take_bit (4 * Suc i) m = take_bit (4 * Suc i) n"
    by (simp add: nibble_take_bit take_bit_split [of 4 "4 * i"] word_unat_eq_iff [symmetric])
  finally show ?case .
qed

text \<open>
  Disk names. \<open>formatKey\<close> writes a 64-bit hash as 16 lower-case hexadecimal digits, different
  hashes differently, so the two directories \<open>KeyPrefix\<close> shards a cache entry into are always two
  digits each, for every key a request can produce.
\<close>

theorem formatKey_faithful:
  "(formatKey m = formatKey n \<longleftrightarrow> m = n) \<and> length (formatKey n) = 16
   \<and> (case KeyPrefix key of (d1, d2) \<Rightarrow>
        length d1 = 2 \<and> length d2 = 2 \<and> set (d1 @ d2) \<subseteq> set ''0123456789abcdef''
        \<and> prefix (d1 @ d2) (HashKey key))"
proof (intro conjI)
  show "formatKey m = formatKey n \<longleftrightarrow> m = n"
    by (simp add: formatKey_def format_digits_inj take_bit_word_eq_self)
  show "length (formatKey n) = 16" by (simp add: formatKey_def)
  let ?h = "HashKey key"
  have l: "length ?h = 16" by (simp add: HashKey_def formatKey_def)
  have s: "set ?h \<subseteq> set ''0123456789abcdef''"
    unfolding HashKey_def formatKey_def by (rule set_format_digits)
  have p: "take 2 ?h @ take 2 (drop 2 ?h) = take 4 ?h"
    using take_add [of 2 2 ?h] by simp
  have "set (take 4 ?h) \<subseteq> set ''0123456789abcdef''"
    using s set_take_subset by fast
  with l show "case KeyPrefix key of (d1, d2) \<Rightarrow>
        length d1 = 2 \<and> length d2 = 2 \<and> set (d1 @ d2) \<subseteq> set ''0123456789abcdef''
        \<and> prefix (d1 @ d2) (HashKey key)"
    by (simp only: KeyPrefix_def Let_def prod.case p take_is_prefix) simp
qed

end
