(* ===== verification/Router_VHost.thy ===== *)
theory Router_VHost
  imports Go_Strings "HOL-Library.Multiset"
begin

text \<open>
  Virtual-host routing, \<open>internal/router/vhost.go\<close> and \<open>internal/config/host_canonical.go\<close>: how
  the configured hosts and aliases become an exact-match table, a list of wildcards and a fallback,
  and how a request's \<open>Host\<close> header is looked up. A \<open>*config.Domain\<close> is the position of the domain
  in the configuration. Parameters: \<open>uni\<close>, the non-ASCII case of \<open>strings.ToLower\<close>; \<open>toASCII\<close>, the
  function \<open>idna.Lookup.ToASCII\<close> of \<open>golang.org/x/net\<close> (\<open>None\<close> is its error); \<open>sortSlice\<close>, the
  order in which \<open>sort.Slice\<close>, which is not stable, leaves the wildcards.
\<close>

section \<open>Canonical hosts\<close>

definition CanonicalHost :: "(string \<Rightarrow> string) \<Rightarrow> (string \<Rightarrow> string option) \<Rightarrow> string \<Rightarrow> string" where
  "CanonicalHost uni toASCII host =
     (let h = ToLower uni (TrimSpace host);
          (pre, h) = (if HasPrefix h ''*.'' then (''*.'', drop 2 h) else ([], h));
          (h, port) =
            (case LastIndexByte h CHR '':'' of
               Some i \<Rightarrow>
                 if isASCII (drop i h) \<and> \<not> ContainsByte (drop i h) CHR '']''
                 then (take i h, drop i h) else (h, [])
             | None \<Rightarrow> (h, []));
          h = TrimSuffix h ''.''
      in if isASCII h then pre @ h @ port
         else case toASCII h of
                None \<Rightarrow> pre @ h @ port
              | Some ascii \<Rightarrow> pre @ ToLower uni ascii @ port)"

section \<open>Building the table\<close>

record Domain =
  Host :: string
  Aliases :: "string list"

type_synonym domain_ref = nat

record vhostMap =
  exact :: "string \<rightharpoonup> domain_ref"
  wildcards :: "(string \<times> domain_ref) list"
  fallback :: "domain_ref option"

record derivedHosts =
  variants :: "(string \<times> domain_ref) list"
  portBare :: "(string \<times> domain_ref) list"

text \<open>The local variables of \<open>store\<close>.\<close>

record store_state =
  st_exact :: "string \<rightharpoonup> domain_ref"
  st_derived :: derivedHosts
  st_wildcards :: "(string \<times> domain_ref) list"

definition addVariant :: "string \<Rightarrow> domain_ref \<Rightarrow> derivedHosts \<Rightarrow> derivedHosts" where
  "addVariant k d h = h\<lparr>variants := variants h @ [(k, d)]\<rparr>"

definition addPortBare :: "string \<Rightarrow> domain_ref \<Rightarrow> derivedHosts \<Rightarrow> derivedHosts" where
  "addPortBare k d h = h\<lparr>portBare := portBare h @ [(k, d)]\<rparr>"

definition deriveHosts :: "string \<Rightarrow> domain_ref \<Rightarrow> derivedHosts \<Rightarrow> derivedHosts" where
  "deriveHosts host d derived =
     (case LastIndexByte host CHR '':'' of
        Some idx \<Rightarrow> addPortBare (take idx host) d derived
      | None \<Rightarrow>
          if HasPrefix host ''www.'' then
            (let apex = TrimPrefix host ''www.'' in
             if apex \<noteq> [] \<and> ContainsByte apex CHR ''.'' then addVariant apex d derived else derived)
          else if \<not> HasPrefix host ''*.'' \<and> ContainsByte host CHR ''.''
          then addVariant (''www.'' @ host) d derived
          else derived)"

definition registerExactHost ::
  "(string \<Rightarrow> string) \<Rightarrow> (string \<Rightarrow> string option) \<Rightarrow> string \<Rightarrow> domain_ref \<Rightarrow> store_state \<Rightarrow> store_state" where
  "registerExactHost uni toASCII host0 d s =
     (let host = CanonicalHost uni toASCII host0 in
      if host = [] then s
      else s\<lparr>st_exact := (st_exact s)(host \<mapsto> d), st_derived := deriveHosts host d (st_derived s)\<rparr>)"

text \<open>A configured name, host or alias: a wildcard or an exact host.\<close>

definition registerName ::
  "(string \<Rightarrow> string) \<Rightarrow> (string \<Rightarrow> string option) \<Rightarrow> domain_ref \<Rightarrow> string \<Rightarrow> store_state \<Rightarrow> store_state" where
  "registerName uni toASCII d name s =
     (let host = CanonicalHost uni toASCII name in
      if HasPrefix host ''*.'' then s\<lparr>st_wildcards := st_wildcards s @ [(drop 1 host, d)]\<rparr>
      else registerExactHost uni toASCII host d s)"

definition fill_one :: "string \<times> domain_ref \<Rightarrow> (string \<rightharpoonup> domain_ref) \<Rightarrow> (string \<rightharpoonup> domain_ref)" where
  "fill_one e m = (case e of (k, d) \<Rightarrow> if m k = None then m(k \<mapsto> d) else m)"

definition fill :: "derivedHosts \<Rightarrow> (string \<rightharpoonup> domain_ref) \<Rightarrow> (string \<rightharpoonup> domain_ref)" where
  "fill h m = fold fill_one (portBare h) (fold fill_one (variants h) m)"

definition domain_names :: "Domain \<Rightarrow> string list" where
  "domain_names d = Host d # Aliases d"

definition store_names :: "Domain list \<Rightarrow> (domain_ref \<times> string) list" where
  "store_names ds = concat (map (\<lambda>(i, d). map (Pair i) (domain_names d)) (enumerate 0 ds))"

definition empty_store :: store_state where
  "empty_store = \<lparr>st_exact = Map.empty, st_derived = \<lparr>variants = [], portBare = []\<rparr>, st_wildcards = []\<rparr>"

definition store ::
  "(string \<Rightarrow> string) \<Rightarrow> (string \<Rightarrow> string option)
     \<Rightarrow> ((string \<times> domain_ref) list \<Rightarrow> (string \<times> domain_ref) list) \<Rightarrow> Domain list \<Rightarrow> vhostMap" where
  "store uni toASCII sortSlice ds =
     (let s = fold (\<lambda>(i, name). registerName uni toASCII i name) (store_names ds) empty_store in
      \<lparr>exact = fill (st_derived s) (st_exact s),
       wildcards = sortSlice (st_wildcards s),
       fallback = (if ds = [] then None else Some 0)\<rparr>)"

section \<open>Lookup\<close>

definition request_host ::
  "(string \<Rightarrow> string) \<Rightarrow> (string \<Rightarrow> string option) \<Rightarrow> string \<Rightarrow> string \<times> string" where
  "request_host uni toASCII host0 =
     (let host = ToLower uni host0;
          (host, port) = (case LastIndexByte host CHR '':'' of
                            Some idx \<Rightarrow> (take idx host, drop idx host)
                          | None \<Rightarrow> (host, []));
          host = TrimSuffix host ''.''
      in (if isASCII host then host else CanonicalHost uni toASCII host, port))"

definition lookupName :: "vhostMap \<Rightarrow> string \<Rightarrow> string \<Rightarrow> domain_ref option \<times> bool" where
  "lookupName m host port =
     (case (if port \<noteq> [] then exact m (host @ port) else None) of
        Some d \<Rightarrow> (Some d, True)
      | None \<Rightarrow>
          (case exact m host of
             Some d \<Rightarrow> (Some d, True)
           | None \<Rightarrow>
               (case find (\<lambda>(suf, d). HasSuffix host suf) (wildcards m) of
                  Some (suf, d) \<Rightarrow> (Some d, True)
                | None \<Rightarrow> (fallback m, False))))"

definition LookupWithStatus ::
  "(string \<Rightarrow> string) \<Rightarrow> (string \<Rightarrow> string option) \<Rightarrow> vhostMap \<Rightarrow> string \<Rightarrow> domain_ref option \<times> bool" where
  "LookupWithStatus uni toASCII m host =
     (case request_host uni toASCII host of (h, port) \<Rightarrow> lookupName m h port)"

definition Lookup ::
  "(string \<Rightarrow> string) \<Rightarrow> (string \<Rightarrow> string option) \<Rightarrow> vhostMap \<Rightarrow> string \<Rightarrow> domain_ref option" where
  "Lookup uni toASCII m host = fst (LookupWithStatus uni toASCII m host)"

definition IsConfigured ::
  "(string \<Rightarrow> string) \<Rightarrow> (string \<Rightarrow> string option) \<Rightarrow> vhostMap \<Rightarrow> string \<Rightarrow> bool" where
  "IsConfigured uni toASCII m host = snd (LookupWithStatus uni toASCII m host)"

section \<open>What the table contains\<close>

text \<open>
  The specification: the names that claim a key explicitly, the names that imply it, and the rule
  that an explicit claim (the last one made) always beats an implied one (the first one made, www
  variants before the bare form of a port-qualified name).
\<close>

definition canon_name ::
  "(string \<Rightarrow> string) \<Rightarrow> (string \<Rightarrow> string option) \<Rightarrow> string \<Rightarrow> string" where
  "canon_name uni toASCII name = CanonicalHost uni toASCII (CanonicalHost uni toASCII name)"

definition explicit_claims ::
  "(string \<Rightarrow> string) \<Rightarrow> (string \<Rightarrow> string option) \<Rightarrow> Domain list \<Rightarrow> (string \<times> domain_ref) list" where
  "explicit_claims uni toASCII ds =
     map (\<lambda>(i, name). (canon_name uni toASCII name, i))
       (filter (\<lambda>(i, name). \<not> HasPrefix (CanonicalHost uni toASCII name) ''*.''
                 \<and> canon_name uni toASCII name \<noteq> []) (store_names ds))"

definition variant_claims :: "string \<times> domain_ref \<Rightarrow> (string \<times> domain_ref) list" where
  "variant_claims c = variants (deriveHosts (fst c) (snd c) \<lparr>variants = [], portBare = []\<rparr>)"

definition port_claims :: "string \<times> domain_ref \<Rightarrow> (string \<times> domain_ref) list" where
  "port_claims c = portBare (deriveHosts (fst c) (snd c) \<lparr>variants = [], portBare = []\<rparr>)"

definition wildcard_claims ::
  "(string \<Rightarrow> string) \<Rightarrow> (string \<Rightarrow> string option) \<Rightarrow> Domain list \<Rightarrow> (string \<times> domain_ref) list" where
  "wildcard_claims uni toASCII ds =
     map (\<lambda>(i, name). (drop 1 (CanonicalHost uni toASCII name), i))
       (filter (\<lambda>(i, name). HasPrefix (CanonicalHost uni toASCII name) ''*.'') (store_names ds))"

lemma deriveHosts_append:
  "variants (deriveHosts h d dv) = variants dv @ variant_claims (h, d)"
  "portBare (deriveHosts h d dv) = portBare dv @ port_claims (h, d)"
  by (auto simp: deriveHosts_def variant_claims_def port_claims_def addVariant_def addPortBare_def
      Let_def split: option.splits)

lemma fold_fill_one:
  "fold fill_one es m k = (case m k of Some d \<Rightarrow> Some d | None \<Rightarrow> map_of es k)"
proof (induction es arbitrary: m)
  case Nil
  then show ?case by (simp split: option.splits)
next
  case (Cons e es)
  obtain k' d where e: "e = (k', d)" by (cases e)
  have one: "fill_one e m k = (case m k of Some d \<Rightarrow> Some d | None \<Rightarrow> if k = k' then Some d else None)"
    by (simp add: e fill_one_def split: option.splits)
  show ?case unfolding fold_simps(2) Cons.IH one by (simp add: e split: option.splits)
qed

lemma fill_spec:
  "fill h m k = (case m k of Some d \<Rightarrow> Some d | None \<Rightarrow> map_of (variants h @ portBare h) k)"
  by (simp add: fill_def fold_fill_one map_add_def split: option.splits)

text \<open>What a list of explicit names and a list of wildcards add to the tables under construction.\<close>

definition add_claims ::
  "(string \<times> domain_ref) list \<Rightarrow> (string \<times> domain_ref) list \<Rightarrow> store_state \<Rightarrow> store_state" where
  "add_claims cs ws s =
     \<lparr>st_exact = st_exact s ++ map_of (rev cs),
      st_derived = \<lparr>variants = variants (st_derived s) @ concat (map variant_claims cs),
                    portBare = portBare (st_derived s) @ concat (map port_claims cs)\<rparr>,
      st_wildcards = st_wildcards s @ ws\<rparr>"

lemma add_claims_Nil: "add_claims [] [] s = s"
  by (simp add: add_claims_def)

lemma add_claims_add_claims: "add_claims cs' ws' (add_claims cs ws s) = add_claims (cs @ cs') (ws @ ws') s"
  by (simp add: add_claims_def map_add_assoc)

definition exact_name :: "(string \<Rightarrow> string) \<Rightarrow> (string \<Rightarrow> string option) \<Rightarrow> string \<Rightarrow> bool" where
  "exact_name uni toASCII name \<longleftrightarrow>
     \<not> HasPrefix (CanonicalHost uni toASCII name) ''*.'' \<and> canon_name uni toASCII name \<noteq> []"

lemma registerName_claims:
  "registerName uni toASCII i name s =
     add_claims (if exact_name uni toASCII name then [(canon_name uni toASCII name, i)] else [])
       (if HasPrefix (CanonicalHost uni toASCII name) ''*.''
        then [(drop 1 (CanonicalHost uni toASCII name), i)] else []) s"
proof -
  have derive: "deriveHosts h i dv = \<lparr>variants = variants dv @ variant_claims (h, i),
       portBare = portBare dv @ port_claims (h, i)\<rparr>" for h dv
    using deriveHosts_append [of h i dv] by simp
  show ?thesis
    by (simp add: registerName_def registerExactHost_def Let_def exact_name_def canon_name_def
        add_claims_def derive)
qed

lemma registerName_fold:
  "fold (\<lambda>(i, name). registerName uni toASCII i name) ns s =
     add_claims
       (map (\<lambda>(i, name). (canon_name uni toASCII name, i)) (filter (\<lambda>(i, name). exact_name uni toASCII name) ns))
       (map (\<lambda>(i, name). (drop 1 (CanonicalHost uni toASCII name), i))
         (filter (\<lambda>(i, name). HasPrefix (CanonicalHost uni toASCII name) ''*.'') ns)) s"
proof (induction ns arbitrary: s)
  case Nil
  then show ?case by (simp add: add_claims_Nil)
next
  case (Cons x ns)
  obtain i name where x: "x = (i, name)" by (cases x)
  show ?case
    unfolding x by (simp add: Cons.IH) (simp add: registerName_claims add_claims_add_claims)
qed

lemma store_claims:
  "fold (\<lambda>(i, name). registerName uni toASCII i name) (store_names ds) empty_store
     = add_claims (explicit_claims uni toASCII ds) (wildcard_claims uni toASCII ds) empty_store"
  by (simp add: registerName_fold explicit_claims_def wildcard_claims_def exact_name_def)

lemma store_tables:
  "exact (store uni toASCII sortSlice ds) k =
     (case map_of (rev (explicit_claims uni toASCII ds)) k of
        Some d \<Rightarrow> Some d
      | None \<Rightarrow> map_of (concat (map variant_claims (explicit_claims uni toASCII ds))
                        @ concat (map port_claims (explicit_claims uni toASCII ds))) k)"
  "wildcards (store uni toASCII sortSlice ds) = sortSlice (wildcard_claims uni toASCII ds)"
  "fallback (store uni toASCII sortSlice ds) = (if ds = [] then None else Some 0)"
  unfolding store_def store_claims Let_def
  by (simp_all add: fill_spec add_claims_def empty_store_def cong: option.case_cong)

lemma store_names_iff:
  "(i, name) \<in> set (store_names ds) \<longleftrightarrow> i < length ds \<and> name \<in> set (domain_names (ds ! i))"
  by (auto simp: store_names_def in_set_enumerate_eq image_iff)

lemma explicit_claims_iff:
  "(k, i) \<in> set (explicit_claims uni toASCII ds) \<longleftrightarrow>
     i < length ds \<and> (\<exists>name \<in> set (domain_names (ds ! i)). exact_name uni toASCII name \<and> canon_name uni toASCII name = k)"
  by (auto simp: explicit_claims_def exact_name_def store_names_iff image_iff)

lemma wildcard_claims_iff:
  "(suf, i) \<in> set (wildcard_claims uni toASCII ds) \<longleftrightarrow>
     i < length ds \<and> (\<exists>name \<in> set (domain_names (ds ! i)).
       HasPrefix (CanonicalHost uni toASCII name) ''*.'' \<and> suf = drop 1 (CanonicalHost uni toASCII name))"
  by (auto simp: wildcard_claims_def store_names_iff image_iff)

lemma map_of_rev_unique:
  assumes "(k, i) \<in> set cs" and "\<And>j. (k, j) \<in> set cs \<Longrightarrow> j = i"
  shows "map_of (rev cs) k = Some i"
proof -
  from assms(1) have "k \<in> fst ` set (rev cs)" by force
  then have "map_of (rev cs) k \<noteq> None" by (simp only: map_of_eq_None_iff not_not)
  then obtain j where "map_of (rev cs) k = Some j" by auto
  with assms(2) [of j] map_of_SomeD [OF this] show ?thesis by simp
qed

text \<open>A host that exactly one domain names is that domain's, whatever other names imply.\<close>

lemma exact_owner:
  assumes "i < length ds" and "name \<in> set (domain_names (ds ! i))" and "exact_name uni toASCII name"
    and "\<And>j n. j < length ds \<Longrightarrow> n \<in> set (domain_names (ds ! j)) \<Longrightarrow>
           canon_name uni toASCII n = canon_name uni toASCII name \<Longrightarrow> j = i"
  shows "exact (store uni toASCII sortSlice ds) (canon_name uni toASCII name) = Some i"
proof -
  have "map_of (rev (explicit_claims uni toASCII ds)) (canon_name uni toASCII name) = Some i"
  proof (rule map_of_rev_unique)
    show "(canon_name uni toASCII name, i) \<in> set (explicit_claims uni toASCII ds)"
      using assms(1-3) explicit_claims_iff by blast
    show "j = i" if "(canon_name uni toASCII name, j) \<in> set (explicit_claims uni toASCII ds)" for j
      using that assms(4) explicit_claims_iff by blast
  qed
  then show ?thesis by (simp add: store_tables)
qed

section \<open>Plain names\<close>

text \<open>A plain host name: ASCII, no port, no wildcard, no blanks at its ends, no absolute-form dot.\<close>

definition blank :: "char \<Rightarrow> bool" where
  "blank c \<longleftrightarrow> c \<in> {CHR 0x09, CHR 0x0A, CHR 0x0B, CHR 0x0C, CHR 0x0D, CHR 0x20}"

definition plain_host :: "string \<Rightarrow> bool" where
  "plain_host s \<longleftrightarrow> s \<noteq> [] \<and> isASCII s \<and> CHR '':'' \<notin> set s \<and> \<not> blank (hd s) \<and> \<not> blank (last s)
     \<and> last s \<noteq> CHR ''.'' \<and> hd s \<noteq> CHR ''*''"

lemma strip_all_none: "strip1 encs s = None \<Longrightarrow> strip_all encs s = s"
  by (subst strip_all.simps) simp

lemma strip1_none:
  assumes "list_all (\<lambda>e. e = [] \<or> blank (hd e) \<or> 128 \<le> (of_char (hd e) :: nat)) encs"
    and "s = [] \<or> ((of_char (hd s) :: nat) < 128 \<and> \<not> blank (hd s))"
  shows "strip1 encs s = None"
proof -
  have "\<not> (e \<noteq> [] \<and> prefix e s)" if "e \<in> set encs" for e
    using assms that by (cases e; cases s) (auto simp: list_all_iff)
  then show ?thesis by (simp add: strip1_def find_None_iff)
qed

lemma space_encodings_heads:
  "list_all (\<lambda>e. e = [] \<or> blank (hd e) \<or> 128 \<le> (of_char (hd e) :: nat)) space_encodings"
  "list_all (\<lambda>e. e = [] \<or> blank (hd e) \<or> 128 \<le> (of_char (hd e) :: nat)) (map rev space_encodings)"
  by code_simp+

lemmas strip1_space_none = strip1_none [OF space_encodings_heads(1)] strip1_none [OF space_encodings_heads(2)]

lemma TrimSpace_id:
  assumes "isASCII s" and "s \<noteq> [] \<Longrightarrow> \<not> blank (hd s) \<and> \<not> blank (last s)"
  shows "TrimSpace s = s"
proof (cases "s = []")
  case True
  then show ?thesis
    by (simp add: TrimSpace_def strip_all_none strip1_space_none)
next
  case False
  then have "(of_char (hd s) :: nat) < 128" "(of_char (last s) :: nat) < 128"
    using assms(1) by (auto simp: isASCII_def list_all_iff)
  with False assms(2) show ?thesis
    by (simp add: TrimSpace_def strip_all_none strip1_space_none hd_rev)
qed

lemma LastIndexByte_None: "c \<notin> set s \<Longrightarrow> LastIndexByte s c = None"
  by (simp add: LastIndexByte_def IndexByte_None)

lemma to_lower_other: "\<not> is_upper c \<Longrightarrow> to_lower c = c"
  by (simp add: to_lower_def)

lemma eq_iff_swap: "(a = b \<longleftrightarrow> c = b) \<Longrightarrow> (b = a \<longleftrightarrow> b = c)"
  by auto

lemma to_lower_eq_punct: "\<not> is_upper p \<Longrightarrow> \<not> is_lower p \<Longrightarrow> to_lower c = p \<longleftrightarrow> c = p"
  by (auto simp: to_lower_def is_upper_def is_lower_def)

lemma to_lower_punct:
  "to_lower c = CHR '':'' \<longleftrightarrow> c = CHR '':''" "to_lower c = CHR ''.'' \<longleftrightarrow> c = CHR ''.''"
  "to_lower c = CHR ''*'' \<longleftrightarrow> c = CHR ''*''" "blank (to_lower c) \<longleftrightarrow> blank c"
  unfolding blank_def insert_iff empty_iff
  by (simp_all add: to_lower_eq_punct is_upper_def is_lower_def)

lemma plain_host_lower_iff: "isASCII s \<Longrightarrow> plain_host (map to_lower s) \<longleftrightarrow> plain_host s"
proof -
  have "CHR '':'' \<in> set (map to_lower s) \<longleftrightarrow> CHR '':'' \<in> set s"
    by (induction s) (simp_all only: list.map list.set insert_iff to_lower_punct(1) [THEN eq_iff_swap])
  then show "isASCII s \<Longrightarrow> ?thesis"
    by (cases "s = []") (simp_all add: plain_host_def hd_map last_map to_lower_punct)
qed

lemma plain_host_lower: "plain_host s \<Longrightarrow> plain_host (map to_lower s)"
  using plain_host_lower_iff [of s] by (simp add: plain_host_def)

lemma TrimSuffix_dot: "s = [] \<or> last s \<noteq> CHR ''.'' \<Longrightarrow> TrimSuffix s ''.'' = s"
  by (auto simp: TrimSuffix_def HasSuffix_def suffix_def)

lemma TrimSuffix_dot_snoc: "TrimSuffix (s @ ''.'') ''.'' = s"
  by (simp add: TrimSuffix_def HasSuffix_def suffix_def)

lemma CanonicalHost_plain:
  assumes "plain_host s"
  shows "CanonicalHost uni toASCII s = map to_lower s"
proof -
  note l = plain_host_lower [OF assms]
  have t: "TrimSpace s = s" using assms by (intro TrimSpace_id) (auto simp: plain_host_def)
  have w: "\<not> HasPrefix (map to_lower s) ''*.''"
    using l by (auto simp: plain_host_def HasPrefix_def prefix_def)
  have "LastIndexByte (map to_lower s) CHR '':'' = None"
    using l by (intro LastIndexByte_None) (simp add: plain_host_def)
  moreover have "TrimSuffix (map to_lower s) ''.'' = map to_lower s"
    using l by (intro TrimSuffix_dot) (simp add: plain_host_def)
  ultimately show ?thesis
    using assms l w t by (simp add: CanonicalHost_def Let_def ToLower_def plain_host_def)
qed

lemma canon_name_plain: "plain_host s \<Longrightarrow> canon_name uni toASCII s = map to_lower s"
  by (simp add: canon_name_def CanonicalHost_plain plain_host_lower comp_def)

lemma exact_name_plain: "plain_host s \<Longrightarrow> exact_name uni toASCII s"
  using plain_host_lower [of s]
  by (auto simp: exact_name_def CanonicalHost_plain canon_name_plain plain_host_def HasPrefix_def prefix_def)

lemma request_host_plain:
  assumes "plain_host s"
  shows "request_host uni toASCII s = (map to_lower s, [])"
    and "request_host uni toASCII (s @ ''.'') = (map to_lower s, [])"
proof -
  note l = plain_host_lower [OF assms]
  have n: "LastIndexByte (map to_lower s) CHR '':'' = None"
    "LastIndexByte (map to_lower s @ ''.'') CHR '':'' = None"
    using l by (auto intro!: LastIndexByte_None simp: plain_host_def)
  have "TrimSuffix (map to_lower s) ''.'' = map to_lower s"
    using l by (intro TrimSuffix_dot) (simp add: plain_host_def)
  then show "request_host uni toASCII s = (map to_lower s, [])"
    using assms l n by (simp add: request_host_def Let_def ToLower_def plain_host_def)
  have d: "to_lower CHR ''.'' = CHR ''.''" "isASCII ''.''"
    by (simp_all add: to_lower_def is_upper_def isASCII_def)
  then show "request_host uni toASCII (s @ ''.'') = (map to_lower s, [])"
    using assms l n
    by (simp add: request_host_def Let_def ToLower_def plain_host_def TrimSuffix_dot_snoc del: isASCII_append)
       (simp add: isASCII_append)
qed

section \<open>Properties\<close>

text \<open>
  C9. A tenant's host is its own. If exactly one domain of the configuration names a plain host (as
  its host or as an alias), then a request for that host is answered by that domain, in every
  spelling of the name (upper or lower case, with or without the absolute-form dot), no matter what
  the other domains imply: www variants, bare forms of port-qualified names, wildcards, or the order
  of the configuration.
\<close>

theorem vhost_owner_is_served:
  assumes "i < length ds" and "name \<in> set (domain_names (ds ! i))" and "plain_host name"
    and "\<And>j n. j < length ds \<Longrightarrow> n \<in> set (domain_names (ds ! j)) \<Longrightarrow>
           canon_name uni toASCII n = map to_lower name \<Longrightarrow> j = i"
    and "map to_lower spelling = map to_lower name" and "isASCII spelling"
  shows "LookupWithStatus uni toASCII (store uni toASCII sortSlice ds) spelling = (Some i, True)
       \<and> LookupWithStatus uni toASCII (store uni toASCII sortSlice ds) (spelling @ ''.'') = (Some i, True)"
proof -
  let ?m = "store uni toASCII sortSlice ds"
  have e: "exact ?m (map to_lower name) = Some i"
    using exact_owner [OF assms(1,2) exact_name_plain [OF assms(3)]] assms(4)
    by (simp add: canon_name_plain [OF assms(3)])
  have "plain_host spelling"
    using plain_host_lower_iff [OF assms(6)] plain_host_lower [OF assms(3)] assms(5) by simp
  from request_host_plain [OF this] assms(5) e show ?thesis
    by (simp add: LookupWithStatus_def lookupName_def)
qed

definition example_domains :: "Domain list" where
  "example_domains =
     [\<lparr>Host = ''www.example.com'', Aliases = [''example.com:8080'']\<rparr>,
      \<lparr>Host = ''example.com'', Aliases = [''*.example.com'']\<rparr>]"

lemma example_domains_canon:
  "canon_name id (\<lambda>_. None) ''www.example.com'' = ''www.example.com''"
  "canon_name id (\<lambda>_. None) ''example.com:8080'' = ''example.com:8080''"
  "canon_name id (\<lambda>_. None) ''*.example.com'' = ''*.example.com''"
  "map to_lower ''example.com'' = ''example.com''"
  by code_simp+

lemma example_domains_unique:
  assumes "j < length example_domains" and "n \<in> set (domain_names (example_domains ! j))"
    and "canon_name id (\<lambda>_. None) n = map to_lower ''example.com''"
  shows "j = 1"
proof -
  have "j = 0 \<or> j = 1" using assms(1) by (auto simp: example_domains_def)
  moreover have "j \<noteq> 0"
  proof
    assume "j = 0"
    with assms(2) have "n = ''www.example.com'' \<or> n = ''example.com:8080''"
      by (simp add: example_domains_def domain_names_def)
    with assms(3) show False unfolding example_domains_canon(4)
      by (elim disjE) (simp_all only: example_domains_canon, simp_all)
  qed
  ultimately show ?thesis by simp
qed

theorem vhost_owner_is_served_witness:
  "LookupWithStatus id (\<lambda>_. None) (store id (\<lambda>_. None) (sort_key (\<lambda>w. - int (length (fst w)))) example_domains)
     ''EXAMPLE.com'' = (Some 1, True)"
proof -
  have "plain_host ''example.com''" by code_simp
  moreover have "isASCII ''EXAMPLE.com''" "map to_lower ''EXAMPLE.com'' = map to_lower ''example.com''"
    by code_simp+
  ultimately show ?thesis
    using vhost_owner_is_served [of 1 example_domains "''example.com''" id "\<lambda>_. None" "''EXAMPLE.com''",
        OF _ _ _ example_domains_unique]
    by (simp add: example_domains_def domain_names_def)
qed

text \<open>\<open>sort.Slice\<close> with the comparison of \<open>store\<close>: some permutation, longest suffixes first.\<close>

definition sorts_longest_first :: "((string \<times> domain_ref) list \<Rightarrow> (string \<times> domain_ref) list) \<Rightarrow> bool" where
  "sorts_longest_first srt \<longleftrightarrow>
     (\<forall>ws. mset (srt ws) = mset ws \<and> sorted_wrt (\<lambda>a b. length (fst b) \<le> length (fst a)) (srt ws))"

lemma find_longest:
  assumes "sorted_wrt (\<lambda>a b. length (fst b) \<le> length (fst a)) ws" and "find P ws = Some w"
  shows "w \<in> set ws \<and> P w \<and> (\<forall>v \<in> set ws. P v \<longrightarrow> length (fst v) \<le> length (fst w))"
  using assms
proof (induction ws)
  case Nil
  then show ?case by simp
next
  case (Cons a ws)
  then show ?case by (cases "P a") auto
qed

text \<open>
  Wildcards and fallback. For a request host no exact name owns, the answer is the domain of a
  configured wildcard whose suffix the host ends in, and no longer configured wildcard suffix matches;
  when no wildcard matches either, the answer is the first domain and the request is reported as not
  configured. This holds for every order in which \<open>sort.Slice\<close> may leave wildcards of equal length.
\<close>

theorem vhost_longest_wildcard:
  assumes "sorts_longest_first sortSlice" and "request_host uni toASCII host = (h, port)"
    and "exact (store uni toASCII sortSlice ds) h = None"
    and "exact (store uni toASCII sortSlice ds) (h @ port) = None"
  shows "case LookupWithStatus uni toASCII (store uni toASCII sortSlice ds) host of
           (d, True) \<Rightarrow> \<exists>suf i. d = Some i \<and> (suf, i) \<in> set (wildcard_claims uni toASCII ds) \<and> HasSuffix h suf
              \<and> (\<forall>(suf', j) \<in> set (wildcard_claims uni toASCII ds). HasSuffix h suf' \<longrightarrow> length suf' \<le> length suf)
         | (d, False) \<Rightarrow> d = (if ds = [] then None else Some 0)
              \<and> (\<forall>(suf', j) \<in> set (wildcard_claims uni toASCII ds). \<not> HasSuffix h suf')"
proof -
  let ?ws = "wildcard_claims uni toASCII ds" and ?m = "store uni toASCII sortSlice ds"
  have sorted: "sorted_wrt (\<lambda>a b. length (fst b) \<le> length (fst a)) (sortSlice ?ws)"
    and same: "set (sortSlice ?ws) = set ?ws"
    using assms(1) by (auto simp: sorts_longest_first_def dest: mset_eq_setD)
  have l: "LookupWithStatus uni toASCII ?m host
      = (case find (\<lambda>(suf, d). HasSuffix h suf) (sortSlice ?ws) of
           Some (suf, d) \<Rightarrow> (Some d, True) | None \<Rightarrow> (if ds = [] then None else Some 0, False))"
    using assms(2-4)
    by (simp add: LookupWithStatus_def lookupName_def store_tables(2,3) cong: option.case_cong)
  show ?thesis
  proof (cases "find (\<lambda>(suf, d). HasSuffix h suf) (sortSlice ?ws)")
    case None
    then have "\<forall>(suf', j) \<in> set ?ws. \<not> HasSuffix h suf'"
      unfolding find_None_iff same [symmetric] by auto
    then show ?thesis unfolding l None by simp
  next
    case (Some w)
    obtain suf i where w: "w = (suf, i)" by (cases w)
    from find_longest [OF sorted Some] show ?thesis
      unfolding l Some w same by fastforce
  qed
qed

lemma sorts_longest_first_stable: "sorts_longest_first (sort_key (\<lambda>w. - int (length (fst w))))"
  unfolding sorts_longest_first_def
proof (intro allI conjI)
  fix ws :: "(string \<times> domain_ref) list"
  show "mset (sort_key (\<lambda>w. - int (length (fst w))) ws) = mset ws" by simp
  have "sorted_wrt (\<lambda>a b. - int (length (fst a)) \<le> - int (length (fst b)))
      (sort_key (\<lambda>w. - int (length (fst w))) ws)"
    using sorted_sort_key [of "\<lambda>w :: string \<times> domain_ref. - int (length (fst w))" ws]
    by (simp add: sorted_map)
  then show "sorted_wrt (\<lambda>a b. length (fst b) \<le> length (fst a)) (sort_key (\<lambda>w. - int (length (fst w))) ws)"
    by simp
qed

theorem vhost_longest_wildcard_witness:
  "\<exists>suf. (suf, 1) \<in> set (wildcard_claims id (\<lambda>_. None) example_domains) \<and> HasSuffix ''a.b.example.com'' suf"
proof -
  let ?srt = "sort_key (\<lambda>w. - int (length (fst w))) :: (string \<times> domain_ref) list \<Rightarrow> (string \<times> domain_ref) list"
  have r: "request_host id (\<lambda>_. None) ''a.b.Example.com:81'' = (''a.b.example.com'', '':81'')"
    by code_simp
  have n: "exact (store id (\<lambda>_. None) ?srt example_domains) ''a.b.example.com'' = None"
    "exact (store id (\<lambda>_. None) ?srt example_domains) (''a.b.example.com'' @ '':81'') = None"
    by code_simp+
  have l: "LookupWithStatus id (\<lambda>_. None) (store id (\<lambda>_. None) ?srt example_domains) ''a.b.Example.com:81''
      = (Some 1, True)"
    by code_simp
  show ?thesis
    using vhost_longest_wildcard [OF sorts_longest_first_stable r n] unfolding l by auto
qed

text \<open>
  IPv6 literals are not separated. A domain configured for the literal address \<open>[::1]\<close>, which has
  no port, also registers the text before its last colon as a bare host; a request for a different
  literal, \<open>[::2]\<close>, is then answered by that domain as a configured host instead of being rejected
  as unknown.
\<close>

theorem vhost_ipv6_literal_misrouted:
  "LookupWithStatus uni toASCII
     (store uni toASCII sortSlice [\<lparr>Host = ''other.example'', Aliases = []\<rparr>, \<lparr>Host = ''[::1]'', Aliases = []\<rparr>])
     ''[::2]'' = (Some 1, True)"
  by code_simp

end
