(* ===== verification/Go_Net.thy ===== *)
theory Go_Net
  imports Go_Strings
begin

text \<open>
  What the source uses of Go's packages \<open>net\<close> and \<open>net/netip\<close>: splitting and joining host and port,
  parsing and printing addresses, and CIDR networks. A \<open>net.IP\<close> is its byte slice, 4 or 16 bytes long;
  an \<open>*net.IPNet\<close> keeps the network number and the length of its mask, which for every network the
  source builds comes from \<open>net.CIDRMask\<close>. The lemmas say what containment means in bits.
\<close>

unbundle bit_operations_syntax

section \<open>Hosts and ports\<close>

definition SplitHostPort :: "string \<Rightarrow> (string \<times> string) option" where
  "SplitHostPort hp =
     (case LastIndexByte hp CHR '':'' of
        None \<Rightarrow> None
      | Some i \<Rightarrow>
          (if hp ! 0 = CHR ''['' then
             (case IndexByte hp CHR '']'' of
                None \<Rightarrow> None
              | Some e \<Rightarrow>
                  if e + 1 = length hp \<or> e + 1 \<noteq> i then None
                  else if CHR ''['' \<in> set (drop 1 hp) \<or> CHR '']'' \<in> set (drop (e + 1) hp) then None
                  else Some (drop 1 (take e hp), drop (i + 1) hp))
           else if CHR '':'' \<in> set (take i hp) \<or> CHR ''['' \<in> set hp \<or> CHR '']'' \<in> set hp then None
           else Some (take i hp, drop (i + 1) hp)))"

definition JoinHostPort :: "string \<Rightarrow> string \<Rightarrow> string" where
  "JoinHostPort host port =
     (if CHR '':'' \<in> set host then ''['' @ host @ '']:'' @ port else host @ '':'' @ port)"

section \<open>Addresses\<close>

type_synonym net_ip = bytes

datatype netip_addr = Addr4 bytes | Addr6 bytes string

definition digit_value :: "char \<Rightarrow> nat" where
  "digit_value c = (of_char c :: nat) - 48"

text \<open>
  The octet scanner of \<open>netip.parseIPv4Fields\<close>: fields so far, value and digits of the current octet.
\<close>

fun ipv4_fields :: "nat list \<Rightarrow> nat \<Rightarrow> nat \<Rightarrow> string \<Rightarrow> nat list option" where
  "ipv4_fields fs val digs [] =
     (if length fs < 3 then None else Some (fs @ [val]))"
| "ipv4_fields fs val digs (c # cs) =
     (if is_digit c then
        (let val' = val * 10 + digit_value c in
         if digs = 1 \<and> val = 0 \<or> val' > 255 then None else ipv4_fields fs val' (digs + 1) cs)
      else if c = CHR ''.'' then
        (if digs = 0 \<or> cs = [] \<or> length fs = 3 then None else ipv4_fields (fs @ [val]) 0 0 cs)
      else None)"

definition parseIPv4Fields :: "string \<Rightarrow> bytes option" where
  "parseIPv4Fields s = map_option (map word_of_nat) (ipv4_fields [] 0 0 s)"

definition hex_value :: "char \<Rightarrow> nat option" where
  "hex_value c =
     (let n = (of_char c :: nat) in
      if 48 \<le> n \<and> n \<le> 57 then Some (n - 48)
      else if 97 \<le> n \<and> n \<le> 102 then Some (n - 87)
      else if 65 \<le> n \<and> n \<le> 70 then Some (n - 55)
      else None)"

definition is_hex :: "char \<Rightarrow> bool" where
  "is_hex c \<longleftrightarrow> hex_value c \<noteq> None"

definition hex_number :: "string \<Rightarrow> nat" where
  "hex_number s = foldl (\<lambda>a c. a * 16 + (case hex_value c of Some d \<Rightarrow> d | None \<Rightarrow> 0)) 0 s"

text \<open>The group loop of \<open>netip.parseIPv6\<close>: bytes so far, position of the ellipsis, rest of the text.\<close>

function ipv6_groups :: "bytes \<Rightarrow> nat option \<Rightarrow> string \<Rightarrow> (bytes \<times> nat option \<times> string) option" where
  "ipv6_groups ip ell s =
     (if length ip \<ge> 16 then Some (ip, ell, s)
      else
        (let ds = takeWhile is_hex s; rest = dropWhile is_hex s in
         if ds = [] \<or> length ds > 4 then None
         else if rest \<noteq> [] \<and> hd rest = CHR ''.'' then
           (if ell = None \<and> length ip \<noteq> 12 \<or> length ip + 4 > 16 then None
            else map_option (\<lambda>f. (ip @ f, ell, [])) (parseIPv4Fields s))
         else
           (let ip' = ip @ put_be 2 (hex_number ds) in
            case rest of
              [] \<Rightarrow> Some (ip', ell, [])
            | c # rest' \<Rightarrow>
                if c \<noteq> CHR '':'' \<or> rest' = [] then None
                else if hd rest' = CHR '':'' then
                  (if ell \<noteq> None then None
                   else if tl rest' = [] then Some (ip', Some (length ip'), [])
                   else ipv6_groups ip' (Some (length ip')) (tl rest'))
                else ipv6_groups ip' ell rest')))"
  by pat_completeness auto
termination
proof (relation "measure (\<lambda>(ip, ell, s). length s)", goal_cases)
  case 1
  then show ?case by simp
next
  case (2 ip ell s ds rest ip' c rest')
  have "length (dropWhile is_hex s) \<le> length s" by (rule length_dropWhile_le)
  moreover have "dropWhile is_hex s = c # rest'" using 2 by simp
  ultimately have "length rest' < length s" by simp
  then show ?case by simp
next
  case (3 ip ell s ds rest ip' c rest')
  have "length (dropWhile is_hex s) \<le> length s" by (rule length_dropWhile_le)
  moreover have "dropWhile is_hex s = c # rest'" using 3 by simp
  ultimately have "length rest' < length s" by simp
  then show ?case by simp
qed

declare ipv6_groups.simps [simp del]

definition ipv6_expand :: "bytes \<Rightarrow> nat option \<Rightarrow> bytes option" where
  "ipv6_expand ip ell =
     (case ell of
        None \<Rightarrow> if length ip < 16 then None else Some ip
      | Some e \<Rightarrow>
          if length ip < 16 then Some (take e ip @ replicate (16 - length ip) 0 @ drop e ip) else None)"

definition parseIPv6 :: "string \<Rightarrow> netip_addr option" where
  "parseIPv6 inp =
     (let (s, zone, zoned) = (case IndexByte inp CHR ''%'' of
                                Some i \<Rightarrow> (take i inp, drop (i + 1) inp, True)
                              | None \<Rightarrow> (inp, [], False))
      in if zoned \<and> zone = [] then None
         else
           (let lead = HasPrefix s ''::''; s' = (if lead then drop 2 s else s) in
            if lead \<and> s' = [] then Some (Addr6 (replicate 16 0) zone)
            else
              (case ipv6_groups [] (if lead then Some 0 else None) s' of
                 Some (ip, ell, []) \<Rightarrow> map_option (\<lambda>b. Addr6 b zone) (ipv6_expand ip ell)
               | _ \<Rightarrow> None)))"

definition ParseAddr :: "string \<Rightarrow> netip_addr option" where
  "ParseAddr s =
     (case find (\<lambda>c. c \<in> {CHR ''.'', CHR '':'', CHR ''%''}) s of
        None \<Rightarrow> None
      | Some c \<Rightarrow>
          if c = CHR ''.'' then map_option Addr4 (parseIPv4Fields s)
          else if c = CHR '':'' then parseIPv6 s
          else None)"

definition v4InV6Prefix :: bytes where
  "v4InV6Prefix = replicate 10 0 @ [0xFF, 0xFF]"

fun As16 :: "netip_addr \<Rightarrow> bytes" where
  "As16 (Addr4 b) = v4InV6Prefix @ b"
| "As16 (Addr6 b zone) = b"

fun AddrZone :: "netip_addr \<Rightarrow> string" where
  "AddrZone (Addr4 b) = []"
| "AddrZone (Addr6 b zone) = zone"

fun BitLen :: "netip_addr \<Rightarrow> nat" where
  "BitLen (Addr4 b) = 32"
| "BitLen (Addr6 b zone) = 128"

definition ParseIP :: "string \<Rightarrow> net_ip option" where
  "ParseIP s =
     (case ParseAddr s of
        None \<Rightarrow> None
      | Some a \<Rightarrow> if AddrZone a \<noteq> [] then None else Some (As16 a))"

definition To4 :: "net_ip \<Rightarrow> bytes option" where
  "To4 ip =
     (if length ip = 4 then Some ip
      else if length ip = 16 \<and> take 12 ip = v4InV6Prefix then Some (drop 12 ip)
      else None)"

definition IPEqual :: "net_ip \<Rightarrow> net_ip \<Rightarrow> bool" where
  "IPEqual a b \<longleftrightarrow>
     (if length a = length b then a = b
      else if length a = 4 \<and> length b = 16 then take 12 b = v4InV6Prefix \<and> a = drop 12 b
      else if length a = 16 \<and> length b = 4 then take 12 a = v4InV6Prefix \<and> drop 12 a = b
      else False)"

definition IsLoopback :: "net_ip \<Rightarrow> bool" where
  "IsLoopback ip \<longleftrightarrow>
     (case To4 ip of Some b \<Rightarrow> hd b = 127 | None \<Rightarrow> IPEqual ip (replicate 15 0 @ [1]))"

definition IsUnspecified :: "net_ip \<Rightarrow> bool" where
  "IsUnspecified ip \<longleftrightarrow> IPEqual ip (v4InV6Prefix @ [0, 0, 0, 0]) \<or> IPEqual ip (replicate 16 0)"

section \<open>Printing\<close>

definition dotted :: "bytes \<Rightarrow> string" where
  "dotted b = Join (map (\<lambda>x. Itoa (unat x)) b) ''.''"

definition hexDigits :: string where "hexDigits = ''0123456789abcdef''"

fun appendHex :: "nat \<Rightarrow> string" where
  "appendHex n = (if n < 16 then [hexDigits ! n] else appendHex (n div 16) @ [hexDigits ! (n mod 16)])"

declare appendHex.simps [simp del]

definition v6u16 :: "bytes \<Rightarrow> nat \<Rightarrow> nat" where
  "v6u16 ip i = get_be (take 2 (drop (2 * i) ip))"

definition zero_run :: "bytes \<Rightarrow> nat \<Rightarrow> nat" where
  "zero_run ip i = i + length (takeWhile (\<lambda>j. v6u16 ip j = 0) [i..<8])"

text \<open>The leftmost longest run of at least two zero groups, as \<open>(start, end)\<close>.\<close>

definition longest_zero_run :: "bytes \<Rightarrow> (nat \<times> nat) option" where
  "longest_zero_run ip =
     foldl (\<lambda>best i.
       let j = zero_run ip i; l = j - i;
           cur = (case best of None \<Rightarrow> 0 | Some (a, b) \<Rightarrow> b - a)
       in if l \<ge> 2 \<and> l > cur then Some (i, j) else best) None [0..<8]"

definition groups_text :: "bytes \<Rightarrow> nat list \<Rightarrow> string" where
  "groups_text ip is = Join (map (\<lambda>i. appendHex (v6u16 ip i)) is) '':''"

definition string6 :: "bytes \<Rightarrow> string" where
  "string6 ip =
     (case longest_zero_run ip of
        None \<Rightarrow> groups_text ip [0..<8]
      | Some (a, b) \<Rightarrow> groups_text ip [0..<a] @ ''::'' @ groups_text ip [b..<8])"

definition IPString :: "net_ip \<Rightarrow> string" where
  "IPString ip = (case To4 ip of Some b \<Rightarrow> dotted b | None \<Rightarrow> string6 ip)"

section \<open>Networks\<close>

record IPNet =
  netIP :: bytes
  maskOnes :: nat
  maskBits :: nat

text \<open>The byte with \<open>k\<close> leading one bits.\<close>

definition lead_ones :: "nat \<Rightarrow> byte" where
  "lead_ones k = push_bit (8 - k) (- 1)"

definition CIDRMask :: "nat \<Rightarrow> nat \<Rightarrow> bytes" where
  "CIDRMask ones bits = map (\<lambda>i. lead_ones (min 8 (ones - 8 * i))) [0..<bits div 8]"

definition and_bytes :: "bytes \<Rightarrow> bytes \<Rightarrow> bytes" where
  "and_bytes a b = map2 (AND) a b"

definition dtoi :: "string \<Rightarrow> nat option" where
  "dtoi s =
     (if s = [] \<or> \<not> list_all is_digit s then None
      else let n = digits_value s in if int n \<ge> 0xFFFFFF then None else Some n)"

definition ParseCIDR :: "string \<Rightarrow> IPNet option" where
  "ParseCIDR s =
     (case IndexByte s CHR ''/'' of
        None \<Rightarrow> None
      | Some i \<Rightarrow>
          (case ParseAddr (take i s) of
             None \<Rightarrow> None
           | Some a \<Rightarrow>
               (case dtoi (drop (i + 1) s) of
                  None \<Rightarrow> None
                | Some n \<Rightarrow>
                    if AddrZone a \<noteq> [] \<or> n > BitLen a then None
                    else
                      (let ip = (if BitLen a = 32 then drop 12 (As16 a) else As16 a) in
                       Some \<lparr>netIP = and_bytes ip (CIDRMask n (BitLen a)),
                             maskOnes = n, maskBits = BitLen a\<rparr>))))"

definition IPNetContains :: "IPNet \<Rightarrow> net_ip \<Rightarrow> bool" where
  "IPNetContains n ip =
     (let nn = (case To4 (netIP n) of Some b \<Rightarrow> b | None \<Rightarrow> netIP n);
          m = CIDRMask (maskOnes n) (maskBits n);
          m = (if length m = 16 \<and> length nn = 4 then drop 12 m else m);
          x = (case To4 ip of Some b \<Rightarrow> b | None \<Rightarrow> ip)
      in length nn = length m \<and> length x = length nn \<and> and_bytes nn m = and_bytes x m)"

section \<open>Well-formed results\<close>

lemma ipv4_fields_length: "ipv4_fields fs val digs s = Some r \<Longrightarrow> length fs \<le> 3 \<Longrightarrow> length r = 4"
  by (induction fs val digs s rule: ipv4_fields.induct) (auto simp: Let_def split: if_splits)

lemma parseIPv4Fields_length: "parseIPv4Fields s = Some b \<Longrightarrow> length b = 4"
  by (auto simp: parseIPv4Fields_def dest: ipv4_fields_length)

text \<open>One iteration of the group loop.\<close>

lemma ipv6_groups_cases:
  assumes "ipv6_groups ip ell s = Some r" and "length ip < 16"
  obtains (v4) f where "parseIPv4Fields s = Some f" "length ip + 4 \<le> 16" "r = (ip @ f, ell, [])"
  | (last) "list_all is_hex s" "s \<noteq> []" "r = (ip @ put_be 2 (hex_number s), ell, [])"
  | (ellipsis_end) ds where "list_all is_hex ds" "s = ds @ ''::''" "ell = None"
      "r = (ip @ put_be 2 (hex_number ds), Some (length ip + 2), [])"
  | (ellipsis) ds rest where "list_all is_hex ds" "s = ds @ ''::'' @ rest" "ell = None"
      "ipv6_groups (ip @ put_be 2 (hex_number ds)) (Some (length ip + 2)) rest = Some r"
  | (colon) ds rest where "list_all is_hex ds" "s = ds @ '':'' @ rest"
      "ipv6_groups (ip @ put_be 2 (hex_number ds)) ell rest = Some r"
proof -
  define ds rest where "ds = takeWhile is_hex s" and "rest = dropWhile is_hex s"
  let ?ip = "ip @ put_be 2 (hex_number ds)"
  have s: "s = ds @ rest" by (simp add: ds_def rest_def)
  have hex: "list_all is_hex ds" by (auto simp: ds_def list_all_iff dest: set_takeWhileD)
  have "ipv6_groups ip ell s =
     (if ds = [] \<or> length ds > 4 then None
      else if rest \<noteq> [] \<and> hd rest = CHR ''.'' then
        (if ell = None \<and> length ip \<noteq> 12 \<or> length ip + 4 > 16 then None
         else map_option (\<lambda>f. (ip @ f, ell, [])) (parseIPv4Fields s))
      else
        (case rest of
           [] \<Rightarrow> Some (?ip, ell, [])
         | c # rest' \<Rightarrow>
             if c \<noteq> CHR '':'' \<or> rest' = [] then None
             else if hd rest' = CHR '':'' then
               (if ell \<noteq> None then None
                else if tl rest' = [] then Some (?ip, Some (length ?ip), [])
                else ipv6_groups ?ip (Some (length ?ip)) (tl rest'))
             else ipv6_groups ?ip ell rest'))"
    unfolding ipv6_groups.simps [of ip ell s] Let_def ds_def [symmetric] rest_def [symmetric]
    using assms(2) by simp
  note e = this [unfolded assms(1), symmetric]
  show thesis
  proof (cases "rest \<noteq> [] \<and> hd rest = CHR ''.''")
    case True
    with e v4 show ?thesis by (auto split: if_splits)
  next
    case dot: False
    show ?thesis
    proof (cases rest)
      case Nil
      with e s hex last show ?thesis by (auto split: if_splits)
    next
      case (Cons c rest')
      with e dot have c: "c = CHR '':''" "rest' \<noteq> []" by (auto split: if_splits)
      then obtain d rest'' where r': "rest' = d # rest''" by (cases rest') auto
      show ?thesis
      proof (cases "d = CHR '':''")
        case True
        with e Cons c r' dot s hex ellipsis_end ellipsis show ?thesis by (auto split: if_splits)
      next
        case False
        with e Cons c r' dot have "ipv6_groups ?ip ell rest' = Some r" by (auto split: if_splits)
        with Cons c s hex colon show ?thesis by simp
      qed
    qed
  qed
qed

lemma ipv6_groups_full: "length ip \<ge> 16 \<Longrightarrow> ipv6_groups ip ell s = Some (ip, ell, s)"
  by (subst ipv6_groups.simps) simp

lemma ipv6_groups_length:
  assumes "ipv6_groups ip ell s = Some (ip', ell', s')" and "even (length ip)" and "length ip \<le> 16"
    and "\<And>e. ell = Some e \<Longrightarrow> e \<le> length ip"
  shows "length ip' \<le> 16 \<and> (\<forall>e. ell' = Some e \<longrightarrow> e \<le> length ip')"
  using assms
proof (induction "length s" arbitrary: ip ell s rule: less_induct)
  case less
  show ?case
  proof (cases "length ip = 16")
    case True
    with less.prems show ?thesis by (simp add: ipv6_groups_full)
  next
    case False
    with less.prems(3) have lt: "length ip < 16" by simp
    with less.prems(2) have room: "length ip + 2 \<le> 16" by presburger
    from less.prems(1) lt show ?thesis
    proof (cases rule: ipv6_groups_cases)
      case (v4 f)
      with less.prems(4) parseIPv4Fields_length show ?thesis by fastforce
    next
      case last
      with less.prems(4) room show ?thesis by fastforce
    next
      case (ellipsis_end ds)
      with room show ?thesis by simp
    next
      case (ellipsis ds rest)
      with less.hyps [OF _ ellipsis(4)] less.prems(2) room show ?thesis by simp
    next
      case (colon ds rest)
      have "e \<le> length (ip @ put_be 2 (hex_number ds))" if "ell = Some e" for e
        using less.prems(4) [OF that] by simp
      with less.hyps [OF _ colon(3)] colon(2) less.prems(2) room show ?thesis by simp
    qed
  qed
qed

lemma ipv6_expand_length:
  "ipv6_expand ip ell = Some b \<Longrightarrow> length ip \<le> 16 \<Longrightarrow> (\<And>e. ell = Some e \<Longrightarrow> e \<le> length ip) \<Longrightarrow> length b = 16"
  by (auto simp: ipv6_expand_def split: option.splits if_splits)

lemma IndexByte_Some: "IndexByte s c = Some i \<Longrightarrow> s = take i s @ c # drop (i + 1) s \<and> c \<notin> set (take i s)"
  by (induction s arbitrary: i) (auto split: if_splits)

lemma parseIPv6_groups:
  assumes "parseIPv6 inp = Some a"
  obtains (unspecified) zone where "a = Addr6 (replicate 16 0) zone" "zone = [] \<Longrightarrow> inp = ''::''"
  | (groups) s zone lead ip ell b where "zone = [] \<Longrightarrow> inp = (if lead then ''::'' else []) @ s"
    "ipv6_groups [] (if lead then Some 0 else None) s = Some (ip, ell, [])"
    "ipv6_expand ip ell = Some b" "a = Addr6 b zone"
proof -
  obtain s zone zoned where z: "(case IndexByte inp CHR ''%'' of
        Some i \<Rightarrow> (take i inp, drop (i + 1) inp, True) | None \<Rightarrow> (inp, [], False)) = (s, zone, zoned)"
    by (rule prod_cases3)
  then have plain: "\<not> zoned \<Longrightarrow> s = inp" "\<not> zoned \<Longrightarrow> zone = []"
    by (cases "IndexByte inp CHR ''%''"; simp)+
  define lead where "lead = HasPrefix s ''::''"
  define s' where "s' = (if lead then drop 2 s else s)"
  have s: "s = (if lead then ''::'' else []) @ s'"
    by (auto simp: lead_def s'_def HasPrefix_def prefix_def)
  have e: "(if zoned \<and> zone = [] then None
      else if lead \<and> s' = [] then Some (Addr6 (replicate 16 0) zone)
      else (case ipv6_groups [] (if lead then Some 0 else None) s' of
                 Some (ip, ell, []) \<Rightarrow> map_option (\<lambda>b. Addr6 b zone) (ipv6_expand ip ell)
               | _ \<Rightarrow> None)) = Some a"
    using assms unfolding parseIPv6_def z Let_def prod.case lead_def [symmetric] s'_def [symmetric] .
  have inp: "zone = [] \<Longrightarrow> inp = s" using e plain by (auto split: if_splits)
  show thesis
  proof (cases "lead \<and> s' = []")
    case True
    with e have "a = Addr6 (replicate 16 0) zone" by (auto split: if_splits)
    with True inp s unspecified show ?thesis by simp
  next
    case False
    with e obtain ip ell b where "ipv6_groups [] (if lead then Some 0 else None) s' = Some (ip, ell, [])"
      "ipv6_expand ip ell = Some b" "a = Addr6 b zone"
      by (auto split: if_splits option.splits prod.splits list.splits)
    with inp s groups show ?thesis by blast
  qed
qed

lemma parseIPv6_length: "parseIPv6 s = Some a \<Longrightarrow> \<exists>b z. a = Addr6 b z \<and> length b = 16"
proof (erule parseIPv6_groups)
  fix t zone lead ip ell b
  assume g: "ipv6_groups [] (if lead then Some 0 else None) t = Some (ip, ell, [])"
    and b: "ipv6_expand ip ell = Some b" "a = Addr6 b zone"
  have "length ip \<le> 16 \<and> (\<forall>e. ell = Some e \<longrightarrow> e \<le> length ip)"
    by (rule ipv6_groups_length [OF g]) (simp_all split: if_splits)
  with b ipv6_expand_length [OF b(1)] show ?thesis by simp
qed simp

lemma ParseAddr_length:
  "ParseAddr s = Some a \<Longrightarrow> length (As16 a) = 16 \<and> (BitLen a = 32 \<or> BitLen a = 128)
     \<and> (BitLen a = 32 \<longrightarrow> take 12 (As16 a) = v4InV6Prefix)"
proof -
  assume "ParseAddr s = Some a"
  then consider b where "a = Addr4 b" "parseIPv4Fields s = Some b" | "parseIPv6 s = Some a"
    by (auto simp: ParseAddr_def split: option.splits if_splits)
  then show ?thesis
    by cases (auto simp: v4InV6Prefix_def dest: parseIPv4Fields_length parseIPv6_length)
qed

lemma ParseIP_length: "ParseIP s = Some ip \<Longrightarrow> length ip = 16"
  by (auto simp: ParseIP_def dest: ParseAddr_length split: option.splits if_splits)

text \<open>The characters of an address without a zone.\<close>

definition addr_char :: "char \<Rightarrow> bool" where
  "addr_char c \<longleftrightarrow> is_hex c \<or> c = CHR ''.'' \<or> c = CHR '':''"

lemma is_digit_hex: "is_digit c \<Longrightarrow> is_hex c"
  by (simp add: is_digit_def is_hex_def hex_value_def Let_def)

lemma ipv4_fields_chars: "ipv4_fields fs val digs s = Some r \<Longrightarrow> list_all addr_char s"
  by (induction fs val digs s rule: ipv4_fields.induct)
     (auto simp: Let_def addr_char_def is_digit_hex split: if_splits)

lemma parseIPv4Fields_chars: "parseIPv4Fields s = Some b \<Longrightarrow> list_all addr_char s"
  by (auto simp: parseIPv4Fields_def dest: ipv4_fields_chars)

lemma hex_addr_chars: "list_all is_hex ds \<Longrightarrow> list_all addr_char ds"
  by (auto simp: list_all_iff addr_char_def)

lemma ipv6_groups_chars:
  "ipv6_groups ip ell s = Some (ip', ell', []) \<Longrightarrow> list_all addr_char s"
proof (induction "length s" arbitrary: ip ell s rule: less_induct)
  case less
  have colon: "addr_char CHR '':''" by (simp add: addr_char_def)
  show ?case
  proof (cases "length ip \<ge> 16")
    case True
    with less.prems show ?thesis by (simp add: ipv6_groups_full)
  next
    case False
    then have "length ip < 16" by simp
    with less.prems show ?thesis
    proof (cases rule: ipv6_groups_cases)
      case (v4 f)
      then show ?thesis by (simp add: parseIPv4Fields_chars)
    next
      case last
      then show ?thesis by (simp add: hex_addr_chars)
    next
      case (ellipsis_end ds)
      then show ?thesis using colon by (simp add: hex_addr_chars)
    next
      case (ellipsis ds rest)
      with less.hyps [OF _ ellipsis(4)] colon show ?thesis by (simp add: hex_addr_chars)
    next
      case (colon ds rest)
      with less.hyps [OF _ colon(3)] \<open>addr_char CHR '':''\<close> show ?thesis by (simp add: hex_addr_chars)
    qed
  qed
qed

lemma ParseIP_chars:
  assumes "ParseIP s = Some ip"
  shows "list_all addr_char s"
proof -
  from assms obtain a where a: "ParseAddr s = Some a" "AddrZone a = []"
    by (auto simp: ParseIP_def split: option.splits if_splits)
  then consider b where "parseIPv4Fields s = Some b" | "parseIPv6 s = Some a"
    by (auto simp: ParseAddr_def split: option.splits if_splits)
  then show ?thesis
  proof cases
    case 1
    then show ?thesis by (rule parseIPv4Fields_chars)
  next
    case 2
    then show ?thesis
    proof (cases rule: parseIPv6_groups)
      case (unspecified zone)
      with a show ?thesis by (simp add: addr_char_def)
    next
      case (groups t zone lead iq ell b)
      with a have "s = (if lead then ''::'' else []) @ t" by simp
      with ipv6_groups_chars [OF groups(2)] show ?thesis by (simp add: addr_char_def)
    qed
  qed
qed

lemma LastIndexByte_snoc:
  assumes "c \<notin> set t"
  shows "LastIndexByte (s @ c # t) c = Some (length s)"
proof -
  have "IndexByte (rev t @ c # u) c = Some (length t)" for u
    using assms by (induction t rule: rev_induct) auto
  then show ?thesis by (simp add: LastIndexByte_def)
qed

lemma SplitHostPort_JoinHostPort:
  assumes "list_all addr_char host" and "CHR '':'' \<notin> set port" "CHR ''['' \<notin> set port" "CHR '']'' \<notin> set port"
    and "host \<noteq> []"
  shows "SplitHostPort (JoinHostPort host port) = Some (host, port)"
proof -
  have brackets: "\<not> addr_char CHR ''[''" "\<not> addr_char CHR '']''"
    by (simp_all add: addr_char_def is_hex_def hex_value_def)
  then have h: "CHR ''['' \<notin> set host" "CHR '']'' \<notin> set host"
    using assms(1) by (auto simp: list_all_iff)
  show ?thesis
  proof (cases "CHR '':'' \<in> set host")
    case True
    let ?hp = "''['' @ host @ '']:'' @ port"
    have i: "LastIndexByte ?hp CHR '':'' = Some (length host + 2)"
      using LastIndexByte_snoc [OF assms(2), of "''['' @ host @ '']''"] by simp
    have "IndexByte (host @ CHR '']'' # u) CHR '']'' = Some (length host)" for u
      using h(2) by (induction host) auto
    then have e: "IndexByte ?hp CHR '']'' = Some (length host + 1)" by simp
    show ?thesis
      using True h assms by (simp add: JoinHostPort_def SplitHostPort_def i [simplified] e [simplified])
  next
    case False
    have "LastIndexByte (host @ '':'' @ port) CHR '':'' = Some (length host)"
      using LastIndexByte_snoc [OF assms(2), of host] by simp
    moreover have "(host @ '':'' @ port) ! 0 \<noteq> CHR ''[''"
      using assms(5) h(1) by (cases host) auto
    ultimately show ?thesis using False h assms by (simp add: JoinHostPort_def SplitHostPort_def)
  qed
qed

section \<open>Containment in bits\<close>

definition byte_bits :: "byte \<Rightarrow> bool list" where
  "byte_bits b = map (\<lambda>i. bit b (7 - i)) [0..<8]"

definition ip_bits :: "bytes \<Rightarrow> bool list" where
  "ip_bits ip = concat (map byte_bits ip)"

lemma length_byte_bits [simp]: "length (byte_bits b) = 8"
  by (simp add: byte_bits_def)

lemma length_ip_bits [simp]: "length (ip_bits ip) = 8 * length ip"
  by (induction ip) (simp_all add: ip_bits_def)

lemma take_ip_bits: "take (8 * n) (ip_bits ip) = ip_bits (take n ip)"
proof (induction ip arbitrary: n)
  case Nil
  then show ?case by (simp add: ip_bits_def)
next
  case (Cons x ip)
  then show ?case by (cases n) (simp_all add: ip_bits_def)
qed

lemma bit_lead_ones: "bit (lead_ones k) n \<longleftrightarrow> 8 - k \<le> n \<and> n < 8"
  using bit_imp_le_length [of "lead_ones k" n]
  by (auto simp: lead_ones_def bit_not_iff bit_mask_iff)

lemma and_lead_ones:
  assumes "k \<le> 8"
  shows "a AND lead_ones k = b AND lead_ones k \<longleftrightarrow> take k (byte_bits a) = take k (byte_bits b)"
proof -
  have t: "take k (byte_bits x) = map (\<lambda>i. bit x (7 - i)) [0..<k]" for x
    using assms by (simp add: byte_bits_def take_map)
  have "a AND lead_ones k = b AND lead_ones k \<longleftrightarrow> (\<forall>n<8. 8 - k \<le> n \<longrightarrow> bit a n = bit b n)"
    by (auto simp: bit_eq_iff bit_lead_ones bit_and_iff)
  also have "\<dots> \<longleftrightarrow> (\<forall>i<k. bit a (7 - i) = bit b (7 - i))"
  proof
    assume h: "\<forall>n<8. 8 - k \<le> n \<longrightarrow> bit a n = bit b n"
    show "\<forall>i<k. bit a (7 - i) = bit b (7 - i)"
    proof (intro allI impI)
      fix i assume "i < k"
      with assms h show "bit a (7 - i) = bit b (7 - i)" by simp
    qed
  next
    assume h: "\<forall>i<k. bit a (7 - i) = bit b (7 - i)"
    show "\<forall>n<8. 8 - k \<le> n \<longrightarrow> bit a n = bit b n"
    proof (intro allI impI)
      fix n :: nat assume n: "n < 8" "8 - k \<le> n"
      then have "7 - n < k" using assms by simp
      with h have "bit a (7 - (7 - n)) = bit b (7 - (7 - n))" by blast
      with n show "bit a n = bit b n" by simp
    qed
  qed
  also have "\<dots> \<longleftrightarrow> take k (byte_bits a) = take k (byte_bits b)"
    unfolding t by (auto simp: list_eq_iff_nth_eq)
  finally show ?thesis .
qed

lemma CIDRMask_Cons:
  "CIDRMask ones (8 * Suc n) = lead_ones (min 8 ones) # CIDRMask (ones - 8) (8 * n)"
proof -
  have "[0..<Suc n] = 0 # map Suc [0..<n]"
    by (simp add: upt_conv_Cons map_Suc_upt del: upt_Suc)
  then have "CIDRMask ones (8 * Suc n) = lead_ones (min 8 ones) # map (\<lambda>i. lead_ones (min 8 (ones - 8 * Suc i))) [0..<n]"
    by (simp add: CIDRMask_def comp_def del: upt_Suc)
  then show ?thesis by (simp add: CIDRMask_def)
qed

lemma length_CIDRMask [simp]: "length (CIDRMask ones bits) = bits div 8"
  by (simp add: CIDRMask_def)

lemma masked_eq_bits:
  assumes "length a = n" and "length b = n"
  shows "and_bytes a (CIDRMask ones (8 * n)) = and_bytes b (CIDRMask ones (8 * n))
     \<longleftrightarrow> take ones (ip_bits a) = take ones (ip_bits b)"
  using assms
proof (induction n arbitrary: a b ones)
  case 0
  then show ?case by simp
next
  case (Suc n)
  then obtain x a' y b' where ab: "a = x # a'" "b = y # b'" "length a' = n" "length b' = n"
    by (auto simp: length_Suc_conv)
  have "take ones (ip_bits (z # c)) = take (min 8 ones) (byte_bits z) @ take (ones - 8) (ip_bits c)" for z c
    by (simp add: ip_bits_def min_def)
  then have r: "take ones (ip_bits a) = take ones (ip_bits b) \<longleftrightarrow>
      take (min 8 ones) (byte_bits x) = take (min 8 ones) (byte_bits y)
      \<and> take (ones - 8) (ip_bits a') = take (ones - 8) (ip_bits b')"
    unfolding ab(1,2) by simp
  have "and_bytes a (CIDRMask ones (8 * Suc n)) = and_bytes b (CIDRMask ones (8 * Suc n)) \<longleftrightarrow>
      x AND lead_ones (min 8 ones) = y AND lead_ones (min 8 ones)
      \<and> and_bytes a' (CIDRMask (ones - 8) (8 * n)) = and_bytes b' (CIDRMask (ones - 8) (8 * n))"
    unfolding CIDRMask_Cons ab(1,2) by (simp add: and_bytes_def)
  also have "\<dots> \<longleftrightarrow> take ones (ip_bits a) = take ones (ip_bits b)"
    using Suc.IH [OF ab(3,4)] r by (simp add: and_lead_ones)
  finally show ?case .
qed

text \<open>
  The address family and bits a comparison sees: an IPv4-mapped address counts as IPv4.
\<close>

definition ip_norm :: "net_ip \<Rightarrow> bytes" where
  "ip_norm ip = (case To4 ip of Some b \<Rightarrow> b | None \<Rightarrow> ip)"

definition net_wf :: "IPNet \<Rightarrow> bool" where
  "net_wf n \<longleftrightarrow> 8 * length (netIP n) = maskBits n \<and> maskOnes n \<le> maskBits n
     \<and> (maskBits n = 32 \<or> maskBits n = 128 \<and> To4 (netIP n) = None)"

theorem IPNetContains_bits:
  assumes "net_wf n"
  shows "IPNetContains n ip \<longleftrightarrow> length (ip_norm ip) = length (netIP n)
     \<and> take (maskOnes n) (ip_bits (ip_norm ip)) = take (maskOnes n) (ip_bits (netIP n))"
proof -
  have nn: "(case To4 (netIP n) of Some b \<Rightarrow> b | None \<Rightarrow> netIP n) = netIP n"
    using assms by (auto simp: net_wf_def To4_def split: option.splits)
  have bits: "maskBits n = 8 * length (netIP n)" using assms by (simp add: net_wf_def)
  have "IPNetContains n ip \<longleftrightarrow> length (ip_norm ip) = length (netIP n)
      \<and> and_bytes (netIP n) (CIDRMask (maskOnes n) (8 * length (netIP n)))
        = and_bytes (ip_norm ip) (CIDRMask (maskOnes n) (8 * length (netIP n)))"
    using assms unfolding IPNetContains_def nn Let_def ip_norm_def bits by (auto simp: net_wf_def)
  then show ?thesis using masked_eq_bits [of "netIP n" _ "ip_norm ip"] by auto
qed

end
