(* ===== verification/IP_Access.thy ===== *)
theory IP_Access
  imports Go_Net
begin

text \<open>
  Client addresses and address-based access, \<open>internal/middleware/realip.go\<close> and
  \<open>internal/middleware/ipacl.go\<close>: parsing lists of networks, the whitelist/blacklist guard, and the
  recovery of the client address from proxy headers. The specification reads every list entry as a
  set of addresses; the theorems show that the guard decides by these sets, that an unparsable
  whitelist denies, and that headers a client controls never choose its address.
\<close>

section \<open>Networks\<close>

definition fold_mapped :: "IPNet \<Rightarrow> IPNet" where
  "fold_mapped cidr =
     (if maskBits cidr = 128 \<and> maskOnes cidr \<ge> 96 then
        (case To4 (netIP cidr) of
           Some b \<Rightarrow> \<lparr>netIP = b, maskOnes = maskOnes cidr - 96, maskBits = 32\<rparr>
         | None \<Rightarrow> cidr)
      else cidr)"

definition parseEntry :: "string \<Rightarrow> IPNet option" where
  "parseEntry s0 =
     (let s = (if ContainsByte s0 CHR ''/'' then Some s0
               else case ParseIP s0 of
                      None \<Rightarrow> None
                    | Some ip \<Rightarrow>
                        (case To4 ip of
                           Some ip4 \<Rightarrow> Some (IPString ip4 @ ''/32'')
                         | None \<Rightarrow> Some (s0 @ ''/128'')))
      in case s of
           None \<Rightarrow> None
         | Some s \<Rightarrow> map_option fold_mapped (ParseCIDR s))"

definition parseCIDRs :: "string list \<Rightarrow> IPNet list" where
  "parseCIDRs cidrs = List.map_filter parseEntry cidrs"

definition ipInNets :: "net_ip \<Rightarrow> IPNet list \<Rightarrow> bool" where
  "ipInNets ip nets = list_ex (\<lambda>n. IPNetContains n ip) nets"

definition isTrusted :: "net_ip \<Rightarrow> IPNet list \<Rightarrow> bool" where
  "isTrusted ip trusted = list_ex (\<lambda>cidr. IPNetContains cidr ip) trusted"

definition drop_zone :: "string \<Rightarrow> string" where
  "drop_zone host = (case IndexByte host CHR ''%'' of Some i \<Rightarrow> take i host | None \<Rightarrow> host)"

definition extractIP :: "string \<Rightarrow> net_ip option" where
  "extractIP addr =
     (let host = (case SplitHostPort addr of Some (h, p) \<Rightarrow> h | None \<Rightarrow> addr) in ParseIP (drop_zone host))"

section \<open>The access list\<close>

record IPACLConfig =
  Whitelist :: "string list"
  Blacklist :: "string list"

definition aclClientIP :: "string \<Rightarrow> net_ip option" where
  "aclClientIP remoteAddr =
     (let host = (case SplitHostPort remoteAddr of Some (h, p) \<Rightarrow> h | None \<Rightarrow> remoteAddr)
      in ParseIP (drop_zone host))"

text \<open>\<open>None\<close>: no guard is installed. Otherwise the guard's verdict, \<open>False\<close> with a 403.\<close>

definition IPACLGuard :: "IPACLConfig \<Rightarrow> (string \<Rightarrow> bool) option" where
  "IPACLGuard cfg =
     (let whiteNets = parseCIDRs (Whitelist cfg); blackNets = parseCIDRs (Blacklist cfg) in
      if Whitelist cfg = [] \<and> blackNets = [] then None
      else Some (\<lambda>remoteAddr.
        case aclClientIP remoteAddr of
          None \<Rightarrow> False
        | Some ip \<Rightarrow>
            if Whitelist cfg \<noteq> [] then
              (if \<not> ipInNets ip whiteNets then False
               else if blackNets \<noteq> [] \<and> ipInNets ip blackNets then False
               else True)
            else if ipInNets ip blackNets then False
            else True))"

text \<open>The middleware form: whether the next handler runs.\<close>

definition IPACL :: "IPACLConfig \<Rightarrow> string \<Rightarrow> bool" where
  "IPACL cfg remoteAddr =
     (let whiteNets = parseCIDRs (Whitelist cfg); blackNets = parseCIDRs (Blacklist cfg) in
      if Whitelist cfg = [] \<and> blackNets = [] then True
      else
        (case aclClientIP remoteAddr of
           None \<Rightarrow> False
         | Some ip \<Rightarrow>
             if Whitelist cfg \<noteq> [] then
               (if \<not> ipInNets ip whiteNets then False
                else if blackNets \<noteq> [] \<and> ipInNets ip blackNets then False
                else True)
             else if ipInNets ip blackNets then False
             else True))"

section \<open>The client address behind proxies\<close>

definition acceptableForwardedIP :: "string \<Rightarrow> bool" where
  "acceptableForwardedIP ip =
     (case ParseIP ip of None \<Rightarrow> False | Some p \<Rightarrow> \<not> IsLoopback p \<and> \<not> IsUnspecified p)"

definition sameIP :: "string \<Rightarrow> string \<Rightarrow> bool" where
  "sameIP a b =
     (case (ParseIP a, ParseIP b) of (Some pa, Some pb) \<Rightarrow> IPEqual pa pb | _ \<Rightarrow> False)"

definition forwardedEntryIP :: "string \<Rightarrow> string" where
  "forwardedEntryIP entry0 =
     (let entry = TrimSpace entry0; n = length entry; inner = take (n - 2) (drop 1 entry) in
      if ParseIP entry \<noteq> None then entry
      else if n > 2 \<and> entry ! 0 = CHR ''['' \<and> entry ! (n - 1) = CHR '']'' \<and> ParseIP inner \<noteq> None
      then inner
      else case SplitHostPort entry of Some (host, port) \<Rightarrow> host | None \<Rightarrow> entry)"

text \<open>The walk from right to left: the list is the entries in that order.\<close>

fun walk :: "IPNet list \<Rightarrow> string list \<Rightarrow> string option" where
  "walk trusted [] = None"
| "walk trusted (e # es) =
     (let ip = forwardedEntryIP e in
      case ParseIP ip of
        None \<Rightarrow> Some []
      | Some parsed \<Rightarrow> if \<not> isTrusted parsed trusted then Some ip else walk trusted es)"

definition extractRealIP :: "string \<Rightarrow> IPNet list \<Rightarrow> string" where
  "extractRealIP xff trusted =
     (let parts = SplitByte xff CHR '','' in
      case walk trusted (rev parts) of
        Some ip \<Rightarrow> ip
      | None \<Rightarrow> if parts \<noteq> [] then forwardedEntryIP (hd parts) else [])"

record request =
  RemoteAddr :: string
  ReqHeader :: header
  directIP :: "string option"  \<comment> \<open>the context value under \<open>directIPContextKey\<close>\<close>

definition RealIPDynamic :: "IPNet list \<Rightarrow> request \<Rightarrow> request" where
  "RealIPDynamic trusted r0 =
     (let direct = extractIP (RemoteAddr r0);
          r = (case direct of Some ip \<Rightarrow> r0\<lparr>directIP := Some (IPString ip)\<rparr> | None \<Rightarrow> r0)
      in if trusted = [] then r
         else if (case direct of None \<Rightarrow> True | Some ip \<Rightarrow> \<not> isTrusted ip trusted) then r
         else
           (let xff = Join (HeaderValues (ReqHeader r) ''X-Forwarded-For'') '','';
                cf = HeaderGet (ReqHeader r) ''CF-Connecting-IP'';
                xri = HeaderGet (ReqHeader r) ''X-Real-IP''
            in if acceptableForwardedIP cf \<and> (xff = [] \<or> sameIP cf (extractRealIP xff trusted))
               then r\<lparr>RemoteAddr := JoinHostPort cf ''0''\<rparr>
               else if acceptableForwardedIP xri \<and> (xff = [] \<or> sameIP xri (extractRealIP xff trusted))
               then r\<lparr>RemoteAddr := JoinHostPort xri ''0''\<rparr>
               else if xff \<noteq> [] then
                 (let ip = extractRealIP xff trusted in
                  if acceptableForwardedIP ip then r\<lparr>RemoteAddr := JoinHostPort ip ''0''\<rparr> else r)
               else r))"

definition DirectIP :: "request \<Rightarrow> string" where
  "DirectIP r = (case directIP r of Some ip \<Rightarrow> ip | None \<Rightarrow> [])"

section \<open>What an entry denotes\<close>

lemma ParseCIDR_cases:
  assumes "ParseCIDR s = Some n"
  obtains a where "8 * length a = maskBits n" "maskOnes n \<le> maskBits n"
    "maskBits n = 32 \<or> maskBits n = 128"
    "netIP n = and_bytes a (CIDRMask (maskOnes n) (maskBits n))"
proof -
  from assms obtain i a k where a: "ParseAddr (take i s) = Some a" "k \<le> BitLen a"
    and n: "n = \<lparr>netIP = and_bytes (if BitLen a = 32 then drop 12 (As16 a) else As16 a) (CIDRMask k (BitLen a)),
                 maskOnes = k, maskBits = BitLen a\<rparr>"
    by (auto simp: ParseCIDR_def Let_def split: option.splits if_splits)
  show thesis
    by (rule that [of "if BitLen a = 32 then drop 12 (As16 a) else As16 a"])
       (use ParseAddr_length [OF a(1)] a(2) n in auto)
qed

lemma To4_mapped: "length ip = 16 \<Longrightarrow> To4 ip = Some b \<Longrightarrow> ip = v4InV6Prefix @ b"
  by (auto simp: To4_def split: if_splits) (metis append_take_drop_id)

lemma parseEntry_wf:
  assumes "parseEntry s = Some n"
  shows "net_wf n"
proof -
  from assms obtain t c where c: "ParseCIDR t = Some c" "n = fold_mapped c"
    by (auto simp: parseEntry_def Let_def split: option.splits if_splits)
  from c(1) obtain a where a: "8 * length a = maskBits c" "maskOnes c \<le> maskBits c"
    "maskBits c = 32 \<or> maskBits c = 128" "netIP c = and_bytes a (CIDRMask (maskOnes c) (maskBits c))"
    by (rule ParseCIDR_cases)
  then have len: "8 * length (netIP c) = maskBits c" by (auto simp: and_bytes_def)
  show ?thesis
  proof (cases "maskBits c = 128 \<and> To4 (netIP c) \<noteq> None")
    case False
    then show ?thesis
      using len a(2,3) c(2) by (auto simp: net_wf_def fold_mapped_def split: option.splits)
  next
    case True
    then obtain b where b: "To4 (netIP c) = Some b" "length (netIP c) = 16" using len by auto
    from To4_mapped [OF b(2,1)] have ff: "netIP c ! 11 = 0xFF" and "length b = 4"
      using b(2) by (simp_all add: v4InV6Prefix_def nth_append)
    have "netIP c ! 11 = a ! 11 AND lead_ones (min 8 (maskOnes c - 88))"
      using a True b(2) by (simp add: and_bytes_def CIDRMask_def)
    with ff have "bit (a ! 11 AND lead_ones (min 8 (maskOnes c - 88))) 0" by simp
    then have "8 \<le> maskOnes c - 88" by (simp add: bit_and_iff bit_lead_ones)
    then have "96 \<le> maskOnes c" by arith
    with True b \<open>length b = 4\<close> a(2) c(2) show ?thesis by (simp add: net_wf_def fold_mapped_def)
  qed
qed

text \<open>
  The set of addresses a list entry stands for: the addresses of its family whose leading bits are
  those of the network; an entry that does not parse stands for none.
\<close>

definition entry_covers :: "string \<Rightarrow> net_ip \<Rightarrow> bool" where
  "entry_covers s ip \<longleftrightarrow>
     (case parseEntry s of
        None \<Rightarrow> False
      | Some n \<Rightarrow> length (ip_norm ip) = length (netIP n)
           \<and> take (maskOnes n) (ip_bits (ip_norm ip)) = take (maskOnes n) (ip_bits (netIP n)))"

lemma ipInNets_covers: "ipInNets ip (parseCIDRs es) \<longleftrightarrow> (\<exists>s \<in> set es. entry_covers s ip)"
proof (induction es)
  case Nil
  then show ?case by (simp add: ipInNets_def parseCIDRs_def)
next
  case (Cons s es)
  have "(case parseEntry s of None \<Rightarrow> False | Some n \<Rightarrow> IPNetContains n ip) \<longleftrightarrow> entry_covers s ip"
    using IPNetContains_bits [OF parseEntry_wf] by (auto simp: entry_covers_def split: option.splits)
  with Cons show ?case
    by (auto simp: ipInNets_def parseCIDRs_def List.map_filter_simps split: option.splits)
qed

lemma isTrusted_covers: "isTrusted ip (parseCIDRs es) \<longleftrightarrow> (\<exists>s \<in> set es. entry_covers s ip)"
  using ipInNets_covers by (simp add: ipInNets_def isTrusted_def)

section \<open>Addresses written back\<close>

lemma ParseIP_Nil: "ParseIP [] = None"
  by (simp add: ParseIP_def ParseAddr_def)

lemma drop_zone_addr: "list_all addr_char s \<Longrightarrow> drop_zone s = s"
proof -
  assume "list_all addr_char s"
  moreover have "\<not> addr_char CHR ''%''" by (simp add: addr_char_def is_hex_def hex_value_def)
  ultimately have "CHR ''%'' \<notin> set s" by (auto simp: list_all_iff)
  then show ?thesis by (simp add: drop_zone_def IndexByte_None [THEN iffD2])
qed

lemma extractIP_JoinHostPort:
  assumes "ParseIP s = Some ip"
  shows "extractIP (JoinHostPort s ''0'') = Some ip"
proof -
  have c: "list_all addr_char s" using assms by (rule ParseIP_chars)
  have "s \<noteq> []" using assms ParseIP_Nil by auto
  with c have "SplitHostPort (JoinHostPort s ''0'') = Some (s, ''0'')"
    by (intro SplitHostPort_JoinHostPort) simp_all
  with c assms show ?thesis by (simp add: extractIP_def drop_zone_addr)
qed

lemma sameIP_eq: "sameIP a b \<Longrightarrow> ParseIP a = ParseIP b"
  by (auto simp: sameIP_def IPEqual_def dest!: ParseIP_length split: option.splits)

lemma acceptable_same: "ParseIP a = ParseIP b \<Longrightarrow> acceptableForwardedIP a = acceptableForwardedIP b"
  by (simp add: acceptableForwardedIP_def)

lemma acceptableD:
  "acceptableForwardedIP s \<Longrightarrow> \<exists>ip. ParseIP s = Some ip \<and> \<not> IsLoopback ip \<and> \<not> IsUnspecified ip"
  by (auto simp: acceptableForwardedIP_def split: option.splits)

text \<open>The forwarded chain a request carries, all header lines joined.\<close>

definition forwarded_for :: "request \<Rightarrow> string" where
  "forwarded_for r = Join (HeaderValues (ReqHeader r) ''X-Forwarded-For'') '',''"

definition peer_trusted :: "IPNet list \<Rightarrow> request \<Rightarrow> bool" where
  "peer_trusted trusted r \<longleftrightarrow>
     (case extractIP (RemoteAddr r) of None \<Rightarrow> False | Some ip \<Rightarrow> isTrusted ip trusted)"

text \<open>What the headers of a trusted peer make the client address.\<close>

definition header_addr :: "IPNet list \<Rightarrow> request \<Rightarrow> string option" where
  "header_addr trusted r =
     (let xff = forwarded_for r; real = extractRealIP xff trusted;
          cf = HeaderGet (ReqHeader r) ''CF-Connecting-IP'';
          xri = HeaderGet (ReqHeader r) ''X-Real-IP''
      in if acceptableForwardedIP cf \<and> (xff = [] \<or> sameIP cf real) then Some cf
         else if acceptableForwardedIP xri \<and> (xff = [] \<or> sameIP xri real) then Some xri
         else if xff \<noteq> [] \<and> acceptableForwardedIP real then Some real
         else None)"

lemma RealIPDynamic_RemoteAddr:
  "RemoteAddr (RealIPDynamic trusted r) =
     (if peer_trusted trusted r
      then (case header_addr trusted r of Some a \<Rightarrow> JoinHostPort a ''0'' | None \<Rightarrow> RemoteAddr r)
      else RemoteAddr r)"
proof -
  show ?thesis
  proof (cases "peer_trusted trusted r")
    case False
    then show ?thesis
      by (cases "extractIP (RemoteAddr r)") (simp_all add: RealIPDynamic_def Let_def peer_trusted_def)
  next
    case True
    then obtain ip where ip: "extractIP (RemoteAddr r) = Some ip" "isTrusted ip trusted"
      by (cases "extractIP (RemoteAddr r)") (simp_all add: peer_trusted_def)
    then have "trusted \<noteq> []" by (auto simp: isTrusted_def)
    define r' where "r' = r\<lparr>directIP := Some (IPString ip)\<rparr>"
    define cf where "cf = HeaderGet (ReqHeader r) ''CF-Connecting-IP''"
    define xri where "xri = HeaderGet (ReqHeader r) ''X-Real-IP''"
    have h: "HeaderValues (ReqHeader r') k = HeaderValues (ReqHeader r) k" for k by (simp add: r'_def)
    have g: "HeaderGet (ReqHeader r') k = HeaderGet (ReqHeader r) k" for k by (simp add: r'_def)
    have e: "RealIPDynamic trusted r =
        (let xff = forwarded_for r in
         if acceptableForwardedIP cf \<and> (xff = [] \<or> sameIP cf (extractRealIP xff trusted))
         then r'\<lparr>RemoteAddr := JoinHostPort cf ''0''\<rparr>
         else if acceptableForwardedIP xri \<and> (xff = [] \<or> sameIP xri (extractRealIP xff trusted))
         then r'\<lparr>RemoteAddr := JoinHostPort xri ''0''\<rparr>
         else if xff \<noteq> [] then
           (if acceptableForwardedIP (extractRealIP xff trusted)
            then r'\<lparr>RemoteAddr := JoinHostPort (extractRealIP xff trusted) ''0''\<rparr> else r')
         else r')"
      using ip \<open>trusted \<noteq> []\<close>
      by (simp only: RealIPDynamic_def Let_def option.case r'_def [symmetric] h g if_False
          forwarded_for_def cf_def xri_def simp_thms)
    have "RemoteAddr r' = RemoteAddr r" by (simp add: r'_def)
    with True show ?thesis
      unfolding e header_addr_def Let_def cf_def [symmetric] xri_def [symmetric]
      by simp blast
  qed
qed

lemma header_addr_acceptable: "header_addr trusted r = Some a \<Longrightarrow> acceptableForwardedIP a"
  by (auto simp: header_addr_def Let_def split: if_splits)

lemma header_addr_forwarded:
  assumes "forwarded_for r \<noteq> []"
  shows "Option.bind (header_addr trusted r) ParseIP
     = (let real = extractRealIP (forwarded_for r) trusted in
        if acceptableForwardedIP real then ParseIP real else None)"
proof -
  let ?real = "extractRealIP (forwarded_for r) trusted"
  let ?ok = "\<lambda>h. acceptableForwardedIP h \<and> sameIP h ?real"
  have s: "ParseIP h = ParseIP ?real \<and> acceptableForwardedIP ?real" if "?ok h" for h
    using that sameIP_eq [of h ?real] acceptable_same [of h ?real] by simp
  consider (cf) "?ok (HeaderGet (ReqHeader r) ''CF-Connecting-IP'')"
    | (xri) "\<not> ?ok (HeaderGet (ReqHeader r) ''CF-Connecting-IP'')" "?ok (HeaderGet (ReqHeader r) ''X-Real-IP'')"
    | (xff) "\<not> ?ok (HeaderGet (ReqHeader r) ''CF-Connecting-IP'')" "\<not> ?ok (HeaderGet (ReqHeader r) ''X-Real-IP'')"
    by blast
  then show ?thesis
  proof cases
    case cf
    with assms s [OF cf] show ?thesis by (simp add: header_addr_def Let_def)
  next
    case xri
    then have "header_addr trusted r = Some (HeaderGet (ReqHeader r) ''X-Real-IP'')"
      using assms by (auto simp: header_addr_def Let_def)
    with s [OF xri(2)] show ?thesis by (simp add: Let_def)
  next
    case xff
    then have "header_addr trusted r = (if acceptableForwardedIP ?real then Some ?real else None)"
      using assms by (auto simp: header_addr_def Let_def)
    then show ?thesis by (simp add: Let_def)
  qed
qed

lemma SplitByte_snoc_sep: "SplitByte (p @ c # s) c = SplitByte p c @ SplitByte s c"
proof (induction p)
  case Nil
  then show ?case by simp
next
  case (Cons x p)
  then show ?case by (cases "SplitByte p c") (auto split: list.splits)
qed

lemma walk_append: "walk trusted (xs @ ys) = (case walk trusted xs of Some r \<Rightarrow> Some r | None \<Rightarrow> walk trusted ys)"
  by (induction xs) (auto simp: Let_def split: option.splits)

section \<open>Properties\<close>

text \<open>
  The access list decides by sets of addresses. A request passes exactly when there are no rules,
  or when its address is known, a configured whitelist has an entry covering it, and no blacklist
  entry covers it; an entry covers the addresses that agree with its network in the leading bits,
  IPv4-mapped addresses counting as IPv4. A whitelist whose entries all fail to parse denies
  everybody, and the guard installed on the hot path gives the same verdict as the middleware.
\<close>

theorem IPACL_decides:
  "(IPACL cfg addr \<longleftrightarrow>
      Whitelist cfg = [] \<and> parseCIDRs (Blacklist cfg) = []
      \<or> (\<exists>ip. aclClientIP addr = Some ip
           \<and> (Whitelist cfg = [] \<or> (\<exists>s \<in> set (Whitelist cfg). entry_covers s ip))
           \<and> (\<nexists>s. s \<in> set (Blacklist cfg) \<and> entry_covers s ip)))
   \<and> (case IPACLGuard cfg of None \<Rightarrow> True | Some guard \<Rightarrow> guard addr) = IPACL cfg addr"
proof
  let ?b = "\<lambda>ip. \<exists>s \<in> set (Blacklist cfg). entry_covers s ip"
  have none: "parseCIDRs (Blacklist cfg) = [] \<Longrightarrow> \<not> ?b ip" for ip
    using ipInNets_covers [of ip "Blacklist cfg"] by (simp add: ipInNets_def)
  show "IPACL cfg addr \<longleftrightarrow>
      Whitelist cfg = [] \<and> parseCIDRs (Blacklist cfg) = []
      \<or> (\<exists>ip. aclClientIP addr = Some ip
           \<and> (Whitelist cfg = [] \<or> (\<exists>s \<in> set (Whitelist cfg). entry_covers s ip))
           \<and> (\<nexists>s. s \<in> set (Blacklist cfg) \<and> entry_covers s ip))"
    using none by (cases "aclClientIP addr") (auto simp: IPACL_def Let_def ipInNets_covers)
  show "(case IPACLGuard cfg of None \<Rightarrow> True | Some guard \<Rightarrow> guard addr) = IPACL cfg addr"
    by (simp add: IPACLGuard_def IPACL_def Let_def)
qed

text \<open>
  C10. Headers from untrusted peers are ignored. When the direct peer is not in a trusted network, no
  header changes the client address; and whenever the address does change, the new one is a parsed
  address that is neither loopback nor unspecified, so no header buys localhost privileges.
\<close>

theorem RealIP_spoof_resistant:
  assumes "RemoteAddr (RealIPDynamic trusted r) \<noteq> RemoteAddr r"
  shows "peer_trusted trusted r
     \<and> (\<exists>ip. extractIP (RemoteAddr (RealIPDynamic trusted r)) = Some ip
          \<and> \<not> IsLoopback ip \<and> \<not> IsUnspecified ip)"
proof -
  from assms obtain a where t: "peer_trusted trusted r" and a: "header_addr trusted r = Some a"
    by (auto simp: RealIPDynamic_RemoteAddr split: if_splits option.splits)
  from acceptableD [OF header_addr_acceptable [OF a]] obtain ip
    where ip: "ParseIP a = Some ip" "\<not> IsLoopback ip" "\<not> IsUnspecified ip" by blast
  with t a extractIP_JoinHostPort [OF ip(1)] show ?thesis
    by (simp add: RealIPDynamic_RemoteAddr)
qed

text \<open>
  The forwarded chain alone decides. Behind a trusted peer that sends \<open>X-Forwarded-For\<close>, the
  address of the request becomes the rightmost untrusted entry of the chain (when it is acceptable;
  otherwise it stays the peer's), whatever \<open>CF-Connecting-IP\<close> and \<open>X-Real-IP\<close> say.
\<close>

theorem RealIP_follows_chain:
  assumes "peer_trusted trusted r" and "forwarded_for r \<noteq> []"
  shows "extractIP (RemoteAddr (RealIPDynamic trusted r)) =
     (if acceptableForwardedIP (extractRealIP (forwarded_for r) trusted)
      then ParseIP (extractRealIP (forwarded_for r) trusted) else extractIP (RemoteAddr r))"
proof (cases "header_addr trusted r")
  case None
  then show ?thesis
    using assms header_addr_forwarded [OF assms(2), of trusted] acceptableD
    by (fastforce simp: RealIPDynamic_RemoteAddr Let_def)
next
  case (Some a)
  from acceptableD [OF header_addr_acceptable [OF Some]] obtain ip where ip: "ParseIP a = Some ip" by blast
  with Some assms header_addr_forwarded [OF assms(2), of trusted] extractIP_JoinHostPort [OF ip]
  show ?thesis by (simp add: RealIPDynamic_RemoteAddr Let_def split: if_splits)
qed

text \<open>
  Nothing left of the rightmost untrusted hop matters: whatever a client writes in front of the
  chain its proxies append, the extracted address is the same.
\<close>

theorem extractRealIP_ignores_client_prefix:
  assumes "walk trusted (rev (SplitByte chain CHR '','')) \<noteq> None"
  shows "extractRealIP (forged @ CHR '','' # chain) trusted = extractRealIP chain trusted"
proof -
  obtain ip where "walk trusted (rev (SplitByte chain CHR '','')) = Some ip" using assms by auto
  then show ?thesis
    by (simp add: extractRealIP_def Let_def SplitByte_snoc_sep walk_append)
qed

definition example_trusted :: "IPNet list" where
  "example_trusted = parseCIDRs [''10.0.0.0/8'', ''::1'']"

definition example_request :: request where
  "example_request =
     \<lparr>RemoteAddr = ''10.1.2.3:4711'',
      ReqHeader = [(''X-Forwarded-For'', [''127.0.0.1'', ''203.0.113.9, 10.0.0.7'']),
                   (''X-Real-Ip'', [''127.0.0.1''])],
      directIP = None\<rparr>"

lemma example_request_eval:
  "RemoteAddr (RealIPDynamic example_trusted example_request) = ''203.0.113.9:0''"
  "peer_trusted example_trusted example_request"
  "forwarded_for example_request \<noteq> []"
  "walk example_trusted (rev (SplitByte ''203.0.113.9, 10.0.0.7'' CHR '','')) = Some ''203.0.113.9''"
  "RemoteAddr example_request = ''10.1.2.3:4711''"
  by code_simp+

theorem RealIP_spoof_resistant_witness:
  "\<exists>ip. extractIP (RemoteAddr (RealIPDynamic example_trusted example_request)) = Some ip
     \<and> \<not> IsLoopback ip \<and> \<not> IsUnspecified ip"
  using RealIP_spoof_resistant [of example_trusted example_request] by (simp add: example_request_eval)

theorem RealIP_follows_chain_witness:
  "extractIP (RemoteAddr (RealIPDynamic example_trusted example_request)) =
     (if acceptableForwardedIP (extractRealIP (forwarded_for example_request) example_trusted)
      then ParseIP (extractRealIP (forwarded_for example_request) example_trusted)
      else extractIP (RemoteAddr example_request))"
  by (rule RealIP_follows_chain) (rule example_request_eval)+

theorem extractRealIP_ignores_client_prefix_witness:
  "extractRealIP (''1.1.1.1, evil'' @ CHR '','' # ''203.0.113.9, 10.0.0.7'') example_trusted
     = extractRealIP ''203.0.113.9, 10.0.0.7'' example_trusted"
  by (rule extractRealIP_ignores_client_prefix)
     (simp only: example_request_eval option.distinct not_False_eq_True)

end
