(* ===== verification/Rate_Limit.thy ===== *)
theory Rate_Limit
  imports IP_Access
begin

text \<open>
  The rate limiter, \<open>internal/middleware/ratelimit.go\<close>: 256 shards of token buckets with a bound on
  the buckets each keeps, the bucket key of a request, and the middleware around it. A call takes the
  shard's lock for its whole body, so \<open>Allow\<close> and one shard's cleanup are single steps, and \<open>now\<close> is
  the clock reading of the step. The theorems follow a key through an arbitrary interleaving of calls
  for other keys and cleanups.
\<close>

unbundle bit_operations_syntax

section \<open>State\<close>

record bucket =
  tokens :: int
  lastReset :: instant

record rateShard =
  buckets :: "(string \<times> bucket) list"
  swept :: instant

record RateLimiter =
  shards :: "byte \<Rightarrow> rateShard"
  limit :: int
  window :: duration
  trustedProxies :: "IPNet list"
  keyBy :: string

definition second :: duration where "second = 1000000000"

definition maxBucketsPerShard :: nat where "maxBucketsPerShard = 4096"
definition maxHeaderKeyLen :: nat where "maxHeaderKeyLen = 64"

text \<open>The zero \<open>time.Time\<close> of \<open>swept\<close> lies centuries before every clock reading.\<close>

definition zero_time :: instant where "zero_time = - (2 ^ 63)"

definition NewRateLimiter :: "int \<Rightarrow> duration \<Rightarrow> RateLimiter" where
  "NewRateLimiter lim win =
     \<lparr>shards = (\<lambda>_. \<lparr>buckets = [], swept = zero_time\<rparr>), limit = lim,
      window = (if win \<le> 0 then 60 * second else win), trustedProxies = [], keyBy = []\<rparr>"

definition SetTrustedProxies :: "string list \<Rightarrow> RateLimiter \<Rightarrow> RateLimiter" where
  "SetTrustedProxies cidrs rl = rl\<lparr>trustedProxies := parseCIDRs cidrs\<rparr>"

definition isTrustedProxy :: "RateLimiter \<Rightarrow> net_ip \<Rightarrow> bool" where
  "isTrustedProxy rl ip = list_ex (\<lambda>n. IPNetContains n ip) (trustedProxies rl)"

definition SetKeyBy :: "string \<Rightarrow> RateLimiter \<Rightarrow> RateLimiter" where
  "SetKeyBy by rl = rl\<lparr>keyBy := TrimSpace by\<rparr>"

definition Window :: "RateLimiter \<Rightarrow> duration" where
  "Window rl = window rl"

section \<open>Keys\<close>

definition cutHeaderPrefix :: "string \<Rightarrow> (string \<times> bool)" where
  "cutHeaderPrefix by =
     (if length by \<ge> 7 \<and> EqualFold (take 7 by) ''header:'' then (drop 7 by, True) else ([], False))"

definition KnownRateLimitKey :: "string \<Rightarrow> bool" where
  "KnownRateLimitKey by0 =
     (let by = TrimSpace by0 in
      if by = [] \<or> EqualFold by ''ip'' then True
      else case cutHeaderPrefix by of (name, ok) \<Rightarrow> ok \<and> TrimSpace name \<noteq> [])"

definition rateAddr :: "string \<Rightarrow> string" where
  "rateAddr ip0 =
     (let ip = drop_zone ip0 in
      case ParseIP ip of
        None \<Rightarrow> ip
      | Some p \<Rightarrow>
          (case To4 p of
             Some p4 \<Rightarrow> IPString p4
           | None \<Rightarrow> IPString (and_bytes p (CIDRMask 64 128)) @ ''/64''))"

definition clientIP :: "IPNet list \<Rightarrow> request \<Rightarrow> string" where
  "clientIP trusted r =
     (let remoteIP = (case SplitHostPort (RemoteAddr r) of Some (h, p) \<Rightarrow> h | None \<Rightarrow> RemoteAddr r);
          peer = extractIP remoteIP;
          xff = Join (HeaderValues (ReqHeader r) ''X-Forwarded-For'') '','';
          xri = TrimSpace (HeaderGet (ReqHeader r) ''X-Real-IP'')
      in if trusted \<noteq> [] \<and> (case peer of Some ip \<Rightarrow> isTrusted ip trusted | None \<Rightarrow> False) then
           (if xff \<noteq> [] \<and> extractRealIP xff trusted \<noteq> [] then extractRealIP xff trusted
            else if HeaderGet (ReqHeader r) ''X-Real-IP'' \<noteq> [] \<and> xri \<noteq> [] \<and> ParseIP xri \<noteq> None then xri
            else remoteIP)
         else remoteIP)"

text \<open>
  Parameters of \<open>Key\<close>: \<open>uni\<close> for \<open>strings.ToLower\<close> beyond ASCII, and \<open>sha256hex\<close> for the hexadecimal
  SHA-256 digest of a string.
\<close>

definition Key :: "(string \<Rightarrow> string) \<Rightarrow> (string \<Rightarrow> string) \<Rightarrow> RateLimiter \<Rightarrow> request \<Rightarrow> string" where
  "Key uni sha256hex rl r =
     (let by = keyBy rl; addr = rateAddr (clientIP (trustedProxies rl) r) in
      if by = [] \<or> EqualFold by ''ip'' then addr
      else
        (case cutHeaderPrefix by of
           (name0, ok) \<Rightarrow>
             if \<not> ok then addr
             else
               (let name = TrimSpace name0 in
                if EqualFold name ''X-Forwarded-For'' \<or> EqualFold name ''X-Real-IP'' then addr
                else
                  (let v = TrimSpace (HeaderGet (ReqHeader r) name) in
                   if v = [] then addr
                   else
                     (let v' = (if length v > maxHeaderKeyLen then ''#'' @ sha256hex v else v)
                      in ''h:'' @ ToLower uni name @ '':'' @ v')))))"

section \<open>Counting\<close>

definition shardIndex :: "string \<Rightarrow> byte" where
  "shardIndex key =
     (if key = [] then 0
      else ucast (foldl (\<lambda>(h :: u32) c. (h XOR ucast (byte_of_char c)) * 16777619) 2166136261 key))"

definition set_shard :: "byte \<Rightarrow> rateShard \<Rightarrow> RateLimiter \<Rightarrow> RateLimiter" where
  "set_shard i s rl = rl\<lparr>shards := (shards rl)(i := s)\<rparr>"

text \<open>The on-demand sweep of a full shard, at most once a second.\<close>

definition sweepShard :: "duration \<Rightarrow> instant \<Rightarrow> rateShard \<Rightarrow> rateShard" where
  "sweepShard win now s =
     (if now - swept s \<ge> second
      then s\<lparr>swept := now, buckets := filter (\<lambda>(k, old). \<not> (now - lastReset old \<ge> win)) (buckets s)\<rparr>
      else s)"

definition Allow :: "instant \<Rightarrow> string \<Rightarrow> RateLimiter \<Rightarrow> RateLimiter \<times> bool" where
  "Allow now key rl =
     (let i = shardIndex key; s = shards rl i in
      case map_of (buckets s) key of
        None \<Rightarrow>
          (let s1 = (if length (buckets s) \<ge> maxBucketsPerShard then sweepShard (window rl) now s else s) in
           if length (buckets s1) \<ge> maxBucketsPerShard then (set_shard i s1 rl, True)
           else (set_shard i (s1\<lparr>buckets := map_put key \<lparr>tokens = limit rl - 1, lastReset = now\<rparr> (buckets s1)\<rparr>) rl,
                 True))
      | Some b \<Rightarrow>
          if now - lastReset b \<ge> window rl then
            (set_shard i (s\<lparr>buckets := map_put key \<lparr>tokens = limit rl - 1, lastReset = now\<rparr> (buckets s)\<rparr>) rl, True)
          else if tokens b > 0 then
            (set_shard i (s\<lparr>buckets := map_put key (b\<lparr>tokens := tokens b - 1\<rparr>) (buckets s)\<rparr>) rl, True)
          else (rl, False))"

text \<open>One shard's turn in a pass of \<open>cleanupLoop\<close>.\<close>

definition cleanupShard :: "instant \<Rightarrow> byte \<Rightarrow> RateLimiter \<Rightarrow> RateLimiter" where
  "cleanupShard now i rl =
     (let s = shards rl i in
      set_shard i (s\<lparr>buckets := filter (\<lambda>(k, b). \<not> (now - lastReset b > wrap64 (window rl * 2))) (buckets s)\<rparr>) rl)"

definition shard_indices :: "byte list" where
  "shard_indices = map word_of_nat [0..<256]"

definition cleanupPass :: "instant \<Rightarrow> RateLimiter \<Rightarrow> RateLimiter" where
  "cleanupPass now rl = fold (cleanupShard now) shard_indices rl"

section \<open>The middleware\<close>

definition go_div :: "int \<Rightarrow> int \<Rightarrow> int" where
  "go_div x y = (if x \<ge> 0 then x div y else - ((- x) div y))"

definition retryAfterSeconds :: "duration \<Rightarrow> string" where
  "retryAfterSeconds win =
     (let secs = go_div (wrap64 (win + second - 1)) second in Itoa (nat (if secs < 1 then 1 else secs)))"

text \<open>The outcome of a request: the next handler runs, or 429 with its \<open>Retry-After\<close> value.\<close>

datatype rl_outcome = RLNext | RLTooMany string

definition RateLimit ::
  "(string \<Rightarrow> string) \<Rightarrow> (string \<Rightarrow> string) \<Rightarrow> instant \<Rightarrow> request \<Rightarrow> RateLimiter \<Rightarrow> RateLimiter \<times> rl_outcome" where
  "RateLimit uni sha256hex now r rl =
     (if limit rl \<le> 0 then (rl, RLNext)
      else
        (case Allow now (Key uni sha256hex rl r) rl of
           (rl', True) \<Rightarrow> (rl', RLNext)
         | (rl', False) \<Rightarrow> (rl', RLTooMany (retryAfterSeconds (window rl)))))"

section \<open>Invariant\<close>

definition rl_inv :: "RateLimiter \<Rightarrow> bool" where
  "rl_inv rl \<longleftrightarrow> (\<forall>i. distinct (map fst (buckets (shards rl i)))
     \<and> length (buckets (shards rl i)) \<le> maxBucketsPerShard
     \<and> (\<forall>(k, b) \<in> set (buckets (shards rl i)). shardIndex k = i))"

definition the_bucket :: "RateLimiter \<Rightarrow> string \<Rightarrow> bucket option" where
  "the_bucket rl key = map_of (buckets (shards rl (shardIndex key))) key"

lemma set_shard_simps [simp]:
  "shards (set_shard i s rl) j = (if j = i then s else shards rl j)"
  "limit (set_shard i s rl) = limit rl" "window (set_shard i s rl) = window rl"
  "trustedProxies (set_shard i s rl) = trustedProxies rl" "keyBy (set_shard i s rl) = keyBy rl"
  by (simp_all add: set_shard_def)

definition shard_ok :: "byte \<Rightarrow> rateShard \<Rightarrow> bool" where
  "shard_ok i s \<longleftrightarrow> distinct (map fst (buckets s)) \<and> length (buckets s) \<le> maxBucketsPerShard
     \<and> (\<forall>(k, b) \<in> set (buckets s). shardIndex k = i)"

lemma rl_inv_shards: "rl_inv rl \<longleftrightarrow> (\<forall>i. shard_ok i (shards rl i))"
  by (simp add: rl_inv_def shard_ok_def)

lemma rl_inv_set_shard [inv_intros]: "rl_inv rl \<Longrightarrow> shard_ok i s \<Longrightarrow> rl_inv (set_shard i s rl)"
  by (simp add: rl_inv_shards)

lemma shard_ok_filter: "shard_ok i s \<Longrightarrow> shard_ok i (s\<lparr>buckets := filter P (buckets s)\<rparr>)"
  by (auto simp: shard_ok_def intro: le_trans [OF length_filter_le])

lemma shard_ok_swept [simp]: "shard_ok i (s\<lparr>swept := t\<rparr>) = shard_ok i s"
  by (simp add: shard_ok_def)

lemma shard_ok_sweep: "shard_ok i s \<Longrightarrow> shard_ok i (sweepShard win now s)"
  using shard_ok_filter [of i "s\<lparr>swept := now\<rparr>"] by (auto simp: sweepShard_def)

lemma shard_ok_replace:
  assumes "shard_ok i s" and "map_of (buckets s) k = Some b"
  shows "shard_ok i (s\<lparr>buckets := map_put k b' (buckets s)\<rparr>)"
proof -
  have "Suc (length (map_delete k (buckets s))) = length (buckets s)"
    using assms by (intro length_map_delete) (auto simp: shard_ok_def)
  moreover have "shardIndex k = i" using assms by (auto simp: shard_ok_def dest: map_of_SomeD)
  moreover have "distinct (map fst (map_put k b' (buckets s)))"
    using assms by (intro distinct_map_put) (simp add: shard_ok_def)
  ultimately show ?thesis using assms(1)
    by (auto simp: shard_ok_def map_put_def set_map_delete)
qed

lemma shard_ok_insert:
  assumes "shard_ok (shardIndex k) s" and "length (buckets s) < maxBucketsPerShard"
  shows "shard_ok (shardIndex k) (s\<lparr>buckets := map_put k b (buckets s)\<rparr>)"
proof -
  have "length (map_delete k (buckets s)) \<le> length (buckets s)" by (rule length_map_delete_le)
  moreover have "distinct (map fst (map_put k b (buckets s)))"
    using assms(1) by (intro distinct_map_put) (simp add: shard_ok_def)
  ultimately show ?thesis using assms by (auto simp: shard_ok_def map_put_def set_map_delete)
qed

lemma Allow_inv [inv_intros]:
  assumes "rl_inv rl"
  shows "rl_inv (fst (Allow now key rl))"
proof -
  let ?s = "shards rl (shardIndex key)"
  have ok: "shard_ok (shardIndex key) ?s" using assms by (simp add: rl_inv_shards)
  show ?thesis
  proof (cases "map_of (buckets ?s) key")
    case None
    define s1 where "s1 = (if length (buckets ?s) \<ge> maxBucketsPerShard then sweepShard (window rl) now ?s else ?s)"
    have "shard_ok (shardIndex key) s1" using ok by (simp add: s1_def shard_ok_sweep)
    with None assms show ?thesis
      by (simp add: Allow_def Let_def s1_def [symmetric] rl_inv_set_shard shard_ok_insert)
  next
    case (Some b)
    with shard_ok_replace [OF ok Some] assms show ?thesis
      by (simp add: Allow_def Let_def rl_inv_set_shard)
  qed
qed

lemma cleanupShard_inv [inv_intros]: "rl_inv rl \<Longrightarrow> rl_inv (cleanupShard now i rl)"
  by (simp add: cleanupShard_def Let_def rl_inv_set_shard shard_ok_filter rl_inv_shards)

lemma rl_inv_New: "rl_inv (NewRateLimiter lim win)"
  by (simp add: rl_inv_def NewRateLimiter_def)

section \<open>A key through a window\<close>

datatype rl_event = EvAllow instant string | EvCleanup instant byte

fun event_time :: "rl_event \<Rightarrow> instant" where
  "event_time (EvAllow t k) = t"
| "event_time (EvCleanup t i) = t"

fun calls :: "string \<Rightarrow> rl_event list \<Rightarrow> nat" where
  "calls key [] = 0"
| "calls key (EvAllow t k # es) = (if k = key then 1 else 0) + calls key es"
| "calls key (EvCleanup t i # es) = calls key es"

text \<open>The number of calls for \<open>key\<close> that an event sequence admits, and the state it leads to.\<close>

fun admitted :: "string \<Rightarrow> rl_event list \<Rightarrow> RateLimiter \<Rightarrow> nat" where
  "admitted key [] rl = 0"
| "admitted key (EvAllow t k # es) rl =
     (case Allow t k rl of (rl', ok) \<Rightarrow> (if k = key \<and> ok then 1 else 0) + admitted key es rl')"
| "admitted key (EvCleanup t i # es) rl = admitted key es (cleanupShard t i rl)"

fun run_events :: "rl_event list \<Rightarrow> RateLimiter \<Rightarrow> RateLimiter" where
  "run_events [] rl = rl"
| "run_events (EvAllow t k # es) rl = run_events es (fst (Allow t k rl))"
| "run_events (EvCleanup t i # es) rl = run_events es (cleanupShard t i rl)"

lemma Allow_window [simp]: "window (fst (Allow now k rl)) = window rl"
  by (simp add: Allow_def Let_def split: option.splits)

lemma cleanupShard_window [simp]: "window (cleanupShard now i rl) = window rl"
  by (simp add: cleanupShard_def Let_def)

lemma the_bucket_set_shard:
  "the_bucket (set_shard i s rl) key =
     (if shardIndex key = i then map_of (buckets s) key else the_bucket rl key)"
  by (simp add: the_bucket_def)

lemma Allow_key_bucket:
  assumes "the_bucket rl key = Some b" and "now - lastReset b < window rl"
  shows "Allow now key rl =
     (if tokens b > 0 then (fst (Allow now key rl), True) else (rl, False))"
    and "tokens b > 0 \<Longrightarrow> the_bucket (fst (Allow now key rl)) key = Some (b\<lparr>tokens := tokens b - 1\<rparr>)"
  using assms by (auto simp: the_bucket_def Allow_def Let_def not_le)

lemma sweep_keeps:
  assumes "shard_ok i s" and "map_of (buckets s) key = Some b" and "now - lastReset b < win"
  shows "map_of (buckets (sweepShard win now s)) key = Some b"
  using assms by (auto simp: sweepShard_def map_of_filter_vals shard_ok_def not_le split: option.splits)

lemma Allow_other_bucket:
  assumes "rl_inv rl" and "the_bucket rl key = Some b" and "now - lastReset b < window rl" and "k \<noteq> key"
  shows "the_bucket (fst (Allow now k rl)) key = Some b"
proof (cases "shardIndex k = shardIndex key")
  case False
  then show ?thesis
    using assms(2) by (simp add: Allow_def Let_def the_bucket_set_shard split: option.splits)
next
  case True
  let ?s = "shards rl (shardIndex k)"
  have ok: "shard_ok (shardIndex k) ?s" using assms(1) by (simp add: rl_inv_shards)
  have b: "map_of (buckets ?s) key = Some b" using assms(2) True by (simp add: the_bucket_def)
  show ?thesis
  proof (cases "map_of (buckets ?s) k")
    case None
    define s1 where "s1 = (if length (buckets ?s) \<ge> maxBucketsPerShard then sweepShard (window rl) now ?s else ?s)"
    have "map_of (buckets s1) key = Some b"
      using b sweep_keeps [OF ok b assms(3)] by (simp add: s1_def)
    with None True [symmetric] assms(4) show ?thesis
      by (simp add: Allow_def Let_def s1_def [symmetric] the_bucket_set_shard)
  next
    case (Some b')
    with b True [symmetric] assms(4) show ?thesis
      using assms(2) by (simp add: Allow_def Let_def the_bucket_set_shard)
  qed
qed

lemma cleanup_keeps:
  assumes "rl_inv rl" and "the_bucket rl key = Some b" and "now - lastReset b < window rl"
    and "0 < window rl" and "in_int64 (window rl * 2)"
  shows "the_bucket (cleanupShard now i rl) key = Some b"
proof -
  have d: "distinct (map fst (buckets (shards rl j)))" for j using assms(1) by (simp add: rl_inv_def)
  have "\<not> (now - lastReset b > wrap64 (window rl * 2))" using assms(3-5) by simp
  then show ?thesis
    using assms(2)
    by (cases "shardIndex key = i")
       (simp_all add: cleanupShard_def Let_def the_bucket_set_shard map_of_filter_vals [OF d] the_bucket_def
        del: map_of_eq_Some_iff)
qed

lemma admitted_in_window:
  assumes "rl_inv rl" and "the_bucket rl key = Some b" and "0 \<le> tokens b"
    and "0 < window rl" and "in_int64 (window rl * 2)"
    and "\<forall>e \<in> set es. event_time e - lastReset b < window rl"
  shows "admitted key es rl = min (calls key es) (nat (tokens b))"
  using assms
proof (induction key es rl arbitrary: b rule: admitted.induct)
  case (1 key rl)
  then show ?case by simp
next
  case (2 key t k es rl)
  obtain rl' ok where a: "Allow t k rl = (rl', ok)" by (cases "Allow t k rl")
  then have rl': "rl' = fst (Allow t k rl)" by simp
  have inv: "rl_inv rl'" using 2(2) by (simp add: rl' Allow_inv)
  have w: "window rl' = window rl" by (simp add: rl')
  have t: "t - lastReset b < window rl" using 2(7) by simp
  note IH = 2(1) [OF a [symmetric] inv]
  show ?case
  proof (cases "k = key")
    case False
    have "the_bucket rl' key = Some b"
      using Allow_other_bucket [OF 2(2,3) t False] by (simp add: rl')
    with IH 2(4-7) False a show ?thesis by (simp add: w)
  next
    case True
    show ?thesis
    proof (cases "tokens b > 0")
      case pos: True
      have "the_bucket rl' key = Some (b\<lparr>tokens := tokens b - 1\<rparr>)"
        using Allow_key_bucket(2) [OF 2(3) t pos] True by (simp add: rl')
      moreover have "ok"
        using Allow_key_bucket(1) [OF 2(3) t] pos a True by (metis prod.inject)
      ultimately have "the_bucket rl' key = Some (b\<lparr>tokens := tokens b - 1\<rparr>)" and "ok" by simp_all
      with IH [of "b\<lparr>tokens := tokens b - 1\<rparr>"] 2(4-7) pos True a show ?thesis
        by (simp add: w)
    next
      case False
      then have z: "tokens b = 0" using 2(4) by simp
      have "rl' = rl" and "\<not> ok" using Allow_key_bucket(1) [OF 2(3) t] False a True by simp_all
      with IH [of b] 2(3-7) True a z show ?thesis by simp
    qed
  qed
next
  case (3 key t i es rl)
  have "the_bucket (cleanupShard t i rl) key = Some b"
    by (rule cleanup_keeps [OF 3(2,3) _ 3(5,6)]) (use 3(7) in simp)
  with 3(1) [OF cleanupShard_inv [OF 3(2)]] 3(4-7) show ?case by simp
qed

section \<open>Properties\<close>

text \<open>
  C11. The limit holds per window. Once a call has opened a window for a key (its bucket is new, or the
  old one's window has passed) and is tracked, then over every sequence of later calls, for this key
  and any others, and of cleanup steps, as long as the window lasts, exactly as many calls for the key
  are admitted as the limit allows: the first \<open>limit\<close> ones, counting the opening call.
\<close>

theorem RateLimit_window:
  assumes "rl_inv rl" and "1 \<le> limit rl" and "0 < window rl" and "in_int64 (window rl * 2)"
    and "case the_bucket rl key of None \<Rightarrow> True | Some b \<Rightarrow> now - lastReset b \<ge> window rl"
    and "Allow now key rl = (rl', ok)" and "the_bucket rl' key \<noteq> None"
    and "\<forall>e \<in> set es. event_time e - now < window rl"
  shows "ok \<and> 1 + admitted key es rl' = min (1 + calls key es) (nat (limit rl))"
proof -
  have rl': "rl' = fst (Allow now key rl)" "ok = snd (Allow now key rl)" using assms(6) by simp_all
  have b: "the_bucket rl' key = Some \<lparr>tokens = limit rl - 1, lastReset = now\<rparr>" and ok
  proof (atomize (full), cases "the_bucket rl key")
    case None
    define s1 where "s1 = (if length (buckets (shards rl (shardIndex key))) \<ge> maxBucketsPerShard
        then sweepShard (window rl) now (shards rl (shardIndex key)) else shards rl (shardIndex key))"
    have n: "map_of (buckets (shards rl (shardIndex key))) key = None" using None by (simp add: the_bucket_def)
    have d: "distinct (map fst (buckets (shards rl (shardIndex key))))" using assms(1) by (simp add: rl_inv_def)
    have "map_of (buckets s1) key = None"
      using n d by (auto simp: s1_def sweepShard_def map_of_filter_vals)
    then have "\<not> length (buckets s1) \<ge> maxBucketsPerShard"
      using assms(7) n by (auto simp: rl' Allow_def Let_def s1_def [symmetric] the_bucket_set_shard)
    with n show "the_bucket rl' key = Some \<lparr>tokens = limit rl - 1, lastReset = now\<rparr> \<and> ok"
      by (simp add: rl' Allow_def Let_def s1_def [symmetric] the_bucket_set_shard)
  next
    case (Some b)
    with assms(5) show "the_bucket rl' key = Some \<lparr>tokens = limit rl - 1, lastReset = now\<rparr> \<and> ok"
      by (simp add: rl' Allow_def Let_def the_bucket_def)
  qed
  have "admitted key es rl' = min (calls key es) (nat (limit rl - 1))"
    using admitted_in_window [of rl' key _ es, OF _ b] assms(1-4,8) by (simp add: rl' Allow_inv)
  with \<open>ok\<close> assms(2) show ?thesis by (auto simp: min_def nat_diff_distrib')
qed

definition example_limiter :: RateLimiter where
  "example_limiter = NewRateLimiter 2 1000"

lemma the_bucket_New: "the_bucket (NewRateLimiter lim win) key = None"
  by (simp add: the_bucket_def NewRateLimiter_def)

lemma Allow_new_key:
  assumes "the_bucket rl key = None"
    and "length (buckets (shards rl (shardIndex key))) < maxBucketsPerShard"
  shows "snd (Allow now key rl)"
    and "the_bucket (fst (Allow now key rl)) key = Some \<lparr>tokens = limit rl - 1, lastReset = now\<rparr>"
  using assms by (simp_all add: Allow_def Let_def the_bucket_def)

theorem RateLimit_window_witness:
  "1 + admitted ''a'' [EvAllow 10 ''a'', EvAllow 20 ''b'', EvAllow 999 ''a'']
         (fst (Allow 0 ''a'' example_limiter)) = 2"
proof -
  let ?es = "[EvAllow 10 ''a'', EvAllow 20 ''b'', EvAllow 999 ''a'']"
  have l: "limit example_limiter = 2" "window example_limiter = 1000" "rl_inv example_limiter"
    by (simp_all add: example_limiter_def rl_inv_New) (simp_all add: NewRateLimiter_def)
  have n: "the_bucket example_limiter ''a'' = None" by (simp add: example_limiter_def the_bucket_New)
  have room: "length (buckets (shards example_limiter (shardIndex ''a''))) < maxBucketsPerShard"
    by (simp add: example_limiter_def NewRateLimiter_def maxBucketsPerShard_def)
  show ?thesis
    using RateLimit_window [where rl = example_limiter and key = "''a''" and now = 0 and es = ?es
        and rl' = "fst (Allow 0 ''a'' example_limiter)" and ok = "snd (Allow 0 ''a'' example_limiter)"] l n Allow_new_key(2) [OF n room, of 0]
    by (simp add: in_int64_def)
qed

text \<open>
  Bounded memory. Whatever keys clients present and however the calls interleave with cleanups, no
  shard ever keeps more than \<open>maxBucketsPerShard\<close> buckets, one per key; and a call is refused only
  when its key is tracked, inside its window, and out of tokens.
\<close>

theorem RateLimit_bounded:
  "length (buckets (shards (run_events es (NewRateLimiter lim win)) i)) \<le> maxBucketsPerShard
   \<and> (snd (Allow now key rl) \<longleftrightarrow>
        (case the_bucket rl key of
           None \<Rightarrow> True
         | Some b \<Rightarrow> now - lastReset b \<ge> window rl \<or> tokens b > 0))"
proof
  have "rl_inv rl \<Longrightarrow> rl_inv (run_events es rl)" for rl
    by (induction es rl rule: run_events.induct) (auto intro: inv_intros)
  from this [OF rl_inv_New] show "length (buckets (shards (run_events es (NewRateLimiter lim win)) i)) \<le> maxBucketsPerShard"
    by (simp add: rl_inv_def)
  show "snd (Allow now key rl) \<longleftrightarrow>
        (case the_bucket rl key of
           None \<Rightarrow> True
         | Some b \<Rightarrow> now - lastReset b \<ge> window rl \<or> tokens b > 0)"
    by (simp add: Allow_def Let_def the_bucket_def split: option.splits)
qed

text \<open>
  One subscriber, one bucket. Two IPv6 client addresses in the same /64, in whatever spelling and
  zone, and an IPv4 address and its IPv4-mapped IPv6 form, are counted against the same bucket.
\<close>

theorem rateAddr_shares_bucket:
  assumes "ParseIP (drop_zone a) = Some p" and "ParseIP (drop_zone b) = Some q"
    and "ip_norm p = ip_norm q \<or> (To4 p = None \<and> To4 q = None \<and> take 64 (ip_bits p) = take 64 (ip_bits q))"
  shows "rateAddr a = rateAddr b"
proof -
  have len: "length p = 16" "length q = 16" using assms(1,2) ParseIP_length by blast+
  consider (v4) x where "To4 p = Some x" "To4 q = Some x"
    | (v6) "To4 p = None" "To4 q = None" "take 64 (ip_bits p) = take 64 (ip_bits q)"
  proof (cases "To4 p")
    case None
    then show thesis
    proof (cases "To4 q")
      case (Some y)
      then have "length y = 4" using len by (auto simp: To4_def split: if_splits)
      with assms(3) None Some len show thesis by (auto simp: ip_norm_def)
    qed (use assms(3) None v6 in \<open>auto simp: ip_norm_def\<close>)
  next
    case (Some x)
    then have "length x = 4" using len by (auto simp: To4_def split: if_splits)
    with assms(3) Some len have "To4 q = Some x"
      by (cases "To4 q") (auto simp: ip_norm_def)
    with Some v4 show thesis by blast
  qed
  then show ?thesis
  proof cases
    case v4
    with assms(1,2) show ?thesis by (simp add: rateAddr_def Let_def)
  next
    case v6
    have "and_bytes p (CIDRMask 64 128) = and_bytes q (CIDRMask 64 128)"
      using masked_eq_bits [of p 16 q 64] len v6(3) by simp
    with assms(1,2) v6 show ?thesis by (simp add: rateAddr_def Let_def)
  qed
qed

theorem rateAddr_shares_bucket_witness:
  "rateAddr ''2001:db8::1'' = rateAddr ''2001:DB8:0:0:5::9%eth0''"
proof (rule rateAddr_shares_bucket)
  show "ParseIP (drop_zone ''2001:db8::1'') = Some [32, 1, 13, 184, 0, 0, 0, 0, 0, 0, 0, 0, 0, 0, 0, 1]"
    by code_simp
  show "ParseIP (drop_zone ''2001:DB8:0:0:5::9%eth0'')
      = Some [32, 1, 13, 184, 0, 0, 0, 0, 0, 5, 0, 0, 0, 0, 0, 9]"
    by code_simp
  show "ip_norm [32, 1, 13, 184, 0, 0, 0, 0, 0, 0, 0, 0, 0, 0, 0, 1]
          = ip_norm [32, 1, 13, 184, 0, 0, 0, 0, 0, 5, 0, 0, 0, 0, 0, 9]
      \<or> (To4 [32, 1, 13, 184, 0, 0, 0, 0, 0, 0, 0, 0, 0, 0, 0, 1] = None
         \<and> To4 [32, 1, 13, 184, 0, 0, 0, 0, 0, 5, 0, 0, 0, 0, 0, 9] = None
         \<and> take 64 (ip_bits [32, 1, 13, 184, 0, 0, 0, 0, 0, 0, 0, 0, 0, 0, 0, 1])
           = take 64 (ip_bits [32, 1, 13, 184, 0, 0, 0, 0, 0, 5, 0, 0, 0, 0, 0, 9]))"
    using take_ip_bits [of 8] by (simp add: To4_def v4InV6Prefix_def)
qed

end
