(* ===== verification/Proxy_Circuit.thy ===== *)
theory Proxy_Circuit
  imports Go_Prelude
begin

text \<open>
  The circuit breaker, \<open>internal/handler/proxy/circuit.go\<close>. Two models of the same code: the operations
  as whole functions, which is how they behave when calls do not overlap, and the operations as
  sequences of their atomic loads, stores and compare-and-swaps, interleaved by any number of
  concurrent requests. The first gives the breaker's contract: it trips at the threshold, rejects for
  the timeout and always recovers. The second shows that the contract does not survive every
  interleaving.
\<close>

section \<open>State\<close>

datatype CircuitState = CircuitClosed | CircuitOpen | CircuitHalfOpen

record CircuitBreaker =
  threshold :: int
  timeout :: duration
  lastFailure :: instant
  failures :: int
  state :: CircuitState
  probeSlot :: bool

definition NewCircuitBreaker :: "int \<Rightarrow> duration \<Rightarrow> CircuitBreaker" where
  "NewCircuitBreaker thr tmo =
     \<lparr>threshold = (if thr \<le> 0 then 5 else thr),
      timeout = (if tmo \<le> 0 then 30 * 1000000000 else tmo),
      lastFailure = 0, failures = 0, state = CircuitClosed, probeSlot = False\<rparr>"

definition Params :: "CircuitBreaker \<Rightarrow> int \<times> duration" where
  "Params cb = (threshold cb, timeout cb)"

section \<open>Operations as functions\<close>

definition allowHalfOpenProbe :: "CircuitBreaker \<Rightarrow> CircuitBreaker \<times> bool" where
  "allowHalfOpenProbe cb = (if probeSlot cb then (cb, False) else (cb\<lparr>probeSlot := True\<rparr>, True))"

definition Allow :: "instant \<Rightarrow> CircuitBreaker \<Rightarrow> CircuitBreaker \<times> bool" where
  "Allow now cb =
     (case state cb of
        CircuitClosed \<Rightarrow> (cb, True)
      | CircuitOpen \<Rightarrow>
          if now - lastFailure cb \<ge> timeout cb
          then allowHalfOpenProbe (cb\<lparr>state := CircuitHalfOpen, failures := 0\<rparr>)
          else (cb, False)
      | CircuitHalfOpen \<Rightarrow> allowHalfOpenProbe cb)"

definition RecordSuccess :: "CircuitBreaker \<Rightarrow> CircuitBreaker" where
  "RecordSuccess cb =
     (if state cb = CircuitHalfOpen
      then cb\<lparr>state := CircuitClosed, failures := 0, probeSlot := False\<rparr>
      else cb\<lparr>failures := 0\<rparr>)"

definition RecordFailure :: "instant \<Rightarrow> CircuitBreaker \<Rightarrow> CircuitBreaker" where
  "RecordFailure now cb =
     (let cb = cb\<lparr>failures := failures cb + 1, lastFailure := now\<rparr> in
      if state cb = CircuitHalfOpen \<or> failures cb \<ge> threshold cb
      then cb\<lparr>state := CircuitOpen, probeSlot := False\<rparr> else cb)"

definition Abandon :: "CircuitBreaker \<Rightarrow> CircuitBreaker" where
  "Abandon cb = (if state cb = CircuitHalfOpen then cb\<lparr>probeSlot := False\<rparr> else cb)"

section \<open>Calls that do not overlap\<close>

text \<open>The breaker together with the number of requests it has admitted and not yet heard of.\<close>

record cb_sys =
  breaker :: CircuitBreaker
  outstanding :: nat

datatype cb_op = CbAllow instant | CbSuccess | CbFailure instant | CbAbandon

inductive cb_step :: "cb_sys \<Rightarrow> cb_op \<Rightarrow> cb_sys \<Rightarrow> bool" where
  cb_allow: "Allow now (breaker s) = (cb, ok) \<Longrightarrow>
     cb_step s (CbAllow now)
       (s\<lparr>breaker := cb, outstanding := (if ok then outstanding s + 1 else outstanding s)\<rparr>)"
| cb_success: "0 < outstanding s \<Longrightarrow>
     cb_step s CbSuccess (s\<lparr>breaker := RecordSuccess (breaker s), outstanding := outstanding s - 1\<rparr>)"
| cb_failure: "0 < outstanding s \<Longrightarrow>
     cb_step s (CbFailure now)
       (s\<lparr>breaker := RecordFailure now (breaker s), outstanding := outstanding s - 1\<rparr>)"
| cb_abandon: "0 < outstanding s \<Longrightarrow>
     cb_step s CbAbandon (s\<lparr>breaker := Abandon (breaker s), outstanding := outstanding s - 1\<rparr>)"

definition cb_init :: "cb_sys \<Rightarrow> bool" where
  "cb_init s \<longleftrightarrow> (\<exists>thr tmo. breaker s = NewCircuitBreaker thr tmo) \<and> outstanding s = 0"

definition cb_inv :: "cb_sys \<Rightarrow> bool" where
  "cb_inv s \<longleftrightarrow> 0 < threshold (breaker s) \<and> 0 < timeout (breaker s)
     \<and> (probeSlot (breaker s) \<longrightarrow> state (breaker s) = CircuitHalfOpen \<and> 0 < outstanding s)
     \<and> (state (breaker s) = CircuitClosed \<longrightarrow> failures (breaker s) < threshold (breaker s))"

lemma cb_inv_init: "cb_init s \<Longrightarrow> cb_inv s"
  by (auto simp: cb_init_def cb_inv_def NewCircuitBreaker_def)

lemma cb_inv_step: "cb_inv s \<Longrightarrow> cb_step s l s' \<Longrightarrow> cb_inv s'"
  by (auto simp: cb_inv_def Allow_def allowHalfOpenProbe_def RecordSuccess_def RecordFailure_def
      Abandon_def Let_def elim!: cb_step.cases split: CircuitState.splits if_splits)

interpretation cb_ts: transition_system cb_init cb_step cb_inv
  by unfold_locales (auto intro: cb_inv_init cb_inv_step)

section \<open>Interleaved calls\<close>

text \<open>
  The position of one request in the code, one constructor per atomic access: the loads, stores and
  compare-and-swaps of \<open>Allow\<close> (\<open>A\<close>), the request being served, and those of \<open>RecordSuccess\<close> (\<open>S\<close>),
  \<open>RecordFailure\<close> (\<open>F\<close>) and \<open>Abandon\<close> (\<open>B\<close>).
\<close>

datatype pc =
    Idle
  | A_load | A_time | A_cas | A_reset | A_claim | A_reload | A_probe
  | Serving
  | S_load | S_close | S_reset | S_release | S_clear
  | F_add | F_stamp | F_load | F_count | F_open | F_release
  | B_load | B_release

text \<open>One access: the breaker afterwards and where the request goes next.\<close>

fun access :: "instant \<Rightarrow> pc \<Rightarrow> CircuitBreaker \<Rightarrow> CircuitBreaker \<times> pc" where
  "access now Idle cb = (cb, A_load)"
| "access now A_load cb =
     (cb, case state cb of CircuitClosed \<Rightarrow> Serving | CircuitOpen \<Rightarrow> A_time | CircuitHalfOpen \<Rightarrow> A_probe)"
| "access now A_time cb = (cb, if now - lastFailure cb \<ge> timeout cb then A_cas else Idle)"
| "access now A_cas cb =
     (if state cb = CircuitOpen then (cb\<lparr>state := CircuitHalfOpen\<rparr>, A_reset) else (cb, A_reload))"
| "access now A_reset cb = (cb\<lparr>failures := 0\<rparr>, A_claim)"
| "access now A_claim cb = (if probeSlot cb then (cb, Idle) else (cb\<lparr>probeSlot := True\<rparr>, Serving))"
| "access now A_reload cb = (cb, if state cb = CircuitHalfOpen then A_probe else Idle)"
| "access now A_probe cb = (if probeSlot cb then (cb, Idle) else (cb\<lparr>probeSlot := True\<rparr>, Serving))"
| "access now Serving cb = (cb, Serving)"
| "access now S_load cb = (cb, if state cb = CircuitHalfOpen then S_close else S_clear)"
| "access now S_close cb = (cb\<lparr>state := CircuitClosed\<rparr>, S_reset)"
| "access now S_reset cb = (cb\<lparr>failures := 0\<rparr>, S_release)"
| "access now S_release cb = (cb\<lparr>probeSlot := False\<rparr>, Idle)"
| "access now S_clear cb = (cb\<lparr>failures := 0\<rparr>, Idle)"
| "access now F_add cb = (cb\<lparr>failures := failures cb + 1\<rparr>, F_stamp)"
| "access now F_stamp cb = (cb\<lparr>lastFailure := now\<rparr>, F_load)"
| "access now F_load cb = (cb, if state cb = CircuitHalfOpen then F_open else F_count)"
| "access now F_count cb = (cb, if failures cb \<ge> threshold cb then F_open else Idle)"
| "access now F_open cb = (cb\<lparr>state := CircuitOpen\<rparr>, F_release)"
| "access now F_release cb = (cb\<lparr>probeSlot := False\<rparr>, Idle)"
| "access now B_load cb = (cb, if state cb = CircuitHalfOpen then B_release else Idle)"
| "access now B_release cb = (cb\<lparr>probeSlot := False\<rparr>, Idle)"

record cb_threads =
  shared :: CircuitBreaker
  pcs :: "nat \<Rightarrow> pc"

text \<open>A step of request \<open>i\<close>: its next access, or the outcome of being served.\<close>

inductive access_step :: "cb_threads \<Rightarrow> nat \<times> instant \<Rightarrow> cb_threads \<Rightarrow> bool" where
  access_next: "access now (pcs s i) (shared s) = (cb, p) \<Longrightarrow>
     access_step s (i, now) \<lparr>shared = cb, pcs = (pcs s)(i := p)\<rparr>"
| access_outcome: "pcs s i = Serving \<Longrightarrow> p \<in> {S_load, F_add, B_load} \<Longrightarrow>
     access_step s (i, now) (s\<lparr>pcs := (pcs s)(i := p)\<rparr>)"

definition threads_init :: "cb_threads \<Rightarrow> bool" where
  "threads_init s \<longleftrightarrow> (\<exists>thr tmo. shared s = NewCircuitBreaker thr tmo) \<and> pcs s = (\<lambda>_. Idle)"

text \<open>
  Half-open with the slot taken and nobody left who could give it back: every request is outside,
  or on its way to losing the compare-and-swap on the slot.
\<close>

definition wedged :: "cb_threads \<Rightarrow> bool" where
  "wedged s \<longleftrightarrow> state (shared s) = CircuitHalfOpen \<and> probeSlot (shared s)
     \<and> (\<forall>i. pcs s i \<in> {Idle, A_load, A_probe})"

lemma wedged_step: "wedged s \<Longrightarrow> access_step s l s' \<Longrightarrow> wedged s'"
proof (erule access_step.cases)
  fix now i cb p t
  assume w: "wedged s" and a: "access now (pcs t i) (shared t) = (cb, p)" and [simp]: "s = t"
    and s': "s' = \<lparr>shared = cb, pcs = (pcs t)(i := p)\<rparr>"
  have "pcs t i \<in> {Idle, A_load, A_probe}" using w by (simp add: wedged_def)
  moreover have "state (shared t) = CircuitHalfOpen" "probeSlot (shared t)"
    using w by (simp_all add: wedged_def)
  ultimately have "cb = shared t \<and> p \<in> {Idle, A_load, A_probe}"
    using a by (elim insertE) auto
  with w s' show "wedged s'" by (simp add: wedged_def)
next
  fix t i p now
  assume "wedged s" "s = t" "pcs t i = Serving"
  then have False by (auto simp: wedged_def dest: spec [of _ i])
  then show "wedged s'" ..
qed

lemma wedged_serves_none: "wedged s \<Longrightarrow> \<forall>i. pcs s i \<noteq> Serving"
proof
  fix i
  assume "wedged s"
  then have "pcs s i \<in> {Idle, A_load, A_probe}" by (simp add: wedged_def)
  then show "pcs s i \<noteq> Serving" by (elim insertE) simp_all
qed

lemma wedged_forever: "(\<lambda>x y. \<exists>l. access_step x l y)\<^sup>*\<^sup>* s s' \<Longrightarrow> wedged s \<Longrightarrow> wedged s'"
  by (induction rule: rtranclp_induct) (use wedged_step in blast)+

text \<open>A scripted interleaving: which request moves, when, and the outcome where one is chosen.\<close>

definition scripted :: "cb_threads \<Rightarrow> nat \<times> instant \<times> pc option \<Rightarrow> cb_threads" where
  "scripted s a =
     (case a of
        (i, now, None) \<Rightarrow>
          (case access now (pcs s i) (shared s) of (cb, p) \<Rightarrow> \<lparr>shared = cb, pcs = (pcs s)(i := p)\<rparr>)
      | (i, now, Some p) \<Rightarrow>
          if pcs s i = Serving \<and> p \<in> {S_load, F_add, B_load} then s\<lparr>pcs := (pcs s)(i := p)\<rparr> else s)"

lemma reach_scripted:
  assumes "reach threads_init access_step s"
  shows "reach threads_init access_step (foldl scripted s as)"
  using assms
proof (induction "as" arbitrary: s)
  case Nil
  then show ?case by simp
next
  case (Cons a as)
  obtain i now o' where a: "a = (i, now, o')" by (cases a)
  have "reach threads_init access_step (scripted s a)"
  proof (cases o')
    case None
    obtain cb p where "access now (pcs s i) (shared s) = (cb, p)" by fastforce
    with None a show ?thesis
      using reach_step [OF Cons.prems access_next] by (simp add: scripted_def)
  next
    case (Some p)
    with a Cons.prems show ?thesis
      using reach_step [OF Cons.prems access_outcome [of s i p now]] by (simp add: scripted_def)
  qed
  then show ?case using Cons.IH by simp
qed

text \<open>
  Two requests are in flight when the breaker opens and its timeout passes. Request 0 moves it to
  half-open; before it claims the slot, the late failure of request 1 re-opens the breaker; request 0
  then claims the slot of an open breaker, is served, and its success releases nothing.
\<close>

definition wedging_script :: "(nat \<times> instant \<times> pc option) list" where
  "wedging_script =
     replicate 2 (0, 0, None) @ replicate 2 (1, 0, None)
     @ [(0, 0, Some F_add)] @ replicate 6 (0, 0, None)
     @ replicate 4 (0, 10, None)
     @ [(1, 10, Some F_add)] @ replicate 5 (1, 10, None)
     @ replicate 2 (0, 10, None) @ [(0, 10, Some S_load)] @ replicate 2 (0, 10, None)
     @ replicate 6 (0, 20, None)"

definition fresh_threads :: cb_threads where
  "fresh_threads = \<lparr>shared = NewCircuitBreaker 1 10, pcs = (\<lambda>_. Idle)\<rparr>"

lemma wedging_script_wedges: "wedged (foldl scripted fresh_threads wedging_script)"
  by (simp add: wedging_script_def fresh_threads_def scripted_def NewCircuitBreaker_def wedged_def
      numeral_eq_Suc)

lemma reach_fresh: "reach threads_init access_step fresh_threads"
  by (rule reach_init) (auto simp: threads_init_def fresh_threads_def)

section \<open>Properties\<close>

text \<open>
  C12. Recovery. As long as calls do not overlap, the breaker is never stuck: in every reachable state
  with no admitted request outstanding, the probe slot is free, and once the timeout has passed since
  the last failure the next request is admitted, whatever failed, succeeded or was abandoned before.
\<close>

theorem circuit_recovers:
  assumes "reach cb_init cb_step s" and "outstanding s = 0"
    and "now - lastFailure (breaker s) \<ge> timeout (breaker s)"
  shows "\<not> probeSlot (breaker s) \<and> snd (Allow now (breaker s))"
proof -
  from cb_ts.reach_inv [OF assms(1)] assms(2) have "\<not> probeSlot (breaker s)"
    by (auto simp: cb_inv_def)
  with assms(3) show ?thesis
    by (simp add: Allow_def allowHalfOpenProbe_def split: CircuitState.splits)
qed

lemma reach_fresh_breaker: "reach cb_init cb_step \<lparr>breaker = NewCircuitBreaker 1 10, outstanding = 0\<rparr>"
  by (rule reach_init) (auto simp: cb_init_def)

lemma reach_tripped:
  "reach cb_init cb_step
     \<lparr>breaker = \<lparr>threshold = 1, timeout = 10, lastFailure = 7, failures = 1, state = CircuitOpen,
                 probeSlot = False\<rparr>, outstanding = 0\<rparr>"
proof -
  have "cb_step \<lparr>breaker = NewCircuitBreaker 1 10, outstanding = 0\<rparr> (CbAllow 5)
      \<lparr>breaker = NewCircuitBreaker 1 10, outstanding = 1\<rparr>"
    using cb_allow [of 5 "\<lparr>breaker = NewCircuitBreaker 1 10, outstanding = 0\<rparr>" "NewCircuitBreaker 1 10" True]
    by (simp add: Allow_def NewCircuitBreaker_def)
  from reach_step [OF reach_fresh_breaker this]
  have r: "reach cb_init cb_step \<lparr>breaker = NewCircuitBreaker 1 10, outstanding = 1\<rparr>" .
  have "cb_step \<lparr>breaker = NewCircuitBreaker 1 10, outstanding = 1\<rparr> (CbFailure 7)
     \<lparr>breaker = \<lparr>threshold = 1, timeout = 10, lastFailure = 7, failures = 1, state = CircuitOpen,
                 probeSlot = False\<rparr>, outstanding = 0\<rparr>"
    using cb_failure [of "\<lparr>breaker = NewCircuitBreaker 1 10, outstanding = 1\<rparr>" 7]
    by (simp add: RecordFailure_def NewCircuitBreaker_def)
  from reach_step [OF r this] show ?thesis .
qed

theorem circuit_recovers_witness:
  "snd (Allow 17 \<lparr>threshold = 1, timeout = 10, lastFailure = 7, failures = 1, state = CircuitOpen,
                   probeSlot = False\<rparr>)"
  using circuit_recovers [OF reach_tripped, of 17] by simp

text \<open>
  Tripping. A closed breaker trips at its threshold and not before: after any sequence of recorded
  failures with no success in between, it is open exactly if the failures reached the threshold, and
  while it is open every request before the timeout is refused without changing it.
\<close>

theorem circuit_trips_at_threshold:
  assumes "state cb = CircuitClosed" and "failures cb = 0" and "0 < threshold cb"
    and "cb' = fold RecordFailure fails cb" and "fails \<noteq> []"
  shows "state cb' = (if int (length fails) \<ge> threshold cb then CircuitOpen else CircuitClosed)
     \<and> lastFailure cb' = last fails
     \<and> (state cb' = CircuitOpen \<and> now - last fails < timeout cb \<longrightarrow> Allow now cb' = (cb', False))"
proof -
  have "failures (fold RecordFailure ts cb) = int (length ts)
      \<and> state (fold RecordFailure ts cb) = (if int (length ts) \<ge> threshold cb then CircuitOpen else CircuitClosed)
      \<and> threshold (fold RecordFailure ts cb) = threshold cb \<and> timeout (fold RecordFailure ts cb) = timeout cb
      \<and> (ts \<noteq> [] \<longrightarrow> lastFailure (fold RecordFailure ts cb) = last ts)" for ts
  proof (induction ts rule: rev_induct)
    case Nil
    then show ?case using assms(1-3) by simp
  next
    case (snoc t ts)
    then show ?case by (auto simp: RecordFailure_def Let_def)
  qed
  from this [of fails] assms(4,5) show ?thesis by (auto simp: Allow_def)
qed

theorem circuit_trips_at_threshold_witness:
  "state (fold RecordFailure [3, 4] (NewCircuitBreaker 2 10)) = CircuitOpen"
  using circuit_trips_at_threshold [of "NewCircuitBreaker 2 10" _ "[3, 4]", OF _ _ _ refl]
  by (simp add: NewCircuitBreaker_def)

text \<open>
  A lost race wedges the breaker. With overlapping calls there is a reachable state in which the
  breaker is half-open, its probe slot is taken, and no request is left that could release it; from
  there no interleaving ever admits a request again, however much time passes.
\<close>

theorem circuit_wedges:
  "\<exists>s. reach threads_init access_step s \<and> wedged s
     \<and> {s'. (\<lambda>x y. \<exists>l. access_step x l y)\<^sup>*\<^sup>* s s'} \<subseteq> {s'. wedged s' \<and> (\<forall>i. pcs s' i \<noteq> Serving)}"
proof (intro exI conjI subsetI CollectI)
  let ?s = "foldl scripted fresh_threads wedging_script"
  show "reach threads_init access_step ?s" by (rule reach_scripted [OF reach_fresh])
  show w: "wedged ?s" by (rule wedging_script_wedges)
  fix s'
  assume "s' \<in> {s'. (\<lambda>x y. \<exists>l. access_step x l y)\<^sup>*\<^sup>* ?s s'}"
  then have "(\<lambda>x y. \<exists>l. access_step x l y)\<^sup>*\<^sup>* ?s s'" by simp
  then show "wedged s'" by (rule wedged_forever [OF _ w])
  then show "\<forall>i. pcs s' i \<noteq> Serving" by (rule wedged_serves_none)
qed

end
