(* ===== verification/Go_Http.thy ===== *)
theory Go_Http
  imports Go_Strings
begin

text \<open>
  More of Go's standard library, as far as the proxy, the rewrite engine and the middleware use it:
  the mutating operations of \<open>http.Header\<close>, case folding against ASCII texts, \<open>strings.Fields\<close>,
  \<open>strings.Index\<close> and \<open>IndexAny\<close>, \<open>strconv.Atoi\<close>, and host and port of a parsed URL.
\<close>

section \<open>Headers\<close>

definition HeaderDel :: "string \<Rightarrow> header \<Rightarrow> header" where
  "HeaderDel k h = filter (\<lambda>kv. fst kv \<noteq> CanonicalMIMEHeaderKey k) h"

definition header_put :: "string \<Rightarrow> string list \<Rightarrow> header \<Rightarrow> header" where
  "header_put k vs h =
     (if k \<in> fst ` set h then map (\<lambda>kv. if fst kv = k then (k, vs) else kv) h else h @ [(k, vs)])"

definition HeaderSet :: "string \<Rightarrow> string \<Rightarrow> header \<Rightarrow> header" where
  "HeaderSet k v h = header_put (CanonicalMIMEHeaderKey k) [v] h"

lemma map_of_HeaderDel [simp]: "map_of (HeaderDel k h) = (map_of h)(CanonicalMIMEHeaderKey k := None)"
  unfolding HeaderDel_def by (induction h) (auto simp: fun_eq_iff)

lemma map_of_header_put [simp]: "map_of (header_put k vs h) = (map_of h)(k \<mapsto> vs)"
proof (cases "k \<in> fst ` set h")
  case True
  have "map_of (map (\<lambda>kv. if fst kv = k then (k, vs) else kv) h) x =
      (if x = k then map_option (\<lambda>_. vs) (map_of h k) else map_of h x)" for x
    by (induction h) auto
  moreover from True obtain vs' where "map_of h k = Some vs'"
    by (metis map_of_eq_None_iff not_Some_eq)
  ultimately show ?thesis using True by (simp add: header_put_def fun_eq_iff)
next
  case False
  then have "map_of (h @ [(k, vs)]) = (map_of h)(k \<mapsto> vs)"
    by (induction h) (auto simp: fun_eq_iff)
  with False show ?thesis by (simp add: header_put_def)
qed

lemma map_of_HeaderSet [simp]: "map_of (HeaderSet k v h) = (map_of h)(CanonicalMIMEHeaderKey k \<mapsto> [v])"
  by (simp add: HeaderSet_def)

lemma map_of_header_append:
  "map_of (header_append k v h) = (map_of h)(k \<mapsto> (case map_of h k of None \<Rightarrow> [v] | Some vs \<Rightarrow> vs @ [v]))"
  by (induction k v h rule: header_append.induct) (auto simp: fun_eq_iff)

lemma map_of_HeaderAdd:
  "map_of (HeaderAdd k v h) =
     (map_of h)(CanonicalMIMEHeaderKey k \<mapsto>
       (case map_of h (CanonicalMIMEHeaderKey k) of None \<Rightarrow> [v] | Some vs \<Rightarrow> vs @ [v]))"
  by (simp add: HeaderAdd_def map_of_header_append)

section \<open>Texts\<close>

text \<open>
  \<open>strings.EqualFold\<close> against an ASCII text. Two code points outside ASCII fold to ASCII letters: the
  long s (\<open>C5 BF\<close>) and the Kelvin sign (\<open>E2 84 AA\<close>); every other byte outside ASCII makes the texts
  different.
\<close>

fun fold_special :: "string \<Rightarrow> string" where
  "fold_special (a # b # c # s) =
     (if a = CHR 0xC5 \<and> b = CHR 0xBF then CHR ''s'' # fold_special (c # s)
      else if a = CHR 0xE2 \<and> b = CHR 0x84 \<and> c = CHR 0xAA then CHR ''k'' # fold_special s
      else a # fold_special (b # c # s))"
| "fold_special [a, b] = (if a = CHR 0xC5 \<and> b = CHR 0xBF then ''s'' else [a, b])"
| "fold_special s = s"

definition EqualFoldASCII :: "string \<Rightarrow> string \<Rightarrow> bool" where
  "EqualFoldASCII s t \<longleftrightarrow> map to_lower (fold_special s) = map to_lower t"

text \<open>\<open>strings.EqualFold\<close> on arbitrary texts: outside ASCII it is the parameter \<open>uniEq\<close>.\<close>

definition EqualFoldU :: "(string \<Rightarrow> string \<Rightarrow> bool) \<Rightarrow> string \<Rightarrow> string \<Rightarrow> bool" where
  "EqualFoldU uniEq s t = (if isASCII s \<and> isASCII t then EqualFold s t else uniEq s t)"

text \<open>\<open>strings.Fields\<close>: the maximal runs of text between white space.\<close>

fun word_end :: "string \<Rightarrow> string \<times> string" where
  "word_end [] = ([], [])"
| "word_end (c # s) =
     (if strip1 space_encodings (c # s) = None then (case word_end s of (w, rest) \<Rightarrow> (c # w, rest))
      else ([], c # s))"

lemma word_end_length: "word_end s = (w, rest) \<Longrightarrow> length w + length rest = length s"
  by (induction s arbitrary: w rest) (auto split: if_splits prod.splits)

lemma strip_all_length: "length (strip_all encs s) \<le> length s"
proof (induction encs s rule: strip_all.induct)
  case (1 encs s)
  show ?case
  proof (cases "strip1 encs s")
    case None
    then show ?thesis by (subst strip_all.simps) simp
  next
    case (Some s')
    with 1 strip1_shorter [OF Some] show ?thesis by (subst strip_all.simps) simp
  qed
qed

lemma strip_all_stops: "strip1 encs (strip_all encs s) = None"
proof (induction encs s rule: strip_all.induct)
  case (1 encs s)
  then show ?case by (subst strip_all.simps) (cases "strip1 encs s"; simp)
qed

function Fields :: "string \<Rightarrow> string list" where
  "Fields s =
     (let t = strip_all space_encodings s in
      if t = [] then [] else case word_end t of (w, rest) \<Rightarrow> w # Fields rest)"
  by pat_completeness auto
termination
proof (relation "measure length")
  show "wf (measure length)" by simp
next
  fix s t w rest
  assume t: "t = strip_all space_encodings s" "t \<noteq> []" and x: "(w, rest) = word_end t"
  from t(1) have "strip1 space_encodings t = None" by (simp only: strip_all_stops)
  with t(2) x have "w \<noteq> []" by (cases t) (auto split: prod.splits)
  with t x word_end_length [of t w rest] strip_all_length [of space_encodings s]
  show "(rest, s) \<in> measure length" by (cases w) auto
qed

declare Fields.simps [simp del]

text \<open>\<open>strings.IndexAny\<close> as a cut: the text from the first of the characters on.\<close>

definition from_any :: "string \<Rightarrow> char set \<Rightarrow> string" where
  "from_any s cs = dropWhile (\<lambda>c. c \<notin> cs) s"

text \<open>\<open>strings.Index\<close>: the position of the first occurrence.\<close>

fun Index :: "string \<Rightarrow> string \<Rightarrow> nat option" where
  "Index [] p = (if p = [] then Some 0 else None)"
| "Index (c # s) p = (if prefix p (c # s) then Some 0 else map_option Suc (Index s p))"

lemma Index_SomeD: "Index s p = Some i \<Longrightarrow> \<exists>rest. s = take i s @ p @ rest \<and> i + length p \<le> length s"
proof (induction s p arbitrary: i rule: Index.induct)
  case (2 c s p)
  show ?case
  proof (cases "prefix p (c # s)")
    case True
    with 2 show ?thesis by (auto elim!: prefixE) (metis length_Cons length_append le_add1)
  next
    case False
    with 2(2) obtain j where "Index s p = Some j" "i = Suc j" by auto
    with 2(1) [OF False] show ?thesis by fastforce
  qed
qed (auto split: if_splits)

text \<open>\<open>strconv.Atoi\<close> on a 64-bit machine.\<close>

definition Atoi :: "string \<Rightarrow> int option" where
  "Atoi s =
     (case s of [] \<Rightarrow> None
      | c # rest \<Rightarrow>
          let ds = (if c = CHR ''-'' \<or> c = CHR ''+'' then rest else s);
              n = int (digits_value ds); v = (if c = CHR ''-'' then - n else n)
          in if ds = [] \<or> \<not> list_all is_digit ds \<or> \<not> in_int64 v then None else Some v)"

lemma Atoi_Itoa: "int n < 2 ^ 63 \<Longrightarrow> Atoi (Itoa n) = Some (int n)"
proof -
  assume n: "int n < 2 ^ 63"
  obtain c rest where s: "Itoa n = c # rest" using Itoa_nonempty [of n] by (cases "Itoa n") auto
  then have "c \<noteq> CHR ''-'' \<and> c \<noteq> CHR ''+''"
    using Itoa_digits [of n] by (auto simp: is_digit_def)
  with s n Itoa_digits [of n] digits_value_Itoa [of n] show ?thesis
    by (simp add: Atoi_def Let_def in_int64_def)
qed

section \<open>Paths (\<open>path/filepath\<close>)\<close>

text \<open>\<open>filepath.Clean\<close> on a system whose separator is the slash: a stack of the names kept so far.\<close>

fun clean_parts :: "bool \<Rightarrow> string list \<Rightarrow> string list \<Rightarrow> string list" where
  "clean_parts rooted stack [] = rev stack"
| "clean_parts rooted stack (p # ps) =
     (if p = [] \<or> p = ''.'' then clean_parts rooted stack ps
      else if p = ''..'' then
        (case stack of
           [] \<Rightarrow> clean_parts rooted (if rooted then [] else [''..'']) ps
         | q # qs \<Rightarrow> if q = ''..'' then clean_parts rooted (''..'' # stack) ps else clean_parts rooted qs ps)
      else clean_parts rooted (p # stack) ps)"

definition filepath_Clean :: "string \<Rightarrow> string" where
  "filepath_Clean p =
     (if p = [] then ''.''
      else
        let rooted = (hd p = CHR ''/'');
            body = Join (clean_parts rooted [] (SplitByte p (CHR ''/''))) ''/''
        in if rooted then ''/'' @ body else if body = [] then ''.'' else body)"

definition filepath_Join :: "string \<Rightarrow> string \<Rightarrow> string" where
  "filepath_Join a b =
     (if a = [] \<and> b = [] then []
      else filepath_Clean (Join (filter (\<lambda>e. e \<noteq> []) [a, b]) ''/''))"

section \<open>Host and port of a URL (\<open>net/url\<close>)\<close>

definition validOptionalPort :: "string \<Rightarrow> bool" where
  "validOptionalPort p =
     (case p of [] \<Rightarrow> True | c # ds \<Rightarrow> c = CHR '':'' \<and> list_all is_digit ds)"

definition url_splitHostPort :: "string \<Rightarrow> string \<times> string" where
  "url_splitHostPort hostPort =
     (let (host, port) =
        (case LastIndexByte hostPort (CHR '':'') of
           None \<Rightarrow> (hostPort, [])
         | Some i \<Rightarrow> if validOptionalPort (drop i hostPort) then (take i hostPort, drop (i + 1) hostPort)
                     else (hostPort, []))
      in (if HasPrefix host ''['' \<and> HasSuffix host '']'' then (take (length host - 2) (drop 1 host), port)
          else (host, port)))"

definition url_hostname :: "string \<Rightarrow> string" where "url_hostname h = fst (url_splitHostPort h)"
definition url_port :: "string \<Rightarrow> string" where "url_port h = snd (url_splitHostPort h)"

end
