(* ===== verification/Go_Bufio.thy ===== *)
theory Go_Bufio
  imports Go_Http
begin

text \<open>
  Buffered reading of lines (\<open>bufio\<close>), shared by the proxy's handshake and the Redis client.
\<close>

definition crlf :: string where "crlf = [CHR 0x0D, CHR 0x0A]"

text \<open>
  \<open>bufio.Reader.ReadSlice\<close> up to a newline, on a reader with a buffer of \<open>n\<close> bytes over the bytes the
  connection still delivers: a whole line, a full buffer without one (\<open>ErrBufferFull\<close>), or the end.
\<close>

datatype slice_err = SliceOk | ErrBufferFull | SliceEOF

definition ReadSlice :: "nat \<Rightarrow> string \<Rightarrow> string \<times> slice_err \<times> string" where
  "ReadSlice n s =
     (case IndexByte (take n s) (CHR 0x0A) of
        Some i \<Rightarrow> (take (i + 1) s, SliceOk, drop (i + 1) s)
      | None \<Rightarrow> if n \<le> length s then (take n s, ErrBufferFull, drop n s) else (s, SliceEOF, []))"

lemma ReadSlice_shorter: "ReadSlice n s = (line, e, s') \<Longrightarrow> 0 < n \<Longrightarrow> e \<noteq> SliceEOF \<Longrightarrow> length s' < length s"
proof -
  assume r: "ReadSlice n s = (line, e, s')" and "0 < n" "e \<noteq> SliceEOF"
  show ?thesis
  proof (cases "IndexByte (take n s) (CHR 0x0A)")
    case None
    with r \<open>0 < n\<close> \<open>e \<noteq> SliceEOF\<close> show ?thesis by (auto simp: ReadSlice_def split: if_splits)
  next
    case (Some i)
    then have "CHR 0x0A \<in> set (take n s)" by (metis IndexByte_None option.distinct(1))
    then have "s \<noteq> []" by auto
    with r Some show ?thesis by (auto simp: ReadSlice_def)
  qed
qed

definition is_line :: "string \<Rightarrow> bool" where
  "is_line l \<longleftrightarrow> l \<noteq> [] \<and> last l = CHR 0x0A \<and> CHR 0x0A \<notin> set (butlast l)"

lemma IndexByte_nth: "IndexByte s c = Some i \<Longrightarrow> i < length s \<and> s ! i = c \<and> c \<notin> set (take i s)"
  by (induction s arbitrary: i) (auto split: if_splits)

lemma ReadSlice_cases:
  assumes "ReadSlice n s = (line, e, s')" and "e \<noteq> SliceEOF"
  obtains (Line) "e = SliceOk" "s = line @ s'" "is_line line" "length line \<le> n"
    | (Full) "e = ErrBufferFull" "s = line @ s'" "CHR 0x0A \<notin> set line" "length line = n"
proof (cases "IndexByte (take n s) (CHR 0x0A)")
  case None
  with assms have "e = ErrBufferFull \<and> s = line @ s' \<and> CHR 0x0A \<notin> set line \<and> length line = n"
    by (auto simp: ReadSlice_def IndexByte_None split: if_splits)
  then show ?thesis using Full by blast
next
  case (Some i)
  from IndexByte_nth [OF Some] have i: "i < n" "i < length s" by (simp_all add: min_def split: if_splits)
  with IndexByte_nth [OF Some] have at: "s ! i = CHR 0x0A" and no: "CHR 0x0A \<notin> set (take i s)"
    by (simp_all add: min_def)
  from i at have "take (i + 1) s = take i s @ [CHR 0x0A]" by (simp add: take_Suc_conv_app_nth)
  then have "is_line (take (i + 1) s)" using no by (simp add: is_line_def butlast_append)
  with assms Some i show ?thesis using Line by (auto simp: ReadSlice_def)
qed

lemma IndexByte_first: "c \<notin> set xs \<Longrightarrow> IndexByte (xs @ c # ys) c = Some (length xs)"
  by (induction xs) auto

lemma is_line_split: "is_line l \<Longrightarrow> l = butlast l @ [CHR 0x0A]"
  by (metis append_butlast_last_id is_line_def)

lemma is_line_append: "is_line l \<Longrightarrow> CHR 0x0A \<notin> set p \<Longrightarrow> is_line (p @ l)"
  by (auto simp: is_line_def butlast_append)

lemma ReadSlice_line:
  assumes "is_line l" and "length l \<le> n"
  shows "ReadSlice n (l @ s) = (l, SliceOk, s)"
proof -
  define p where "p = butlast l"
  have l: "l = p @ [CHR 0x0A]" "CHR 0x0A \<notin> set p"
    using is_line_split [OF assms(1)] assms(1) by (simp_all add: p_def is_line_def)
  with assms(2) have "IndexByte (take n (l @ s)) (CHR 0x0A) = Some (length p)"
    by (simp add: IndexByte_first take_Cons')
  with l show ?thesis by (simp add: ReadSlice_def)
qed

lemma ReadSlice_long:
  assumes "is_line l" and "n < length l"
  shows "ReadSlice n (l @ s) = (take n l, ErrBufferFull, drop n l @ s)" and "CHR 0x0A \<notin> set (take n l)"
    and "is_line (drop n l)"
proof -
  define p where "p = butlast l"
  have l: "l = p @ [CHR 0x0A]" "CHR 0x0A \<notin> set p"
    using is_line_split [OF assms(1)] assms(1) by (simp_all add: p_def is_line_def)
  with assms(2) have "take n l = take n p" by simp
  with l(2) show no: "CHR 0x0A \<notin> set (take n l)" by (auto dest: in_set_takeD)
  with assms(2) show "ReadSlice n (l @ s) = (take n l, ErrBufferFull, drop n l @ s)"
    using IndexByte_None [of "take n l" "CHR 0x0A"] by (simp add: ReadSlice_def)
  from l assms(2) show "is_line (drop n l)"
    by (auto simp: is_line_def butlast_append dest: in_set_dropD)
qed

text \<open>\<open>strconv.FormatInt\<close> in base ten.\<close>

definition FormatInt :: "int \<Rightarrow> string" where
  "FormatInt n = (if n < 0 then ''-'' @ Itoa (nat (- n)) else Itoa (nat n))"

lemma Atoi_FormatInt: "in_int64 n \<Longrightarrow> Atoi (FormatInt n) = Some n"
proof (cases "n < 0")
  case True
  assume "in_int64 n"
  moreover have "Itoa (nat (- n)) \<noteq> []" "list_all is_digit (Itoa (nat (- n)))"
    by (simp_all add: Itoa_nonempty Itoa_digits)
  ultimately show ?thesis using True by (simp add: FormatInt_def Atoi_def Let_def)
next
  case False
  assume "in_int64 n"
  then show ?thesis using False Atoi_Itoa [of "nat n"] by (simp add: FormatInt_def in_int64_def)
qed

end
