(* ===== verification/Proxy_Balancer.thy ===== *)
theory Proxy_Balancer
  imports Go_Net "HOL-Library.Multiset"
begin

text \<open>
  Upstream pools and load balancing: \<open>internal/handler/proxy/upstream.go\<close>, \<open>balancer.go\<close>, \<open>canary.go\<close>
  and \<open>NormalizeProxyUpstreamAddress\<close> of \<open>internal/config/validate.go\<close>. A pool owns its backends; a
  pointer to a backend is its index in the pool, so that the slices of pointers the code passes around
  are lists of indices. \<open>url.Parse\<close> is a parameter (package \<open>net/url\<close> is used, not defined, by this
  code), and the numbers \<open>rand.IntN\<close> draws are part of the request.
\<close>

section \<open>Backends and pools\<close>

record url =
  Scheme :: string
  Host :: string

datatype BackendState = StateHealthy | StateUnhealthy | StateDraining

record Backend =
  URL :: url
  Weight :: int
  State :: BackendState
  ActiveConns :: int
  TotalReqs :: int
  TotalFails :: int

definition IsHealthy :: "Backend \<Rightarrow> bool" where
  "IsHealthy b \<longleftrightarrow> State b = StateHealthy"

definition SetState :: "BackendState \<Rightarrow> Backend \<Rightarrow> Backend" where
  "SetState st b = b\<lparr>State := st\<rparr>"

record UpstreamConfig =
  Address :: string
  cfgWeight :: int

definition NormalizeProxyUpstreamAddress :: "string \<Rightarrow> string" where
  "NormalizeProxyUpstreamAddress addr =
     (let addr = TrimSpace addr in
      if addr = [] then addr
      else if Contains addr ''://'' then addr
      else ''http://'' @ addr)"

definition new_backend :: "(string \<Rightarrow> url option) \<Rightarrow> UpstreamConfig \<Rightarrow> Backend option" where
  "new_backend parse u =
     (case parse (NormalizeProxyUpstreamAddress (Address u)) of
        None \<Rightarrow> None
      | Some parsed \<Rightarrow>
          if Host parsed = [] then None
          else Some \<lparr>URL = parsed, Weight = (if cfgWeight u \<le> 0 then 1 else cfgWeight u),
                     State = StateHealthy, ActiveConns = 0, TotalReqs = 0, TotalFails = 0\<rparr>)"

definition NewUpstreamPool :: "(string \<Rightarrow> url option) \<Rightarrow> UpstreamConfig list \<Rightarrow> Backend list" where
  "NewUpstreamPool parse ups = List.map_filter (new_backend parse) ups"

definition Healthy :: "Backend list \<Rightarrow> nat list" where
  "Healthy pool = filter (\<lambda>i. IsHealthy (pool ! i)) [0..<length pool]"

definition All :: "Backend list \<Rightarrow> nat list" where
  "All pool = [0..<length pool]"

section \<open>Requests\<close>

text \<open>
  What selection reads of an \<open>http.Request\<close>: the peer, the path and the cookies \<open>net/http\<close> parsed.
  The two numbers are the raw randomness behind two calls of \<open>rand.IntN\<close>.
\<close>

record lb_request =
  RemoteAddr :: string
  Path :: string
  Cookies :: "(string \<times> string) list"
  draws :: "nat \<times> nat"

definition Cookie :: "lb_request \<Rightarrow> string \<Rightarrow> string option" where
  "Cookie r name = map_of (Cookies r) name"

definition IntN :: "nat \<Rightarrow> nat \<Rightarrow> nat" where
  "IntN raw n = raw mod n"

text \<open>\<open>hash/fnv\<close>, 32-bit FNV-1a.\<close>

definition fnv32a :: "string \<Rightarrow> u32" where
  "fnv32a s = foldl (\<lambda>h c. (xor h (ucast (byte_of_char c))) * 16777619) 2166136261 s"

section \<open>Algorithms\<close>

definition backendWeight :: "Backend \<Rightarrow> int" where
  "backendWeight b = (if Weight b > 0 then Weight b else 1)"

definition total_weight :: "Backend list \<Rightarrow> nat list \<Rightarrow> int" where
  "total_weight pool bs = foldl (\<lambda>t i. wrap64 (t + backendWeight (pool ! i))) 0 bs"

fun rr_slot :: "Backend list \<Rightarrow> int \<Rightarrow> nat list \<Rightarrow> nat option" where
  "rr_slot pool pos [] = None"
| "rr_slot pool pos (i # is) =
     (let pos = wrap64 (pos - backendWeight (pool ! i)) in
      if pos < 0 then Some i else rr_slot pool pos is)"

definition RoundRobin_Select :: "Backend list \<Rightarrow> nat list \<Rightarrow> u64 \<Rightarrow> u64 \<times> nat option" where
  "RoundRobin_Select pool bs counter =
     (if bs = [] then (counter, None)
      else let total = total_weight pool bs; counter = counter + 1 in
        if total \<le> 0 then (counter, Some (bs ! (unat counter mod length bs)))
        else (counter,
              case rr_slot pool (int (unat counter) mod total) bs of
                Some i \<Rightarrow> Some i
              | None \<Rightarrow> Some (bs ! (length bs - 1))))"

fun least_conn :: "Backend list \<Rightarrow> nat \<Rightarrow> int \<Rightarrow> nat list \<Rightarrow> nat" where
  "least_conn pool best bestConns [] = best"
| "least_conn pool best bestConns (b # bs) =
     (let c = ActiveConns (pool ! b) in
      if c < bestConns then least_conn pool b c bs else least_conn pool best bestConns bs)"

definition LeastConn_Select :: "Backend list \<Rightarrow> nat list \<Rightarrow> nat option" where
  "LeastConn_Select pool bs =
     (case bs of [] \<Rightarrow> None | b # rest \<Rightarrow> Some (least_conn pool b (ActiveConns (pool ! b)) rest))"

definition hash_index :: "string \<Rightarrow> nat list \<Rightarrow> nat option" where
  "hash_index s bs = Some (bs ! unat (fnv32a s mod word_of_nat (length bs)))"

definition IPHash_Select :: "nat list \<Rightarrow> lb_request \<Rightarrow> nat option" where
  "IPHash_Select bs r =
     (if bs = [] then None
      else hash_index (case SplitHostPort (RemoteAddr r) of Some (host, _) \<Rightarrow> host | None \<Rightarrow> RemoteAddr r) bs)"

definition URIHash_Select :: "nat list \<Rightarrow> lb_request \<Rightarrow> nat option" where
  "URIHash_Select bs r = (if bs = [] then None else hash_index (Path r) bs)"

definition Random_Select :: "Backend list \<Rightarrow> nat list \<Rightarrow> lb_request \<Rightarrow> nat option" where
  "Random_Select pool bs r =
     (let n = length bs in
      if n = 0 then None
      else if n = 1 then Some (bs ! 0)
      else let i = IntN (fst (draws r)) n; j = IntN (snd (draws r)) n in
        if ActiveConns (pool ! (bs ! i)) \<le> ActiveConns (pool ! (bs ! j)) then Some (bs ! i) else Some (bs ! j))"

text \<open>
  The implementations of the \<open>Balancer\<close> interface, with their state. A \<open>StickyBalancer\<close> has its cookie
  name, its TTL, its fallback (\<open>nil\<close> as \<open>None\<close>) and the round-robin counter it embeds.
\<close>

datatype Balancer =
    RoundRobin u64
  | LeastConn
  | IPHash
  | URIHash
  | Random
  | StickyBalancer string int "Balancer option" u64

definition sticky_backend :: "Backend list \<Rightarrow> nat list \<Rightarrow> lb_request \<Rightarrow> string \<Rightarrow> nat option" where
  "sticky_backend pool bs r cookieName =
     (case Cookie r cookieName of
        None \<Rightarrow> None
      | Some v \<Rightarrow> if v = [] then None else find (\<lambda>i. Host (URL (pool ! i)) = v) bs)"

primrec Select :: "Balancer \<Rightarrow> Backend list \<Rightarrow> nat list \<Rightarrow> lb_request \<Rightarrow> Balancer \<times> nat option" where
  "Select (RoundRobin counter) pool bs r =
     (case RoundRobin_Select pool bs counter of (counter, sel) \<Rightarrow> (RoundRobin counter, sel))"
| "Select LeastConn pool bs r = (LeastConn, LeastConn_Select pool bs)"
| "Select IPHash pool bs r = (IPHash, IPHash_Select bs r)"
| "Select URIHash pool bs r = (URIHash, URIHash_Select bs r)"
| "Select Random pool bs r = (Random, Random_Select pool bs r)"
| "Select (StickyBalancer name ttl fb counter) pool bs r =
     (if bs = [] then (StickyBalancer name ttl fb counter, None)
      else case sticky_backend pool bs r name of
        Some i \<Rightarrow> (StickyBalancer name ttl fb counter, Some i)
      | None \<Rightarrow>
          (case map_option (\<lambda>b. Select b pool bs r) fb of
             Some (b', sel) \<Rightarrow> (StickyBalancer name ttl (Some b') counter, sel)
           | None \<Rightarrow>
               (case RoundRobin_Select pool bs counter of
                  (counter, sel) \<Rightarrow> (StickyBalancer name ttl fb counter, sel))))"

section \<open>Construction\<close>

definition DefaultStickyCookieName :: string where "DefaultStickyCookieName = ''uwas_sticky''"
definition DefaultStickyTTL :: int where "DefaultStickyTTL = 3600"

definition NewBalancer :: "(string \<Rightarrow> string) \<Rightarrow> string \<Rightarrow> Balancer" where
  "NewBalancer uni algorithm =
     (let a = map (\<lambda>c. if c = CHR ''-'' then CHR ''_'' else c) (ToLower uni algorithm) in
      if a = ''least_conn'' then LeastConn
      else if a = ''ip_hash'' then IPHash
      else if a = ''uri_hash'' then URIHash
      else if a = ''random'' then Random
      else if a = ''sticky'' then StickyBalancer DefaultStickyCookieName DefaultStickyTTL None 0
      else RoundRobin 0)"

record StickyConfig =
  Type :: string
  CookieName :: string
  TTL :: int

fun applyStickyOptions :: "Balancer \<Rightarrow> StickyConfig \<Rightarrow> Balancer" where
  "applyStickyOptions (StickyBalancer name ttl fb counter) s =
     StickyBalancer (if TrimSpace (CookieName s) \<noteq> [] then TrimSpace (CookieName s) else name)
       (if TTL s > 0 then TTL s else ttl) fb counter"
| "applyStickyOptions b s = b"

fun is_sticky :: "Balancer \<Rightarrow> bool" where
  "is_sticky (StickyBalancer name ttl fb counter) = True"
| "is_sticky b = False"

definition NewBalancerFor :: "(string \<Rightarrow> string) \<Rightarrow> string \<Rightarrow> StickyConfig \<Rightarrow> Balancer" where
  "NewBalancerFor uni algorithm s =
     (let base = NewBalancer uni algorithm; stickyType = ToLower uni (TrimSpace (Type s)) in
      if stickyType = [] then applyStickyOptions base s
      else if stickyType = ''cookie'' then
        applyStickyOptions
          (StickyBalancer DefaultStickyCookieName DefaultStickyTTL (if is_sticky base then None else Some base) 0) s
      else if stickyType = ''ip'' then IPHash
      else base)"

text \<open>The cookie \<open>SetStickyCookie\<close> sends: its name and value are what a later request carries.\<close>

record http_cookie =
  Name :: string
  Value :: string
  cookiePath :: string
  MaxAge :: int
  HttpOnly :: bool
  Secure :: bool

definition SetStickyCookie :: "string \<Rightarrow> string \<Rightarrow> int \<Rightarrow> bool \<Rightarrow> http_cookie" where
  "SetStickyCookie cookieName backendHost ttl secure =
     \<lparr>Name = cookieName, Value = backendHost, cookiePath = ''/'', MaxAge = ttl, HttpOnly = True, Secure = secure\<rparr>"

section \<open>Canary routing\<close>

record CanaryConfig =
  Enabled :: bool
  canaryWeight :: int
  canaryCookie :: string
  Upstreams :: "UpstreamConfig list"

record CanaryRouter =
  canaryPool :: "Backend list"
  canaryBalance :: Balancer

definition NewCanaryRouter ::
  "(string \<Rightarrow> string) \<Rightarrow> (string \<Rightarrow> url option) \<Rightarrow> CanaryConfig \<Rightarrow> string \<Rightarrow> CanaryRouter" where
  "NewCanaryRouter uni parse cfg algorithm =
     \<lparr>canaryPool = NewUpstreamPool parse (map (\<lambda>u. \<lparr>Address = Address u, cfgWeight = cfgWeight u\<rparr>) (Upstreams cfg)),
      canaryBalance = NewBalancer uni algorithm\<rparr>"

definition canary_cookie_name :: "CanaryConfig \<Rightarrow> string" where
  "canary_cookie_name cfg = (if canaryCookie cfg = [] then ''X-Canary'' else canaryCookie cfg)"

definition IsCanary :: "lb_request \<Rightarrow> CanaryConfig \<Rightarrow> bool" where
  "IsCanary r cfg =
     (if \<not> Enabled cfg then False
      else case Cookie r (canary_cookie_name cfg) of
        Some v \<Rightarrow> v = ''true''
      | None \<Rightarrow>
          if canaryWeight cfg \<le> 0 then False
          else if canaryWeight cfg \<ge> 100 then True
          else int (IntN (fst (draws r)) 100) < canaryWeight cfg)"

text \<open>What \<open>CanaryRouter.Serve\<close> decides: \<open>None\<close> when the caller must use the primary pool.\<close>

definition CanaryServe :: "CanaryRouter \<Rightarrow> CanaryConfig \<Rightarrow> bool \<Rightarrow> http_cookie option" where
  "CanaryServe cr cfg tls =
     (if Healthy (canaryPool cr) = [] then None
      else Some \<lparr>Name = canary_cookie_name cfg, Value = ''true'', cookiePath = ''/'', MaxAge = 0,
                 HttpOnly = True, Secure = tls\<rparr>)"

section \<open>The interface a proxy relies on\<close>

text \<open>
  What the proxy needs of a balancer: on an empty list it selects nothing, otherwise a member of the
  list. The bound is that of the 32-bit length the hash balancers compute with.
\<close>

locale balancer =
  fixes sel :: "'b \<Rightarrow> Backend list \<Rightarrow> nat list \<Rightarrow> lb_request \<Rightarrow> 'b \<times> nat option"
  assumes sel_empty: "snd (sel b pool [] r) = None"
    and sel_member: "bs \<noteq> [] \<Longrightarrow> length bs < 2 ^ 32 \<Longrightarrow> \<exists>i \<in> set bs. snd (sel b pool bs r) = Some i"
begin

lemma sel_total: "length bs < 2 ^ 32 \<Longrightarrow> snd (sel b pool bs r) = None \<longleftrightarrow> bs = []"
  by (cases "bs = []") (auto simp: sel_empty dest: sel_member [of bs b pool r])

lemma sel_in: "length bs < 2 ^ 32 \<Longrightarrow> snd (sel b pool bs r) = Some i \<Longrightarrow> i \<in> set bs"
  using sel_empty sel_member by (metis option.distinct(1) option.inject)

lemma sel_healthy:
  assumes "length pool < 2 ^ 32" and "snd (sel b pool (Healthy pool) r) = Some i"
  shows "i < length pool \<and> IsHealthy (pool ! i)"
proof -
  have "length (Healthy pool) < 2 ^ 32"
    using assms(1) length_filter_le [of "\<lambda>i. IsHealthy (pool ! i)" "[0..<length pool]"]
    by (simp add: Healthy_def)
  from sel_in [OF this assms(2)] show ?thesis by (simp add: Healthy_def)
qed

end

lemma rr_slot_in: "rr_slot pool pos bs = Some i \<Longrightarrow> i \<in> set bs"
  by (induction pool pos bs rule: rr_slot.induct) (auto simp: Let_def split: if_splits)

lemma RoundRobin_Select_member:
  assumes "bs \<noteq> []"
  shows "\<exists>i \<in> set bs. snd (RoundRobin_Select pool bs c) = Some i"
proof -
  have "bs ! (unat (c + 1) mod length bs) \<in> set bs" "bs ! (length bs - 1) \<in> set bs"
    using assms by simp_all
  then show ?thesis
    using assms by (auto simp: RoundRobin_Select_def Let_def dest: rr_slot_in split: option.splits)
qed

lemma least_conn_in: "least_conn pool best c bs \<in> insert best (set bs)"
  by (induction pool best c bs rule: least_conn.induct) (auto simp: Let_def)

lemma hash_index_member:
  assumes "bs \<noteq> []" and "length bs < 2 ^ 32"
  shows "\<exists>i \<in> set bs. hash_index s bs = Some i"
proof -
  have "unat (word_of_nat (length bs) :: u32) = length bs"
    using assms(2) by (simp add: unat_of_nat take_bit_nat_eq_self)
  then have "unat (fnv32a s mod word_of_nat (length bs)) < length bs"
    using assms(1) by (simp add: unat_mod_distrib)
  then show ?thesis by (auto simp: hash_index_def)
qed

lemma Random_Select_member: "bs \<noteq> [] \<Longrightarrow> \<exists>i \<in> set bs. Random_Select pool bs r = Some i"
  by (auto simp: Random_Select_def Let_def IntN_def)

lemma sticky_backend_in: "sticky_backend pool bs r name = Some i \<Longrightarrow> i \<in> set bs"
  by (auto simp: sticky_backend_def find_Some_iff split: option.splits if_splits)

lemma Select_member:
  "bs \<noteq> [] \<Longrightarrow> length bs < 2 ^ 32 \<Longrightarrow> \<exists>i \<in> set bs. snd (Select b pool bs r) = Some i"
proof (induction b)
  case (RoundRobin c)
  then show ?case using RoundRobin_Select_member [of bs pool c]
    by (cases "RoundRobin_Select pool bs c") simp
next
  case LeastConn
  then show ?case using least_conn_in [of pool] by (cases bs) (fastforce simp: LeastConn_Select_def)+
next
  case IPHash
  then show ?case by (simp add: IPHash_Select_def hash_index_member)
next
  case URIHash
  then show ?case by (simp add: URIHash_Select_def hash_index_member)
next
  case Random
  then show ?case by (simp add: Random_Select_member)
next
  case (StickyBalancer name ttl fb c)
  have rr: "\<exists>i \<in> set bs. snd (RoundRobin_Select pool bs c) = Some i"
    by (rule RoundRobin_Select_member [OF StickyBalancer.prems(1)])
  have fb: "\<exists>i \<in> set bs. snd (Select f pool bs r) = Some i" if "fb = Some f" for f
    using StickyBalancer.IH [of f] StickyBalancer.prems that by simp
  show ?case
  proof (cases "sticky_backend pool bs r name")
    case None
    then show ?thesis using StickyBalancer.prems(1) rr fb by (cases fb) (auto split: prod.split)
  next
    case (Some i)
    with StickyBalancer.prems(1) show ?thesis by (simp add: sticky_backend_in)
  qed
qed

lemma Select_empty: "snd (Select b pool [] r) = None"
  by (cases b) (simp_all add: RoundRobin_Select_def LeastConn_Select_def IPHash_Select_def
      URIHash_Select_def Random_Select_def)

interpretation lb: balancer Select
  by unfold_locales (simp_all add: Select_empty Select_member)

section \<open>Weighted round-robin\<close>

text \<open>The answers to a sequence of requests.\<close>

fun selects :: "Balancer \<Rightarrow> Backend list \<Rightarrow> nat list \<Rightarrow> lb_request list \<Rightarrow> nat option list" where
  "selects b pool bs [] = []"
| "selects b pool bs (r # rs) =
     (case Select b pool bs r of (b', i) \<Rightarrow> i # selects b' pool bs rs)"

text \<open>The cycle the code walks: every backend as often as its weight says.\<close>

definition slots :: "Backend list \<Rightarrow> nat list \<Rightarrow> nat list" where
  "slots pool bs = concat (map (\<lambda>i. replicate (nat (backendWeight (pool ! i))) i) bs)"

lemma backendWeight_pos [simp]: "0 < backendWeight b"
  by (simp add: backendWeight_def)

lemma length_slots: "int (length (slots pool bs)) = (\<Sum>i\<leftarrow>bs. backendWeight (pool ! i))"
  by (induction bs) (simp_all add: slots_def less_imp_le)

lemma total_weight_slots:
  assumes "length (slots pool bs) < 2 ^ 63"
  shows "total_weight pool bs = int (length (slots pool bs))"
proof -
  have "foldl (\<lambda>t i. wrap64 (t + backendWeight (pool ! i))) (int a) bs = int (a + length (slots pool bs))"
    if "a + length (slots pool bs) < 2 ^ 63" for a
    using that
  proof (induction bs arbitrary: a)
    case Nil
    then show ?case by (simp add: slots_def)
  next
    case (Cons i bs)
    define w where "w = nat (backendWeight (pool ! i))"
    have w: "backendWeight (pool ! i) = int w" by (simp add: w_def less_imp_le)
    have l: "length (slots pool (i # bs)) = w + length (slots pool bs)" by (simp add: slots_def w_def)
    with Cons.prems have "wrap64 (int a + int w) = int (a + w)"
      by (intro trans [OF wrap64_id]) (simp_all add: in_int64_def)
    with Cons.IH [of "a + w"] Cons.prems l w show ?case by (simp add: add.assoc)
  qed
  from this [of 0] assms show ?thesis by (simp add: total_weight_def)
qed

lemma rr_slot_slots:
  "p < length (slots pool bs) \<Longrightarrow> length (slots pool bs) < 2 ^ 63 \<Longrightarrow>
   rr_slot pool (int p) bs = Some (slots pool bs ! p)"
proof (induction bs arbitrary: p)
  case Nil
  then show ?case by (simp add: slots_def)
next
  case (Cons i bs)
  define w where "w = nat (backendWeight (pool ! i))"
  have w: "backendWeight (pool ! i) = int w" by (simp add: w_def less_imp_le)
  have s: "slots pool (i # bs) = replicate w i @ slots pool bs" by (simp add: slots_def w_def)
  have wr: "wrap64 (int p - int w) = int p - int w"
    using Cons.prems s by (intro wrap64_id) (simp add: in_int64_def)
  show ?case
  proof (cases "p < w")
    case True
    with s wr w show ?thesis by (simp add: nth_append)
  next
    case False
    have "rr_slot pool (int (p - w)) bs = Some (slots pool bs ! (p - w))"
    proof (rule Cons.IH)
      show "p - w < length (slots pool bs)" using False Cons.prems(1) s by simp
      show "length (slots pool bs) < 2 ^ 63" using Cons.prems(2) s by simp
    qed
    moreover have "rr_slot pool (int p) (i # bs) = rr_slot pool (int (p - w)) bs"
      using False by (simp add: w wr of_nat_diff)
    ultimately show ?thesis using False s by (simp add: nth_append)
  qed
qed

lemma RoundRobin_Select_slot:
  assumes "bs \<noteq> []" and "length (slots pool bs) < 2 ^ 63"
  shows "RoundRobin_Select pool bs c =
    (c + 1, Some (slots pool bs ! (unat (c + 1) mod length (slots pool bs))))"
proof -
  define L where "L = length (slots pool bs)"
  from assms(1) have L: "0 < L"
    using length_slots [of pool bs] backendWeight_pos
    by (cases bs) (auto simp: L_def slots_def)
  have "rr_slot pool (int (unat (c + 1) mod L)) bs = Some (slots pool bs ! (unat (c + 1) mod L))"
    using L assms(2) by (intro rr_slot_slots) (simp_all add: L_def)
  with L assms total_weight_slots [OF assms(2)] show ?thesis
    by (simp add: RoundRobin_Select_def Let_def L_def zmod_int)
qed

lemma selects_RoundRobin:
  "bs \<noteq> [] \<Longrightarrow> length (slots pool bs) < 2 ^ 63 \<Longrightarrow> unat c + length rs < 2 ^ 64 \<Longrightarrow>
   selects (RoundRobin c) pool bs rs =
     map (\<lambda>k. Some (slots pool bs ! (k mod length (slots pool bs)))) [Suc (unat c)..<Suc (unat c) + length rs]"
proof (induction rs arbitrary: c)
  case Nil
  then show ?case by simp
next
  case (Cons r rs)
  have "unat (c + 1) = Suc (unat c)"
    using Cons.prems(3) by (simp add: unat_word_ariths)
  with Cons show ?case
    by (simp add: RoundRobin_Select_slot upt_conv_Cons del: upt_Suc)
qed

text \<open>Any window of one period sees every residue once.\<close>

lemma mset_window: "mset (map (\<lambda>k. f (k mod n)) [a..<a + n]) = mset (map f [0..<n])"
proof (induction a)
  case 0
  have "map (\<lambda>k. f (k mod n)) [0..<n] = map f [0..<n]" by simp
  then show ?case by (simp only: add_0)
next
  case (Suc a)
  show ?case
  proof (cases "n = 0")
    case False
    then have "[a..<a + n] = a # [Suc a..<a + n]" and "[Suc a..<Suc a + n] = [Suc a..<a + n] @ [a + n]"
      by (simp_all add: upt_conv_Cons)
    with Suc show ?thesis by simp
  qed simp
qed

lemma set_slots: "set (slots pool bs) \<subseteq> set bs"
  by (auto simp: slots_def)

lemma count_replicate: "count_list (replicate n x) y = (if x = y then n else 0)"
  by (induction n) auto

lemma count_slots:
  "distinct bs \<Longrightarrow> i \<in> set bs \<Longrightarrow> count_list (slots pool bs) i = nat (backendWeight (pool ! i))"
proof (induction bs)
  case (Cons b bs)
  have s: "slots pool (b # bs) = replicate (nat (backendWeight (pool ! b))) b @ slots pool bs"
    by (simp add: slots_def)
  have "count_list (slots pool bs) i = 0" if "i \<notin> set bs"
    using that set_slots [of pool bs] by (intro count_notin) blast
  with Cons s show ?case by (auto simp: count_replicate)
qed simp

lemma least_conn_minimal:
  "ActiveConns (pool ! best) = c \<Longrightarrow>
   \<forall>i \<in> insert best (set bs). ActiveConns (pool ! least_conn pool best c bs) \<le> ActiveConns (pool ! i)"
proof (induction bs arbitrary: best c)
  case Nil
  then show ?case by simp
next
  case (Cons b bs)
  show ?case
  proof (cases "ActiveConns (pool ! b) < c")
    case True
    from Cons.IH [OF refl, of b] True Cons.prems show ?thesis by auto
  next
    case False
    from Cons.IH [OF Cons.prems] False Cons.prems show ?thesis by auto
  qed
qed

lemma NewBalancer_cases:
  "NewBalancer uni a \<in> {LeastConn, IPHash, URIHash, Random, RoundRobin 0,
     StickyBalancer DefaultStickyCookieName DefaultStickyTTL None 0}"
  by (simp add: NewBalancer_def Let_def)

section \<open>Properties\<close>

text \<open>
  C13. Weighted fairness. Over any full cycle of consecutive requests (as many as the weights add up
  to), wherever the shared counter stands, weighted round-robin hands every backend exactly as many
  requests as its weight, a weight that is not positive counting as one.
\<close>

theorem RoundRobin_weighted_fair:
  assumes "bs \<noteq> []" and "distinct bs" and "i \<in> set bs"
    and "int (length rs) = (\<Sum>i\<leftarrow>bs. backendWeight (pool ! i))"
    and "length rs < 2 ^ 63" and "unat c + length rs < 2 ^ 64"
  shows "int (count_list (selects (RoundRobin c) pool bs rs) (Some i)) = backendWeight (pool ! i)
    \<and> None \<notin> set (selects (RoundRobin c) pool bs rs)"
proof -
  let ?s = "slots pool bs"
  have len: "length rs = length ?s" using assms(4) length_slots [of pool bs] by simp
  have sel: "selects (RoundRobin c) pool bs rs
      = map (\<lambda>k. Some (?s ! (k mod length ?s))) [Suc (unat c)..<Suc (unat c) + length ?s]"
    using selects_RoundRobin [OF assms(1), of pool c rs] assms(5,6) len by simp
  then have "mset (selects (RoundRobin c) pool bs rs) = mset (map (\<lambda>k. Some (?s ! k)) [0..<length ?s])"
    using mset_window [of "\<lambda>k. Some (?s ! k)" "length ?s" "Suc (unat c)"] by simp
  also have "map (\<lambda>k. Some (?s ! k)) [0..<length ?s] = map Some ?s"
    by (rule nth_equalityI) simp_all
  finally have "count_list (selects (RoundRobin c) pool bs rs) (Some i) = count_list (map Some ?s) (Some i)"
    by (metis count_mset)
  also have "\<dots> = count_list ?s i"
    by (rule count_list_map_conv) (simp add: inj_def)
  also have "\<dots> = nat (backendWeight (pool ! i))" by (rule count_slots [OF assms(2,3)])
  finally show ?thesis using sel by (simp add: less_imp_le image_iff)
qed

definition demo_backend :: "string \<Rightarrow> int \<Rightarrow> Backend" where
  "demo_backend h w = \<lparr>URL = \<lparr>Scheme = ''http'', Host = h\<rparr>, Weight = w, State = StateHealthy,
     ActiveConns = 0, TotalReqs = 0, TotalFails = 0\<rparr>"

definition demo_request :: "(string \<times> string) list \<Rightarrow> lb_request" where
  "demo_request cs = \<lparr>RemoteAddr = ''10.0.0.1:80'', Path = ''/'', Cookies = cs, draws = (0, 0)\<rparr>"

theorem RoundRobin_weighted_fair_witness:
  "int (count_list (selects (RoundRobin 6) [demo_backend ''a'' 3, demo_backend ''b'' 0] [0, 1]
       (replicate 4 (demo_request []))) (Some 0)) = 3"
  using RoundRobin_weighted_fair [of "[0, 1]" 0 "replicate 4 (demo_request [])"
      "[demo_backend ''a'' 3, demo_backend ''b'' 0]" 6]
  by (simp add: backendWeight_def demo_backend_def)

text \<open>The sticky options the proxy reads off its balancer when it sets the cookie.\<close>

fun sticky_options :: "Balancer \<Rightarrow> (string \<times> int) option" where
  "sticky_options (StickyBalancer name ttl fb counter) = Some (name, ttl)"
| "sticky_options b = None"

lemma sticky_options_Select: "sticky_options (fst (Select b pool bs r)) = sticky_options b"
  by (cases b) (simp_all split: prod.splits option.splits)

lemma sticky_options_for:
  assumes "ToLower uni (TrimSpace (Type s)) = ''cookie''"
  shows "\<exists>name ttl. sticky_options (NewBalancerFor uni a s) = Some (name, ttl)
    \<and> name = (if TrimSpace (CookieName s) \<noteq> [] then TrimSpace (CookieName s) else DefaultStickyCookieName)"
  using assms by (simp add: NewBalancerFor_def Let_def)

text \<open>A balancer after it served a history of requests, each with the pool as it was then.\<close>

definition after_history :: "Balancer \<Rightarrow> (Backend list \<times> nat list \<times> lb_request) list \<Rightarrow> Balancer" where
  "after_history b hist = foldl (\<lambda>b (pool, bs, r). fst (Select b pool bs r)) b hist"

lemma sticky_options_history: "sticky_options (after_history b hist) = sticky_options b"
  unfolding after_history_def
proof (induction hist arbitrary: b)
  case (Cons h hist)
  then show ?case by (cases h) (simp add: sticky_options_Select)
qed simp

lemma Select_sticky_hit:
  assumes "sticky_options b = Some (name, ttl)" and "Cookie r name = Some (Host (URL (pool ! i)))"
    and "i \<in> set bs" and "Host (URL (pool ! i)) \<noteq> []"
  shows "\<exists>j \<in> set bs. Select b pool bs r = (b, Some j) \<and> Host (URL (pool ! j)) = Host (URL (pool ! i))"
proof -
  from assms(1) obtain fb c where b: "b = StickyBalancer name ttl fb c" by (cases b) auto
  from assms(3) have "find (\<lambda>k. Host (URL (pool ! k)) = Host (URL (pool ! i))) bs \<noteq> None"
    by (auto simp: find_None_iff)
  then obtain j where j: "find (\<lambda>k. Host (URL (pool ! k)) = Host (URL (pool ! i))) bs = Some j" by blast
  then have "j \<in> set bs" "Host (URL (pool ! j)) = Host (URL (pool ! i))"
    by (auto simp: find_Some_iff)
  with b j assms show ?thesis by (auto simp: sticky_backend_def)
qed

text \<open>
  Session affinity. For every domain whose \<open>sticky\<close> block has type \<open>cookie\<close>, whatever its algorithm,
  the cookie set with the answer of one backend brings the next request that carries it back to a
  backend with that host for as long as that backend is in the list, whatever was served in between;
  the lookup does not advance the balancer. Without a usable cookie the configured algorithm chooses.
\<close>

theorem sticky_session_returns:
  assumes "ToLower uni (TrimSpace (Type s)) = ''cookie''"
    and "b = after_history (NewBalancerFor uni a s) hist"
    and "sticky_options b = Some (name, ttl)"
    and "c = SetStickyCookie name (Host (URL (pool ! i))) ttl tls"
    and "Cookie r (Name c) = Some (Value c)"
    and "i \<in> set bs" and "Host (URL (pool ! i)) \<noteq> []"
  shows "(\<exists>j \<in> set bs. Select b pool bs r = (b, Some j) \<and> Host (URL (pool ! j)) = Host (URL (pool ! i)))
    \<and> name = (if TrimSpace (CookieName s) \<noteq> [] then TrimSpace (CookieName s) else DefaultStickyCookieName)"
proof
  show "\<exists>j \<in> set bs. Select b pool bs r = (b, Some j) \<and> Host (URL (pool ! j)) = Host (URL (pool ! i))"
    using assms(3-7) by (intro Select_sticky_hit) (simp_all add: SetStickyCookie_def)
  show "name = (if TrimSpace (CookieName s) \<noteq> [] then TrimSpace (CookieName s) else DefaultStickyCookieName)"
    using sticky_options_for [OF assms(1), of a] assms(2,3) by (auto simp: sticky_options_history)
qed

definition demo_sticky :: StickyConfig where
  "demo_sticky = \<lparr>Type = ''Cookie'', CookieName = [], TTL = 0\<rparr>"

lemma demo_sticky_type: "ToLower (\<lambda>s. s) (TrimSpace (Type demo_sticky)) = ''cookie''"
  by code_simp

theorem sticky_session_returns_witness:
  "\<exists>j \<in> set [0, 1].
     snd (Select (NewBalancerFor (\<lambda>s. s) ''random'' demo_sticky)
       [demo_backend ''a'' 3, demo_backend ''b'' 0] [0, 1] (demo_request [(DefaultStickyCookieName, ''b'')])) = Some j
     \<and> Host (URL ([demo_backend ''a'' 3, demo_backend ''b'' 0] ! j)) = ''b''"
proof -
  have b: "NewBalancerFor (\<lambda>s. s) ''random'' demo_sticky
      = StickyBalancer DefaultStickyCookieName DefaultStickyTTL (Some Random) 0"
    by code_simp
  show ?thesis
    using sticky_session_returns [OF demo_sticky_type, of _ "''random''" "[]" DefaultStickyCookieName
        DefaultStickyTTL _ "[demo_backend ''a'' 3, demo_backend ''b'' 0]" 1 False
        "demo_request [(DefaultStickyCookieName, ''b'')]" "[0, 1]"]
    unfolding b
    by (auto simp: after_history_def SetStickyCookie_def Cookie_def demo_request_def demo_backend_def b)
qed

text \<open>
  Only healthy upstreams are chosen. Every algorithm, sticky or not, answers with a member of the
  healthy backends of the pool, and fails to answer only when there are none; least-connections answers
  with one whose open connections no other healthy backend undercuts.
\<close>

theorem Select_healthy:
  assumes "length pool < 2 ^ 32"
  shows "(case snd (Select b pool (Healthy pool) r) of
       None \<Rightarrow> \<not> list_ex IsHealthy pool
     | Some i \<Rightarrow> i < length pool \<and> IsHealthy (pool ! i)
         \<and> (b = LeastConn \<longrightarrow> list_all (\<lambda>h. IsHealthy h \<longrightarrow> ActiveConns (pool ! i) \<le> ActiveConns h) pool))"
proof -
  have len: "length (Healthy pool) < 2 ^ 32"
    using assms length_filter_le [of "\<lambda>i. IsHealthy (pool ! i)" "[0..<length pool]"] by (simp add: Healthy_def)
  show ?thesis
  proof (cases "snd (Select b pool (Healthy pool) r)")
    case None
    then have "Healthy pool = []" using lb.sel_total [OF len] by blast
    with None show ?thesis
      by (auto simp: Healthy_def filter_empty_conv list_ex_iff in_set_conv_nth)
  next
    case (Some i)
    have "ActiveConns (pool ! i) \<le> ActiveConns (pool ! j)" if "b = LeastConn" "j < length pool" "IsHealthy (pool ! j)" for j
    proof -
      from that have j: "j \<in> set (Healthy pool)" by (simp add: Healthy_def)
      then obtain h hs where hs: "Healthy pool = h # hs" by (cases "Healthy pool") auto
      with Some that have "i = least_conn pool h (ActiveConns (pool ! h)) hs"
        by (simp add: LeastConn_Select_def)
      with least_conn_minimal [where pool = pool and best = h and bs = hs, OF refl] j hs show ?thesis by auto
    qed
    with Some lb.sel_healthy [OF assms Some] show ?thesis
      by (auto simp: list_all_length)
  qed
qed

theorem Select_healthy_witness:
  "snd (Select LeastConn [(demo_backend ''a'' 1)\<lparr>ActiveConns := 4\<rparr>, demo_backend ''b'' 1] [0, 1] (demo_request [])) = Some 1"
proof -
  let ?p = "[(demo_backend ''a'' 1)\<lparr>ActiveConns := 4\<rparr>, demo_backend ''b'' 1]"
  have h: "Healthy ?p = [0, 1]" by code_simp
  have "list_ex IsHealthy ?p" by code_simp
  then show ?thesis
    using Select_healthy [of ?p LeastConn "demo_request []"] unfolding h
    by (simp split: option.splits) (auto simp: LeastConn_Select_def demo_backend_def)
qed

end
