(* ===== verification/Proxy_Headers.thy ===== *)
theory Proxy_Headers
  imports Go_Bufio Proxy_Balancer
begin

text \<open>
  The header handling of the reverse proxy: \<open>internal/handler/proxy/handler.go\<close> (what a request and a
  response carry across the proxy, the websocket handshake, error classification) and \<open>location.go\<close>.
  Transport errors are records of what the code asks of them. \<open>url.Parse\<close> is a parameter, as are the
  Unicode tables of \<open>strings.ToLower\<close> and \<open>strings.EqualFold\<close> and the random bytes of a trace id.
\<close>

section \<open>Hop-by-hop headers\<close>

definition hopByHopHeaders :: "string list" where
  "hopByHopHeaders =
     [''Connection'', ''Proxy-Connection'', ''Keep-Alive'', ''Proxy-Authenticate'',
      ''Proxy-Authorization'', ''Te'', ''Trailer'', ''Transfer-Encoding'', ''Upgrade'']"

definition list_tokens :: "string list \<Rightarrow> string list" where
  "list_tokens vals = map TrimSpace (concat (map (\<lambda>v. SplitByte v (CHR '','')) vals))"

definition acceptsTrailers :: "header \<Rightarrow> bool" where
  "acceptsTrailers h = list_ex (\<lambda>tok. EqualFoldASCII tok ''trailers'') (list_tokens (HeaderValues h ''Te''))"

definition removeHopByHop :: "header \<Rightarrow> header" where
  "removeHopByHop h =
     fold HeaderDel hopByHopHeaders
       (fold (\<lambda>name h. if name \<noteq> [] then HeaderDel name h else h)
          (list_tokens (HeaderValues h ''Connection'')) h)"

definition clientForwardedHeaders :: "string list" where
  "clientForwardedHeaders =
     [''Forwarded'', ''X-Forwarded-Port'', ''X-Forwarded-Prefix'',
      ''X-Forwarded-Server'', ''X-Forwarded-Ssl'', ''X-Forwarded-Scheme'']"

definition isClientForwardedHeader :: "string \<Rightarrow> bool" where
  "isClientForwardedHeader key = list_ex (\<lambda>n. EqualFoldASCII key n) clientForwardedHeaders"

definition stripClientForwarded :: "header \<Rightarrow> header" where
  "stripClientForwarded h = fold HeaderDel clientForwardedHeaders h"

section \<open>The request sent upstream\<close>

definition proxy_clientIP :: "string \<Rightarrow> string" where
  "proxy_clientIP addr = (case SplitHostPort addr of None \<Rightarrow> addr | Some (host, _) \<Rightarrow> host)"

definition forwardedProto :: "bool \<Rightarrow> string" where
  "forwardedProto isHTTPS = (if isHTTPS then ''https'' else ''http'')"

definition hex_byte :: "byte \<Rightarrow> string" where
  "hex_byte b = [hexDigits ! unat (drop_bit 4 b), hexDigits ! unat (and b 0xF)]"

text \<open>\<open>rand.Read\<close> either fills the ids or fails; then the clock's milliseconds are used.\<close>

definition fallback_trace :: "u64 \<Rightarrow> bytes" where
  "fallback_trace ms =
     map (\<lambda>k. ucast (drop_bit k ms)) [40, 32, 24, 16, 8, 0] @ replicate 10 0"

definition generateTraceparent :: "bytes option \<Rightarrow> bytes option \<Rightarrow> u64 \<Rightarrow> string" where
  "generateTraceparent trace span ms =
     (let traceID = (case trace of Some b \<Rightarrow> b | None \<Rightarrow> fallback_trace ms);
          spanID = (case span of Some b \<Rightarrow> b | None \<Rightarrow> 1 # replicate 7 0)
      in ''00-'' @ concat (map hex_byte traceID) @ ''-'' @ concat (map hex_byte spanID) @ ''-01'')"

definition copy_headers :: "header \<Rightarrow> header \<Rightarrow> header" where
  "copy_headers src dst = fold (\<lambda>(key, vals). fold (HeaderAdd key) vals) src dst"

definition upstream_headers :: "header \<Rightarrow> bool \<Rightarrow> string \<Rightarrow> bool \<Rightarrow> string \<Rightarrow> string \<Rightarrow> header" where
  "upstream_headers req buffered remoteAddr isHTTPS host trace =
     (let h = copy_headers req [];
          h = (if buffered then HeaderDel ''Expect'' h else h);
          teTrailers = acceptsTrailers h;
          h = removeHopByHop h;
          h = (if teTrailers then HeaderSet ''Te'' ''trailers'' h else h);
          h = stripClientForwarded h;
          h = HeaderSet ''X-Forwarded-For'' (proxy_clientIP remoteAddr) h;
          h = HeaderSet ''X-Forwarded-Proto'' (forwardedProto isHTTPS) h;
          h = HeaderSet ''X-Forwarded-Host'' host h;
          h = HeaderSet ''X-Real-IP'' (proxy_clientIP remoteAddr) h
      in if HeaderGet h ''Traceparent'' = [] then HeaderSet ''Traceparent'' trace h else h)"

section \<open>The response sent back\<close>

definition merge_name :: "(string \<Rightarrow> string) \<Rightarrow> string \<Rightarrow> string set \<times> header \<Rightarrow> string set \<times> header" where
  "merge_name uni name st =
     (if name = [] \<or> ToLower uni name \<in> fst st then st
      else (insert (ToLower uni name) (fst st), HeaderAdd ''Vary'' name (snd st)))"

definition mergeVary :: "(string \<Rightarrow> string) \<Rightarrow> header \<Rightarrow> string list \<Rightarrow> header" where
  "mergeVary uni h upstream =
     (let have_names = set (map (ToLower uni) (list_tokens (HeaderValues h ''Vary'')))
      in snd (fold (merge_name uni) (list_tokens upstream) (have_names, h)))"

definition copyTrailers :: "header \<Rightarrow> header \<Rightarrow> header" where
  "copyTrailers dst trailer = fold (\<lambda>(key, vals). fold (HeaderAdd (''Trailer:'' @ key)) vals) trailer dst"

definition isEventStream :: "header \<Rightarrow> bool" where
  "isEventStream h =
     (let ct = HeaderGet h ''Content-Type'';
          ct = (case IndexByte ct (CHR '';'') of Some i \<Rightarrow> take i ct | None \<Rightarrow> ct)
      in EqualFoldASCII (TrimSpace ct) ''text/event-stream'')"

definition effectivePort :: "url \<Rightarrow> string" where
  "effectivePort u =
     (if url_port (Host u) \<noteq> [] then url_port (Host u)
      else if EqualFoldASCII (Scheme u) ''https'' then ''443'' else ''80'')"

definition RewriteBackendLocation ::
  "(string \<Rightarrow> string \<Rightarrow> bool) \<Rightarrow> (string \<Rightarrow> url option) \<Rightarrow> header \<Rightarrow> url option \<Rightarrow> string \<Rightarrow> string \<Rightarrow> header" where
  "RewriteBackendLocation uniEq parse h backend scheme host =
     (let loc = HeaderGet h ''Location'' in
      case backend of
        None \<Rightarrow> h
      | Some be \<Rightarrow>
          if loc = [] \<or> host = [] then h
          else case parse loc of
            None \<Rightarrow> h
          | Some u \<Rightarrow>
              if Scheme u \<noteq> ''http'' \<and> Scheme u \<noteq> ''https'' \<or> Host u = [] then h
              else if \<not> EqualFoldU uniEq (url_hostname (Host u)) (url_hostname (Host be))
                      \<or> effectivePort u \<noteq> effectivePort be then h
              else case Index loc ''://'' of
                None \<Rightarrow> h
              | Some i \<Rightarrow>
                  HeaderSet ''Location''
                    (scheme @ ''://'' @ host @ from_any (drop (i + 3) loc) (set ''/?#'')) h)"

definition response_header :: "(string \<Rightarrow> string) \<Rightarrow> string \<times> string list \<Rightarrow> header \<Rightarrow> header" where
  "response_header uni kv h =
     (case kv of (key, vals) \<Rightarrow>
        if key = ''Vary'' then mergeVary uni h vals
        else if key = ''Set-Cookie'' then
          header_put key ((case map_of h key of None \<Rightarrow> [] | Some vs \<Rightarrow> vs) @ vals) h
        else header_put key vals h)"

definition response_headers ::
  "(string \<Rightarrow> string) \<Rightarrow> (string \<Rightarrow> string \<Rightarrow> bool) \<Rightarrow> (string \<Rightarrow> url option) \<Rightarrow> header \<Rightarrow> header \<Rightarrow> url
   \<Rightarrow> bool \<Rightarrow> string \<Rightarrow> header" where
  "response_headers uni uniEq parse own upstream backend isHTTPS host =
     RewriteBackendLocation uniEq parse (removeHopByHop (fold (response_header uni) upstream own))
       (Some backend) (forwardedProto isHTTPS) host"

section \<open>Transport errors\<close>

record upstream_err =
  err_text :: string \<comment> \<open>\<open>err.Error()\<close>\<close>
  is_deadline :: bool \<comment> \<open>\<open>errors.Is(err, context.DeadlineExceeded)\<close>\<close>
  as_net_timeout :: bool \<comment> \<open>\<open>errors.As\<close> a \<open>net.Error\<close> whose \<open>Timeout()\<close> holds\<close>
  is_net_error :: bool \<comment> \<open>the error itself is a \<open>net.Error\<close>\<close>
  as_dial :: bool \<comment> \<open>\<open>errors.As\<close> a \<open>net.OpError\<close> of operation \<open>dial\<close>\<close>

definition isTimeoutErr :: "upstream_err option \<Rightarrow> bool" where
  "isTimeoutErr err = (case err of None \<Rightarrow> False | Some e \<Rightarrow> is_deadline e \<or> as_net_timeout e)"

definition canReplayRequest :: "string \<Rightarrow> header \<Rightarrow> upstream_err \<Rightarrow> bool" where
  "canReplayRequest meth h err =
     (if as_dial err then True
      else if meth \<in> {''GET'', ''HEAD'', ''OPTIONS'', ''TRACE'', ''PUT'', ''DELETE''} then True
      else HeaderGet h ''Idempotency-Key'' \<noteq> [] \<or> HeaderGet h ''X-Idempotency-Key'' \<noteq> [])"

definition isRetryableError :: "upstream_err option \<Rightarrow> bool" where
  "isRetryableError err =
     (case err of None \<Rightarrow> False
      | Some e \<Rightarrow> is_net_error e \<or> Contains (err_text e) ''connection refused''
          \<or> Contains (err_text e) ''no such host'' \<or> Contains (err_text e) ''connection reset'')"

definition classifyUpstreamErr :: "upstream_err option \<Rightarrow> string" where
  "classifyUpstreamErr err =
     (case err of None \<Rightarrow> ''no upstream error''
      | Some e \<Rightarrow> let s = err_text e in
          if Contains s ''x509:'' \<or> Contains s ''certificate''
          then ''TLS certificate verification failed (consider proxy.insecure_skip_verify)''
          else if Contains s ''tls:'' then ''TLS handshake failed''
          else if Contains s ''no such host'' then ''DNS lookup failed for upstream''
          else if Contains s ''connection refused'' then ''upstream refused connection''
          else if Contains s ''connection reset'' then ''upstream reset the connection''
          else if Contains s ''i/o timeout'' \<or> Contains s ''deadline exceeded'' then ''upstream timed out''
          else if Contains s ''network is unreachable'' \<or> Contains s ''no route to host''
          then ''upstream unreachable from this network''
          else if Contains s ''http2:'' then ''HTTP/2 protocol error from upstream''
          else if Contains s ''EOF'' then ''upstream closed the connection prematurely''
          else ''upstream connection failed'')"

section \<open>The websocket handshake\<close>

definition IsWebSocketUpgrade :: "header \<Rightarrow> bool" where
  "IsWebSocketUpgrade h \<longleftrightarrow>
     EqualFoldASCII (HeaderGet h ''Upgrade'') ''websocket''
     \<and> list_ex (\<lambda>tok. EqualFoldASCII tok ''upgrade'') (list_tokens (HeaderValues h ''Connection''))"

definition ws_forwards :: "(string \<Rightarrow> string) \<Rightarrow> string \<Rightarrow> bool" where
  "ws_forwards uni key \<longleftrightarrow>
     ToLower uni key \<notin> {''x-forwarded-for'', ''x-real-ip'', ''x-forwarded-proto'', ''x-forwarded-host''}
     \<and> \<not> isClientForwardedHeader key"

text \<open>The header lines written to the backend, as names and values.\<close>

definition ws_lines :: "(string \<Rightarrow> string) \<Rightarrow> header \<Rightarrow> string \<Rightarrow> bool \<Rightarrow> string \<Rightarrow> (string \<times> string) list" where
  "ws_lines uni req remoteAddr isHTTPS host =
     concat (map (\<lambda>(key, vals). if ws_forwards uni key then map (\<lambda>v. (key, v)) vals else []) (removeHopByHop req))
     @ [(''Connection'', ''Upgrade''), (''Upgrade'', HeaderGet req ''Upgrade''),
        (''X-Forwarded-For'', proxy_clientIP remoteAddr), (''X-Real-IP'', proxy_clientIP remoteAddr),
        (''X-Forwarded-Proto'', forwardedProto isHTTPS), (''X-Forwarded-Host'', host), (''Host'', host)]"

definition ws_request :: "(string \<Rightarrow> string) \<Rightarrow> string \<Rightarrow> string \<Rightarrow> header \<Rightarrow> string \<Rightarrow> bool \<Rightarrow> string \<Rightarrow> string" where
  "ws_request uni meth uri req remoteAddr isHTTPS host =
     meth @ '' '' @ uri @ '' HTTP/1.1'' @ crlf
     @ concat (map (\<lambda>(k, v). k @ '': '' @ v @ crlf) (ws_lines uni req remoteAddr isHTTPS host)) @ crlf"

definition websocketBackendAddress :: "url \<Rightarrow> string" where
  "websocketBackendAddress u =
     (if url_port (Host u) \<noteq> [] then Host u
      else JoinHostPort (url_hostname (Host u))
        (if Scheme u = ''https'' \<or> Scheme u = ''wss'' then ''443'' else ''80''))"

definition maxUpgradeResponseHead :: nat where "maxUpgradeResponseHead = 64 * 1024"

datatype head_err = HeadRead | HeadTooLarge | HeadEmpty | HeadStatusLine | HeadStatusCode

definition blank_line :: "string \<Rightarrow> bool" where
  "blank_line line \<longleftrightarrow> length line = 1 \<or> length line = 2 \<and> line ! 0 = CHR 0x0D"

function read_head :: "nat \<Rightarrow> string \<Rightarrow> bool \<Rightarrow> string \<Rightarrow> head_err + string \<times> string" where
  "read_head n head midLine s =
     (if n = 0 then Inl HeadRead
      else case ReadSlice n s of (line, e, s') \<Rightarrow>
        let head = head @ line in
        if e = SliceEOF then Inl HeadRead
        else if length head > maxUpgradeResponseHead then Inl HeadTooLarge
        else if e = ErrBufferFull then read_head n head True s'
        else if \<not> midLine \<and> blank_line line then
          (if length head = length line then Inl HeadEmpty else Inr (head, s'))
        else read_head n head False s')"
  by pat_completeness auto
termination
  by (relation "measure (\<lambda>(n, head, midLine, s). length s)") (auto dest: ReadSlice_shorter [OF sym])

declare read_head.simps [simp del]

definition head_status :: "string \<Rightarrow> head_err + int" where
  "head_status head =
     (let statusLine = takeWhile (\<lambda>c. c \<noteq> CHR 0x0A) head; fields = Fields statusLine in
      if length fields < 2 \<or> \<not> HasPrefix (fields ! 0) ''HTTP/'' then Inl HeadStatusLine
      else case Atoi (fields ! 1) of
        None \<Rightarrow> Inl HeadStatusCode
      | Some code \<Rightarrow> if code < 100 \<or> code > 999 then Inl HeadStatusCode else Inr code)"

text \<open>The head, its status, and the bytes left for the tunnel.\<close>

definition readUpgradeResponseHead :: "nat \<Rightarrow> string \<Rightarrow> head_err + string \<times> int \<times> string" where
  "readUpgradeResponseHead n s =
     (case read_head n [] False s of
        Inl e \<Rightarrow> Inl e
      | Inr (head, rest) \<Rightarrow> (case head_status head of Inl e \<Rightarrow> Inl e | Inr code \<Rightarrow> Inr (head, code, rest)))"

section \<open>Deleting headers\<close>

lemma map_of_fold_Del:
  "map_of (fold HeaderDel ns h) k =
     (if k \<in> CanonicalMIMEHeaderKey ` set ns then None else map_of h k)"
  by (induction ns arbitrary: h) auto

lemma map_of_fold_Del_named:
  "map_of (fold (\<lambda>name h. if name \<noteq> [] then HeaderDel name h else h) ns h) k =
     (if k \<in> CanonicalMIMEHeaderKey ` (set ns - {[]}) then None else map_of h k)"
  by (induction ns arbitrary: h) auto

text \<open>The names a set of headers declares hop-by-hop: the fixed ones and those its Connection lists.\<close>

definition hop_names :: "header \<Rightarrow> string set" where
  "hop_names h = CanonicalMIMEHeaderKey ` set hopByHopHeaders
     \<union> CanonicalMIMEHeaderKey ` (set (list_tokens (HeaderValues h ''Connection'')) - {[]})"

lemma map_of_removeHopByHop:
  "map_of (removeHopByHop h) k = (if k \<in> hop_names h then None else map_of h k)"
  by (auto simp: removeHopByHop_def map_of_fold_Del map_of_fold_Del_named hop_names_def)

lemma map_of_stripClientForwarded:
  "map_of (stripClientForwarded h) k =
     (if k \<in> CanonicalMIMEHeaderKey ` set clientForwardedHeaders then None else map_of h k)"
  by (simp add: stripClientForwarded_def map_of_fold_Del)

lemma canonical_names:
  "CanonicalMIMEHeaderKey ''X-Forwarded-For'' = ''X-Forwarded-For''"
  "CanonicalMIMEHeaderKey ''X-Forwarded-Proto'' = ''X-Forwarded-Proto''"
  "CanonicalMIMEHeaderKey ''X-Forwarded-Host'' = ''X-Forwarded-Host''"
  "CanonicalMIMEHeaderKey ''X-Real-IP'' = ''X-Real-Ip''"
  "CanonicalMIMEHeaderKey ''Traceparent'' = ''Traceparent''"
  "CanonicalMIMEHeaderKey ''Te'' = ''Te''"
  "CanonicalMIMEHeaderKey ''Expect'' = ''Expect''"
  "CanonicalMIMEHeaderKey ''Vary'' = ''Vary''"
  "CanonicalMIMEHeaderKey ''Location'' = ''Location''"
  "CanonicalMIMEHeaderKey ''Connection'' = ''Connection''"
  by code_simp+

lemma canonical_hop: "CanonicalMIMEHeaderKey ` set hopByHopHeaders = set hopByHopHeaders"
  by code_simp

lemma canonical_client_forwarded:
  "CanonicalMIMEHeaderKey ` set clientForwardedHeaders = set clientForwardedHeaders"
  by code_simp

section \<open>What crosses the proxy\<close>

text \<open>Headers as \<open>net/http\<close> parses them: canonical names, each once, each with a value.\<close>

definition wf_header :: "header \<Rightarrow> bool" where
  "wf_header h \<longleftrightarrow> distinct (map fst h)
     \<and> list_all (\<lambda>(k, vs). CanonicalMIMEHeaderKey k = k \<and> vs \<noteq> []) h"

lemma map_of_fold_Add:
  "CanonicalMIMEHeaderKey k = k \<Longrightarrow> vs \<noteq> [] \<Longrightarrow>
   map_of (fold (HeaderAdd k) vs h) x =
     (if x = k then Some ((case map_of h k of None \<Rightarrow> [] | Some ws \<Rightarrow> ws) @ vs) else map_of h x)"
proof (induction vs arbitrary: h)
  case (Cons v vs)
  have "map_of (HeaderAdd k v h) y =
      (if y = k then Some ((case map_of h k of None \<Rightarrow> [] | Some ws \<Rightarrow> ws) @ [v]) else map_of h y)" for y
    using Cons.prems(1) by (auto simp: map_of_HeaderAdd split: option.splits)
  with Cons show ?case by (cases "vs = []") simp_all
qed simp

lemma copy_headers_map:
  "wf_header req \<Longrightarrow> fst ` set req \<inter> dom (map_of dst) = {} \<Longrightarrow>
   map_of (copy_headers req dst) k = (case map_of req k of Some vs \<Rightarrow> Some vs | None \<Rightarrow> map_of dst k)"
proof (induction req arbitrary: dst)
  case Nil
  then show ?case by (simp add: copy_headers_def)
next
  case (Cons kv req)
  obtain k' vs where kv: "kv = (k', vs)" by (cases kv)
  let ?d = "fold (HeaderAdd k') vs dst"
  from Cons.prems kv have "map_of dst k' = None" "CanonicalMIMEHeaderKey k' = k'" "vs \<noteq> []"
    by (auto simp: wf_header_def)
  then have d: "map_of ?d x = (if x = k' then Some vs else map_of dst x)" for x
    by (simp add: map_of_fold_Add)
  have "map_of (copy_headers req ?d) k = (case map_of req k of Some vs \<Rightarrow> Some vs | None \<Rightarrow> map_of ?d k)"
  proof (rule Cons.IH)
    show "wf_header req" using Cons.prems(1) by (simp add: wf_header_def)
    have "k' \<notin> fst ` set req" using Cons.prems(1) kv by (simp add: wf_header_def)
    moreover have "dom (map_of ?d) = insert k' (dom (map_of dst))" by (auto simp: dom_def d)
    ultimately show "fst ` set req \<inter> dom (map_of ?d) = {}" using Cons.prems(2) by auto
  qed
  moreover have "copy_headers (kv # req) dst = copy_headers req ?d" by (simp add: copy_headers_def kv)
  moreover have "map_of req k' = None" using Cons.prems(1) kv by (auto simp: wf_header_def map_of_eq_None_iff)
  ultimately show ?case using kv d by (auto split: option.splits)
qed

lemma copy_headers_wf: "wf_header req \<Longrightarrow> map_of (copy_headers req []) = map_of req"
  by (rule ext) (simp add: copy_headers_map split: option.splits)

lemma HeaderValues_cong: "map_of h = map_of g \<Longrightarrow> HeaderValues h k = HeaderValues g k"
  by (simp add: HeaderValues_def)

text \<open>The names the proxy writes itself.\<close>

definition own_names :: "string set" where
  "own_names = {''X-Forwarded-For'', ''X-Forwarded-Proto'', ''X-Forwarded-Host'', ''X-Real-Ip'', ''Te'', ''Traceparent''}"

text \<open>The headers after laundering, before the proxy's own are set.\<close>

lemma laundered_headers:
  assumes "wf_header req"
    and "g = (if buffered then HeaderDel ''Expect'' (copy_headers req []) else copy_headers req [])"
  shows "map_of (removeHopByHop g) k =
    (if k \<in> hop_names req \<or> buffered \<and> k = ''Expect'' then None else map_of req k)"
proof -
  have m: "map_of g k = (if buffered \<and> k = ''Expect'' then None else map_of req k)" for k
    using assms by (simp add: copy_headers_wf canonical_names)
  then have "HeaderValues g ''Connection'' = HeaderValues req ''Connection''"
    by (simp add: HeaderValues_def canonical_names)
  then have "hop_names g = hop_names req" by (simp add: hop_names_def)
  with m show ?thesis by (simp add: map_of_removeHopByHop)
qed

lemma not_own_client: "k \<in> set clientForwardedHeaders \<Longrightarrow> k \<notin> own_names"
proof -
  have "set clientForwardedHeaders \<inter> own_names = {}" by (simp add: clientForwardedHeaders_def own_names_def)
  then show "k \<in> set clientForwardedHeaders \<Longrightarrow> k \<notin> own_names" by blast
qed

lemma Te_hop: "''Te'' \<in> hop_names h"
  by (simp add: hop_names_def canonical_hop) (simp add: hopByHopHeaders_def)

lemma upstream_headers_map:
  assumes "wf_header req"
    and "h = upstream_headers req buffered remoteAddr isHTTPS host trace"
  shows "map_of h k =
    (if k = ''X-Real-Ip'' \<or> k = ''X-Forwarded-For'' then Some [proxy_clientIP remoteAddr]
     else if k = ''X-Forwarded-Host'' then Some [host]
     else if k = ''X-Forwarded-Proto'' then Some [forwardedProto isHTTPS]
     else if k = ''Traceparent'' then map_of h k
     else if k = ''Te'' then
       (if acceptsTrailers (if buffered then HeaderDel ''Expect'' (copy_headers req []) else copy_headers req [])
        then Some [''trailers''] else None)
     else if k \<in> set clientForwardedHeaders \<or> k \<in> hop_names req \<or> buffered \<and> k = ''Expect'' then None
     else map_of req k)"
proof -
  define g where "g = (if buffered then HeaderDel ''Expect'' (copy_headers req []) else copy_headers req [])"
  define l where "l = (if acceptsTrailers g then HeaderSet ''Te'' ''trailers'' (removeHopByHop g) else removeHopByHop g)"
  define m where "m = HeaderSet ''X-Real-IP'' (proxy_clientIP remoteAddr) (HeaderSet ''X-Forwarded-Host'' host
    (HeaderSet ''X-Forwarded-Proto'' (forwardedProto isHTTPS)
      (HeaderSet ''X-Forwarded-For'' (proxy_clientIP remoteAddr) (stripClientForwarded l))))"
  have h: "h = (if HeaderGet m ''Traceparent'' = [] then HeaderSet ''Traceparent'' trace m else m)"
    by (simp add: assms(2) upstream_headers_def Let_def g_def l_def m_def)
  have hop: "map_of (removeHopByHop g) k = (if k \<in> hop_names req \<or> buffered \<and> k = ''Expect'' then None else map_of req k)" for k
    by (rule laundered_headers [OF assms(1) g_def])
  have te: "''Te'' \<notin> set clientForwardedHeaders" by (simp add: clientForwardedHeaders_def)
  have l: "map_of (stripClientForwarded l) k =
      (if k \<in> set clientForwardedHeaders then None
       else if k = ''Te'' then if acceptsTrailers g then Some [''trailers''] else None
       else if k \<in> hop_names req \<or> buffered \<and> k = ''Expect'' then None else map_of req k)"
    using te Te_hop [of req] hop
    by (simp add: map_of_stripClientForwarded canonical_client_forwarded l_def canonical_names)
  have tp: "k \<noteq> ''Traceparent'' \<Longrightarrow> map_of h k = map_of m k"
    by (simp add: h canonical_names)
  have m: "map_of m k =
      (if k = ''X-Real-Ip'' \<or> k = ''X-Forwarded-For'' then Some [proxy_clientIP remoteAddr]
       else if k = ''X-Forwarded-Host'' then Some [host]
       else if k = ''X-Forwarded-Proto'' then Some [forwardedProto isHTTPS]
       else map_of (stripClientForwarded l) k)"
    by (simp add: m_def canonical_names)
  show ?thesis
  proof (cases "k = ''Traceparent''")
    case False
    show ?thesis unfolding g_def [symmetric] tp [OF False] m l using False te by simp
  qed simp
qed


definition demo_header :: header where
  "demo_header = [(''Connection'', [''x-real-ip, X-Secret'']), (''X-Secret'', [''1'']), (''X-Real-Ip'', [''6.6.6.6'']),
     (''Accept'', [''a'', ''b''])]"


text \<open>
  Redirects. A Location whose host and effective port are those of the backend is rewritten to the
  scheme and host the visitor used, and everything from the path on is kept byte for byte; any other
  absolute Location, and every other header, is left alone.
\<close>

theorem RewriteBackendLocation_exact:
  assumes "HeaderGet h ''Location'' = pre @ ''://'' @ auth @ rest"
    and "CHR '':'' \<notin> set pre" and "set auth \<inter> set ''/?#'' = {}" and "rest = [] \<or> hd rest \<in> set ''/?#''"
    and "parse (pre @ ''://'' @ auth @ rest) = Some u" and "Scheme u \<in> {''http'', ''https''}" and "Host u \<noteq> []"
    and "host \<noteq> []"
  shows "map_of (RewriteBackendLocation uniEq parse h (Some be) scheme host) =
    (if EqualFoldU uniEq (url_hostname (Host u)) (url_hostname (Host be)) \<and> effectivePort u = effectivePort be
     then (map_of h)(''Location'' \<mapsto> [scheme @ ''://'' @ host @ rest])
     else map_of h)"
proof -
  define loc where "loc = pre @ ''://'' @ auth @ rest"
  have i: "Index loc ''://'' = Some (length pre)"
    unfolding loc_def using assms(2) by (induction pre) auto
  have d: "drop (length pre + 3) loc = auth @ rest" "loc \<noteq> []" by (simp_all add: loc_def)
  have r: "from_any (auth @ rest) (set ''/?#'') = rest"
    using assms(3,4) unfolding from_any_def
    by (induction auth) (cases rest; auto)+
  note a = assms(1,5) [folded loc_def] assms(6-8)
  show ?thesis
  proof (cases "EqualFoldU uniEq (url_hostname (Host u)) (url_hostname (Host be)) \<and> effectivePort u = effectivePort be")
    case True
    with a d i r show ?thesis by (auto simp: RewriteBackendLocation_def Let_def canonical_names)
  next
    case False
    with a d show ?thesis by (auto simp: RewriteBackendLocation_def Let_def)
  qed
qed

definition demo_url :: url where
  "demo_url = \<lparr>Scheme = ''http'', Host = ''10.0.0.5:8080''\<rparr>"

theorem RewriteBackendLocation_exact_witness:
  "map_of (RewriteBackendLocation (\<lambda>_ _. False) (\<lambda>_. Some demo_url)
     [(''Location'', [''http://10.0.0.5:8080/a?b''])] (Some demo_url) ''https'' ''site'') ''Location''
   = Some [''https://site/a?b'']"
proof -
  have "url_hostname (Host demo_url) = ''10.0.0.5''" by code_simp
  moreover have "HeaderGet [(''Location'', [''http://10.0.0.5:8080/a?b''])] ''Location'' = ''http://10.0.0.5:8080/a?b''"
    by code_simp
  ultimately show ?thesis
    using RewriteBackendLocation_exact [of "[(''Location'', [''http://10.0.0.5:8080/a?b''])]" "''http''"
        "''10.0.0.5:8080''" "''/a?b''" "\<lambda>_. Some demo_url" demo_url "''site''" "\<lambda>_ _. False" demo_url "''https''"]
    by (simp add: EqualFoldU_def isASCII_def EqualFold_def demo_url_def)
qed

section \<open>Reading the upgrade response\<close>

text \<open>
  The reference: a head is a sequence of lines, the last of which is the only blank one and not the
  first. With \<open>midLine\<close> the first line is the end of one whose beginning was read before.
\<close>

definition head_lines :: "string list \<Rightarrow> bool" where
  "head_lines ls \<longleftrightarrow> ls \<noteq> [] \<and> blank_line (last ls) \<and> list_all (\<lambda>l. \<not> blank_line l) (butlast ls)"

definition head_shape :: "bool \<Rightarrow> string list \<Rightarrow> bool" where
  "head_shape midLine ls \<longleftrightarrow>
     ls \<noteq> [] \<and> list_all is_line ls \<and> head_lines (if midLine then tl ls else ls)"

lemma head_lines_Cons: "ls \<noteq> [] \<Longrightarrow> head_lines (l # ls) \<longleftrightarrow> \<not> blank_line l \<and> head_lines ls"
  by (cases ls) (auto simp: head_lines_def)

lemma blank_line_short: "blank_line l \<Longrightarrow> length l \<le> 2"
  by (auto simp: blank_line_def)

lemma head_shape_line:
  assumes "head_shape False ls" and "is_line line" and "midLine \<or> \<not> blank_line line"
  shows "head_shape midLine (line # ls)"
  using assms by (auto simp: head_shape_def head_lines_Cons)

lemma head_shape_piece:
  assumes "head_shape True ls" and "CHR 0x0A \<notin> set p" and "2 \<le> length p"
  obtains t ls' where "ls = t # ls'" and "head_shape midLine ((p @ t) # ls')"
proof -
  from assms(1) obtain t ls' where ls: "ls = t # ls'" "is_line t" "list_all is_line ls'" "head_lines ls'"
    by (cases ls) (auto simp: head_shape_def)
  then have "ls' \<noteq> []" by (auto simp: head_lines_def)
  moreover have "\<not> blank_line (p @ t)"
  proof
    assume "blank_line (p @ t)"
    with blank_line_short have "length (p @ t) \<le> 2" .
    with assms(3) ls(2) show False by (cases t) (auto simp: is_line_def)
  qed
  ultimately have "head_shape midLine ((p @ t) # ls')"
    using ls assms(2) by (simp add: head_shape_def is_line_append head_lines_Cons)
  with ls(1) that show ?thesis by blast
qed

lemma read_head_sound:
  "read_head n head midLine s = Inr (h, rest) \<Longrightarrow> 2 \<le> n \<Longrightarrow>
   \<exists>ls. s = concat ls @ rest \<and> h = head @ concat ls \<and> head_shape midLine ls
     \<and> length h \<le> maxUpgradeResponseHead \<and> length (last ls) \<noteq> length h"
proof (induction n head midLine s rule: read_head.induct)
  case (1 n head midLine s)
  obtain line e s' where r: "ReadSlice n s = (line, e, s')" by (cases "ReadSlice n s")
  let ?h = "head @ line"
  note step = "1.prems"(1) [unfolded read_head.simps [of n head midLine s] r]
  have n: "n \<noteq> 0" and ok: "e \<noteq> SliceEOF" and len: "\<not> length ?h > maxUpgradeResponseHead"
    using step by (auto simp: Let_def split: if_splits)
  from r ok show ?case
  proof (cases rule: ReadSlice_cases)
    case Line
    show ?thesis
    proof (cases "\<not> midLine \<and> blank_line line")
      case True
      with step Line n len have "h = ?h" "rest = s'" "length ?h \<noteq> length line"
        by (auto simp: Let_def split: if_splits)
      with True Line len show ?thesis
        by (intro exI [of _ "[line]"]) (simp add: head_shape_def head_lines_def)
    next
      case False
      with step Line n len have "read_head n ?h False s' = Inr (h, rest)"
        by (auto simp: Let_def split: if_splits)
      then obtain ls where ls: "s' = concat ls @ rest" "h = ?h @ concat ls" "head_shape False ls"
          "length h \<le> maxUpgradeResponseHead" "length (last ls) \<noteq> length h"
        using "1.IH"(2) [OF n r [symmetric] refl refl ok len _ False] Line "1.prems"(2) by auto
      from False have "head_shape midLine (line # ls)" by (intro head_shape_line ls Line) blast
      with ls Line show ?thesis by (intro exI [of _ "line # ls"]) (auto simp: head_shape_def)
    qed
  next
    case Full
    with step n len have "read_head n ?h True s' = Inr (h, rest)" by (auto simp: Let_def)
    then obtain ls where ls: "s' = concat ls @ rest" "h = ?h @ concat ls" "head_shape True ls"
        "length h \<le> maxUpgradeResponseHead" "length (last ls) \<noteq> length h"
      using "1.IH"(1) [OF n r [symmetric] refl refl ok len Full(1)] "1.prems"(2) by auto
    have "2 \<le> length line" using Full(4) "1.prems"(2) by simp
    with ls(3) Full(3) obtain t ls' where t: "ls = t # ls'" "head_shape midLine ((line @ t) # ls')"
      by (rule head_shape_piece)
    moreover from ls(3) t(1) have "ls' \<noteq> []" by (auto simp: head_shape_def head_lines_def)
    ultimately show ?thesis using ls Full by (intro exI [of _ "(line @ t) # ls'"]) simp
  qed
qed

lemma read_head_complete:
  "head_shape midLine ls \<Longrightarrow> 2 \<le> n \<Longrightarrow> s = concat ls @ rest \<Longrightarrow>
   length (head @ concat ls) \<le> maxUpgradeResponseHead \<Longrightarrow> length (last ls) \<noteq> length (head @ concat ls) \<Longrightarrow>
   read_head n head midLine s = Inr (head @ concat ls, rest)"
proof (induction n head midLine s arbitrary: ls rule: read_head.induct)
  case (1 n head midLine s)
  from "1.prems"(1) obtain l ls' where ls: "ls = l # ls'" and l: "is_line l"
    by (cases ls) (auto simp: head_shape_def)
  from "1.prems"(2) have n: "n \<noteq> 0" by simp
  have s: "s = l @ concat ls' @ rest" using "1.prems"(3) ls by simp
  show ?case
  proof (cases "length l \<le> n")
    case True
    have r: "ReadSlice n s = (l, SliceOk, concat ls' @ rest)" unfolding s by (rule ReadSlice_line [OF l True])
    have len: "\<not> maxUpgradeResponseHead < length (head @ l)" using "1.prems"(4) ls by simp
    show ?thesis
    proof (cases "\<not> midLine \<and> blank_line l")
      case True
      with "1.prems"(1) ls have "ls' = []" by (cases ls') (auto simp: head_shape_def head_lines_def)
      with True r len n ls "1.prems"(5) show ?thesis
        by (subst read_head.simps) (simp add: Let_def)
    next
      case False
      with "1.prems"(1) ls have ne: "ls' \<noteq> []" by (auto simp: head_shape_def head_lines_def split: if_splits)
      with False "1.prems"(1) ls have "head_shape False ls'"
        by (cases midLine) (auto simp: head_shape_def head_lines_Cons)
      then have "read_head n (head @ l) False (concat ls' @ rest) = Inr ((head @ l) @ concat ls', rest)"
        using "1.prems"(2,4,5) ls ne
        by (intro "1.IH"(2) [OF n r [symmetric] refl refl _ len _ False]) simp_all
      with False r len n ls show ?thesis by (subst read_head.simps) (auto simp: Let_def)
    qed
  next
    case False
    then have long: "n < length l" by simp
    note rl = ReadSlice_long [OF l long]
    have r: "ReadSlice n s = (take n l, ErrBufferFull, drop n l @ concat ls' @ rest)"
      unfolding s by (rule rl)
    have len: "\<not> maxUpgradeResponseHead < length (head @ take n l)" using "1.prems"(4) ls by simp
    have nb: "\<not> blank_line l" using long "1.prems"(2) blank_line_short [of l] by linarith
    have ne: "ls' \<noteq> []" using "1.prems"(1) ls nb by (auto simp: head_shape_def head_lines_def split: if_splits)
    with nb "1.prems"(1) ls rl(3) have "head_shape True (drop n l # ls')"
      by (cases midLine) (auto simp: head_shape_def head_lines_Cons)
    then have "read_head n (head @ take n l) True (drop n l @ concat ls' @ rest)
        = Inr ((head @ take n l) @ concat (drop n l # ls'), rest)"
      using "1.prems"(2,4,5) ls ne
      by (intro "1.IH"(1) [OF n r [symmetric] refl refl _ len]) simp_all
    with r len n ls show ?thesis by (subst read_head.simps) (simp add: Let_def)
  qed
qed

text \<open>
  The upgrade response. The head the proxy reads off the backend is exactly the bytes up to and
  including the first blank line, whatever the size of the reader's buffer and however long a line is;
  it is accepted if and only if it fits the limit, is not empty and has a status between 100 and 999,
  and the bytes behind it are left for the tunnel.
\<close>

theorem readUpgradeResponseHead_exact:
  assumes "2 \<le> n"
  shows "readUpgradeResponseHead n s = Inr (head, code, rest) \<longleftrightarrow>
    s = head @ rest \<and> (\<exists>ls. head = concat ls \<and> list_all is_line ls \<and> head_lines ls \<and> length ls \<ge> 2)
    \<and> length head \<le> maxUpgradeResponseHead \<and> head_status head = Inr code" (is "?l \<longleftrightarrow> ?r")
proof
  assume ?l
  then have r: "read_head n [] False s = Inr (head, rest)" and c: "head_status head = Inr code"
    by (auto simp: readUpgradeResponseHead_def split: sum.splits prod.splits)
  from read_head_sound [OF r assms] obtain ls where ls: "s = concat ls @ rest" "head = concat ls"
    "head_shape False ls" "length head \<le> maxUpgradeResponseHead" "length (last ls) \<noteq> length head" by auto
  then have "length ls \<ge> 2" by (cases ls; cases "tl ls") (auto simp: head_shape_def)
  with ls c show ?r by (auto simp: head_shape_def)
next
  assume r: ?r
  then obtain ls where ls: "head = concat ls" "list_all is_line ls" "head_lines ls" "length ls \<ge> 2" by blast
  then obtain a where a: "ls = a # tl ls" "tl ls \<noteq> []" "a \<noteq> []"
    by (cases ls; cases "tl ls") (auto simp: is_line_def)
  then have "head = a @ concat (butlast (tl ls)) @ last ls"
    using ls(1) by (metis append_butlast_last_id concat.simps(1,2) concat_append append_Nil2 last_ConsR)
  with a(3) have "length (last ls) \<noteq> length head" by simp
  with r ls have "read_head n [] False s = Inr ([] @ concat ls, rest)"
    using assms by (intro read_head_complete) (auto simp: head_shape_def head_lines_def)
  with r ls show ?l by (simp add: readUpgradeResponseHead_def)
qed

theorem readUpgradeResponseHead_exact_witness:
  "readUpgradeResponseHead 4096
     (''HTTP/1.1 101 Switching'' @ crlf @ ''Upgrade: websocket'' @ crlf @ crlf @ ''frame'')
   = Inr (''HTTP/1.1 101 Switching'' @ crlf @ ''Upgrade: websocket'' @ crlf @ crlf, 101, ''frame'')"
proof -
  let ?ls = "[''HTTP/1.1 101 Switching'' @ crlf, ''Upgrade: websocket'' @ crlf, crlf]"
  have "list_all is_line ?ls" "head_lines ?ls" "head_status (concat ?ls) = Inr 101" by code_simp+
  moreover have "length (concat ?ls) \<le> maxUpgradeResponseHead"
    by (simp add: crlf_def maxUpgradeResponseHead_def)
  ultimately show ?thesis
    by (intro readUpgradeResponseHead_exact [THEN iffD2]) (auto intro!: exI [of _ ?ls])
qed

end
