(* ===== verification/SSRF_Guard.thy ===== *)
theory SSRF_Guard
  imports Go_Http Proxy_Balancer "HOL-Library.Code_Target_Nat"
begin

text \<open>
  The guard against requests to internal addresses, \<open>internal/config/validate.go\<close>: the address
  classes, the check of a URL before it is used and the check of the address a connection is actually
  made to. \<open>url.Parse\<close> and the DNS resolver (\<open>net.LookupIP\<close>) are parameters. Reasons are the texts of
  the code, an empty one meaning that the address is allowed.
\<close>

section \<open>Address classes\<close>

definition mustParseCIDR :: "string \<Rightarrow> IPNet" where
  "mustParseCIDR s = the (ParseCIDR s)"

definition loopbackIPBlocks :: "IPNet list" where
  "loopbackIPBlocks = map mustParseCIDR [''127.0.0.0/8'', ''::1/128'']"

definition privateIPBlocks :: "IPNet list" where
  "privateIPBlocks =
     map mustParseCIDR [''10.0.0.0/8'', ''172.16.0.0/12'', ''192.168.0.0/16'', ''100.64.0.0/10'', ''fc00::/7'']"

definition unspecifiedIPBlocks :: "IPNet list" where
  "unspecifiedIPBlocks = map mustParseCIDR [''0.0.0.0/8'', ''::/128'']"

definition cloudMetadataIPBlocks :: "IPNet list" where
  "cloudMetadataIPBlocks = map mustParseCIDR [''169.254.169.254/32'', ''fd00:ec2::254/128'']"

definition linkLocalIPBlocks :: "IPNet list" where
  "linkLocalIPBlocks = map mustParseCIDR [''169.254.0.0/16'', ''fe80::/10'']"

definition documentationIPBlocks :: "IPNet list" where
  "documentationIPBlocks = map mustParseCIDR [''192.0.2.0/24'', ''198.51.100.0/24'', ''203.0.113.0/24'']"

definition nat64WellKnown :: IPNet where "nat64WellKnown = mustParseCIDR ''64:ff9b::/96''"
definition nat64LocalUse :: IPNet where "nat64LocalUse = mustParseCIDR ''64:ff9b:1::/48''"
definition sixToFour :: IPNet where "sixToFour = mustParseCIDR ''2002::/16''"
definition ipv4Compatible :: IPNet where "ipv4Compatible = mustParseCIDR ''::/96''"

record urlSafetyPolicy =
  allowLoopback :: bool
  allowPrivate :: bool

definition inAnyIPBlock :: "net_ip \<Rightarrow> IPNet list \<Rightarrow> bool" where
  "inAnyIPBlock ip blocks = list_ex (\<lambda>block. IPNetContains block ip) blocks"

definition bytes_at :: "net_ip \<Rightarrow> nat \<Rightarrow> bytes" where
  "bytes_at ip i = take 4 (drop i ip)"

definition embeddedIPv4 :: "net_ip \<Rightarrow> (string \<times> bytes) option" where
  "embeddedIPv4 ip =
     (if length ip \<noteq> 16 then None
      else if IPNetContains nat64WellKnown ip then Some (''NAT64'', bytes_at ip 12)
      else if IPNetContains sixToFour ip then Some (''6to4'', bytes_at ip 2)
      else if IPNetContains ipv4Compatible ip \<and> \<not> IPEqual ip (replicate 16 0)
              \<and> \<not> IPEqual ip (replicate 15 0 @ [1])
      then Some (''IPv4-compatible'', bytes_at ip 12)
      else None)"

lemma embeddedIPv4_length: "embeddedIPv4 ip = Some (k, v4) \<Longrightarrow> length v4 = 4 \<and> length ip = 16"
  by (auto simp: embeddedIPv4_def bytes_at_def split: if_splits)

text \<open>The classes in the order they are tested, before embedded addresses are looked at.\<close>

definition class_reason :: "net_ip \<Rightarrow> urlSafetyPolicy \<Rightarrow> string" where
  "class_reason ip policy =
     (if inAnyIPBlock ip unspecifiedIPBlocks then ''unspecified address''
      else if inAnyIPBlock ip cloudMetadataIPBlocks then ''cloud metadata endpoint''
      else if inAnyIPBlock ip loopbackIPBlocks \<and> \<not> allowLoopback policy then ''loopback address''
      else if inAnyIPBlock ip privateIPBlocks \<and> \<not> allowPrivate policy then ''private address''
      else if inAnyIPBlock ip linkLocalIPBlocks then ''link-local address''
      else if inAnyIPBlock ip documentationIPBlocks then ''documentation address''
      else [])"

function ipBlockedReason :: "net_ip \<Rightarrow> urlSafetyPolicy \<Rightarrow> string" where
  "ipBlockedReason ip0 policy =
     (let ip = (case To4 ip0 of Some v4 \<Rightarrow> v4 | None \<Rightarrow> ip0);
          local = (if IPNetContains nat64LocalUse ip \<and> \<not> allowPrivate policy then ''local-use NAT64 address'' else [])
      in if class_reason ip policy \<noteq> [] then class_reason ip policy
         else case embeddedIPv4 ip of
           None \<Rightarrow> local
         | Some (kind, v4) \<Rightarrow>
             if ipBlockedReason v4 policy \<noteq> [] then kind @ ''-embedded '' @ ipBlockedReason v4 policy
             else local)"
  by pat_completeness auto
termination
proof (relation "measure (\<lambda>(ip, policy). length ip)")
  show "wf (measure (\<lambda>(ip, policy). length ip))" by simp
qed (auto dest: embeddedIPv4_length simp: To4_def split: option.splits if_splits)

declare ipBlockedReason.simps [simp del]

section \<open>The checks\<close>

datatype url_err = InvalidURL | NoHost | Blocked string | CannotResolve

definition isLoopback :: "string \<Rightarrow> bool" where
  "isLoopback host =
     (if host = ''localhost'' then True
      else case ParseIP host of Some ip \<Rightarrow> IsLoopback ip | None \<Rightarrow> False)"

fun first_blocked :: "urlSafetyPolicy \<Rightarrow> net_ip list \<Rightarrow> url_err option" where
  "first_blocked policy [] = None"
| "first_blocked policy (ip # ips) =
     (let reason = ipBlockedReason ip policy in
      if reason \<noteq> [] then Some (Blocked reason) else first_blocked policy ips)"

definition isURLSafe ::
  "(string \<Rightarrow> url option) \<Rightarrow> (string \<Rightarrow> net_ip list option) \<Rightarrow> string \<Rightarrow> urlSafetyPolicy \<Rightarrow> url_err option" where
  "isURLSafe parse lookup rawURL policy =
     (if rawURL = [] then None
      else case parse rawURL of
        None \<Rightarrow> Some InvalidURL
      | Some u \<Rightarrow>
          let host = url_hostname (Host u) in
          if host = [] then Some NoHost
          else case ParseIP host of
            Some ip \<Rightarrow> first_blocked policy [ip]
          | None \<Rightarrow>
              if allowLoopback policy \<and> isLoopback host then None
              else case lookup host of
                None \<Rightarrow> Some CannotResolve
              | Some ips \<Rightarrow> first_blocked policy ips)"

definition IsWebhookURLSafe where
  "IsWebhookURLSafe parse lookup rawURL =
     isURLSafe parse lookup rawURL \<lparr>allowLoopback = False, allowPrivate = False\<rparr>"

definition IsProxyUpstreamSafe where
  "IsProxyUpstreamSafe parse lookup rawURL =
     isURLSafe parse lookup rawURL \<lparr>allowLoopback = True, allowPrivate = False\<rparr>"

definition IsPrivateProxyUpstreamSafe where
  "IsPrivateProxyUpstreamSafe parse lookup rawURL =
     isURLSafe parse lookup rawURL \<lparr>allowLoopback = True, allowPrivate = True\<rparr>"

definition IsHostSafe :: "(string \<Rightarrow> net_ip list option) \<Rightarrow> string \<Rightarrow> url_err option" where
  "IsHostSafe lookup host =
     (let policy = \<lparr>allowLoopback = True, allowPrivate = True\<rparr> in
      if host = [] then None
      else case ParseIP host of
        Some ip \<Rightarrow> first_blocked policy [ip]
      | None \<Rightarrow> (case lookup host of None \<Rightarrow> Some CannotResolve | Some ips \<Rightarrow> first_blocked policy ips))"

definition dial_host :: "string \<Rightarrow> string" where
  "dial_host address = (case SplitHostPort address of Some (host, _) \<Rightarrow> host | None \<Rightarrow> address)"

definition dial_check :: "urlSafetyPolicy \<Rightarrow> string \<Rightarrow> url_err option" where
  "dial_check policy address =
     (case ParseIP (dial_host address) of None \<Rightarrow> None | Some ip \<Rightarrow> first_blocked policy [ip])"

definition SafeDialControl :: "string \<Rightarrow> url_err option" where
  "SafeDialControl address = dial_check \<lparr>allowLoopback = False, allowPrivate = False\<rparr> address"

definition ProxyDialControl :: "bool \<Rightarrow> string \<Rightarrow> url_err option" where
  "ProxyDialControl private address = dial_check \<lparr>allowLoopback = True, allowPrivate = private\<rparr> address"

definition isCloudMetadataHost :: "string \<Rightarrow> bool" where
  "isCloudMetadataHost host =
     (case ParseIP host of
        None \<Rightarrow> False
      | Some ip \<Rightarrow> IPEqual ip (the (ParseIP ''169.254.169.254'')) \<or> IPEqual ip (the (ParseIP ''fd00:ec2::254'')))"

datatype addr_err = AddressRequired | BadURL | UnsupportedScheme string | MetadataBlocked string

definition validateProxyUpstreamAddress ::
  "(string \<Rightarrow> string) \<Rightarrow> (string \<Rightarrow> url option) \<Rightarrow> string \<Rightarrow> addr_err list" where
  "validateProxyUpstreamAddress uni parse address =
     (if TrimSpace address = [] then [AddressRequired]
      else case parse (NormalizeProxyUpstreamAddress address) of
        None \<Rightarrow> [BadURL]
      | Some u \<Rightarrow>
          if Host u = [] then [BadURL]
          else
            let scheme = ToLower uni (Scheme u);
                host = url_hostname (Host u);
                meta = (if isCloudMetadataHost host then [MetadataBlocked host] else [])
            in if scheme \<in> {''http'', ''https'', ''ws'', ''wss''} then meta
               else if scheme = ''apps'' then []
               else UnsupportedScheme (Scheme u) # meta)"

definition IsValidProxyAlgorithm :: "(string \<Rightarrow> string) \<Rightarrow> string \<Rightarrow> bool" where
  "IsValidProxyAlgorithm uni algorithm \<longleftrightarrow>
     map (\<lambda>c. if c = CHR ''-'' then CHR ''_'' else c) (ToLower uni algorithm)
       \<in> {''round_robin'', ''least_conn'', ''weighted'', ''ip_hash'', ''uri_hash'', ''random'', ''sticky''}"

section \<open>The networks\<close>

text \<open>No network of the source makes \<open>mustParseCIDR\<close> panic.\<close>

lemma nets_parse:
  "list_all (\<lambda>s. ParseCIDR s \<noteq> None)
     [''127.0.0.0/8'', ''::1/128'', ''10.0.0.0/8'', ''172.16.0.0/12'', ''192.168.0.0/16'', ''100.64.0.0/10'',
      ''fc00::/7'', ''0.0.0.0/8'', ''::/128'', ''169.254.169.254/32'', ''fd00:ec2::254/128'', ''169.254.0.0/16'',
      ''fe80::/10'', ''192.0.2.0/24'', ''198.51.100.0/24'', ''203.0.113.0/24'', ''64:ff9b::/96'',
      ''64:ff9b:1::/48'', ''2002::/16'', ''::/96'']"
  by code_simp

abbreviation net4 :: "bytes \<Rightarrow> nat \<Rightarrow> IPNet" where
  "net4 b n \<equiv> \<lparr>netIP = b, maskOnes = n, maskBits = 32\<rparr>"

abbreviation net6 :: "bytes \<Rightarrow> nat \<Rightarrow> IPNet" where
  "net6 b n \<equiv> \<lparr>netIP = b, maskOnes = n, maskBits = 128\<rparr>"

lemma loopback_nets: "loopbackIPBlocks = [net4 [127, 0, 0, 0] 8, net6 (replicate 15 0 @ [1]) 128]"
  by code_simp

lemma private_nets:
  "privateIPBlocks = [net4 [10, 0, 0, 0] 8, net4 [172, 16, 0, 0] 12, net4 [192, 168, 0, 0] 16,
     net4 [100, 64, 0, 0] 10, net6 (0xfc # replicate 15 0) 7]"
  by code_simp

lemma unspecified_nets: "unspecifiedIPBlocks = [net4 [0, 0, 0, 0] 8, net6 (replicate 16 0) 128]"
  by code_simp

lemma metadata_nets:
  "cloudMetadataIPBlocks = [net4 [169, 254, 169, 254] 32, net6 ([0xfd, 0, 0x0e, 0xc2] @ replicate 10 0 @ [2, 0x54]) 128]"
  by code_simp

lemma link_local_nets: "linkLocalIPBlocks = [net4 [169, 254, 0, 0] 16, net6 (0xfe # 0x80 # replicate 14 0) 10]"
  by code_simp

lemma documentation_nets:
  "documentationIPBlocks = [net4 [192, 0, 2, 0] 24, net4 [198, 51, 100, 0] 24, net4 [203, 0, 113, 0] 24]"
  by code_simp

lemma embedding_nets:
  "nat64WellKnown = net6 [0, 0x64, 0xff, 0x9b, 0, 0, 0, 0, 0, 0, 0, 0, 0, 0, 0, 0] 96"
  "sixToFour = net6 [0x20, 2, 0, 0, 0, 0, 0, 0, 0, 0, 0, 0, 0, 0, 0, 0] 16"
  "ipv4Compatible = net6 [0, 0, 0, 0, 0, 0, 0, 0, 0, 0, 0, 0, 0, 0, 0, 0] 96"
  by code_simp+

lemma nat64_local_net: "nat64LocalUse = net6 ([0, 0x64, 0xff, 0x9b, 0, 1] @ replicate 10 0) 48"
  by code_simp

lemma masks:
  "CIDRMask 8 32 = [255, 0, 0, 0]" "CIDRMask 10 32 = [255, 192, 0, 0]" "CIDRMask 12 32 = [255, 240, 0, 0]"
  "CIDRMask 16 32 = [255, 255, 0, 0]" "CIDRMask 24 32 = [255, 255, 255, 0]" "CIDRMask 32 32 = [255, 255, 255, 255]"
  "CIDRMask 96 128 = [255, 255, 255, 255, 255, 255, 255, 255, 255, 255, 255, 255, 0, 0, 0, 0]"
  "CIDRMask 16 128 = [255, 255, 0, 0, 0, 0, 0, 0, 0, 0, 0, 0, 0, 0, 0, 0]"
  by code_simp+

text \<open>Facts about single bytes are checked on all of their values.\<close>

lemma byte_value_cases:
  assumes "list_all P [0..255]"
  shows "P (uint (b :: byte))"
proof -
  have "0 \<le> uint b" "uint b < 256" using unsigned_less [of b] by simp_all
  with assms show ?thesis by (simp add: list_all_iff)
qed

lemma byte_mask_255: "(b :: byte) AND 255 = b"
proof -
  have "(255 :: byte) = - 1" by simp
  then show ?thesis by (simp only: and.right_neutral)
qed

lemma byte_mask_240: "(b :: byte) AND 240 = 16 \<longleftrightarrow> 16 \<le> uint b \<and> uint b \<le> 31"
proof -
  have "(uint b AND 240 = 16) = (16 \<le> uint b \<and> uint b \<le> 31)"
    by (rule byte_value_cases) code_simp
  moreover have "uint (b AND 240) = uint b AND 240" by (simp add: unsigned_and_eq)
  moreover have "b AND 240 = 16 \<longleftrightarrow> uint (b AND 240) = 16"
    using word_uint_eq_iff [of "b AND 240" 16] by simp
  ultimately show ?thesis by simp
qed

lemma byte_mask_192: "(b :: byte) AND 192 = 64 \<longleftrightarrow> 64 \<le> uint b \<and> uint b \<le> 127"
proof -
  have "(uint b AND 192 = 64) = (64 \<le> uint b \<and> uint b \<le> 127)"
    by (rule byte_value_cases) code_simp
  moreover have "uint (b AND 192) = uint b AND 192" by (simp add: unsigned_and_eq)
  moreover have "b AND 192 = 64 \<longleftrightarrow> uint (b AND 192) = 64"
    using word_uint_eq_iff [of "b AND 192" 64] by simp
  ultimately show ?thesis by simp
qed

lemmas byte_masks = byte_mask_255 byte_mask_240 byte_mask_192

lemma contains4:
  "IPNetContains (net4 [p, q, r, s] n) [a, b, c, d] \<longleftrightarrow>
     and_bytes [p, q, r, s] (CIDRMask n 32) = and_bytes [a, b, c, d] (CIDRMask n 32)"
  by (simp add: IPNetContains_def To4_def Let_def)

lemma contains46: "length p = 16 \<Longrightarrow> To4 p = None \<Longrightarrow> length ip = 4 \<Longrightarrow> \<not> IPNetContains (net6 p n) ip"
  by (simp add: IPNetContains_def To4_def)

lemma contains66:
  "length p = 16 \<Longrightarrow> To4 p = None \<Longrightarrow> length ip = 16 \<Longrightarrow> To4 ip = None \<Longrightarrow>
   IPNetContains (net6 p n) ip \<longleftrightarrow> and_bytes p (CIDRMask n 128) = and_bytes ip (CIDRMask n 128)"
  by (simp add: IPNetContains_def Let_def)

section \<open>IPv4\<close>

text \<open>The addresses a policy keeps out, as ranges of their four numbers.\<close>

definition forbidden4 :: "urlSafetyPolicy \<Rightarrow> byte \<Rightarrow> byte \<Rightarrow> byte \<Rightarrow> byte \<Rightarrow> bool" where
  "forbidden4 policy a b c d \<longleftrightarrow>
     a = 0 \<or> a = 169 \<and> b = 254
     \<or> a = 192 \<and> b = 0 \<and> c = 2 \<or> a = 198 \<and> b = 51 \<and> c = 100 \<or> a = 203 \<and> b = 0 \<and> c = 113
     \<or> a = 127 \<and> \<not> allowLoopback policy
     \<or> \<not> allowPrivate policy \<and>
         (a = 10 \<or> a = 172 \<and> 16 \<le> uint b \<and> uint b \<le> 31 \<or> a = 192 \<and> b = 168
          \<or> a = 100 \<and> 64 \<le> uint b \<and> uint b \<le> 127)"

lemma To4_numerals:
  "To4 (replicate 15 0 @ [1]) = None" "To4 (0xfc # replicate 15 0) = None" "To4 (replicate 16 0) = None"
  "To4 ([0xfd, 0, 0x0e, 0xc2] @ replicate 10 0 @ [2, 0x54]) = None" "To4 (0xfe # 0x80 # replicate 14 0) = None"
  "To4 [0, 0x64, 0xff, 0x9b, 0, 0, 0, 0, 0, 0, 0, 0, 0, 0, 0, 0] = None" "To4 [0x20, 2, 0, 0, 0, 0, 0, 0, 0, 0, 0, 0, 0, 0, 0, 0] = None"
  "To4 [0, 0, 0, 0, 0, 0, 0, 0, 0, 0, 0, 0, 0, 0, 0, 0] = None"
  by code_simp+

lemma inAny_rec:
  "inAnyIPBlock ip [] \<longleftrightarrow> False" "inAnyIPBlock ip (n # ns) \<longleftrightarrow> IPNetContains n ip \<or> inAnyIPBlock ip ns"
  by (simp_all add: inAnyIPBlock_def)

lemma no46:
  "IPNetContains (net6 (replicate 15 0 @ [1]) n) [a, b, c, d] \<longleftrightarrow> False"
  "IPNetContains (net6 (0xfc # replicate 15 0) n) [a, b, c, d] \<longleftrightarrow> False"
  "IPNetContains (net6 (replicate 16 0) n) [a, b, c, d] \<longleftrightarrow> False"
  "IPNetContains (net6 ([0xfd, 0, 0x0e, 0xc2] @ replicate 10 0 @ [2, 0x54]) n) [a, b, c, d] \<longleftrightarrow> False"
  "IPNetContains (net6 (0xfe # 0x80 # replicate 14 0) n) [a, b, c, d] \<longleftrightarrow> False"
  by (simp_all only: eq_False, (rule contains46, simp, rule To4_numerals, simp)+)

lemma classes4:
  "inAnyIPBlock [a, b, c, d] unspecifiedIPBlocks \<longleftrightarrow> a = 0"
  "inAnyIPBlock [a, b, c, d] cloudMetadataIPBlocks \<longleftrightarrow> a = 169 \<and> b = 254 \<and> c = 169 \<and> d = 254"
  "inAnyIPBlock [a, b, c, d] loopbackIPBlocks \<longleftrightarrow> a = 127"
  "inAnyIPBlock [a, b, c, d] privateIPBlocks \<longleftrightarrow>
     a = 10 \<or> a = 172 \<and> b AND 240 = 16 \<or> a = 192 \<and> b = 168 \<or> a = 100 \<and> b AND 192 = 64"
  "inAnyIPBlock [a, b, c, d] linkLocalIPBlocks \<longleftrightarrow> a = 169 \<and> b = 254"
  "inAnyIPBlock [a, b, c, d] documentationIPBlocks \<longleftrightarrow>
     a = 192 \<and> b = 0 \<and> c = 2 \<or> a = 198 \<and> b = 51 \<and> c = 100 \<or> a = 203 \<and> b = 0 \<and> c = 113"
  unfolding unspecified_nets metadata_nets loopback_nets private_nets link_local_nets documentation_nets
    inAny_rec no46 contains4 masks
  by (auto simp: and_bytes_def byte_mask_255)

lemma ssrf_ipv4:
  assumes "ip \<in> {[a, b, c, d], v4InV6Prefix @ [a, b, c, d]}"
  shows "ipBlockedReason ip policy \<noteq> [] \<longleftrightarrow> forbidden4 policy a b c d"
proof -
  have "(case To4 ip of Some v4 \<Rightarrow> v4 | None \<Rightarrow> ip) = [a, b, c, d]"
    using assms by (auto simp: To4_def v4InV6Prefix_def)
  moreover have "\<not> IPNetContains nat64LocalUse [a, b, c, d]"
    unfolding nat64_local_net by (rule contains46, simp, code_simp, simp)
  moreover have "embeddedIPv4 [a, b, c, d] = None" by (simp add: embeddedIPv4_def)
  ultimately have "ipBlockedReason ip policy = class_reason [a, b, c, d] policy"
    by (subst ipBlockedReason.simps) (simp add: Let_def)
  then show ?thesis
    by (auto simp: class_reason_def classes4 forbidden4_def byte_mask_240 byte_mask_192)
qed

text \<open>
  IPv4 targets. An IPv4 address is refused exactly when it lies in the ranges of its policy: "this
  host", link-local with the metadata endpoint, and the documentation networks always, loopback and the
  private and carrier-grade ranges unless the policy allows them; written as four bytes or in its
  IPv4-mapped form, it is treated alike.
\<close>

theorem ssrf_ipv4_exact:
  assumes "ip \<in> {[a, b, c, d], v4InV6Prefix @ [a, b, c, d]}"
  shows "ipBlockedReason ip policy \<noteq> [] \<longleftrightarrow> forbidden4 policy a b c d"
  by (rule ssrf_ipv4 [OF assms])

theorem ssrf_ipv4_exact_witness:
  "ipBlockedReason (v4InV6Prefix @ [172, 31, 0, 1]) \<lparr>allowLoopback = True, allowPrivate = False\<rparr> \<noteq> []"
  using ssrf_ipv4_exact [of "v4InV6Prefix @ [172, 31, 0, 1]" 172 31 0 1] by (simp add: forbidden4_def)

section \<open>IPv4 inside IPv6\<close>

definition nat64_form :: "bytes \<Rightarrow> net_ip" where
  "nat64_form v4 = [0, 0x64, 0xff, 0x9b, 0, 0, 0, 0, 0, 0, 0, 0] @ v4"

definition sixToFour_form :: "bytes \<Rightarrow> bytes \<Rightarrow> net_ip" where
  "sixToFour_form v4 rest = [0x20, 2] @ v4 @ rest"

definition compatible_form :: "bytes \<Rightarrow> net_ip" where
  "compatible_form v4 = replicate 12 0 @ v4"

lemma zeros:
  "replicate 10 (0 :: byte) = [0, 0, 0, 0, 0, 0, 0, 0, 0, 0]" "replicate 12 (0 :: byte) = [0, 0, 0, 0, 0, 0, 0, 0, 0, 0, 0, 0]"
  "replicate 15 (0 :: byte) = [0, 0, 0, 0, 0, 0, 0, 0, 0, 0, 0, 0, 0, 0, 0]" "replicate 16 (0 :: byte) = [0, 0, 0, 0, 0, 0, 0, 0, 0, 0, 0, 0, 0, 0, 0, 0]"
  by (simp_all add: numeral_eq_Suc)

lemma blocked_embedded:
  assumes "To4 ip = None" and "embeddedIPv4 ip = Some (kind, v4)" and "ipBlockedReason v4 policy \<noteq> []"
  shows "ipBlockedReason ip policy \<noteq> []"
  using assms by (subst ipBlockedReason.simps) (simp add: Let_def)

lemma blocked_class: "To4 ip = None \<Longrightarrow> class_reason ip policy \<noteq> [] \<Longrightarrow> ipBlockedReason ip policy \<noteq> []"
  by (subst ipBlockedReason.simps) (simp add: Let_def)

lemma contains_embeddings:
  assumes "length ip = 16" and "To4 ip = None"
  shows "IPNetContains nat64WellKnown ip \<longleftrightarrow> take 12 ip = [0, 0x64, 0xff, 0x9b, 0, 0, 0, 0, 0, 0, 0, 0]"
    and "IPNetContains sixToFour ip \<longleftrightarrow> take 2 ip = [0x20, 2]"
    and "IPNetContains ipv4Compatible ip \<longleftrightarrow> take 12 ip = [0, 0, 0, 0, 0, 0, 0, 0, 0, 0, 0, 0]"
proof -
  obtain a b c d e f g h i j k l m n p q where ip: "ip = [a, b, c, d, e, f, g, h, i, j, k, l, m, n, p, q]"
    using assms(1) by (auto simp: numeral_eq_Suc length_Suc_conv)
  note c = contains66 [OF _ To4_numerals(6) assms, unfolded ip] contains66 [OF _ To4_numerals(7) assms, unfolded ip]
    contains66 [OF _ To4_numerals(8) assms, unfolded ip]
  show "IPNetContains nat64WellKnown ip \<longleftrightarrow> take 12 ip = [0, 0x64, 0xff, 0x9b, 0, 0, 0, 0, 0, 0, 0, 0]"
    "IPNetContains sixToFour ip \<longleftrightarrow> take 2 ip = [0x20, 2]"
    "IPNetContains ipv4Compatible ip \<longleftrightarrow> take 12 ip = [0, 0, 0, 0, 0, 0, 0, 0, 0, 0, 0, 0]"
    unfolding embedding_nets by (simp_all add: c masks ip and_bytes_def byte_mask_255)
qed



section \<open>Checking early and checking late\<close>

lemma first_blocked_None: "first_blocked policy ips = None \<longleftrightarrow> list_all (\<lambda>ip. ipBlockedReason ip policy = []) ips"
  by (induction policy ips rule: first_blocked.induct) (auto simp: Let_def)

lemma ParseIP_nonempty: "ParseIP t = Some ip \<Longrightarrow> t \<noteq> []"
  by (auto simp: ParseIP_def ParseAddr_def)

lemma dial_check_address:
  assumes "ParseIP t = Some ip" and "set port \<inter> set '':[]'' = {}"
  shows "dial_check policy (JoinHostPort t port) = first_blocked policy [ip]"
proof -
  have "SplitHostPort (JoinHostPort t port) = Some (t, port)"
    using assms(2) ParseIP_nonempty [OF assms(1)]
    by (intro SplitHostPort_JoinHostPort ParseIP_chars [OF assms(1)]) auto
  with assms(1) show ?thesis by (simp add: dial_check_def dial_host_def)
qed

definition proxyUpstreamSafetyCheck where
  "proxyUpstreamSafetyCheck parse lookup private rawURL =
     (if private then IsPrivateProxyUpstreamSafe parse lookup rawURL else IsProxyUpstreamSafe parse lookup rawURL)"

lemma proxyUpstreamSafetyCheck_policy:
  "proxyUpstreamSafetyCheck parse lookup private rawURL =
     isURLSafe parse lookup rawURL \<lparr>allowLoopback = True, allowPrivate = private\<rparr>"
  by (simp add: proxyUpstreamSafetyCheck_def IsPrivateProxyUpstreamSafe_def IsProxyUpstreamSafe_def)



end
