(* ===== verification/Proxy_Serve.thy ===== *)
theory Proxy_Serve
  imports Proxy_Headers SSRF_Guard
begin

text \<open>
  Serving one request through the reverse proxy: \<open>Handler.Serve\<close> of \<open>internal/handler/proxy/handler.go\<close>
  with its retries, counters and error answers, and the accounting of \<open>serveWebSocketWithOptions\<close>. What the
  network does is the environment: what each attempt's round trip gives, what the resolver answers, and
  whether the client is still there. The pool's counters are explicit state.
\<close>

section \<open>The environment\<close>

datatype ctx_state = CtxAlive | CtxDeadline | CtxCanceled

record rt_response =
  rt_status :: int
  rt_header :: header
  rt_trailer :: header
  rt_length :: int \<comment> \<open>\<open>ContentLength\<close>, -1 when unknown\<close>
  rt_body :: string
  rt_broken :: bool \<comment> \<open>reading the body ends in an error\<close>

datatype round_trip =
    RtOk rt_response
  | RtErr upstream_err bool ctx_state \<comment> \<open>error, whether the read timer fired, state of the client's context\<close>

datatype req_body =
    NoBody
  | ReqBody int "nat option" \<comment> \<open>declared length; what reading at most the limit plus one byte gives\<close>

record proxy_config =
  MaxRetries :: int
  WebSocket :: bool
  BufferResponse :: bool
  AllowPrivateUpstreams :: bool

record proxy_request =
  lbReq :: lb_request
  reqMethod :: string
  reqHeader :: header
  reqHost :: string
  reqHTTPS :: bool
  reqBody :: req_body

record proxy_env =
  env_parse :: "string \<Rightarrow> url option"
  env_lookup :: "string \<Rightarrow> net_ip list option"
  env_url :: "nat \<Rightarrow> string" \<comment> \<open>the upstream URL built for a backend\<close>
  env_newreq :: "nat \<Rightarrow> bool" \<comment> \<open>whether building the request of an attempt succeeds\<close>
  env_trace :: "nat \<Rightarrow> string" \<comment> \<open>the trace context generated for an attempt\<close>
  env_rt :: "nat \<Rightarrow> nat \<Rightarrow> header \<Rightarrow> round_trip" \<comment> \<open>round trip of an attempt to a backend with these headers\<close>
  env_lower :: "string \<Rightarrow> string"
  env_fold :: "string \<Rightarrow> string \<Rightarrow> bool"

text \<open>What the client gets: an error answer, or a response with its headers, cookie, body and trailers.\<close>

datatype serve_result =
    ServeError nat string
  | ServeResponse int header "http_cookie option" string header
  | ServeTunnel nat

record serve_state =
  st_pool :: "Backend list"
  st_bal :: Balancer
  st_tried :: "nat list"
  st_sent :: "nat list" \<comment> \<open>backends a request was sent to, latest first\<close>

definition em_dash :: string where "em_dash = [CHR 0xE2, CHR 0x80, CHR 0x94]"

definition bad_gateway :: "string \<Rightarrow> string" where
  "bad_gateway detail = ''502 Bad Gateway '' @ em_dash @ '' '' @ detail"

definition ssrf_forbidden :: string where
  "ssrf_forbidden = ''403 Forbidden '' @ em_dash @ '' upstream blocked (SSRF protection)''"

definition maxRetryBodyBytes :: int where "maxRetryBodyBytes = 8 * 2 ^ 20"
definition maxBufferedResponseBytes :: int where "maxBufferedResponseBytes = 16 * 2 ^ 20"

section \<open>Counters\<close>

definition upd :: "nat \<Rightarrow> (Backend \<Rightarrow> Backend) \<Rightarrow> Backend list \<Rightarrow> Backend list" where
  "upd i f pool = pool[i := f (pool ! i)]"

definition conn_open :: "nat \<Rightarrow> Backend list \<Rightarrow> Backend list" where
  "conn_open i pool = upd i (\<lambda>b. b\<lparr>ActiveConns := ActiveConns b + 1, TotalReqs := TotalReqs b + 1\<rparr>) pool"

definition conn_fail :: "nat \<Rightarrow> Backend list \<Rightarrow> Backend list" where
  "conn_fail i pool = upd i (\<lambda>b. b\<lparr>ActiveConns := ActiveConns b - 1, TotalFails := TotalFails b + 1\<rparr>) pool"

definition conn_done :: "nat \<Rightarrow> Backend list \<Rightarrow> Backend list" where
  "conn_done i pool = upd i (\<lambda>b. b\<lparr>ActiveConns := ActiveConns b - 1\<rparr>) pool"

section \<open>Retries\<close>

definition retry_limit :: "proxy_config \<Rightarrow> nat list \<Rightarrow> nat" where
  "retry_limit cfg bs =
     nat (min (if MaxRetries cfg \<le> 0 then 2 else MaxRetries cfg) (int (length bs) - 1))"

text \<open>The body: the error answer, or the number of retries and whether the body is buffered.\<close>

definition prepare_body :: "proxy_config \<Rightarrow> nat list \<Rightarrow> req_body \<Rightarrow> serve_result + nat \<times> bool" where
  "prepare_body cfg bs body =
     (case body of
        NoBody \<Rightarrow> Inr (retry_limit cfg bs, False)
      | ReqBody len contents \<Rightarrow>
          if len < 0 \<or> len > maxRetryBodyBytes then Inr (0, False)
          else case contents of
            None \<Rightarrow> Inl (ServeError 502 ''502 Bad Gateway'')
          | Some n \<Rightarrow>
              if int n > maxRetryBodyBytes then Inl (ServeError 413 ''413 Request Entity Too Large'')
              else Inr (retry_limit cfg bs, True))"

definition pick_backend :: "nat \<Rightarrow> nat list \<Rightarrow> nat list \<Rightarrow> nat \<Rightarrow> nat option" where
  "pick_backend attempt bs tried sel = (if attempt = 0 then Some sel else find (\<lambda>b. b \<notin> set tried) bs)"

section \<open>Answering\<close>

definition useBufferedResponse :: "proxy_config \<Rightarrow> rt_response \<Rightarrow> bool" where
  "useBufferedResponse cfg resp \<longleftrightarrow>
     BufferResponse cfg \<and> rt_length resp \<ge> 0 \<and> rt_length resp \<le> maxBufferedResponseBytes"

definition answer :: "proxy_env \<Rightarrow> proxy_config \<Rightarrow> proxy_request \<Rightarrow> Balancer \<Rightarrow> Backend \<Rightarrow> header \<Rightarrow> rt_response \<Rightarrow> serve_result" where
  "answer env cfg req bal backend own resp =
     (let h = response_headers (env_lower env) (env_fold env) (env_parse env) own (rt_header resp)
                (URL backend) (reqHTTPS req) (reqHost req);
          cookie = map_option (\<lambda>(name, ttl). SetStickyCookie name (Host (URL backend)) ttl (reqHTTPS req))
                     (sticky_options bal)
      in if useBufferedResponse cfg resp then
           (if rt_broken resp then ServeResponse (rt_status resp) h cookie [] []
            else ServeResponse (rt_status resp) h cookie (rt_body resp) (copyTrailers [] (rt_trailer resp)))
         else ServeResponse (rt_status resp) h cookie (rt_body resp) (copyTrailers [] (rt_trailer resp)))"

text \<open>What a failed round trip means: an error answer, or (\<open>None\<close>) another attempt.\<close>

definition after_error :: "proxy_request \<Rightarrow> nat \<Rightarrow> nat \<Rightarrow> upstream_err \<Rightarrow> bool \<Rightarrow> ctx_state \<Rightarrow> serve_result option" where
  "after_error req attempt maxRetries err timedOut ctx =
     (if ctx = CtxDeadline \<or> isTimeoutErr (Some err) \<or> timedOut
      then Some (ServeError 504 ''504 Gateway Timeout'')
      else if ctx \<noteq> CtxAlive then Some (ServeError 502 (bad_gateway (classifyUpstreamErr (Some err))))
      else if attempt < maxRetries \<and> isRetryableError (Some err) \<and> canReplayRequest (reqMethod req) (reqHeader req) err
      then None
      else Some (ServeError 502 (bad_gateway (classifyUpstreamErr (Some err)))))"

definition sent_headers :: "proxy_env \<Rightarrow> proxy_request \<Rightarrow> bool \<Rightarrow> nat \<Rightarrow> header" where
  "sent_headers env req buffered attempt =
     upstream_headers (reqHeader req) buffered (RemoteAddr (lbReq req)) (reqHTTPS req) (reqHost req)
       (env_trace env attempt)"

text \<open>One attempt on a chosen backend: the answer if it is the last, and the state after it.\<close>

definition try_backend ::
  "proxy_env \<Rightarrow> proxy_config \<Rightarrow> proxy_request \<Rightarrow> header \<Rightarrow> bool \<Rightarrow> nat \<Rightarrow> nat \<Rightarrow> nat \<Rightarrow> serve_state \<Rightarrow> serve_result option \<times> serve_state" where
  "try_backend env cfg req own buffered maxRetries attempt i st =
     (let st = st\<lparr>st_tried := i # st_tried st, st_pool := conn_open i (st_pool st)\<rparr> in
      if proxyUpstreamSafetyCheck (env_parse env) (env_lookup env) (AllowPrivateUpstreams cfg) (env_url env i) \<noteq> None
      then (Some (ServeError 403 ssrf_forbidden),
            st\<lparr>st_pool := conn_fail i (st_pool st)\<rparr>)
      else if \<not> env_newreq env attempt
      then (Some (ServeError 502 ''502 Bad Gateway''), st\<lparr>st_pool := conn_fail i (st_pool st)\<rparr>)
      else let st = st\<lparr>st_sent := i # st_sent st\<rparr> in
        case env_rt env attempt i (sent_headers env req buffered attempt) of
          RtErr err timedOut ctx \<Rightarrow>
            (after_error req attempt maxRetries err timedOut ctx, st\<lparr>st_pool := conn_fail i (st_pool st)\<rparr>)
        | RtOk resp \<Rightarrow>
            (Some (answer env cfg req (st_bal st) (st_pool st ! i) own resp),
             st\<lparr>st_pool := conn_done i (st_pool st)\<rparr>))"

function serve_loop ::
  "proxy_env \<Rightarrow> proxy_config \<Rightarrow> proxy_request \<Rightarrow> header \<Rightarrow> bool \<Rightarrow> nat list \<Rightarrow> nat \<Rightarrow> nat \<Rightarrow> serve_state \<Rightarrow> serve_result \<times> serve_state" where
  "serve_loop env cfg req own buffered bs maxRetries attempt st =
     (if attempt > maxRetries then (ServeError 502 (bad_gateway ''all backends failed''), st)
      else case Select (st_bal st) (st_pool st) bs (lbReq req) of
        (bal, None) \<Rightarrow> (ServeError 502 (bad_gateway ''no backend selected''), st\<lparr>st_bal := bal\<rparr>)
      | (bal, Some sel) \<Rightarrow>
          (let st = st\<lparr>st_bal := bal\<rparr> in
           case pick_backend attempt bs (st_tried st) sel of
             None \<Rightarrow> (ServeError 502 (bad_gateway ''all backends failed''), st)
           | Some i \<Rightarrow>
               (case try_backend env cfg req own buffered maxRetries attempt i st of
                  (Some result, st) \<Rightarrow> (result, st)
                | (None, st) \<Rightarrow> serve_loop env cfg req own buffered bs maxRetries (attempt + 1) st)))"
  by pat_completeness auto
termination
  by (relation "measure (\<lambda>(env, cfg, req, own, buffered, bs, maxRetries, attempt, st). Suc maxRetries - attempt)") auto

declare serve_loop.simps [simp del]

text \<open>
  A websocket tunnel is counted for as long as it lasts. What happens on it is the environment's; the
  state after it ended is what counts here, or the answer when the connection could not be taken over.
\<close>

definition serve_websocket :: "bool \<Rightarrow> nat \<Rightarrow> serve_state \<Rightarrow> serve_result \<times> serve_state" where
  "serve_websocket hijacked i st =
     (if \<not> hijacked then (ServeError 500 ''WebSocket hijack not supported'', st)
      else (ServeTunnel i, st\<lparr>st_pool := conn_done i (conn_open i (st_pool st))\<rparr>))"

definition serve_upgrade :: "proxy_env \<Rightarrow> proxy_config \<Rightarrow> proxy_request \<Rightarrow> bool \<Rightarrow> nat list \<Rightarrow> serve_state \<Rightarrow> serve_result \<times> serve_state" where
  "serve_upgrade env cfg req hijacked bs st =
     (case Select (st_bal st) (st_pool st) bs (lbReq req) of
        (bal, None) \<Rightarrow> (ServeError 502 (bad_gateway ''no backend selected''), st\<lparr>st_bal := bal\<rparr>)
      | (bal, Some i) \<Rightarrow>
          (let st = st\<lparr>st_bal := bal\<rparr> in
           if proxyUpstreamSafetyCheck (env_parse env) (env_lookup env) (AllowPrivateUpstreams cfg) (env_url env i) \<noteq> None
           then (ServeError 403 ssrf_forbidden, st)
           else serve_websocket hijacked i (st\<lparr>st_sent := (if hijacked then i # st_sent st else st_sent st)\<rparr>)))"

definition Serve :: "proxy_env \<Rightarrow> proxy_config \<Rightarrow> proxy_request \<Rightarrow> header \<Rightarrow> bool \<Rightarrow> Backend list \<Rightarrow> Balancer \<Rightarrow> serve_result \<times> serve_state" where
  "Serve env cfg req own hijacked pool bal =
     (let bs = Healthy pool;
          st = \<lparr>st_pool = pool, st_bal = bal, st_tried = [], st_sent = []\<rparr>
      in if bs = [] then (ServeError 502 (bad_gateway ''no healthy upstreams''), st)
         else if WebSocket cfg \<and> IsWebSocketUpgrade (reqHeader req) then serve_upgrade env cfg req hijacked bs st
         else case prepare_body cfg bs (reqBody req) of
           Inl result \<Rightarrow> (result, st)
         | Inr (maxRetries, buffered) \<Rightarrow> serve_loop env cfg req own buffered bs maxRetries 0 st)"

section \<open>Accounting\<close>

text \<open>
  The pool after some attempts: nobody's connections are counted any more, every backend tried has one
  more request, and nothing but the counters changed.
\<close>

definition accounted :: "Backend list \<Rightarrow> nat set \<Rightarrow> Backend list \<Rightarrow> bool" where
  "accounted pool0 tried pool \<longleftrightarrow> length pool = length pool0
     \<and> (\<forall>j < length pool0.
          ActiveConns (pool ! j) = ActiveConns (pool0 ! j)
          \<and> TotalReqs (pool ! j) = TotalReqs (pool0 ! j) + (if j \<in> tried then 1 else 0)
          \<and> URL (pool ! j) = URL (pool0 ! j) \<and> Weight (pool ! j) = Weight (pool0 ! j)
          \<and> State (pool ! j) = State (pool0 ! j))"

lemma accounted_refl: "accounted pool {} pool"
  by (simp add: accounted_def)

lemma length_conn [simp]:
  "length (conn_open i pool) = length pool" "length (conn_fail i pool) = length pool"
  "length (conn_done i pool) = length pool"
  by (simp_all add: conn_open_def conn_fail_def conn_done_def upd_def)

lemma accounted_attempt:
  assumes "accounted pool0 T pool" and "i < length pool0" and "i \<notin> T"
  shows "accounted pool0 (insert i T) (conn_fail i (conn_open i pool))"
    and "accounted pool0 (insert i T) (conn_done i (conn_open i pool))"
  using assms
  by (auto simp: accounted_def conn_open_def conn_fail_def conn_done_def upd_def nth_list_update)

abbreviation upstream_safe :: "proxy_env \<Rightarrow> proxy_config \<Rightarrow> nat \<Rightarrow> bool" where
  "upstream_safe env cfg i \<equiv>
     proxyUpstreamSafetyCheck (env_parse env) (env_lookup env) (AllowPrivateUpstreams cfg) (env_url env i) = None"

text \<open>An attempt that failed in a way that allows the request to be sent again.\<close>

definition replayable :: "proxy_env \<Rightarrow> proxy_request \<Rightarrow> bool \<Rightarrow> nat \<Rightarrow> nat \<Rightarrow> bool" where
  "replayable env req buffered k i \<longleftrightarrow>
     (\<exists>err. env_rt env k i (sent_headers env req buffered k) = RtErr err False CtxAlive
        \<and> \<not> isTimeoutErr (Some err) \<and> isRetryableError (Some err)
        \<and> canReplayRequest (reqMethod req) (reqHeader req) err)"

lemma after_error_None:
  "after_error req attempt maxRetries err timedOut ctx = None \<Longrightarrow>
   \<not> timedOut \<and> ctx = CtxAlive \<and> \<not> isTimeoutErr (Some err) \<and> attempt < maxRetries
   \<and> isRetryableError (Some err) \<and> canReplayRequest (reqMethod req) (reqHeader req) err"
  by (auto simp: after_error_def split: if_splits)

lemma try_backend_cases:
  assumes "try_backend env cfg req own buffered maxRetries attempt i st = (result, st')"
    and "accounted pool0 (set (st_tried st)) (st_pool st)" and "i < length pool0" and "i \<notin> set (st_tried st)"
  shows "st_tried st' = i # st_tried st \<and> accounted pool0 (set (st_tried st')) (st_pool st')
    \<and> (st_sent st' = st_sent st \<or> st_sent st' = i # st_sent st \<and> upstream_safe env cfg i)
    \<and> (result = None \<longrightarrow> st_sent st' = i # st_sent st \<and> upstream_safe env cfg i
         \<and> replayable env req buffered attempt i \<and> attempt < maxRetries)"
  using assms(1) accounted_attempt [OF assms(2-4)]
  by (auto simp: try_backend_def Let_def replayable_def dest: after_error_None split: if_splits round_trip.splits)

lemma pick_backend_fresh:
  assumes "pick_backend attempt bs tried sel = Some i" and "sel \<in> set bs" and "attempt = 0 \<longrightarrow> tried = []"
  shows "i \<in> set bs \<and> i \<notin> set tried"
  using assms by (auto simp: pick_backend_def find_Some_iff in_set_conv_nth split: if_splits)

text \<open>Where the loop stands before an attempt, and what it leaves behind.\<close>

definition loop_inv :: "proxy_env \<Rightarrow> proxy_config \<Rightarrow> proxy_request \<Rightarrow> bool \<Rightarrow> nat list \<Rightarrow> Backend list \<Rightarrow> nat \<Rightarrow> serve_state \<Rightarrow> bool" where
  "loop_inv env cfg req buffered bs pool0 attempt st \<longleftrightarrow>
     length (st_tried st) = attempt \<and> st_sent st = st_tried st \<and> distinct (st_tried st)
     \<and> set (st_tried st) \<subseteq> set bs \<and> accounted pool0 (set (st_tried st)) (st_pool st)
     \<and> (\<forall>k < attempt. replayable env req buffered k (rev (st_tried st) ! k))
     \<and> (\<forall>i \<in> set (st_sent st). upstream_safe env cfg i)"

definition loop_post :: "proxy_env \<Rightarrow> proxy_config \<Rightarrow> proxy_request \<Rightarrow> bool \<Rightarrow> nat list \<Rightarrow> Backend list \<Rightarrow> nat \<Rightarrow> serve_state \<Rightarrow> bool" where
  "loop_post env cfg req buffered bs pool0 maxRetries st \<longleftrightarrow>
     length (st_tried st) \<le> Suc maxRetries \<and> st_sent st \<in> {st_tried st, tl (st_tried st)} \<and> distinct (st_tried st)
     \<and> set (st_tried st) \<subseteq> set bs \<and> accounted pool0 (set (st_tried st)) (st_pool st)
     \<and> (\<forall>k. Suc k < length (st_tried st) \<longrightarrow> replayable env req buffered k (rev (st_tried st) ! k))
     \<and> (\<forall>i \<in> set (st_sent st). upstream_safe env cfg i)"

lemma loop_inv_post: "loop_inv env cfg req buffered bs pool0 attempt st \<Longrightarrow> attempt \<le> Suc maxRetries \<Longrightarrow> loop_post env cfg req buffered bs pool0 maxRetries st"
  by (auto simp: loop_inv_def loop_post_def)

lemma loop_inv_bal: "loop_inv env cfg req buffered bs pool0 attempt (st\<lparr>st_bal := b\<rparr>) \<longleftrightarrow> loop_inv env cfg req buffered bs pool0 attempt st"
  by (simp add: loop_inv_def)

lemma serve_loop_post:
  "loop_inv env cfg req buffered bs pool0 attempt st \<Longrightarrow> attempt \<le> Suc maxRetries \<Longrightarrow>
   length bs < 2 ^ 32 \<Longrightarrow> set bs \<subseteq> {..<length pool0} \<Longrightarrow>
   loop_post env cfg req buffered bs pool0 maxRetries (snd (serve_loop env cfg req own buffered bs maxRetries attempt st))"
proof (induction env cfg req own buffered bs maxRetries attempt st rule: serve_loop.induct)
  case (1 env cfg req own buffered bs maxRetries attempt st)
  note [simp] = serve_loop.simps [of env cfg req own buffered bs maxRetries attempt st]
  show ?case
  proof (cases "attempt > maxRetries")
    case True
    with "1.prems" show ?thesis by (auto intro: loop_inv_post)
  next
    case att: False
    obtain bal sel where s: "Select (st_bal st) (st_pool st) bs (lbReq req) = (bal, sel)" by fastforce
    define st1 where "st1 = st\<lparr>st_bal := bal\<rparr>"
    have inv1: "loop_inv env cfg req buffered bs pool0 attempt st1"
      using "1.prems"(1) by (simp add: st1_def loop_inv_bal)
    show ?thesis
    proof (cases sel)
      case None
      with att s inv1 "1.prems"(2) show ?thesis by (auto simp: st1_def intro: loop_inv_post)
    next
      case sel: (Some j)
      from s sel have j: "j \<in> set bs" using lb.sel_in [OF "1.prems"(3), of "st_bal st" "st_pool st" "lbReq req" j] by simp
      show ?thesis
      proof (cases "pick_backend attempt bs (st_tried st1) j")
        case None
        with att s sel inv1 "1.prems"(2) show ?thesis by (auto simp: st1_def Let_def intro: loop_inv_post)
      next
        case pick: (Some i)
        have i: "i \<in> set bs" "i \<notin> set (st_tried st1)"
          using pick_backend_fresh [OF pick j] inv1 by (auto simp: loop_inv_def)
        obtain result st2 where t: "try_backend env cfg req own buffered maxRetries attempt i st1 = (result, st2)" by fastforce
        have facts: "st_tried st2 = i # st_tried st1 \<and> accounted pool0 (set (st_tried st2)) (st_pool st2)
            \<and> (st_sent st2 = st_sent st1 \<or> st_sent st2 = i # st_sent st1 \<and> upstream_safe env cfg i)
            \<and> (result = None \<longrightarrow> st_sent st2 = i # st_sent st1 \<and> upstream_safe env cfg i
                 \<and> replayable env req buffered attempt i \<and> attempt < maxRetries)"
          using inv1 i "1.prems"(4) by (intro try_backend_cases [OF t]) (auto simp: loop_inv_def)
        have step: "serve_loop env cfg req own buffered bs maxRetries attempt st =
            (case result of Some r \<Rightarrow> (r, st2) | None \<Rightarrow> serve_loop env cfg req own buffered bs maxRetries (attempt + 1) st2)"
          using att s sel pick t by (simp add: st1_def Let_def split: option.split)
        have rev_nth: "rev (st_tried st2) ! k = rev (st_tried st1) ! k" if "k < attempt" for k
          using that facts inv1 by (simp add: nth_append loop_inv_def)
        show ?thesis
        proof (cases result)
          case (Some r)
          have "loop_post env cfg req buffered bs pool0 maxRetries st2"
            using facts inv1 i att rev_nth by (auto simp: loop_post_def loop_inv_def)
          with Some step show ?thesis by simp
        next
          case None
          have "rev (st_tried st2) ! attempt = i" using facts inv1 by (simp add: nth_append loop_inv_def)
          with None facts inv1 i rev_nth have inv2: "loop_inv env cfg req buffered bs pool0 (attempt + 1) st2"
            by (auto simp: loop_inv_def less_Suc_eq)
          have "loop_post env cfg req buffered bs pool0 maxRetries
              (snd (serve_loop env cfg req own buffered bs maxRetries (attempt + 1) st2))"
            using "1.IH" [OF att s [symmetric] sel st1_def pick t [symmetric] None inv2] "1.prems"(3,4) None facts
            by simp
          with None step show ?thesis by simp
        qed
      qed
    qed
  qed
qed

lemma loop_start:
  "loop_inv env cfg req buffered bs pool 0 \<lparr>st_pool = pool, st_bal = bal, st_tried = [], st_sent = []\<rparr>"
  by (simp add: loop_inv_def accounted_refl)

lemma Healthy_bounds: "length pool < 2 ^ 32 \<Longrightarrow> length (Healthy pool) < 2 ^ 32 \<and> set (Healthy pool) \<subseteq> {..<length pool}"
  using length_filter_le [of "\<lambda>i. IsHealthy (pool ! i)" "[0..<length pool]"] by (auto simp: Healthy_def)

lemma Serve_http:
  assumes "length pool < 2 ^ 32" and "\<not> (WebSocket cfg \<and> IsWebSocketUpgrade (reqHeader req))"
    and "Serve env cfg req own hijacked pool bal = (result, st)"
  shows "\<exists>maxRetries buffered. loop_post env cfg req buffered (Healthy pool) pool maxRetries st
    \<and> maxRetries \<le> retry_limit cfg (Healthy pool)"
proof -
  let ?bs = "Healthy pool" and ?st = "\<lparr>st_pool = pool, st_bal = bal, st_tried = [], st_sent = []\<rparr>"
  have start: "loop_post env cfg req buffered ?bs pool m ?st" for buffered m
    using loop_inv_post [OF loop_start] by blast
  show ?thesis
  proof (cases "?bs = [] \<or> (\<exists>r. prepare_body cfg ?bs (reqBody req) = Inl r)")
    case True
    with assms(2,3) have "st = ?st" by (auto simp: Serve_def Let_def split: if_splits)
    with start [of False 0] show ?thesis by blast
  next
    case False
    then obtain m buffered where p: "prepare_body cfg ?bs (reqBody req) = Inr (m, buffered)"
      by (cases "prepare_body cfg ?bs (reqBody req)") auto
    have "m \<le> retry_limit cfg ?bs"
      using p by (auto simp: prepare_body_def split: req_body.splits option.splits if_splits)
    moreover have "st = snd (serve_loop env cfg req own buffered ?bs m 0 ?st)"
      using False p assms(2,3) by (auto simp: Serve_def Let_def)
    moreover have "loop_post env cfg req buffered ?bs pool m (snd (serve_loop env cfg req own buffered ?bs m 0 ?st))"
      using Healthy_bounds [OF assms(1)] by (intro serve_loop_post [OF loop_start]) auto
    ultimately show ?thesis by blast
  qed
qed

section \<open>Properties\<close>

text \<open>
  C17. Counters balance. However a proxied request ends (refused, answered, retried over several backends,
  timed out, tunnelled), every backend is left with the number of open connections it had before, one
  more request exactly if it was tried, and everything else unchanged.
\<close>

theorem Serve_counters_balance:
  assumes "length pool < 2 ^ 32" and "Serve env cfg req own hijacked pool bal = (result, st)"
  shows "accounted pool (set (st_tried st) \<union> set (st_sent st)) (st_pool st)"
proof (cases "WebSocket cfg \<and> IsWebSocketUpgrade (reqHeader req)")
  case False
  from Serve_http [OF assms(1) False assms(2)] obtain m buffered
    where p: "loop_post env cfg req buffered (Healthy pool) pool m st" by blast
  then have "set (st_sent st) \<subseteq> set (st_tried st)"
    by (cases "st_tried st") (auto simp: loop_post_def)
  with p show ?thesis by (simp add: loop_post_def Un_absorb2)
next
  case True
  let ?st = "\<lparr>st_pool = pool, st_bal = bal, st_tried = [], st_sent = []\<rparr>"
  obtain b sel where s: "Select bal pool (Healthy pool) (lbReq req) = (b, sel)" by fastforce
  have i: "i < length pool" if "sel = Some i" for i
    using lb.sel_healthy [OF assms(1), of bal "lbReq req" i] s that by simp
  show ?thesis
    using True assms(2) s accounted_attempt(2) [OF accounted_refl, of _ pool] i
    by (auto simp: Serve_def Let_def serve_upgrade_def serve_websocket_def accounted_refl
        split: if_splits option.splits)
qed

definition demo_env :: "round_trip \<Rightarrow> proxy_env" where
  "demo_env rt = \<lparr>env_parse = (\<lambda>_. Some \<lparr>Scheme = ''http'', Host = ''127.0.0.1:80''\<rparr>), env_lookup = (\<lambda>_. None),
     env_url = (\<lambda>_. ''http://127.0.0.1:80''), env_newreq = (\<lambda>_. True), env_trace = (\<lambda>_. ''t''),
     env_rt = (\<lambda>_ _ _. rt), env_lower = (\<lambda>s. s), env_fold = (\<lambda>_ _. False)\<rparr>"

definition demo_config :: proxy_config where
  "demo_config = \<lparr>MaxRetries = 0, WebSocket = False, BufferResponse = False, AllowPrivateUpstreams = False\<rparr>"

definition demo_proxy_request :: proxy_request where
  "demo_proxy_request = \<lparr>lbReq = demo_request [], reqMethod = ''POST'', reqHeader = [], reqHost = ''site'',
     reqHTTPS = False, reqBody = NoBody\<rparr>"

definition refused_err :: upstream_err where
  "refused_err = \<lparr>err_text = ''dial: connection refused'', is_deadline = False, as_net_timeout = False,
     is_net_error = True, as_dial = True\<rparr>"

definition demo_pool :: "Backend list" where
  "demo_pool = [demo_backend ''a'' 1, demo_backend ''b'' 1]"

lemma demo_safe: "upstream_safe (demo_env rt) demo_config i"
proof -
  have "proxyUpstreamSafetyCheck (\<lambda>_. Some \<lparr>Scheme = ''http'', Host = ''127.0.0.1:80''\<rparr>) (\<lambda>_. None) False ''http://127.0.0.1:80'' = None"
    by code_simp
  then show ?thesis by (simp add: demo_env_def demo_config_def)
qed

lemma demo_after: "after_error demo_proxy_request n m refused_err False CtxAlive =
    (if n < m then None else Some (ServeError 502 (bad_gateway ''upstream refused connection'')))"
proof -
  have "classifyUpstreamErr (Some refused_err) = ''upstream refused connection''" by code_simp
  moreover have "isRetryableError (Some refused_err)" "canReplayRequest ''POST'' [] refused_err" "\<not> isTimeoutErr (Some refused_err)"
    by code_simp+
  ultimately show ?thesis by (simp add: after_error_def demo_proxy_request_def)
qed

lemma demo_serve:
  "Serve (demo_env (RtErr refused_err False CtxAlive)) demo_config demo_proxy_request [] False demo_pool LeastConn =
     (ServeError 502 (bad_gateway ''upstream refused connection''),
      \<lparr>st_pool = conn_fail 1 (conn_open 1 (conn_fail 0 (conn_open 0 demo_pool))), st_bal = LeastConn,
       st_tried = [1, 0], st_sent = [1, 0]\<rparr>)"
proof -
  let ?env = "demo_env (RtErr refused_err False CtxAlive)"
  have env: "env_newreq ?env k" "env_rt ?env k i h = RtErr refused_err False CtxAlive" for k i h
    by (simp_all add: demo_env_def)
  have h: "Healthy demo_pool = [0, 1]" by code_simp
  have p: "prepare_body demo_config [0, 1] (reqBody demo_proxy_request) = Inr (1, False)" by code_simp
  have w: "\<not> WebSocket demo_config" by (simp add: demo_config_def)
  note unfold = try_backend_def Let_def demo_safe env demo_after pick_backend_def LeastConn_Select_def
  have "serve_loop ?env demo_config demo_proxy_request [] False [0, 1] 1 1
      \<lparr>st_pool = conn_fail 0 (conn_open 0 demo_pool), st_bal = LeastConn, st_tried = [0], st_sent = [0]\<rparr>
    = (ServeError 502 (bad_gateway ''upstream refused connection''),
       \<lparr>st_pool = conn_fail 1 (conn_open 1 (conn_fail 0 (conn_open 0 demo_pool))), st_bal = LeastConn,
        st_tried = [1, 0], st_sent = [1, 0]\<rparr>)"
    by (subst serve_loop.simps) (simp add: unfold)
  moreover have "ActiveConns (demo_pool ! 0) = 0" "ActiveConns (demo_pool ! Suc 0) = 0" by code_simp+
  ultimately show ?thesis
    by (simp add: Serve_def Let_def h p w del: One_nat_def) (subst serve_loop.simps, simp add: unfold)
qed

theorem Serve_counters_balance_witness:
  "accounted demo_pool {0, 1} (conn_fail 1 (conn_open 1 (conn_fail 0 (conn_open 0 demo_pool))))"
proof -
  have "insert 1 {0} = {0, 1 :: nat}" by auto
  then show ?thesis
    using Serve_counters_balance [OF _ demo_serve] by (simp add: demo_pool_def)
qed

lemma replayable_cases:
  assumes "replayable env req buffered k i"
  shows "\<exists>err. env_rt env k i (sent_headers env req buffered k) = RtErr err False CtxAlive
    \<and> isRetryableError (Some err)
    \<and> (as_dial err \<or> reqMethod req \<in> {''GET'', ''HEAD'', ''OPTIONS'', ''TRACE'', ''PUT'', ''DELETE''}
       \<or> HeaderGet (reqHeader req) ''Idempotency-Key'' \<noteq> []
       \<or> HeaderGet (reqHeader req) ''X-Idempotency-Key'' \<noteq> [])"
proof -
  from assms obtain err where e: "env_rt env k i (sent_headers env req buffered k) = RtErr err False CtxAlive"
      "isRetryableError (Some err)" "canReplayRequest (reqMethod req) (reqHeader req) err"
    by (auto simp: replayable_def)
  from e(3) have "as_dial err \<or> reqMethod req \<in> {''GET'', ''HEAD'', ''OPTIONS'', ''TRACE'', ''PUT'', ''DELETE''}
      \<or> HeaderGet (reqHeader req) ''Idempotency-Key'' \<noteq> [] \<or> HeaderGet (reqHeader req) ''X-Idempotency-Key'' \<noteq> []"
    unfolding canReplayRequest_def by (simp only: simp_thms split: if_splits)
  with e(1,2) show ?thesis by blast
qed

text \<open>
  C18. Retries. A request is sent only to distinct healthy backends that pass the address check, at most
  once more than the configured number of retries and never more often than there are healthy backends;
  it is sent again only after a retryable failure of a live client's request, and if its method is not
  idempotent and it has no idempotency key, only after a failure to connect.
\<close>

theorem Serve_retries_safe:
  assumes "length pool < 2 ^ 32" and "\<not> (WebSocket cfg \<and> IsWebSocketUpgrade (reqHeader req))"
    and "Serve env cfg req own hijacked pool bal = (result, st)"
  shows "distinct (st_sent st) \<and> set (st_sent st) \<subseteq> set (Healthy pool)
    \<and> length (st_sent st) \<le> Suc (retry_limit cfg (Healthy pool))
    \<and> (\<forall>i \<in> set (st_sent st). upstream_safe env cfg i)
    \<and> (\<exists>buffered. \<forall>k. Suc k < length (st_sent st) \<longrightarrow>
         (\<exists>err. env_rt env k (rev (st_sent st) ! k) (sent_headers env req buffered k) = RtErr err False CtxAlive
            \<and> isRetryableError (Some err)
            \<and> (as_dial err \<or> reqMethod req \<in> {''GET'', ''HEAD'', ''OPTIONS'', ''TRACE'', ''PUT'', ''DELETE''}
               \<or> HeaderGet (reqHeader req) ''Idempotency-Key'' \<noteq> []
               \<or> HeaderGet (reqHeader req) ''X-Idempotency-Key'' \<noteq> [])))"
proof -
  from Serve_http [OF assms] obtain m buffered
    where p: "loop_post env cfg req buffered (Healthy pool) pool m st"
      and m: "m \<le> retry_limit cfg (Healthy pool)" by blast
  have sub: "distinct (st_sent st)" "set (st_sent st) \<subseteq> set (st_tried st)" "length (st_sent st) \<le> length (st_tried st)"
    using p by (cases "st_tried st"; auto simp: loop_post_def)+
  have nth: "rev (st_sent st) ! k = rev (st_tried st) ! k" if "k < length (st_sent st)" for k
    using p that by (cases "st_tried st") (auto simp: loop_post_def nth_append)
  have replay: "replayable env req buffered k (rev (st_sent st) ! k)" if "Suc k < length (st_sent st)" for k
    using p that nth [of k] sub(3) by (auto simp: loop_post_def)
  note sends_again = replayable_cases [OF replay]
  have "set (st_tried st) \<subseteq> set (Healthy pool)" "length (st_tried st) \<le> Suc m"
      "\<forall>i \<in> set (st_sent st). upstream_safe env cfg i" using p by (simp_all add: loop_post_def)
  then show ?thesis using sub m by (intro conjI exI [of _ buffered] allI impI sends_again) auto
qed

theorem Serve_retries_safe_witness:
  "length [1, 0 :: nat] \<le> Suc (retry_limit demo_config (Healthy demo_pool)) \<and> set [1, 0] \<subseteq> set (Healthy demo_pool)"
  using Serve_retries_safe [OF _ _ demo_serve] by (simp add: demo_pool_def demo_config_def)

end
