(* ===== verification/Proxy_Health.thy ===== *)
theory Proxy_Health
  imports Proxy_Balancer Go_Http
begin

text \<open>
  Active health checks, \<open>internal/handler/proxy/health.go\<close>: the counters behind a backend's state, the
  generations that make the results of an earlier run void, and the starting and stopping of runs. The
  probe itself is an outcome (whether the URL may be dialled, whether the exchange failed, the status);
  results arrive in any order, as the probes of a round run concurrently.
\<close>

section \<open>State\<close>

record HealthConfig =
  cfgPath :: string
  cfgInterval :: duration
  cfgTimeout :: duration
  cfgThreshold :: int
  cfgRise :: int

record HealthChecker =
  path :: string
  interval :: duration
  probeTimeout :: duration
  failThreshold :: int
  rise :: int
  failCount :: "nat \<Rightarrow> int" \<comment> \<open>a Go map: an absent backend reads as 0\<close>
  successes :: "nat \<Rightarrow> int"
  cancelSet :: bool \<comment> \<open>\<open>cancel != nil\<close>\<close>
  generation :: u64

definition health_path :: "string \<Rightarrow> string" where
  "health_path p =
     (case p of [] \<Rightarrow> ''/'' | c # _ \<Rightarrow> if c \<noteq> CHR ''/'' \<and> c \<noteq> CHR ''?'' then ''/'' @ p else p)"

definition NewHealthChecker :: "HealthConfig \<Rightarrow> HealthChecker" where
  "NewHealthChecker cfg =
     \<lparr>path = health_path (cfgPath cfg),
      interval = (if cfgInterval cfg \<le> 0 then 10 * 1000000000 else cfgInterval cfg),
      probeTimeout = (if cfgTimeout cfg \<le> 0 then 5 * 1000000000 else cfgTimeout cfg),
      failThreshold = (if cfgThreshold cfg \<le> 0 then 3 else cfgThreshold cfg),
      rise = (if cfgRise cfg \<le> 0 then 2 else cfgRise cfg),
      failCount = (\<lambda>_. 0), successes = (\<lambda>_. 0), cancelSet = False, generation = 0\<rparr>"

section \<open>Runs\<close>

text \<open>\<open>Start\<close> gives the generation its worker runs with, or \<open>None\<close> when a run is on already.\<close>

definition Start :: "HealthChecker \<Rightarrow> HealthChecker \<times> u64 option" where
  "Start hc = (if cancelSet hc then (hc, None) else (hc\<lparr>cancelSet := True\<rparr>, Some (generation hc)))"

definition worker_exit :: "u64 \<Rightarrow> HealthChecker \<Rightarrow> HealthChecker" where
  "worker_exit g hc = (if generation hc = g then hc\<lparr>cancelSet := False\<rparr> else hc)"

definition Stop :: "HealthChecker \<Rightarrow> HealthChecker" where
  "Stop hc = hc\<lparr>cancelSet := False, generation := generation hc + 1, failCount := (\<lambda>_. 0), successes := (\<lambda>_. 0)\<rparr>"

section \<open>Results\<close>

definition recordFailureLocked :: "nat \<Rightarrow> HealthChecker \<times> Backend list \<Rightarrow> HealthChecker \<times> Backend list" where
  "recordFailureLocked b st =
     (let hc = (fst st)\<lparr>successes := (successes (fst st))(b := 0),
                        failCount := (failCount (fst st))(b := failCount (fst st) b + 1)\<rparr>;
          pool = snd st
      in if failCount hc b \<ge> failThreshold hc \<and> IsHealthy (pool ! b)
         then (hc, pool[b := SetState StateUnhealthy (pool ! b)]) else (hc, pool))"

definition recordSuccessLocked :: "nat \<Rightarrow> HealthChecker \<times> Backend list \<Rightarrow> HealthChecker \<times> Backend list" where
  "recordSuccessLocked b st =
     (let hc = (fst st)\<lparr>failCount := (failCount (fst st))(b := 0),
                        successes := (successes (fst st))(b := successes (fst st) b + 1)\<rparr>;
          pool = snd st
      in if successes hc b \<ge> rise hc \<and> State (pool ! b) = StateUnhealthy
         then (hc, pool[b := SetState StateHealthy (pool ! b)]) else (hc, pool))"

definition probe_url :: "HealthChecker \<Rightarrow> string \<Rightarrow> string" where
  "probe_url hc url = TrimRightSet url {CHR ''/''} @ path hc"

text \<open>A probe: refused before dialling, failed on the way, or answered with a status.\<close>

datatype probe = ProbeUnsafe | ProbeError | ProbeBodyError | ProbeStatus int

definition probe_success :: "probe \<Rightarrow> bool" where
  "probe_success p = (case p of ProbeStatus code \<Rightarrow> code \<ge> 200 \<and> code < 400 | _ \<Rightarrow> False)"

definition checkOneGeneration :: "nat \<Rightarrow> u64 \<Rightarrow> probe \<Rightarrow> HealthChecker \<times> Backend list \<Rightarrow> HealthChecker \<times> Backend list" where
  "checkOneGeneration b g p st =
     (if g \<noteq> generation (fst st) then st
      else if probe_success p then recordSuccessLocked b st else recordFailureLocked b st)"

definition checkOne :: "nat \<Rightarrow> probe \<Rightarrow> HealthChecker \<times> Backend list \<Rightarrow> HealthChecker \<times> Backend list" where
  "checkOne b p st = checkOneGeneration b (generation (fst st)) p st"

text \<open>The backends a round probes, and the round with the results in the order they arrive.\<close>

definition probed :: "Backend list \<Rightarrow> nat list" where
  "probed pool = filter (\<lambda>b. State (pool ! b) \<noteq> StateDraining) (All pool)"

definition checkAllGeneration :: "u64 \<Rightarrow> (nat \<times> probe) list \<Rightarrow> HealthChecker \<times> Backend list \<Rightarrow> HealthChecker \<times> Backend list" where
  "checkAllGeneration g results st = fold (\<lambda>(b, p). checkOneGeneration b g p) results st"

section \<open>Hysteresis\<close>

text \<open>
  The reference: a backend is out once the threshold of failures in a row was seen and, since then, not
  the rise of successes in a row.
\<close>

definition flagged :: "nat \<Rightarrow> nat \<Rightarrow> bool list \<Rightarrow> bool" where
  "flagged thr up os \<longleftrightarrow> (\<exists>pre post. os = pre @ replicate thr False @ post \<and> \<not> sublist (replicate up True) post)"

definition run_of :: "bool \<Rightarrow> bool list \<Rightarrow> nat" where
  "run_of v os = length (takeWhile (\<lambda>x. x = v) (rev os))"

lemma run_of_snoc: "run_of v (os @ [x]) = (if x = v then Suc (run_of v os) else 0)"
  by (simp add: run_of_def)

lemma suffix_run: "suffix (replicate n v) os \<longleftrightarrow> n \<le> run_of v os"
proof (induction os arbitrary: n rule: rev_induct)
  case Nil
  then show ?case by (simp add: run_of_def)
next
  case (snoc x os)
  show ?case
  proof (cases n)
    case (Suc m)
    then have "replicate n v = replicate m v @ [v]" by (simp add: replicate_append_same)
    then show ?thesis using snoc [of m] Suc by (auto simp: run_of_snoc)
  qed simp
qed

lemma run_of_append: "\<not> v = w \<Longrightarrow> 0 < n \<Longrightarrow> run_of v (pre @ replicate n w @ post) = run_of v post"
proof (induction post rule: rev_induct)
  case Nil
  then obtain m where "n = Suc m" by (cases n) auto
  then have "replicate n w = replicate m w @ [w]" by (simp add: replicate_append_same)
  with Nil show ?case using run_of_snoc [of v "pre @ replicate m w" w] by (simp add: run_of_def)
next
  case (snoc x post)
  then show ?case
    using run_of_snoc [of v "pre @ replicate n w @ post" x] by (simp add: run_of_snoc)
qed

lemma sublist_replicate_snoc:
  "0 < n \<Longrightarrow> sublist (replicate n v) (os @ [x]) \<longleftrightarrow> sublist (replicate n v) os \<or> n \<le> run_of v (os @ [x])"
proof -
  assume "0 < n"
  then have "sublist (replicate n v) (os @ [x]) \<longleftrightarrow> suffix (replicate n v) (os @ [x]) \<or> sublist (replicate n v) os"
    by (simp only: sublist_snoc)
  then show ?thesis by (simp only: suffix_run disj_commute)
qed

lemma flagged_failure:
  assumes "0 < thr" and "0 < up"
  shows "flagged thr up (os @ [False]) \<longleftrightarrow> flagged thr up os \<or> thr \<le> run_of False (os @ [False])"
proof
  assume "flagged thr up (os @ [False])"
  then obtain pre post where p: "os @ [False] = pre @ replicate thr False @ post" "\<not> sublist (replicate up True) post"
    by (auto simp: flagged_def)
  show "flagged thr up os \<or> thr \<le> run_of False (os @ [False])"
  proof (cases post rule: rev_cases)
    case Nil
    with p(1) have "suffix (replicate thr False) (os @ [False])" by (auto simp: suffix_def)
    then show ?thesis by (simp only: suffix_run simp_thms)
  next
    case (snoc post' x)
    with p have "os = pre @ replicate thr False @ post'" "\<not> sublist (replicate up True) post'"
      using assms(2) by (auto simp: sublist_replicate_snoc)
    then show ?thesis by (auto simp: flagged_def)
  qed
next
  assume "flagged thr up os \<or> thr \<le> run_of False (os @ [False])"
  then show "flagged thr up (os @ [False])"
  proof
    assume "flagged thr up os"
    then obtain pre post where "os = pre @ replicate thr False @ post" "\<not> sublist (replicate up True) post"
      by (auto simp: flagged_def)
    then have "os @ [False] = pre @ replicate thr False @ (post @ [False])" "\<not> sublist (replicate up True) (post @ [False])"
      using assms(2) by (auto simp: sublist_replicate_snoc run_of_snoc)
    then show ?thesis unfolding flagged_def by blast
  next
    assume "thr \<le> run_of False (os @ [False])"
    then have "suffix (replicate thr False) (os @ [False])" by (simp only: suffix_run)
    then obtain pre where "os @ [False] = pre @ replicate thr False @ []" by (auto simp: suffix_def)
    moreover have "\<not> sublist (replicate up True) []" using assms(2) by simp
    ultimately show ?thesis unfolding flagged_def by blast
  qed
qed

lemma flagged_success:
  assumes "0 < thr" and "0 < up"
  shows "flagged thr up (os @ [True]) \<longleftrightarrow> flagged thr up os \<and> run_of True (os @ [True]) < up"
proof
  assume "flagged thr up (os @ [True])"
  then obtain pre post where p: "os @ [True] = pre @ replicate thr False @ post" "\<not> sublist (replicate up True) post"
    by (auto simp: flagged_def)
  from p(1) assms(1) obtain post' where post: "post = post' @ [True]"
    by (cases post rule: rev_cases) (auto simp: replicate_append_same [symmetric] gr0_conv_Suc)
  with p have "os = pre @ replicate thr False @ post'" "\<not> sublist (replicate up True) post'"
      "run_of True (post' @ [True]) < up"
    using assms(2) by (auto simp: sublist_replicate_snoc)
  moreover from this(1) have "run_of True (os @ [True]) = run_of True (post' @ [True])"
    using assms(1) by (simp add: run_of_snoc run_of_append)
  ultimately show "flagged thr up os \<and> run_of True (os @ [True]) < up" by (auto simp: flagged_def)
next
  assume r: "flagged thr up os \<and> run_of True (os @ [True]) < up"
  then obtain pre post where p: "os = pre @ replicate thr False @ post" "\<not> sublist (replicate up True) post"
    by (auto simp: flagged_def)
  moreover from p(1) have "run_of True (os @ [True]) = run_of True (post @ [True])"
    using assms(1) by (simp add: run_of_snoc run_of_append)
  ultimately have "os @ [True] = pre @ replicate thr False @ (post @ [True])"
      "\<not> sublist (replicate up True) (post @ [True])"
    using r assms(2) by (auto simp: sublist_replicate_snoc)
  then show "flagged thr up (os @ [True])" unfolding flagged_def by blast
qed

lemma flagged_Nil: "0 < thr \<Longrightarrow> \<not> flagged thr up []"
  by (auto simp: flagged_def)

section \<open>Properties\<close>

type_synonym health_event = "nat \<times> u64 \<times> probe"

definition health_events :: "health_event list \<Rightarrow> HealthChecker \<times> Backend list \<Rightarrow> HealthChecker \<times> Backend list" where
  "health_events es st = fold (\<lambda>(b, g, p). checkOneGeneration b g p) es st"

text \<open>The results that count for a backend: its own, of the current generation.\<close>

definition outcomes :: "nat \<Rightarrow> u64 \<Rightarrow> health_event list \<Rightarrow> bool list" where
  "outcomes i g es = map (\<lambda>(b, g', p). probe_success p) (filter (\<lambda>(b, g', p). b = i \<and> g' = g) es)"

lemma health_events_snoc:
  "health_events (es @ [(b, g, p)]) st = checkOneGeneration b g p (health_events es st)"
  by (simp add: health_events_def)

lemma outcomes_snoc:
  "outcomes i g (es @ [(b, g', p)]) =
     (if b = i \<and> g' = g then outcomes i g es @ [probe_success p] else outcomes i g es)"
  by (simp add: outcomes_def)

lemmas check_defs = checkOneGeneration_def recordSuccessLocked_def recordFailureLocked_def Let_def SetState_def

lemma check_frame:
  assumes "checkOneGeneration b g p (hc, pool) = (hc', pool')"
  shows "generation hc' = generation hc \<and> failThreshold hc' = failThreshold hc \<and> rise hc' = rise hc
    \<and> length pool' = length pool
    \<and> (i \<noteq> b \<or> g \<noteq> generation hc \<longrightarrow>
        failCount hc' i = failCount hc i \<and> successes hc' i = successes hc i \<and> pool' ! i = pool ! i)"
  using assms by (auto simp: check_defs split: if_splits)

lemma check_counts:
  assumes "checkOneGeneration i (generation hc) p (hc, pool) = (hc', pool')" and "i < length pool"
  shows "failCount hc' i = (if probe_success p then 0 else failCount hc i + 1)
    \<and> successes hc' i = (if probe_success p then successes hc i + 1 else 0)
    \<and> State (pool' ! i) =
        (if probe_success p \<and> State (pool ! i) = StateUnhealthy \<and> successes hc i + 1 \<ge> rise hc then StateHealthy
         else if \<not> probe_success p \<and> State (pool ! i) = StateHealthy \<and> failCount hc i + 1 \<ge> failThreshold hc
         then StateUnhealthy else State (pool ! i))"
  using assms by (auto simp: check_defs IsHealthy_def split: if_splits)

lemma health_run:
  assumes "i < length pool" and "failCount hc i = 0" and "successes hc i = 0"
    and "0 < failThreshold hc" and "0 < rise hc"
    and "health_events es (hc, pool) = (hc', pool')"
  shows "generation hc' = generation hc \<and> failThreshold hc' = failThreshold hc \<and> rise hc' = rise hc
    \<and> length pool' = length pool
    \<and> failCount hc' i = int (run_of False (outcomes i (generation hc) es))
    \<and> successes hc' i = int (run_of True (outcomes i (generation hc) es))
    \<and> (State (pool ! i) = StateDraining \<longrightarrow> State (pool' ! i) = StateDraining)
    \<and> (State (pool ! i) = StateHealthy \<longrightarrow>
        State (pool' ! i) =
          (if flagged (nat (failThreshold hc)) (nat (rise hc)) (outcomes i (generation hc) es)
           then StateUnhealthy else StateHealthy))"
  using assms(6)
proof (induction es arbitrary: hc' pool' rule: rev_induct)
  case Nil
  with assms show ?case by (auto simp: health_events_def outcomes_def run_of_def flagged_Nil)
next
  case (snoc e es)
  obtain b g p where e: "e = (b, g, p)" by (cases e)
  obtain hc1 pool1 where st: "health_events es (hc, pool) = (hc1, pool1)" by fastforce
  note ih = snoc.IH [OF st]
  let ?os = "outcomes i (generation hc) es"
  have step: "checkOneGeneration b g p (hc1, pool1) = (hc', pool')"
    using snoc.prems e st by (simp add: health_events_snoc)
  note frame = check_frame [OF step, of i]
  show ?case
  proof (cases "b = i \<and> g = generation hc")
    case False
    with frame ih e show ?thesis by (auto simp: outcomes_snoc)
  next
    case True
    have counts: "failCount hc' i = (if probe_success p then 0 else failCount hc1 i + 1)
        \<and> successes hc' i = (if probe_success p then successes hc1 i + 1 else 0)
        \<and> State (pool' ! i) =
            (if probe_success p \<and> State (pool1 ! i) = StateUnhealthy \<and> successes hc1 i + 1 \<ge> rise hc1 then StateHealthy
             else if \<not> probe_success p \<and> State (pool1 ! i) = StateHealthy \<and> failCount hc1 i + 1 \<ge> failThreshold hc1
             then StateUnhealthy else State (pool1 ! i))"
      using True step ih assms(1) by (intro check_counts) auto
    have os: "outcomes i (generation hc) (es @ [e]) = ?os @ [probe_success p]"
      using True e by (simp add: outcomes_snoc)
    have pos: "0 < nat (failThreshold hc)" "0 < nat (rise hc)" using assms(4,5) by simp_all
    show ?thesis
    proof (cases "probe_success p")
      case True
      then show ?thesis unfolding os
        using counts ih frame assms(4,5) flagged_success [OF pos, of ?os]
        by (auto simp: run_of_snoc nat_le_iff)
    next
      case False
      then show ?thesis unfolding os
        using counts ih frame assms(4,5) flagged_failure [OF pos, of ?os]
        by (auto simp: run_of_snoc nat_le_iff)
    qed
  qed
qed


definition demo_health :: HealthChecker where
  "demo_health = NewHealthChecker \<lparr>cfgPath = ''health'', cfgInterval = 0, cfgTimeout = 0, cfgThreshold = 2, cfgRise = 1\<rparr>"


end
