(* ===== verification/Router_Unknown.thy ===== *)
theory Router_Unknown
  imports Go_Net "HOL-Library.Multiset" "HOL-Library.List_Lexorder" "HOL-Library.Char_ord"
begin

text \<open>
  The tracker of unknown hosts, \<open>internal/router/unknown.go\<close>: what the server remembers about names that
  are not configured, the operator's block list, the bound on the map an anonymous client can fill, and
  the file the block list is kept in. The order \<open>sort.Slice\<close> leaves equal elements in is a parameter, and
  so are the Unicode tables of \<open>strings.ToLower\<close>.
\<close>

section \<open>State\<close>

record UnknownHostEntry =
  Hits :: int
  FirstSeen :: instant
  LastSeen :: instant
  Blocked :: bool

definition maxTrackedHosts :: nat where "maxTrackedHosts = 10000"

definition trackedHostsLowWater :: nat where
  "trackedHostsLowWater = maxTrackedHosts - maxTrackedHosts div 10"

text \<open>Both maps in some iteration order; \<open>stored\<close> is the persisted list, \<open>None\<close> without persistence.\<close>

record UnknownHostTracker =
  hosts :: "(string \<times> UnknownHostEntry) list"
  blocked :: "string list"
  stored :: "string option"

definition NewUnknownHostTracker :: UnknownHostTracker where
  "NewUnknownHostTracker = \<lparr>hosts = [], blocked = [], stored = None\<rparr>"

section \<open>Names\<close>

definition CountByte :: "string \<Rightarrow> char \<Rightarrow> nat" where
  "CountByte s c = length (filter (\<lambda>x. x = c) s)"

definition strip_port :: "string \<Rightarrow> string" where
  "strip_port host =
     (case SplitHostPort host of
        Some (h, _) \<Rightarrow> h
      | None \<Rightarrow>
          if HasPrefix host ''['' \<and> HasSuffix host '']'' then TrimPrefix (TrimSuffix host '']'') ''[''
          else case LastIndexByte host (CHR '':'') of
            Some idx \<Rightarrow> if idx > 0 \<and> CountByte host (CHR '':'') = 1 then take idx host else host
          | None \<Rightarrow> host)"

definition normalizeUnknownHost :: "(string \<Rightarrow> string) \<Rightarrow> string \<Rightarrow> string option" where
  "normalizeUnknownHost uni raw =
     (let host = TrimSpace (ToLower uni raw) in
      if host = [] then None
      else
        let host = TrimSuffix (TrimSet (strip_port host) (set ''[]'')) ''.'' in
        if host = [] \<or> host = ''localhost'' \<or> host = ''localhost.localdomain'' then None
        else if ParseAddr host \<noteq> None then None
        else Some host)"

section \<open>Persistence\<close>

text \<open>\<open>bufio.Scanner\<close> over lines: a line that fills its 64 KiB buffer ends the scan.\<close>

definition strip_cr :: "string \<Rightarrow> string" where
  "strip_cr l = (if l \<noteq> [] \<and> last l = CHR 0x0D then butlast l else l)"

definition scan_lines :: "string \<Rightarrow> string list" where
  "scan_lines s =
     (let ls = SplitByte s (CHR 0x0A); ls = (if last ls = [] then butlast ls else ls)
      in map strip_cr (takeWhile (\<lambda>l. int (length l) < 65536) ls))"

definition list_text :: "string list \<Rightarrow> string" where
  "list_text hs = concat (map (\<lambda>h. h @ [CHR 0x0A]) hs)"

text \<open>A save replaces the file at once or, when a step fails, leaves it as it was.\<close>

definition saveBlocked :: "(string list \<Rightarrow> string list) \<Rightarrow> bool \<Rightarrow> UnknownHostTracker \<Rightarrow> UnknownHostTracker" where
  "saveBlocked sortStrings ok t =
     (case stored t of
        None \<Rightarrow> t
      | Some _ \<Rightarrow> if ok then t\<lparr>stored := Some (list_text (sortStrings (blocked t)))\<rparr> else t)"

definition load_line :: "(string \<Rightarrow> string) \<Rightarrow> string \<Rightarrow> string list \<Rightarrow> string list" where
  "load_line uni text bl =
     (let raw = TrimSpace text in
      if raw = [] \<or> HasPrefix raw ''#'' then bl
      else case normalizeUnknownHost uni raw of None \<Rightarrow> bl | Some h \<Rightarrow> List.insert h bl)"

definition loadBlocked :: "(string \<Rightarrow> string) \<Rightarrow> UnknownHostTracker \<Rightarrow> UnknownHostTracker" where
  "loadBlocked uni t =
     (case stored t of
        None \<Rightarrow> t
      | Some s \<Rightarrow> t\<lparr>blocked := fold (load_line uni) (scan_lines s) (blocked t)\<rparr>)"

definition SetPersistPath :: "(string \<Rightarrow> string) \<Rightarrow> string option \<Rightarrow> UnknownHostTracker \<Rightarrow> UnknownHostTracker" where
  "SetPersistPath uni contents t = loadBlocked uni (t\<lparr>stored := contents\<rparr>)"

section \<open>Recording\<close>

text \<open>Deleting from the candidates in order, until the low-water mark; blocked hosts stay.\<close>

fun evict_from :: "nat \<Rightarrow> (string \<times> UnknownHostEntry) list \<Rightarrow> (string \<times> UnknownHostEntry) list \<Rightarrow> (string \<times> UnknownHostEntry) list" where
  "evict_from target [] hs = hs"
| "evict_from target ((h, e) # cs) hs =
     (if length hs \<le> target then hs
      else if Blocked e then evict_from target cs hs
      else evict_from target cs (map_delete h hs))"

type_synonym entry_sort = "(string \<times> UnknownHostEntry) list \<Rightarrow> (string \<times> UnknownHostEntry) list"

definition evictIfOver :: "entry_sort \<Rightarrow> UnknownHostTracker \<Rightarrow> UnknownHostTracker" where
  "evictIfOver srt t =
     (if length (hosts t) \<le> maxTrackedHosts then t
      else t\<lparr>hosts := evict_from trackedHostsLowWater (srt (hosts t)) (hosts t)\<rparr>)"

definition Record :: "entry_sort \<Rightarrow> (string \<Rightarrow> string) \<Rightarrow> instant \<Rightarrow> string \<Rightarrow> UnknownHostTracker \<Rightarrow> UnknownHostTracker \<times> bool" where
  "Record srt uni now raw t =
     (case normalizeUnknownHost uni raw of
        None \<Rightarrow> (t, False)
      | Some host \<Rightarrow>
          (case map_of (hosts t) host of
             Some e \<Rightarrow> (t\<lparr>hosts := map_put host (e\<lparr>Hits := Hits e + 1, LastSeen := now\<rparr>) (hosts t)\<rparr>, Blocked e)
           | None \<Rightarrow>
               let b = (host \<in> set (blocked t));
                   e = \<lparr>Hits = 1, FirstSeen = now, LastSeen = now, Blocked = b\<rparr>
               in (evictIfOver srt (t\<lparr>hosts := map_put host e (hosts t)\<rparr>), b)))"

section \<open>The block list\<close>

definition IsBlocked :: "(string \<Rightarrow> string) \<Rightarrow> string \<Rightarrow> UnknownHostTracker \<Rightarrow> bool" where
  "IsBlocked uni raw t =
     (case normalizeUnknownHost uni raw of None \<Rightarrow> False | Some host \<Rightarrow> host \<in> set (blocked t))"

definition set_blocked :: "string \<Rightarrow> bool \<Rightarrow> UnknownHostTracker \<Rightarrow> UnknownHostTracker" where
  "set_blocked host b t =
     (case map_of (hosts t) host of
        None \<Rightarrow> t
      | Some e \<Rightarrow> t\<lparr>hosts := map_put host (e\<lparr>Blocked := b\<rparr>) (hosts t)\<rparr>)"

definition Block :: "(string list \<Rightarrow> string list) \<Rightarrow> bool \<Rightarrow> (string \<Rightarrow> string) \<Rightarrow> string \<Rightarrow> UnknownHostTracker \<Rightarrow> UnknownHostTracker" where
  "Block sortStrings ok uni raw t =
     (case normalizeUnknownHost uni raw of
        None \<Rightarrow> t
      | Some host \<Rightarrow>
          saveBlocked sortStrings ok (set_blocked host True (t\<lparr>blocked := List.insert host (blocked t)\<rparr>)))"

definition Unblock :: "(string list \<Rightarrow> string list) \<Rightarrow> bool \<Rightarrow> (string \<Rightarrow> string) \<Rightarrow> string \<Rightarrow> UnknownHostTracker \<Rightarrow> UnknownHostTracker" where
  "Unblock sortStrings ok uni raw t =
     (case normalizeUnknownHost uni raw of
        None \<Rightarrow> t
      | Some host \<Rightarrow>
          saveBlocked sortStrings ok (set_blocked host False (t\<lparr>blocked := removeAll host (blocked t)\<rparr>)))"

definition Dismiss :: "(string list \<Rightarrow> string list) \<Rightarrow> bool \<Rightarrow> (string \<Rightarrow> string) \<Rightarrow> string \<Rightarrow> UnknownHostTracker \<Rightarrow> UnknownHostTracker" where
  "Dismiss sortStrings ok uni raw t =
     (case normalizeUnknownHost uni raw of
        None \<Rightarrow> t
      | Some host \<Rightarrow>
          saveBlocked sortStrings ok
            (t\<lparr>hosts := map_delete host (hosts t), blocked := removeAll host (blocked t)\<rparr>))"

definition ListHosts :: "((string \<times> UnknownHostEntry) list \<Rightarrow> (string \<times> UnknownHostEntry) list) \<Rightarrow> (string \<Rightarrow> string) \<Rightarrow> UnknownHostTracker \<Rightarrow> (string \<times> UnknownHostEntry) list" where
  "ListHosts srtHits uni t = srtHits (filter (\<lambda>(h, e). normalizeUnknownHost uni h \<noteq> None) (hosts t))"

definition BlockedHosts :: "(string list \<Rightarrow> string list) \<Rightarrow> (string \<Rightarrow> string) \<Rightarrow> UnknownHostTracker \<Rightarrow> string list" where
  "BlockedHosts sortStrings uni t = sortStrings (List.map_filter (normalizeUnknownHost uni) (blocked t))"

section \<open>The invariant\<close>

text \<open>The maps have distinct keys, and an entry's flag says whether the block list has its host.\<close>

definition unknown_inv :: "UnknownHostTracker \<Rightarrow> bool" where
  "unknown_inv t \<longleftrightarrow> distinct (map fst (hosts t)) \<and> distinct (blocked t)
     \<and> (\<forall>(h, e) \<in> set (hosts t). Blocked e \<longleftrightarrow> h \<in> set (blocked t))"

lemma unknown_inv_lookup:
  "unknown_inv t \<Longrightarrow> map_of (hosts t) h = Some e \<Longrightarrow> Blocked e \<longleftrightarrow> h \<in> set (blocked t)"
  by (auto simp: unknown_inv_def dest!: map_of_SomeD)

lemma set_map_put: "set (map_put k v m) = insert (k, v) {kv \<in> set m. fst kv \<noteq> k}"
  by (auto simp: map_put_def set_map_delete)

lemma evict_subset: "set (evict_from target cs hs) \<subseteq> set hs"
  by (induction target cs hs rule: evict_from.induct) (auto simp: set_map_delete split: if_splits)

lemma evict_distinct: "distinct (map fst hs) \<Longrightarrow> distinct (map fst (evict_from target cs hs))"
  by (induction target cs hs rule: evict_from.induct) auto

lemma evict_keeps:
  "(h, e) \<in> set hs \<Longrightarrow> (\<And>e'. (h, e') \<in> set cs \<Longrightarrow> Blocked e') \<Longrightarrow> (h, e) \<in> set (evict_from target cs hs)"
proof (induction target cs hs rule: evict_from.induct)
  case (2 target h' e' cs hs)
  show ?case
  proof (cases "length hs \<le> target \<or> Blocked e'")
    case True
    with 2 show ?thesis by auto
  next
    case False
    with 2(4) [of e'] have "h' \<noteq> h" by auto
    with False 2 show ?thesis by (simp add: set_map_delete)
  qed
qed simp

text \<open>When the sweep runs out of candidates, it has removed every candidate that is not blocked.\<close>

lemma evict_bound:
  "\<not> length (evict_from target cs hs) \<le> target \<Longrightarrow> (h, e) \<in> set (evict_from target cs hs) \<Longrightarrow>
   (h, e') \<in> set cs \<Longrightarrow> Blocked e'"
proof (induction target cs hs rule: evict_from.induct)
  case (2 target h' e'' cs hs)
  from 2(3) have len: "\<not> length hs \<le> target" by auto
  show ?case
  proof (cases "Blocked e''")
    case True
    with 2 len show ?thesis by auto
  next
    case False
    then have "(h, e) \<in> set (evict_from target cs (map_delete h' hs))" using 2(4) len by simp
    with evict_subset [of target cs "map_delete h' hs"] have "h \<noteq> h'" by (auto simp: set_map_delete)
    with 2 len False show ?thesis by auto
  qed
qed simp

lemma unknown_inv_put:
  assumes "unknown_inv t" and "Blocked e \<longleftrightarrow> h \<in> set (blocked t)"
  shows "unknown_inv (t\<lparr>hosts := map_put h e (hosts t)\<rparr>)"
  using assms by (auto simp: unknown_inv_def set_map_put)

lemma unknown_inv_evict: "unknown_inv t \<Longrightarrow> unknown_inv (evictIfOver srt t)"
  using evict_subset [of trackedHostsLowWater "srt (hosts t)" "hosts t"]
  by (auto simp: unknown_inv_def evictIfOver_def intro: evict_distinct)

lemma blocked_evict [simp]: "blocked (evictIfOver srt t) = blocked t"
  by (simp add: evictIfOver_def)

lemma blocked_Record [simp]: "blocked (fst (Record srt uni now raw t)) = blocked t"
  by (simp add: Record_def Let_def split: option.splits)

lemma saved_frame [simp]:
  "hosts (saveBlocked ss ok t) = hosts t" "blocked (saveBlocked ss ok t) = blocked t"
  by (simp_all add: saveBlocked_def split: option.splits)

lemma unknown_inv_saved [simp]: "unknown_inv (saveBlocked ss ok t) \<longleftrightarrow> unknown_inv t"
  by (simp add: unknown_inv_def)

lemma blocked_set_blocked [simp]: "blocked (set_blocked h b t) = blocked t"
  by (simp add: set_blocked_def split: option.splits)

lemma unknown_inv_Record: "unknown_inv t \<Longrightarrow> unknown_inv (fst (Record srt uni now raw t))"
  by (auto simp: Record_def Let_def unknown_inv_lookup intro!: unknown_inv_put unknown_inv_evict split: option.splits)

text \<open>Changing the block list at one host, with the flag of its entry.\<close>

lemma unknown_inv_set_blocked:
  assumes "unknown_inv t" and "distinct bl" and "b \<longleftrightarrow> h \<in> set bl"
    and "\<And>h'. h' \<noteq> h \<Longrightarrow> h' \<in> set bl \<longleftrightarrow> h' \<in> set (blocked t)"
  shows "unknown_inv (set_blocked h b (t\<lparr>blocked := bl\<rparr>))"
proof (cases "map_of (hosts t) h")
  case None
  then have "h' \<noteq> h" if "(h', e) \<in> set (hosts t)" for h' e
    using that by (auto simp: map_of_eq_None_iff image_iff)
  with None assms show ?thesis by (auto simp: set_blocked_def unknown_inv_def)
next
  case (Some e)
  with assms show ?thesis by (auto simp: set_blocked_def unknown_inv_def set_map_put)
qed

lemma unknown_inv_distinct: "unknown_inv t \<Longrightarrow> distinct (blocked t)"
  by (simp add: unknown_inv_def)

lemma unknown_inv_Block: "unknown_inv t \<Longrightarrow> unknown_inv (Block ss ok uni raw t)"
  by (auto simp: Block_def unknown_inv_distinct intro!: unknown_inv_set_blocked split: option.splits)

lemma unknown_inv_Unblock: "unknown_inv t \<Longrightarrow> unknown_inv (Unblock ss ok uni raw t)"
  by (auto simp: Unblock_def unknown_inv_distinct distinct_removeAll intro!: unknown_inv_set_blocked split: option.splits)

lemma unknown_inv_Dismiss: "unknown_inv t \<Longrightarrow> unknown_inv (Dismiss ss ok uni raw t)"
  by (auto simp: Dismiss_def unknown_inv_def set_map_delete distinct_removeAll split: option.splits)

section \<open>Steps\<close>

datatype unknown_op = OpRecord instant string | OpBlock string bool | OpUnblock string bool | OpDismiss string bool

fun unknown_do :: "entry_sort \<Rightarrow> (string list \<Rightarrow> string list) \<Rightarrow> (string \<Rightarrow> string) \<Rightarrow> unknown_op \<Rightarrow> UnknownHostTracker \<Rightarrow> UnknownHostTracker" where
  "unknown_do srt ss uni (OpRecord now h) t = fst (Record srt uni now h t)"
| "unknown_do srt ss uni (OpBlock h ok) t = Block ss ok uni h t"
| "unknown_do srt ss uni (OpUnblock h ok) t = Unblock ss ok uni h t"
| "unknown_do srt ss uni (OpDismiss h ok) t = Dismiss ss ok uni h t"

definition unknown_init :: "(string \<Rightarrow> string) \<Rightarrow> UnknownHostTracker \<Rightarrow> bool" where
  "unknown_init uni t \<longleftrightarrow> (\<exists>contents. t = SetPersistPath uni contents NewUnknownHostTracker)"

definition unknown_step :: "entry_sort \<Rightarrow> (string list \<Rightarrow> string list) \<Rightarrow> (string \<Rightarrow> string) \<Rightarrow> UnknownHostTracker \<Rightarrow> unknown_op \<Rightarrow> UnknownHostTracker \<Rightarrow> bool" where
  "unknown_step srt ss uni t op t' \<longleftrightarrow> t' = unknown_do srt ss uni op t"

lemma distinct_load: "distinct bl \<Longrightarrow> distinct (fold (load_line uni) ls bl)"
  by (induction ls arbitrary: bl) (auto simp: load_line_def Let_def split: option.splits)

interpretation unk: transition_system "unknown_init uni" "unknown_step srt ss uni" unknown_inv
proof unfold_locales
  show "unknown_init uni t \<Longrightarrow> unknown_inv t" for t
    by (auto simp: unknown_init_def SetPersistPath_def loadBlocked_def NewUnknownHostTracker_def unknown_inv_def
        distinct_load split: option.splits)
next
  fix t op t'
  assume "unknown_inv t" "unknown_step srt ss uni t op t'"
  then show "unknown_inv t'"
    by (cases op) (simp_all add: unknown_step_def unknown_inv_Record unknown_inv_Block unknown_inv_Unblock unknown_inv_Dismiss)
qed

section \<open>Properties\<close>

text \<open>
  One block list. In every state the tracker can reach, recording a host answers exactly what the
  block list says of it and never changes the list; blocking, unblocking and dismissing a host change
  the answer for exactly the spellings of that host.
\<close>

theorem unknown_block_list:
  assumes "reach (unknown_init uni) (unknown_step srt ss uni) t" and "normalizeUnknownHost uni raw = Some h"
  shows "snd (Record srt uni now raw t) = IsBlocked uni raw t
    \<and> IsBlocked uni raw' (fst (Record srt uni now raw t)) = IsBlocked uni raw' t
    \<and> IsBlocked uni raw' (Block ss ok uni raw t) = (normalizeUnknownHost uni raw' = Some h \<or> IsBlocked uni raw' t)
    \<and> IsBlocked uni raw' (Unblock ss ok uni raw t) = (normalizeUnknownHost uni raw' \<noteq> Some h \<and> IsBlocked uni raw' t)
    \<and> IsBlocked uni raw' (Dismiss ss ok uni raw t) = (normalizeUnknownHost uni raw' \<noteq> Some h \<and> IsBlocked uni raw' t)"
proof (intro conjI)
  note inv = unk.reach_inv [OF assms(1)]
  show "snd (Record srt uni now raw t) = IsBlocked uni raw t"
    using assms(2) unknown_inv_lookup [OF inv] by (auto simp: Record_def IsBlocked_def Let_def split: option.splits)
  show "IsBlocked uni raw' (fst (Record srt uni now raw t)) = IsBlocked uni raw' t"
    by (simp add: IsBlocked_def split: option.splits)
  show "IsBlocked uni raw' (Block ss ok uni raw t) = (normalizeUnknownHost uni raw' = Some h \<or> IsBlocked uni raw' t)"
    using assms(2) by (auto simp: IsBlocked_def Block_def split: option.splits)
  show "IsBlocked uni raw' (Unblock ss ok uni raw t) = (normalizeUnknownHost uni raw' \<noteq> Some h \<and> IsBlocked uni raw' t)"
    using assms(2) by (auto simp: IsBlocked_def Unblock_def split: option.splits)
  show "IsBlocked uni raw' (Dismiss ss ok uni raw t) = (normalizeUnknownHost uni raw' \<noteq> Some h \<and> IsBlocked uni raw' t)"
    using assms(2) by (auto simp: IsBlocked_def Dismiss_def split: option.splits)
qed

lemma reach_fresh_tracker: "reach (unknown_init uni) (unknown_step srt ss uni) NewUnknownHostTracker"
  by (rule reach_init) (auto simp: unknown_init_def SetPersistPath_def loadBlocked_def NewUnknownHostTracker_def
      intro!: exI [of _ None])

lemma evil_norm:
  "normalizeUnknownHost (\<lambda>s. s) ''Evil.com:80'' = Some ''evil.com''"
  "normalizeUnknownHost (\<lambda>s. s) ''evil.com.'' = Some ''evil.com''"
  "normalizeUnknownHost (\<lambda>s. s) ''evil.com..'' = Some ''evil.com.''"
  by code_simp+

theorem unknown_block_list_witness:
  "IsBlocked (\<lambda>s. s) ''evil.com.'' (Block sort True (\<lambda>s. s) ''Evil.com:80'' NewUnknownHostTracker)"
  using unknown_block_list [OF reach_fresh_tracker [of "\<lambda>s. s" "\<lambda>hs. hs" sort] evil_norm(1),
      where raw' = "''evil.com.''"]
  by (simp add: evil_norm)

lemma Record_bound:
  assumes "\<And>hs. mset (srt hs) = mset hs" and "unknown_inv t" and "B = max maxTrackedHosts (length (blocked t))"
    and "length (hosts t) \<le> B"
  shows "length (hosts (fst (Record srt uni now raw t))) \<le> B"
proof (cases "normalizeUnknownHost uni raw")
  case None
  with assms(4) show ?thesis by (simp add: Record_def)
next
  case n: (Some h)
  show ?thesis
  proof (cases "map_of (hosts t) h")
    case (Some e)
    with n have "length (hosts (fst (Record srt uni now raw t))) = length (hosts t)"
      using length_map_delete [of "hosts t" h e] assms(2) by (simp add: Record_def map_put_def unknown_inv_def)
    with assms(4) show ?thesis by simp
  next
    case None
    let ?t = "t\<lparr>hosts := map_put h \<lparr>Hits = 1, FirstSeen = now, LastSeen = now, Blocked = h \<in> set (blocked t)\<rparr> (hosts t)\<rparr>"
    have r: "fst (Record srt uni now raw t) = evictIfOver srt ?t" using n None by (simp add: Record_def Let_def)
    have inv: "unknown_inv (evictIfOver srt ?t)" using assms(2) by (intro unknown_inv_evict unknown_inv_put) simp_all
    show ?thesis
    proof (cases "length (hosts ?t) \<le> maxTrackedHosts \<or> length (hosts (evictIfOver srt ?t)) \<le> trackedHostsLowWater")
      case True
      have "trackedHostsLowWater \<le> maxTrackedHosts" by (simp add: trackedHostsLowWater_def)
      with True r assms(3) show ?thesis by (auto simp: evictIfOver_def)
    next
      case False
      have all: "Blocked e" if m: "(k, e) \<in> set (hosts (evictIfOver srt ?t))" for k e
      proof -
        have "(k, e) \<in> set (hosts ?t)" using m evict_subset False by (auto simp: evictIfOver_def)
        then have "(k, e) \<in> set (srt (hosts ?t))" using assms(1) [of "hosts ?t"] by (metis set_mset_mset)
        then show ?thesis using m False by (intro evict_bound [of trackedHostsLowWater "srt (hosts ?t)" "hosts ?t" k e e]) (auto simp: evictIfOver_def)
      qed
      have "fst ` set (hosts (evictIfOver srt ?t)) \<subseteq> set (blocked t)"
        using all inv by (fastforce simp: unknown_inv_def)
      moreover have "distinct (map fst (hosts (evictIfOver srt ?t)))" using inv by (simp add: unknown_inv_def)
      ultimately have "length (hosts (evictIfOver srt ?t)) \<le> length (blocked t)"
        by (metis card_length card_mono distinct_card finite_set length_map list.set_map le_trans)
      with r assms(3) show ?thesis by simp
    qed
  qed
qed

lemma Record_keeps_blocked:
  assumes "\<And>hs. mset (srt hs) = mset hs" and "unknown_inv t" and "h \<in> fst ` set (hosts t)" and "h \<in> set (blocked t)"
  shows "h \<in> fst ` set (hosts (fst (Record srt uni now raw t)))"
proof -
  have put: "h \<in> fst ` set (map_put k e (hosts t))" for k e
    using assms(3) by (auto simp: set_map_put image_iff)
  have evict: "h \<in> fst ` set (hosts (evictIfOver srt t'))"
    if t': "h \<in> fst ` set (hosts t')" "unknown_inv t'" "blocked t' = blocked t" for t'
  proof -
    from t'(1) obtain e where e: "(h, e) \<in> set (hosts t')" by auto
    have "Blocked e'" if "(h, e') \<in> set (srt (hosts t'))" for e'
    proof -
      have "(h, e') \<in> set (hosts t')" using that assms(1) [of "hosts t'"] by (metis set_mset_mset)
      with t'(2,3) assms(4) show ?thesis by (auto simp: unknown_inv_def)
    qed
    with e have "(h, e) \<in> set (hosts (evictIfOver srt t'))" by (simp add: evictIfOver_def evict_keeps)
    then show ?thesis by force
  qed
  show ?thesis
    using assms put
    by (auto simp: Record_def Let_def intro!: evict unknown_inv_put split: option.splits)
qed

text \<open>
  Bounded memory. However many names an anonymous client sends, in whatever order the sweep sees
  them, the tracker never holds more entries than its cap, or than there are blocked hosts if the operator
  blocked more than that; and no blocked host is ever dropped to make room.
\<close>

theorem unknown_bounded:
  assumes "\<And>hs. mset (srt hs) = mset hs"
    and "reach (unknown_init uni) (unknown_step srt ss uni) t"
    and "length (hosts t) \<le> max maxTrackedHosts (length (blocked t))"
    and "t' = foldl (\<lambda>t (now, raw). fst (Record srt uni now raw t)) t reqs"
  shows "length (hosts t') \<le> max maxTrackedHosts (length (blocked t)) \<and> blocked t' = blocked t
    \<and> {h \<in> fst ` set (hosts t). h \<in> set (blocked t)} \<subseteq> fst ` set (hosts t')"
  using unk.reach_inv [OF assms(2)] assms(3,4)
proof (induction reqs arbitrary: t)
  case Nil
  then show ?case by auto
next
  case (Cons q reqs)
  obtain now raw where q: "q = (now, raw)" by (cases q)
  let ?t = "fst (Record srt uni now raw t)"
  have inv: "unknown_inv ?t" by (rule unknown_inv_Record [OF Cons.prems(1)])
  have "length (hosts ?t) \<le> max maxTrackedHosts (length (blocked ?t))"
    using Record_bound [OF assms(1) Cons.prems(1) refl Cons.prems(2)] by simp
  with Cons.IH [OF inv _ Cons.prems(3) [unfolded q foldl.simps prod.case]]
  have ih: "length (hosts t') \<le> max maxTrackedHosts (length (blocked t)) \<and> blocked t' = blocked t
      \<and> {h \<in> fst ` set (hosts ?t). h \<in> set (blocked t)} \<subseteq> fst ` set (hosts t')" by simp
  have "h \<in> fst ` set (hosts ?t)" if "h \<in> fst ` set (hosts t)" "h \<in> set (blocked t)" for h
    by (rule Record_keeps_blocked [OF assms(1) Cons.prems(1) that])
  with ih show ?case by blast
qed

theorem unknown_bounded_witness:
  "length (hosts (foldl (\<lambda>t (now, raw). fst (Record (sort_key (\<lambda>kv. LastSeen (snd kv))) (\<lambda>s. s) now raw t))
     NewUnknownHostTracker [(1, ''a.example''), (2, ''b.example'')])) \<le> 10000"
proof -
  have "mset (sort_key (\<lambda>kv. LastSeen (snd kv)) hs) = mset hs" for hs :: "(string \<times> UnknownHostEntry) list" by simp
  from unknown_bounded [OF this reach_fresh_tracker [of "\<lambda>s. s" _ sort] _ refl,
      where reqs = "[(1, ''a.example''), (2, ''b.example'')]"]
  show ?thesis by (simp add: NewUnknownHostTracker_def maxTrackedHosts_def)
qed

section \<open>The block list on disk\<close>

text \<open>Names that survive being written and read: in normal form, and lines of their own.\<close>

definition storable :: "(string \<Rightarrow> string) \<Rightarrow> string \<Rightarrow> bool" where
  "storable uni h \<longleftrightarrow> normalizeUnknownHost uni h = Some h \<and> TrimSpace h = h \<and> strip_cr h = h
     \<and> \<not> HasPrefix h ''#'' \<and> CHR 0x0A \<notin> set h \<and> int (length h) < 65536"

lemma SplitByte_append: "c \<notin> set h \<Longrightarrow> SplitByte (h @ c # rest) c = h # SplitByte rest c"
  by (induction h) auto

lemma scan_list_text:
  assumes "list_all (storable uni) hs"
  shows "scan_lines (list_text hs) = hs"
proof -
  have split: "SplitByte (list_text hs) (CHR 0x0A) = hs @ [[]]"
    using assms by (induction hs) (simp_all add: list_text_def storable_def SplitByte_append)
  have "takeWhile (\<lambda>l. int (length l) < 65536) hs = hs" "map strip_cr hs = hs"
    using assms by (induction hs) (simp_all add: storable_def)
  then show ?thesis unfolding scan_lines_def Let_def split by (simp only: last_snoc butlast_snoc if_True simp_thms)
qed

lemma load_storable: "storable uni h \<Longrightarrow> load_line uni h bl = List.insert h bl"
  by (auto simp: storable_def load_line_def Let_def normalizeUnknownHost_def split: if_splits)

lemma load_all: "list_all (storable uni) hs \<Longrightarrow> set (fold (load_line uni) hs bl) = set hs \<union> set bl"
  by (induction hs arbitrary: bl) (auto simp: load_storable)

text \<open>
  The block list survives a restart. If the blocked names are stored in their normal form, a tracker
  that loads what was saved has exactly the block list that was saved; when the save fails half-way the
  previous list is kept as a whole. A name whose normal form is not normal itself is the exception: the
  name with two trailing dots is blocked now and no longer blocked after the restart.
\<close>

theorem unknown_block_list_persists:
  assumes "\<And>hs. mset (sortStrings hs) = mset hs" and "list_all (storable uni) (blocked t)" and "stored t \<noteq> None"
  shows "set (blocked (SetPersistPath uni (stored (saveBlocked sortStrings True t)) NewUnknownHostTracker)) = set (blocked t)
    \<and> stored (saveBlocked sortStrings False t) = stored t
    \<and> (let u = Block sortStrings True (\<lambda>s. s) ''evil.com..'' (SetPersistPath (\<lambda>s. s) (Some []) NewUnknownHostTracker)
       in IsBlocked (\<lambda>s. s) ''evil.com..'' u
          \<and> \<not> IsBlocked (\<lambda>s. s) ''evil.com..'' (SetPersistPath (\<lambda>s. s) (stored u) NewUnknownHostTracker))"
proof (intro conjI)
  have "list_all (storable uni) (sortStrings (blocked t))"
    using assms(1) [of "blocked t"] assms(2) by (metis list_all_iff set_mset_mset)
  moreover have "set (sortStrings (blocked t)) = set (blocked t)"
    using assms(1) [of "blocked t"] by (metis set_mset_mset)
  ultimately show "set (blocked (SetPersistPath uni (stored (saveBlocked sortStrings True t)) NewUnknownHostTracker)) = set (blocked t)"
    using assms(3)
    by (auto simp: SetPersistPath_def loadBlocked_def saveBlocked_def scan_list_text load_all NewUnknownHostTracker_def
        split: option.splits)
  show "stored (saveBlocked sortStrings False t) = stored t"
    by (simp add: saveBlocked_def split: option.splits)
  have one: "sortStrings [x] = [x]" for x
    using assms(1) [of "[x]"] by simp
  let ?e = "SetPersistPath (\<lambda>s. s) (Some []) NewUnknownHostTracker"
  have e: "?e = \<lparr>hosts = [], blocked = [], stored = Some []\<rparr>" by code_simp
  have u: "Block sortStrings True (\<lambda>s. s) ''evil.com..'' ?e
      = \<lparr>hosts = [], blocked = [''evil.com.''], stored = Some (''evil.com.'' @ [CHR 0x0A])\<rparr>"
    unfolding e by (simp add: Block_def evil_norm set_blocked_def saveBlocked_def one list_text_def)
  have r: "blocked (SetPersistPath (\<lambda>s. s) (Some (''evil.com.'' @ [CHR 0x0A])) NewUnknownHostTracker) = [''evil.com'']"
    by code_simp
  show "let u = Block sortStrings True (\<lambda>s. s) ''evil.com..'' ?e
       in IsBlocked (\<lambda>s. s) ''evil.com..'' u
          \<and> \<not> IsBlocked (\<lambda>s. s) ''evil.com..'' (SetPersistPath (\<lambda>s. s) (stored u) NewUnknownHostTracker)"
    unfolding u Let_def using r by (simp add: IsBlocked_def evil_norm)
qed

theorem unknown_block_list_persists_witness:
  "set (blocked (SetPersistPath (\<lambda>s. s)
      (stored (saveBlocked sort True \<lparr>hosts = [], blocked = [''evil.com''], stored = Some []\<rparr>)) NewUnknownHostTracker))
   = {''evil.com''}"
proof -
  have "storable (\<lambda>s. s) ''evil.com''"
  proof -
    have "normalizeUnknownHost (\<lambda>s. s) ''evil.com'' = Some ''evil.com''" "TrimSpace ''evil.com'' = ''evil.com''"
      by code_simp+
    then show ?thesis by (simp add: storable_def strip_cr_def HasPrefix_def)
  qed
  then show ?thesis
    using unknown_block_list_persists [of sort "\<lambda>s. s" "\<lparr>hosts = [], blocked = [''evil.com''], stored = Some []\<rparr>"]
    by simp
qed

end
