(* ===== verification/Rewrite_Rule.thy ===== *)
theory Rewrite_Rule
  imports Go_Http Go_Net
begin

text \<open>
  Rewrite rules and conditions: \<open>internal/rewrite/rule.go\<close> and \<open>condition.go\<close>. A compiled regular
  expression (package \<open>regexp\<close>) is the function that gives the submatches of a text; compiling one, the
  file system and the Unicode tables are the environment.
\<close>

section \<open>The environment\<close>

type_synonym regexp = "string \<Rightarrow> string list option"

record file_info =
  isRegular :: bool
  isDir :: bool
  isSymlink :: bool
  fileSize :: int

record rw_env =
  rx_compile :: "string \<Rightarrow> regexp option"
  rw_lower :: "string \<Rightarrow> string"
  rw_upper :: "string \<Rightarrow> string"
  rw_fold :: "string \<Rightarrow> string \<Rightarrow> bool"
  os_stat :: "string \<Rightarrow> file_info option"
  os_lstat :: "string \<Rightarrow> file_info option"

definition MatchString :: "regexp \<Rightarrow> string \<Rightarrow> bool" where
  "MatchString re s \<longleftrightarrow> re s \<noteq> None"

section \<open>Flags\<close>

record Flags =
  Last :: bool
  Redirect :: int
  QSAppend :: bool
  QSDiscard :: bool
  NoCase :: bool
  Forbidden :: bool
  Gone :: bool
  Chain :: bool
  Skip :: int
  PassThrough :: bool
  NoEscape :: bool
  EnvironmentVar :: string

definition no_flags :: Flags where
  "no_flags = \<lparr>Last = False, Redirect = 0, QSAppend = False, QSDiscard = False, NoCase = False, Forbidden = False,
     Gone = False, Chain = False, Skip = 0, PassThrough = False, NoEscape = False, EnvironmentVar = []\<rparr>"

definition ruleFlagNames :: "(string \<times> string) list" where
  "ruleFlagNames =
     [(''chain'', ''C''), (''cookie'', ''CO''), (''discardpath'', ''DPI''), (''env'', ''E''),
      (''forbidden'', ''F''), (''gone'', ''G''), (''handler'', ''H''), (''last'', ''L''), (''next'', ''N''),
      (''nocase'', ''NC''), (''noescape'', ''NE''), (''nosubreq'', ''NS''), (''proxy'', ''P''),
      (''passthrough'', ''PT''), (''qsappend'', ''QSA''), (''qsdiscard'', ''QSD''),
      (''qslast'', ''QSL''), (''redirect'', ''R''), (''skip'', ''S''), (''type'', ''T'')]"

definition canonicalFlag :: "rw_env \<Rightarrow> string \<Rightarrow> (string \<times> string) list \<Rightarrow> string" where
  "canonicalFlag env part names =
     (let (name, val) = (case IndexByte part (CHR ''='') of
                           Some i \<Rightarrow> (take i part, Some (drop (i + 1) part)) | None \<Rightarrow> (part, None))
      in case map_of names (ToLower (rw_lower env) name) of
           None \<Rightarrow> part
         | Some short \<Rightarrow> (case val of Some v \<Rightarrow> short @ ''='' @ v | None \<Rightarrow> short))"

definition redirectStatus :: "int \<Rightarrow> int" where
  "redirectStatus code = (if code \<in> {301, 302, 303, 307, 308} then code else 302)"

definition redirect_code :: "rw_env \<Rightarrow> string \<Rightarrow> int" where
  "redirect_code env text =
     redirectStatus
       (case Atoi text of
          Some code \<Rightarrow> code
        | None \<Rightarrow>
            (let t = ToLower (rw_lower env) text in
             if t = ''permanent'' then 301 else if t = ''seeother'' then 303 else 0))"

definition parse_flag :: "rw_env \<Rightarrow> string \<Rightarrow> Flags \<Rightarrow> Flags" where
  "parse_flag env text f =
     (let part = canonicalFlag env (TrimSpace text) ruleFlagNames; upper = ToUpper (rw_upper env) part in
      if upper = ''L'' \<or> upper = ''END'' then f\<lparr>Last := True\<rparr>
      else if upper = ''QSA'' then f\<lparr>QSAppend := True\<rparr>
      else if upper = ''QSD'' then f\<lparr>QSDiscard := True\<rparr>
      else if upper = ''NC'' then f\<lparr>NoCase := True\<rparr>
      else if upper = ''F'' then f\<lparr>Forbidden := True\<rparr>
      else if upper = ''G'' then f\<lparr>Gone := True\<rparr>
      else if upper = ''C'' then f\<lparr>Chain := True\<rparr>
      else if upper = ''PT'' then f\<lparr>PassThrough := True\<rparr>
      else if upper = ''NE'' then f\<lparr>NoEscape := True\<rparr>
      else if HasPrefix upper ''R='' then f\<lparr>Redirect := redirect_code env (drop 2 part)\<rparr>
      else if upper = ''R'' then f\<lparr>Redirect := 302\<rparr>
      else if HasPrefix upper ''S='' then
        f\<lparr>Skip := (case Atoi (drop 2 part) of Some n \<Rightarrow> n | None \<Rightarrow> 0)\<rparr>
      else if HasPrefix upper ''E='' then f\<lparr>EnvironmentVar := drop 2 part\<rparr>
      else f)"

definition ParseFlags :: "rw_env \<Rightarrow> string \<Rightarrow> Flags" where
  "ParseFlags env s =
     (let s = TrimSet (TrimSpace s) (set ''[]'') in
      if s = [] then no_flags else fold (parse_flag env) (SplitByte s (CHR '','')) no_flags)"

section \<open>Server variables\<close>

record Variables =
  RequestURI :: string
  RequestFilename :: string
  QueryString :: string
  HTTPHost :: string
  HTTPReferer :: string
  HTTPUserAgent :: string
  RemoteAddr :: string
  RequestMethod :: string
  ServerPort :: string
  HTTPS :: string
  DocumentRoot :: string
  ServerName :: string
  TheRequest :: string
  Proto :: string
  Header :: header

definition header_text :: "Variables \<Rightarrow> string \<Rightarrow> string" where
  "header_text v name = Join (HeaderValues (Header v) name) '', ''"

definition lookup :: "rw_env \<Rightarrow> Variables \<Rightarrow> string \<Rightarrow> string" where
  "lookup env v name =
     (let n = ToUpper (rw_upper env) name in
      if n = ''REQUEST_URI'' then RequestURI v
      else if n = ''REQUEST_FILENAME'' \<or> n = ''SCRIPT_FILENAME'' then RequestFilename v
      else if n = ''QUERY_STRING'' then QueryString v
      else if n = ''HTTP_HOST'' then HTTPHost v
      else if n = ''HTTP_REFERER'' then HTTPReferer v
      else if n = ''HTTP_USER_AGENT'' then HTTPUserAgent v
      else if n = ''REMOTE_ADDR'' \<or> n = ''REMOTE_HOST'' then RemoteAddr v
      else if n = ''REQUEST_METHOD'' then RequestMethod v
      else if n = ''SERVER_PORT'' then ServerPort v
      else if n = ''HTTPS'' then HTTPS v
      else if n = ''DOCUMENT_ROOT'' then DocumentRoot v
      else if n = ''SERVER_NAME'' then ServerName v
      else if n = ''THE_REQUEST'' then TheRequest v
      else if n = ''SERVER_PROTOCOL'' then Proto v
      else if n = ''REQUEST_SCHEME'' then (if HTTPS v = ''on'' then ''https'' else ''http'')
      else if n = ''HTTP_COOKIE'' then header_text v ''Cookie''
      else if n = ''HTTP_ACCEPT'' then header_text v ''Accept''
      else if n = ''HTTP_FORWARDED'' then header_text v ''Forwarded''
      else if n = ''HTTP_CONNECTION'' then header_text v ''Connection''
      else if n = ''HTTP_PROXY_CONNECTION'' then header_text v ''Proxy-Connection''
      else if HasPrefix n ''HTTP:'' \<and> drop 5 n \<noteq> [] then header_text v (drop 5 n)
      else [])"

text \<open>A reference at the start of a text: the name and what follows its closing brace.\<close>

definition var_ref :: "string \<Rightarrow> (string \<times> string) option" where
  "var_ref s =
     (if \<not> HasPrefix s ''%{'' then None
      else case IndexByte (drop 2 s) (CHR ''}'') of
        None \<Rightarrow> None
      | Some end \<Rightarrow> Some (take end (drop 2 s), drop (end + 3) s))"

lemma var_ref_shorter: "var_ref s = Some (name, rest) \<Longrightarrow> length rest < length s"
  by (auto simp: var_ref_def HasPrefix_def split: if_splits option.splits elim!: prefixE)

function expand_from :: "rw_env \<Rightarrow> Variables \<Rightarrow> string \<Rightarrow> string" where
  "expand_from env v [] = []"
| "expand_from env v (c # s) =
     (case var_ref (c # s) of
        Some (name, rest) \<Rightarrow> lookup env v name @ expand_from env v rest
      | None \<Rightarrow> c # expand_from env v s)"
  by pat_completeness auto
termination
  by (relation "measure (\<lambda>(env, v, s). length s)") (auto dest: var_ref_shorter)

definition Expand :: "rw_env \<Rightarrow> Variables \<Rightarrow> string \<Rightarrow> string" where
  "Expand env v s = (if \<not> Contains s ''%{'' then lookup env v s else expand_from env v s)"

section \<open>Conditions\<close>

datatype test_type = TestRegex | TestF | TestD | TestL | TestS | TestEq

record Condition =
  Variable :: string
  condPattern :: "regexp option"
  condNegated :: bool
  OrNext :: bool
  TestType :: test_type
  condNoCase :: bool
  Literal :: string

datatype rule_err = ErrPatternTooLong | ErrCompile

definition condFlagNames :: "(string \<times> string) list" where
  "condFlagNames = [(''ornext'', ''OR''), (''nocase'', ''NC''), (''novary'', ''NV'')]"

definition parse_cond_flag :: "rw_env \<Rightarrow> string \<Rightarrow> Condition \<Rightarrow> Condition" where
  "parse_cond_flag env text c =
     (let f = canonicalFlag env (TrimSpace text) condFlagNames in
      if EqualFoldASCII f ''OR'' then c\<lparr>OrNext := True\<rparr>
      else if EqualFoldASCII f ''NC'' then c\<lparr>condNoCase := True\<rparr> else c)"

definition ParseCondition :: "rw_env \<Rightarrow> string \<Rightarrow> string \<Rightarrow> string \<Rightarrow> rule_err + Condition" where
  "ParseCondition env var pat flags =
     (if length pat > 1024 then Inl ErrPatternTooLong
      else
        let c = \<lparr>Variable = var, condPattern = None, condNegated = False, OrNext = False, TestType = TestRegex,
                 condNoCase = False, Literal = []\<rparr>;
            c = fold (parse_cond_flag env) (SplitByte (TrimSet (TrimSpace flags) (set ''[]'')) (CHR '','')) c;
            neg = HasPrefix pat ''!'';
            c = c\<lparr>condNegated := neg\<rparr>;
            pat = (if neg then drop 1 pat else pat)
        in if pat = ''-f'' then Inr (c\<lparr>TestType := TestF\<rparr>)
           else if pat = ''-d'' then Inr (c\<lparr>TestType := TestD\<rparr>)
           else if pat = ''-l'' then Inr (c\<lparr>TestType := TestL\<rparr>)
           else if pat = ''-s'' then Inr (c\<lparr>TestType := TestS\<rparr>)
           else if HasPrefix pat ''='' then
             (let lit = drop 1 pat; lit = (if lit = [CHR 0x22, CHR 0x22] then [] else lit)
              in Inr (c\<lparr>TestType := TestEq, Literal := lit\<rparr>))
           else case rx_compile env (if condNoCase c then ''(?i)'' @ pat else pat) of
             None \<Rightarrow> Inl ErrCompile
           | Some re \<Rightarrow> Inr (c\<lparr>condPattern := Some re\<rparr>))"

text \<open>
  \<open>Condition.evaluate\<close>: the verdict and its captures (Go's \<open>nil\<close> as \<open>None\<close>), or \<open>None\<close> when the value is
  too long to match.
\<close>

definition evaluate :: "rw_env \<Rightarrow> Condition \<Rightarrow> Variables \<Rightarrow> nat \<Rightarrow> (bool \<times> string list option) option" where
  "evaluate env c v maxValue =
     (let testValue = Expand env v (Variable c);
          res = (case TestType c of
             TestF \<Rightarrow> Some (case os_stat env testValue of None \<Rightarrow> False | Some i \<Rightarrow> isRegular i, None)
           | TestD \<Rightarrow> Some (case os_stat env testValue of None \<Rightarrow> False | Some i \<Rightarrow> isDir i, None)
           | TestL \<Rightarrow> Some (case os_lstat env testValue of None \<Rightarrow> False | Some i \<Rightarrow> isSymlink i, None)
           | TestS \<Rightarrow> Some (case os_stat env testValue of None \<Rightarrow> False | Some i \<Rightarrow> isRegular i \<and> fileSize i > 0, None)
           | TestEq \<Rightarrow> Some (if condNoCase c then EqualFoldU (rw_fold env) testValue (Literal c) else testValue = Literal c, None)
           | TestRegex \<Rightarrow>
               (case condPattern c of
                  None \<Rightarrow> Some (False, None)
                | Some re \<Rightarrow>
                    if maxValue > 0 \<and> length testValue > maxValue then None
                    else (case re testValue of Some m \<Rightarrow> Some (True, Some m) | None \<Rightarrow> Some (False, None))))
      in map_option (\<lambda>(m, caps). (if condNegated c then \<not> m else m, caps)) res)"

section \<open>Rules\<close>

record Rule =
  Pattern :: regexp
  Target :: string
  flags :: Flags
  Conditions :: "Condition list"
  Negated :: bool
  Without :: "regexp option"

text \<open>The position of the parenthesis that closes a leading look-ahead, from the text behind it.\<close>

fun lookahead_end :: "nat \<Rightarrow> bool \<Rightarrow> nat \<Rightarrow> string \<Rightarrow> nat option" where
  "lookahead_end depth inClass i [] = None"
| "lookahead_end depth inClass i [c] =
     (if c = CHR 0x5C \<or> inClass \<or> c = CHR ''['' \<or> c = CHR ''('' then None
      else if c = CHR '')'' \<and> depth = 1 then Some i else None)"
| "lookahead_end depth inClass i (c # d # s) =
     (if c = CHR 0x5C then lookahead_end depth inClass (i + 2) s
      else if inClass then lookahead_end depth (c \<noteq> CHR '']'') (i + 1) (d # s)
      else if c = CHR ''['' then lookahead_end depth True (i + 1) (d # s)
      else if c = CHR ''('' then (if d \<noteq> CHR ''?'' then None else lookahead_end (depth + 1) False (i + 1) (d # s))
      else if c = CHR '')'' then (if depth = 1 then Some i else lookahead_end (depth - 1) False (i + 1) (d # s))
      else lookahead_end depth False (i + 1) (d # s))"

definition splitLeadingNegLookahead :: "rw_env \<Rightarrow> string \<Rightarrow> string \<Rightarrow> (regexp \<times> regexp) option" where
  "splitLeadingNegLookahead env opts expr =
     (let head = ''^(?!'' in
      if \<not> HasPrefix expr head then None
      else case lookahead_end 1 False (length head) (drop (length head) expr) of
        None \<Rightarrow> None
      | Some end \<Rightarrow>
          (case rx_compile env (opts @ ''^(?:'' @ take (end - length head) (drop (length head) expr) @ '')'') of
             None \<Rightarrow> None
           | Some w \<Rightarrow>
               (case rx_compile env (opts @ ''^'' @ drop (end + 1) expr) of
                  None \<Rightarrow> None
                | Some r \<Rightarrow> Some (r, w))))"

definition ParseRule :: "rw_env \<Rightarrow> string \<Rightarrow> string \<Rightarrow> string \<Rightarrow> rule_err + Rule" where
  "ParseRule env pat target flagStr =
     (if length pat > 1024 then Inl ErrPatternTooLong
      else
        let fl = ParseFlags env flagStr;
            negated = HasPrefix pat ''!'';
            expr = (if negated then drop 1 pat else pat);
            opts = (if NoCase fl then ''(?i)'' else []);
            rule = (\<lambda>re without. \<lparr>Pattern = re, Target = target, flags = fl, Conditions = [], Negated = negated, Without = without\<rparr>)
        in case rx_compile env (opts @ expr) of
             Some re \<Rightarrow> Inr (rule re None)
           | None \<Rightarrow>
               (case splitLeadingNegLookahead env opts expr of
                  Some (re, w) \<Rightarrow> Inr (rule re (Some w))
                | None \<Rightarrow> Inl ErrCompile))"

definition vetoed :: "Rule \<Rightarrow> string \<Rightarrow> bool" where
  "vetoed r uri = (case Without r of None \<Rightarrow> False | Some w \<Rightarrow> MatchString w uri)"

definition matchesURI :: "Rule \<Rightarrow> string \<Rightarrow> bool" where
  "matchesURI r uri = ((MatchString (Pattern r) uri \<and> \<not> vetoed r uri) \<noteq> Negated r)"

definition Match :: "Rule \<Rightarrow> string \<Rightarrow> bool \<times> string list" where
  "Match r uri =
     (if Negated r then (matchesURI r uri, [])
      else case Pattern r uri of
        None \<Rightarrow> (False, [])
      | Some m \<Rightarrow> if vetoed r uri then (False, []) else (True, m))"

section \<open>Substitution\<close>

definition backref :: "string list \<Rightarrow> string list \<Rightarrow> char \<Rightarrow> char \<Rightarrow> string" where
  "backref ruleMatches condMatches c d =
     (let matches = (if c = CHR ''%'' then condMatches else ruleMatches); idx = digit_value d
      in if idx < length matches then matches ! idx else [])"

definition over :: "nat \<Rightarrow> string \<Rightarrow> bool" where
  "over limit b \<longleftrightarrow> limit > 0 \<and> length b > limit"

function apply_from :: "rw_env \<Rightarrow> string list \<Rightarrow> string list \<Rightarrow> Variables option \<Rightarrow> nat \<Rightarrow> string \<Rightarrow> string \<Rightarrow> string option" where
  "apply_from env rm cm vars limit b [] = (if over limit b then None else Some b)"
| "apply_from env rm cm vars limit b (c # s) =
     (if over limit b then None
      else case (case vars of None \<Rightarrow> None | Some v \<Rightarrow> map_option (\<lambda>(n, rest). (lookup env v n, rest)) (var_ref (c # s))) of
        Some (val, rest) \<Rightarrow> apply_from env rm cm vars limit (b @ val) rest
      | None \<Rightarrow>
          if (c = CHR ''$'' \<or> c = CHR ''%'') \<and> s \<noteq> [] \<and> is_digit (hd s)
          then apply_from env rm cm vars limit (b @ backref rm cm c (hd s)) (tl s)
          else apply_from env rm cm vars limit (b @ [c]) s)"
  by pat_completeness auto
termination
  by (relation "measure (\<lambda>(env, rm, cm, vars, limit, b, s). length s)")
     (auto dest: var_ref_shorter split: option.splits)

definition applyLimited :: "rw_env \<Rightarrow> string \<Rightarrow> string list \<Rightarrow> string list \<Rightarrow> Variables option \<Rightarrow> nat \<Rightarrow> string option" where
  "applyLimited env target rm cm vars limit = apply_from env rm cm vars limit [] target"

definition Apply :: "rw_env \<Rightarrow> string \<Rightarrow> string list \<Rightarrow> string list \<Rightarrow> string" where
  "Apply env target rm cm = (case applyLimited env target rm cm None 0 of Some s \<Rightarrow> s | None \<Rightarrow> [])"

section \<open>Substitution as pieces\<close>

text \<open>The reference: what a target is made of, read off the target alone.\<close>

datatype piece = Lit char | RuleRef char | CondRef char | VarRef string

function pieces :: "bool \<Rightarrow> string \<Rightarrow> piece list" where
  "pieces withVars [] = []"
| "pieces withVars (c # s) =
     (case (if withVars then var_ref (c # s) else None) of
        Some (name, rest) \<Rightarrow> VarRef name # pieces withVars rest
      | None \<Rightarrow>
          if (c = CHR ''$'' \<or> c = CHR ''%'') \<and> s \<noteq> [] \<and> is_digit (hd s)
          then (if c = CHR ''%'' then CondRef (hd s) else RuleRef (hd s)) # pieces withVars (tl s)
          else Lit c # pieces withVars s)"
  by pat_completeness auto
termination
  by (relation "measure (\<lambda>(w, s). length s)") (auto dest: var_ref_shorter split: if_splits)

fun piece_value :: "rw_env \<Rightarrow> string list \<Rightarrow> string list \<Rightarrow> Variables option \<Rightarrow> piece \<Rightarrow> string" where
  "piece_value env rm cm vars (Lit c) = [c]"
| "piece_value env rm cm vars (RuleRef d) = (if digit_value d < length rm then rm ! digit_value d else [])"
| "piece_value env rm cm vars (CondRef d) = (if digit_value d < length cm then cm ! digit_value d else [])"
| "piece_value env rm cm vars (VarRef n) = (case vars of Some v \<Rightarrow> lookup env v n | None \<Rightarrow> [])"

definition substituted :: "rw_env \<Rightarrow> string list \<Rightarrow> string list \<Rightarrow> Variables option \<Rightarrow> string \<Rightarrow> string" where
  "substituted env rm cm vars target = concat (map (piece_value env rm cm vars) (pieces (vars \<noteq> None) target))"

lemma over_append: "over limit b \<Longrightarrow> over limit (b @ x)"
  by (simp add: over_def)

lemma apply_from_pieces:
  "apply_from env rm cm vars limit b s =
     (if over limit (b @ substituted env rm cm vars s) then None else Some (b @ substituted env rm cm vars s))"
proof (induction env rm cm vars limit b s rule: apply_from.induct)
  case (1 env rm cm vars limit b)
  then show ?case by (simp add: substituted_def)
next
  case (2 env rm cm vars limit b c s)
  show ?case
  proof (cases "over limit b")
    case True
    then show ?thesis by (simp add: over_append)
  next
    case nov: False
    show ?thesis
    proof (cases "case vars of None \<Rightarrow> None | Some v \<Rightarrow> var_ref (c # s)")
      case (Some nr)
      then obtain v n rest where v: "vars = Some v" "var_ref (c # s) = Some (n, rest)"
        by (cases nr) (auto split: option.splits)
      then have eq: "(case vars of None \<Rightarrow> None | Some v \<Rightarrow> map_option (\<lambda>(n, rest). (lookup env v n, rest)) (var_ref (c # s)))
          = Some (lookup env v n, rest)" by simp
      from 2(3) [OF nov eq refl] v nov show ?thesis by (simp add: substituted_def)
    next
      case None
      then have nv: "(case vars of None \<Rightarrow> None | Some v \<Rightarrow> map_option (\<lambda>(n, rest). (lookup env v n, rest)) (var_ref (c # s))) = None"
        "(if vars \<noteq> None then var_ref (c # s) else None) = None"
        by (auto split: option.splits)
      show ?thesis
      proof (cases "(c = CHR ''$'' \<or> c = CHR ''%'') \<and> s \<noteq> [] \<and> is_digit (hd s)")
        case True
        have "substituted env rm cm vars (c # s) = backref rm cm c (hd s) @ substituted env rm cm vars (tl s)"
          using True nv(2) by (auto simp: substituted_def backref_def Let_def)
        with 2(1) [OF nov nv(1) True] nov nv True show ?thesis by simp
      next
        case False
        have "substituted env rm cm vars (c # s) = c # substituted env rm cm vars s"
          using False nv(2) by (auto simp: substituted_def)
        with 2(2) [OF nov nv(1) False] nov nv False show ?thesis by auto
      qed
    qed
  qed
qed

text \<open>
  Substitution is one pass. What a rewrite target expands to is the concatenation of its pieces, where
  the pieces are determined by the target alone: text captured from the request or read from a variable
  is copied as it is and never looked at again. The bounded variant fails exactly when the result would
  exceed its bound.
\<close>

theorem applyLimited_single_pass:
  "applyLimited env target rm cm vars limit =
     (let out = concat (map (piece_value env rm cm vars) (pieces (vars \<noteq> None) target))
      in if limit > 0 \<and> length out > limit then None else Some out)"
  by (simp add: applyLimited_def apply_from_pieces over_def substituted_def Let_def)

lemma applyLimited_length: "applyLimited env target rm cm vars limit = Some s \<Longrightarrow> 0 < limit \<Longrightarrow> length s \<le> limit"
  by (auto simp: applyLimited_def apply_from_pieces over_def split: if_splits)

lemma Match_matchesURI: "fst (Match r uri) = matchesURI r uri"
  by (auto simp: Match_def matchesURI_def MatchString_def split: option.splits)

end
