(* ===== verification/Rewrite_Engine.thy ===== *)
theory Rewrite_Engine
  imports Rewrite_Rule "HOL-Library.Code_Target_Nat"
begin

text \<open>
  The rewrite engine, \<open>internal/rewrite/engine.go\<close>: the passes over a rule set, the grouping of conditions,
  chains and skips, the work allowance and what happens when it runs out, and the pre-check that skips the
  engine. The clock is a function from the number of readings so far to whether the deadline has passed;
  every place the code reads it is a reading here.
\<close>

section \<open>Results\<close>

definition maxRewrites :: nat where "maxRewrites = 10"
definition maxRewriteString :: nat where "maxRewriteString = 16 * 1024"

type_synonym clock = "nat \<Rightarrow> bool"

record Result =
  URI :: string
  Query :: string
  isRedirect :: bool
  StatusCode :: int
  isForbidden :: bool
  isGone :: bool
  Modified :: bool

definition initial_result :: "string \<Rightarrow> string \<Rightarrow> Result" where
  "initial_result uri q =
     \<lparr>URI = uri, Query = q, isRedirect = False, StatusCode = 0, isForbidden = False, isGone = False, Modified = False\<rparr>"

definition overload :: "Rule list \<Rightarrow> Result \<Rightarrow> Result" where
  "overload rules res =
     (if list_ex (\<lambda>r. Forbidden (flags r) \<or> Gone (flags r)) rules then res\<lparr>isForbidden := True\<rparr> else res)"

definition hasLiteralScheme :: "string \<Rightarrow> bool" where
  "hasLiteralScheme target \<longleftrightarrow>
     length target \<ge> 7 \<and> (EqualFoldASCII (take 7 target) ''http://''
       \<or> length target \<ge> 8 \<and> EqualFoldASCII (take 8 target) ''https://'')"

definition sameHostRedirectPath :: "string \<Rightarrow> string" where
  "sameHostRedirectPath uri =
     (if uri = [] \<or> hd uri \<noteq> CHR ''/'' \<and> hd uri \<noteq> CHR 0x5C then uri
      else ''/'' @ TrimLeftSet uri {CHR ''/'', CHR 0x5C})"

section \<open>Conditions\<close>

text \<open>The loop over conditions: last captures, the AND so far, the OR of the open group, whether one is open.\<close>

fun cond_loop ::
  "rw_env \<Rightarrow> clock \<Rightarrow> Variables \<Rightarrow> nat \<Rightarrow> string list option \<Rightarrow> bool \<Rightarrow> bool \<Rightarrow> bool \<Rightarrow> Condition list
   \<Rightarrow> nat \<times> (bool \<times> string list option) option" where
  "cond_loop env clk v n caps overall groupMatched inGroup [] =
     (n, Some (if inGroup then overall \<and> groupMatched else overall, caps))"
| "cond_loop env clk v n caps overall groupMatched inGroup (c # cs) =
     (if clk n then (n + 1, None)
      else case evaluate env c v maxRewriteString of
        None \<Rightarrow> (n + 1, None)
      | Some (matched, captures) \<Rightarrow>
          (let caps = (if matched \<and> captures \<noteq> None then captures else caps);
               groupMatched = (groupMatched \<or> matched)
           in if OrNext c then cond_loop env clk v (n + 1) caps overall groupMatched True cs
              else cond_loop env clk v (n + 1) caps (overall \<and> groupMatched) False False cs))"

definition evalConditionsBudget ::
  "rw_env \<Rightarrow> clock \<Rightarrow> Variables \<Rightarrow> nat \<Rightarrow> Condition list \<Rightarrow> nat \<times> (bool \<times> string list option) option" where
  "evalConditionsBudget env clk v n conds =
     (if conds = [] then (n, Some (True, None)) else cond_loop env clk v n None True False False conds)"

section \<open>One rule\<close>

function skipChain :: "Rule list \<Rightarrow> nat \<Rightarrow> nat" where
  "skipChain rules current =
     (if current + 1 < length rules \<and> Chain (flags (rules ! current)) then skipChain rules (current + 1) else current)"
  by pat_completeness auto
termination
  by (relation "measure (\<lambda>(rules, current). length rules - current)") auto

declare skipChain.simps [simp del]

lemma skipChain_ge: "i \<le> skipChain rules i"
  by (induction rules i rule: skipChain.induct) (subst skipChain.simps, auto)

text \<open>The query string after a substitution: the URI and the query.\<close>

definition split_query :: "Flags \<Rightarrow> string \<Rightarrow> string \<Rightarrow> string \<times> string" where
  "split_query fl newURI q =
     (case IndexByte newURI (CHR ''?'') of
        Some i \<Rightarrow>
          (take i newURI,
           if QSAppend fl \<and> \<not> QSDiscard fl \<and> q \<noteq> [] then drop (i + 1) newURI @ ''&'' @ q else drop (i + 1) newURI)
      | None \<Rightarrow> (newURI, if QSDiscard fl then [] else q))"

definition set_uri :: "string \<Rightarrow> string \<Rightarrow> Variables \<Rightarrow> Variables" where
  "set_uri uri q v =
     (let v = v\<lparr>RequestURI := uri, QueryString := q\<rparr> in
      if DocumentRoot v \<noteq> [] \<and> \<not> hasLiteralScheme uri
      then v\<lparr>RequestFilename := filepath_Join (DocumentRoot v) (filepath_Clean (''/'' @ uri))\<rparr> else v)"

text \<open>Applying a substitution: the overloaded result, or result, variables and whether the URI changed.\<close>

definition substitute :: "Rule list \<Rightarrow> Flags \<Rightarrow> string \<Rightarrow> Result \<Rightarrow> Variables \<Rightarrow> Result + Result \<times> Variables \<times> bool" where
  "substitute rules fl newURI res v =
     (if newURI = ''-'' then Inr (res, v, False)
      else case split_query fl newURI (Query res) of (uri, q) \<Rightarrow>
        if length q > maxRewriteString then Inl (overload rules (res\<lparr>Query := q\<rparr>))
        else Inr (res\<lparr>Query := q, URI := uri, Modified := True\<rparr>, set_uri uri q v, True))"

text \<open>The flags that end the processing.\<close>

definition redirect_of :: "Rule \<Rightarrow> int" where
  "redirect_of rule =
     (if Redirect (flags rule) = 0 \<and> hasLiteralScheme (Target rule) then 302 else Redirect (flags rule))"

definition final_flags :: "Rule \<Rightarrow> Result \<Rightarrow> Result option" where
  "final_flags rule res =
     (if Forbidden (flags rule) then Some (res\<lparr>isForbidden := True\<rparr>)
      else if Gone (flags rule) then Some (res\<lparr>isGone := True\<rparr>)
      else if redirect_of rule > 0 then
        (let uri = sameHostRedirectPath (URI res) in
         Some (res\<lparr>isRedirect := True, StatusCode := redirect_of rule,
                   URI := (if Query res \<noteq> [] then uri @ ''?'' @ Query res else uri)\<rparr>))
      else if Last (flags rule) then Some res
      else None)"

definition skip_to :: "Rule list \<Rightarrow> Rule \<Rightarrow> nat \<Rightarrow> nat" where
  "skip_to rules rule i =
     (if Skip (flags rule) > 0 then i + nat (min (Skip (flags rule)) (int (length rules) - int i - 1)) else i)"

section \<open>Passes\<close>

datatype pass = Final nat Result | Pass nat Result Variables bool

function process_rules :: "rw_env \<Rightarrow> clock \<Rightarrow> Rule list \<Rightarrow> nat \<Rightarrow> nat \<Rightarrow> Result \<Rightarrow> Variables \<Rightarrow> bool \<Rightarrow> pass" where
  "process_rules env clk rules n i res v changed =
     (if i \<ge> length rules then Pass n res v changed
      else if clk n then Final (n + 1) (overload rules res)
      else
        let rule = rules ! i;
            next = (if Chain (flags rule) then skipChain rules i else i) + 1
        in case evalConditionsBudget env clk v (n + 1) (Conditions rule) of
             (m, None) \<Rightarrow> Final m (overload rules res)
           | (m, Some (condMatch, condCaptures)) \<Rightarrow>
               if \<not> condMatch then process_rules env clk rules m next res v changed
               else case Match rule (URI res) of (matched, ruleCaptures) \<Rightarrow>
                 if \<not> matched then process_rules env clk rules m next res v changed
                 else case applyLimited env (Target rule) ruleCaptures
                             (case condCaptures of None \<Rightarrow> [] | Some cs \<Rightarrow> cs) (Some v) maxRewriteString of
                   None \<Rightarrow> Final m (overload rules res)
                 | Some newURI \<Rightarrow>
                     (case substitute rules (flags rule) newURI res v of
                        Inl r \<Rightarrow> Final m r
                      | Inr (res', v', ch) \<Rightarrow>
                          (case final_flags rule res' of
                             Some r \<Rightarrow> Final m r
                           | None \<Rightarrow> process_rules env clk rules m (skip_to rules rule i + 1) res' v' (changed \<or> ch))))"
  by pat_completeness auto
termination
  by (relation "measure (\<lambda>(env, clk, rules, n, i, res, v, changed). length rules - i)") (auto simp: skip_to_def less_Suc_eq_le intro: diff_less_mono2 le_less_trans [OF skipChain_ge])

declare process_rules.simps [simp del]

text \<open>The passes with the number of clock readings, then the result alone.\<close>

fun process_loop :: "rw_env \<Rightarrow> clock \<Rightarrow> Rule list \<Rightarrow> nat \<Rightarrow> nat \<Rightarrow> Result \<Rightarrow> Variables \<Rightarrow> nat \<times> Result" where
  "process_loop env clk rules 0 n res v = (n, res)"
| "process_loop env clk rules (Suc k) n res v =
     (if clk n then (n + 1, overload rules res)
      else case process_rules env clk rules (n + 1) 0 res v False of
        Final m r \<Rightarrow> (m, r)
      | Pass m r v' changed \<Rightarrow> if changed then process_loop env clk rules k m r v' else (m, r))"

definition process_run :: "rw_env \<Rightarrow> clock \<Rightarrow> Rule list \<Rightarrow> string \<Rightarrow> string \<Rightarrow> Variables \<Rightarrow> nat \<times> Result" where
  "process_run env clk rules uri q v =
     (let res = initial_result uri q in
      if length uri > maxRewriteString then (0, overload rules res)
      else process_loop env clk rules maxRewrites 0 res v)"

definition Process :: "rw_env \<Rightarrow> clock \<Rightarrow> Rule list \<Rightarrow> string \<Rightarrow> string \<Rightarrow> Variables \<Rightarrow> Result" where
  "Process env clk rules uri q v = snd (process_run env clk rules uri q v)"

fun might_loop :: "clock \<Rightarrow> nat \<Rightarrow> Rule list \<Rightarrow> string \<Rightarrow> bool" where
  "might_loop clk n [] uri = False"
| "might_loop clk n (r # rs) uri = (clk n \<or> matchesURI r uri \<or> might_loop clk (n + 1) rs uri)"

definition MightMatch :: "clock \<Rightarrow> Rule list \<Rightarrow> string \<Rightarrow> bool" where
  "MightMatch clk rules uri =
     (if rules = [] then False else if length uri > maxRewriteString then True else might_loop clk 0 rules uri)"

section \<open>Configuration and requests\<close>

record rw_request =
  reqMethod :: string
  urlPath :: string
  rawQuery :: string
  reqURI :: string
  reqProto :: string
  reqHost :: string
  reqRemote :: string
  reqHeaders :: header
  localAddr :: "string option"

definition BuildVariables :: "rw_request \<Rightarrow> string \<Rightarrow> string \<Rightarrow> bool \<Rightarrow> Variables" where
  "BuildVariables r docRoot resolvedPath isHTTPS =
     (let port = (if isHTTPS then ''443'' else ''80'');
          port = (case localAddr r of
                    None \<Rightarrow> port
                  | Some a \<Rightarrow> (case SplitHostPort a of Some (_, p) \<Rightarrow> p | None \<Rightarrow> port));
          host = (case LastIndexByte (reqHost r) (CHR '':'') of
                    Some i \<Rightarrow> if HasSuffix (reqHost r) '']'' then reqHost r else take i (reqHost r)
                  | None \<Rightarrow> reqHost r);
          remote = (case SplitHostPort (reqRemote r) of Some (h, _) \<Rightarrow> h | None \<Rightarrow> reqRemote r);
          resolved = (if resolvedPath = [] \<and> docRoot \<noteq> []
                      then filepath_Join docRoot (filepath_Clean (''/'' @ urlPath r)) else resolvedPath)
      in \<lparr>RequestURI = urlPath r, RequestFilename = resolved, QueryString = rawQuery r, HTTPHost = reqHost r,
          HTTPReferer = HeaderGet (reqHeaders r) ''Referer'', HTTPUserAgent = HeaderGet (reqHeaders r) ''User-Agent'',
          RemoteAddr = remote, RequestMethod = reqMethod r, ServerPort = port,
          HTTPS = (if isHTTPS then ''on'' else ''off''), DocumentRoot = docRoot, ServerName = host,
          TheRequest = reqMethod r @ '' '' @ reqURI r @ '' '' @ reqProto r, Proto = reqProto r,
          Header = reqHeaders r\<rparr>)"

record ConfigRewrite =
  rwMatch :: string
  rwTo :: string
  rwStatus :: int
  rwConditions :: "string list"
  rwFlags :: "string list"

definition config_condition :: "rw_env \<Rightarrow> string \<Rightarrow> Condition option" where
  "config_condition env condStr =
     (let pat = (if condStr = ''!is_file'' \<or> condStr = ''!-f'' then Some ''!-f''
                 else if condStr = ''is_file'' \<or> condStr = ''-f'' then Some ''-f''
                 else if condStr = ''!is_dir'' \<or> condStr = ''!-d'' then Some ''!-d''
                 else if condStr = ''is_dir'' \<or> condStr = ''-d'' then Some ''-d''
                 else None)
      in case pat of
           None \<Rightarrow> None
         | Some p \<Rightarrow>
             (case ParseCondition env ''%{REQUEST_FILENAME}'' p [] of Inl _ \<Rightarrow> None | Inr c \<Rightarrow> Some c))"

definition convert_rewrite :: "rw_env \<Rightarrow> ConfigRewrite \<Rightarrow> Rule option" where
  "convert_rewrite env rw =
     (case ParseRule env (rwMatch rw) (rwTo rw) (Join (rwFlags rw) '','') of
        Inl _ \<Rightarrow> None
      | Inr rule \<Rightarrow>
          let rule = rule\<lparr>Conditions := Conditions rule @ List.map_filter (config_condition env) (rwConditions rw)\<rparr>;
              fl = flags rule;
              fl = (if rwStatus rw > 0 then fl\<lparr>Redirect := redirectStatus (rwStatus rw)\<rparr> else fl);
              fl = (if \<not> Chain fl \<and> Redirect fl = 0 then fl\<lparr>Last := True\<rparr> else fl)
          in Some (rule\<lparr>flags := fl\<rparr>))"

definition ConvertConfigRewrites :: "rw_env \<Rightarrow> ConfigRewrite list \<Rightarrow> Rule list" where
  "ConvertConfigRewrites env rws = List.map_filter (convert_rewrite env) rws"

section \<open>Conditions in groups\<close>

text \<open>The reference: conditions in the groups their OR flags make, each group an alternative.\<close>

fun or_groups :: "Condition list \<Rightarrow> Condition list list" where
  "or_groups [] = []"
| "or_groups (c # cs) =
     (if OrNext c then (case or_groups cs of [] \<Rightarrow> [[c]] | g # gs \<Rightarrow> (c # g) # gs) else [c] # or_groups cs)"

definition holds :: "rw_env \<Rightarrow> Variables \<Rightarrow> Condition \<Rightarrow> bool" where
  "holds env v c = (case evaluate env c v maxRewriteString of Some (m, _) \<Rightarrow> m | None \<Rightarrow> False)"

lemma cond_loop_groups:
  assumes "list_all (\<lambda>c. evaluate env c v maxRewriteString \<noteq> None) cs" and "\<not> inGroup \<longrightarrow> \<not> grp"
  shows "map_option fst (snd (cond_loop env (\<lambda>_. False) v n caps overall grp inGroup cs)) =
    Some (overall \<and> (case or_groups cs of
       [] \<Rightarrow> inGroup \<longrightarrow> grp
     | g # gs \<Rightarrow> (grp \<or> list_ex (holds env v) g) \<and> list_all (list_ex (holds env v)) gs))"
  using assms
proof (induction cs arbitrary: n caps overall grp inGroup)
  case Nil
  then show ?case by simp
next
  case (Cons c cs)
  then obtain m k where e: "evaluate env c v maxRewriteString = Some (m, k)" by (auto simp: list_all_iff)
  then have h: "holds env v c = m" by (simp add: holds_def)
  let ?caps = "if m \<and> k \<noteq> None then k else caps"
  show ?case
  proof (cases "OrNext c")
    case True
    have "map_option fst (snd (cond_loop env (\<lambda>_. False) v (n + 1) ?caps overall (grp \<or> m) True cs)) =
        Some (overall \<and> (case or_groups cs of [] \<Rightarrow> True \<longrightarrow> grp \<or> m
          | g # gs \<Rightarrow> ((grp \<or> m) \<or> list_ex (holds env v) g) \<and> list_all (list_ex (holds env v)) gs))"
      using Cons.prems by (intro Cons.IH) auto
    with True e h show ?thesis by (simp add: Let_def split: list.splits) auto
  next
    case False
    have "map_option fst (snd (cond_loop env (\<lambda>_. False) v (n + 1) ?caps (overall \<and> (grp \<or> m)) False False cs)) =
        Some ((overall \<and> (grp \<or> m)) \<and> (case or_groups cs of [] \<Rightarrow> False \<longrightarrow> False
          | g # gs \<Rightarrow> (False \<or> list_ex (holds env v) g) \<and> list_all (list_ex (holds env v)) gs))"
      using Cons.prems by (intro Cons.IH) auto
    with False e h show ?thesis by (simp add: Let_def split: list.splits) auto
  qed
qed

section \<open>Properties\<close>

text \<open>
  RewriteCond semantics. As long as no value is too long and time remains, the verdict on a list of
  conditions is Apache's: the conditions fall into groups at each condition without OR, a group holds if
  one of its members does, and all groups must hold; a failed alternative never spoils its group.
\<close>

theorem evalConditions_groups:
  assumes "list_all (\<lambda>c. evaluate env c v maxRewriteString \<noteq> None) conds"
  shows "map_option fst (snd (evalConditionsBudget env (\<lambda>_. False) v n conds)) =
    Some (list_all (list_ex (holds env v)) (or_groups conds))"
proof (cases conds)
  case Nil
  then show ?thesis by (simp add: evalConditionsBudget_def)
next
  case (Cons c cs)
  then have "or_groups conds \<noteq> []" by (auto split: list.splits)
  then show ?thesis
    using Cons cond_loop_groups [OF assms, of False False n None True]
    by (simp add: evalConditionsBudget_def list_all_iff split: list.splits)
qed

definition plain_condition :: "string \<Rightarrow> string \<Rightarrow> bool \<Rightarrow> Condition" where
  "plain_condition var lit ornext =
     \<lparr>Variable = var, condPattern = None, condNegated = False, OrNext = ornext, TestType = TestEq, condNoCase = False,
      Literal = lit\<rparr>"

definition demo_rw :: rw_env where
  "demo_rw = \<lparr>rx_compile = (\<lambda>_. None), rw_lower = (\<lambda>s. s), rw_upper = (\<lambda>s. s), rw_fold = (\<lambda>_ _. False),
     os_stat = (\<lambda>_. None), os_lstat = (\<lambda>_. None)\<rparr>"

definition demo_vars :: Variables where
  "demo_vars = \<lparr>RequestURI = ''/a'', RequestFilename = [], QueryString = [], HTTPHost = ''h'', HTTPReferer = [],
     HTTPUserAgent = [], RemoteAddr = ''1.2.3.4'', RequestMethod = ''GET'', ServerPort = ''80'', HTTPS = ''off'',
     DocumentRoot = [], ServerName = ''h'', TheRequest = [], Proto = ''HTTP/1.1'', Header = []\<rparr>"

definition demo_conditions :: "Condition list" where
  "demo_conditions = [plain_condition ''HTTP_HOST'' ''x'' True, plain_condition ''HTTP_HOST'' ''h'' False,
     plain_condition ''HTTPS'' ''off'' False]"

theorem evalConditions_groups_witness:
  "map_option fst (snd (evalConditionsBudget demo_rw (\<lambda>_. False) demo_vars 0 demo_conditions)) = Some True"
proof -
  have "list_all (\<lambda>c. evaluate demo_rw c demo_vars maxRewriteString \<noteq> None) demo_conditions"
    by (simp add: demo_conditions_def plain_condition_def evaluate_def Let_def)
  moreover have "list_all (list_ex (holds demo_rw demo_vars)) (or_groups demo_conditions)"
  proof -
    have "Expand demo_rw demo_vars ''HTTP_HOST'' = ''h''" "Expand demo_rw demo_vars ''HTTPS'' = ''off''"
      by code_simp+
    then show ?thesis by (simp add: demo_conditions_def plain_condition_def holds_def evaluate_def Let_def)
  qed
  ultimately show ?thesis using evalConditions_groups [of demo_rw demo_vars demo_conditions 0] by simp
qed

text \<open>Unfolding one step of a pass.\<close>

lemma process_rules_cases:
  obtains (past) "i \<ge> length rules" "process_rules env clk rules n i res v changed = Pass n res v changed"
  | (late) "i < length rules" "clk n" "process_rules env clk rules n i res v changed = Final (n + 1) (overload rules res)"
  | (spent) m where "i < length rules" "\<not> clk n"
      "process_rules env clk rules n i res v changed = Final m (overload rules res)"
      "m = fst (evalConditionsBudget env clk v (n + 1) (Conditions (rules ! i)))"
  | (skip) m where "i < length rules" "\<not> clk n" "m = fst (evalConditionsBudget env clk v (n + 1) (Conditions (rules ! i)))"
      "process_rules env clk rules n i res v changed =
         process_rules env clk rules m ((if Chain (flags (rules ! i)) then skipChain rules i else i) + 1) res v changed"
  | (fire) m newURI where "i < length rules" "\<not> clk n" "matchesURI (rules ! i) (URI res)"
      "m = fst (evalConditionsBudget env clk v (n + 1) (Conditions (rules ! i)))"
      "length newURI \<le> maxRewriteString"
      "process_rules env clk rules n i res v changed =
         (case substitute rules (flags (rules ! i)) newURI res v of
            Inl r \<Rightarrow> Final m r
          | Inr (res', v', ch) \<Rightarrow>
              (case final_flags (rules ! i) res' of
                 Some r \<Rightarrow> Final m r
               | None \<Rightarrow> process_rules env clk rules m (skip_to rules (rules ! i) i + 1) res' v' (changed \<or> ch)))"
proof (cases "i \<ge> length rules \<or> clk n")
  case True
  then show ?thesis using past late by (cases "i \<ge> length rules") (auto simp: process_rules.simps [of env clk rules n i])
next
  case False
  let ?rule = "rules ! i"
  obtain m o' where ev: "evalConditionsBudget env clk v (n + 1) (Conditions ?rule) = (m, o')" by fastforce
  obtain mt caps where mt: "Match ?rule (URI res) = (mt, caps)" by fastforce
  note simps = process_rules.simps [of env clk rules n i res v changed] Let_def
  show ?thesis
  proof (cases o')
    case None
    with False ev spent show ?thesis by (simp add: simps)
  next
    case (Some cc)
    then obtain cm cc where o': "o' = Some (cm, cc)" by (cases cc) auto
    show ?thesis
    proof (cases "cm \<and> mt")
      case False
      with \<open>\<not> (i \<ge> length rules \<or> clk n)\<close> ev mt o' skip show ?thesis by (auto simp: simps)
    next
      case True
      have pos: "0 < maxRewriteString" by (simp add: maxRewriteString_def)
      have hit: "matchesURI ?rule (URI res)" using True mt Match_matchesURI [of ?rule "URI res"] by simp
      show ?thesis
      proof (cases "applyLimited env (Target ?rule) caps (case cc of None \<Rightarrow> [] | Some cs \<Rightarrow> cs) (Some v) maxRewriteString")
        case None
        with False True ev mt o' spent show ?thesis by (simp add: simps)
      next
        case (Some newURI)
        from applyLimited_length [OF this pos] have "length newURI \<le> maxRewriteString" .
        with Some False True ev mt o' hit fire show ?thesis by (simp add: simps)
      qed
    qed
  qed
qed

lemma might_loop_False: "\<not> might_loop clk n rules uri \<Longrightarrow> r \<in> set rules \<Longrightarrow> \<not> matchesURI r uri"
  by (induction clk n rules uri rule: might_loop.induct) auto

lemma process_rules_unmatched:
  "\<forall>r \<in> set rules. \<not> matchesURI r (URI res) \<Longrightarrow>
   \<exists>m. process_rules env clk rules n i res v changed \<in> {Pass m res v changed, Final m (overload rules res)}"
proof (induction "length rules - i" arbitrary: n i rule: less_induct)
  case less
  show ?case
  proof (cases rule: process_rules_cases [of rules i env clk n res v changed])
    case (skip m)
    let ?j = "(if Chain (flags (rules ! i)) then skipChain rules i else i) + 1"
    have "length rules - ?j < length rules - i" using skip(1) skipChain_ge [of i rules] by auto
    from less.hyps [OF this less.prems, of m] skip(4) show ?thesis by simp
  next
    case (fire m newURI)
    with less.prems show ?thesis by auto
  qed auto
qed

text \<open>
  C21. The pre-check loses nothing. If it says that no rule can match, running the engine would not have
  changed anything: for every clock, its result is the request as it came, or that request refused
  because the allowance ran out before the rules could be ruled out.
\<close>

theorem MightMatch_sound:
  assumes "\<not> MightMatch clk rules uri"
  shows "Process env clk' rules uri q v \<in> {initial_result uri q, overload rules (initial_result uri q)}"
proof (cases "rules = []")
  case True
  then show ?thesis
    by (auto simp: Process_def process_run_def maxRewrites_def numeral_eq_Suc Let_def process_rules.simps split: if_splits)
next
  case False
  with assms have len: "\<not> length uri > maxRewriteString" and m: "\<not> might_loop clk 0 rules uri"
    by (auto simp: MightMatch_def split: if_splits)
  have "\<forall>r \<in> set rules. \<not> matchesURI r (URI (initial_result uri q))"
    using might_loop_False [OF m] by (simp add: initial_result_def)
  from process_rules_unmatched [OF this, of env clk' 1 0 v False] obtain k
    where "process_rules env clk' rules 1 0 (initial_result uri q) v False
      \<in> {Pass k (initial_result uri q) v False, Final k (overload rules (initial_result uri q))}" by blast
  then have "snd (process_loop env clk' rules (Suc j) 0 (initial_result uri q) v)
      \<in> {initial_result uri q, overload rules (initial_result uri q)}" for j by auto
  moreover obtain j where "maxRewrites = Suc j" by (simp add: maxRewrites_def numeral_eq_Suc)
  ultimately have "snd (process_loop env clk' rules maxRewrites 0 (initial_result uri q) v)
      \<in> {initial_result uri q, overload rules (initial_result uri q)}" by (metis)
  then show ?thesis using len by (simp add: Process_def process_run_def Let_def del: process_loop.simps)
qed

theorem MightMatch_sound_witness:
  "Process demo_rw (\<lambda>_. False) [\<lparr>Pattern = (\<lambda>_. None), Target = ''/x'', flags = no_flags, Conditions = [],
      Negated = False, Without = None\<rparr>] ''/a'' [] demo_vars = initial_result ''/a'' []"
proof -
  let ?rules = "[\<lparr>Pattern = (\<lambda>_. None), Target = ''/x'', flags = no_flags, Conditions = [], Negated = False, Without = None\<rparr>]"
  have "\<not> MightMatch (\<lambda>_. False) ?rules ''/a''"
    by (simp add: MightMatch_def maxRewriteString_def matchesURI_def MatchString_def)
  moreover have "overload ?rules (initial_result ''/a'' []) = initial_result ''/a'' []"
    by (simp add: overload_def no_flags_def)
  ultimately show ?thesis using MightMatch_sound [of "\<lambda>_. False" ?rules "''/a''" demo_rw "\<lambda>_. False" "[]" demo_vars] by simp
qed

section \<open>Running out of time\<close>

lemma cond_loop_clock:
  "cond_loop env clk v n caps overall grp inGroup cs = cond_loop env (\<lambda>_. False) v n caps overall grp inGroup cs
   \<or> snd (cond_loop env clk v n caps overall grp inGroup cs) = None"
  by (induction cs arbitrary: n caps overall grp inGroup) (auto simp: Let_def split: option.splits)

lemma evalConditions_clock:
  "evalConditionsBudget env clk v n cs = evalConditionsBudget env (\<lambda>_. False) v n cs
   \<or> snd (evalConditionsBudget env clk v n cs) = None"
  using cond_loop_clock by (simp add: evalConditionsBudget_def)

lemma process_rules_clock:
  "process_rules env clk rules n i res v changed = process_rules env (\<lambda>_. False) rules n i res v changed
   \<or> (\<exists>m r. process_rules env clk rules n i res v changed = Final m (overload rules r))"
proof (induction "length rules - i" arbitrary: n i res v changed rule: less_induct)
  case less
  let ?next = "(if Chain (flags (rules ! i)) then skipChain rules i else i) + 1"
  let ?skip = "skip_to rules (rules ! i) i + 1"
  note simps = process_rules.simps [of env clk rules n i res v changed]
    process_rules.simps [of env "\<lambda>_. False" rules n i res v changed] Let_def
  show ?case
  proof (cases "i \<ge> length rules \<or> clk n")
    case True
    then show ?thesis by (auto simp: simps)
  next
    case False
    then have i: "i < length rules" and c: "\<not> clk n" by auto
    have n1: "length rules - ?next < length rules - i" using i skipChain_ge [of i rules] by auto
    have n2: "length rules - ?skip < length rules - i" using i by (auto simp: skip_to_def)
    obtain m o' where ev: "evalConditionsBudget env clk v (n + 1) (Conditions (rules ! i)) = (m, o')" by fastforce
    obtain mt caps where mt: "Match (rules ! i) (URI res) = (mt, caps)" by fastforce
    show ?thesis
    proof (cases o')
      case None
      with i c ev show ?thesis by (auto simp: simps)
    next
      case (Some p)
      then obtain cm cc where o': "o' = Some (cm, cc)" by (cases p) auto
      have ev0: "evalConditionsBudget env (\<lambda>_. False) v (n + 1) (Conditions (rules ! i)) = (m, Some (cm, cc))"
        using evalConditions_clock [of env clk v "n + 1" "Conditions (rules ! i)"] ev o' by simp
      note known = i c ev [unfolded o'] ev0 mt
      show ?thesis
      proof (cases "cm \<and> mt")
        case False
        with known less.hyps [OF n1, of m res v changed] show ?thesis by (auto simp: simps)
      next
        case True
        define a where "a = applyLimited env (Target (rules ! i)) caps (case cc of None \<Rightarrow> [] | Some cs \<Rightarrow> cs) (Some v) maxRewriteString"
        show ?thesis
        proof (cases a)
          case None
          with known True None [unfolded a_def] show ?thesis by (simp add: simps)
        next
          case (Some newURI)
          define s where "s = substitute rules (flags (rules ! i)) newURI res v"
          show ?thesis
          proof (cases s)
            case (Inl r)
            with known True Some [unfolded a_def] Inl [unfolded s_def] show ?thesis by (simp add: simps)
          next
            case (Inr p)
            then obtain res' v' ch where p: "s = Inr (res', v', ch)" by (cases p) auto
            with known True Some [unfolded a_def] p [unfolded s_def] less.hyps [OF n2, of m res' v' "changed \<or> ch"]
            show ?thesis by (cases "final_flags (rules ! i) res'") (simp_all add: simps)
          qed
        qed
      qed
    qed
  qed
qed

lemma process_loop_clock:
  "process_loop env clk rules k n res v = process_loop env (\<lambda>_. False) rules k n res v
   \<or> (\<exists>m r. process_loop env clk rules k n res v = (m, overload rules r))"
proof (induction k arbitrary: n res v)
  case 0
  then show ?case by simp
next
  case (Suc k)
  let ?p = "process_rules env clk rules (n + 1) 0 res v False"
  let ?free = "process_rules env (\<lambda>_. False) rules (n + 1) 0 res v False"
  show ?case
  proof (cases "clk n")
    case True
    then show ?thesis by auto
  next
    case False
    consider (same) "?p = ?free" | (late) m r where "?p = Final m (overload rules r)"
      using process_rules_clock by blast
    then show ?thesis
    proof cases
      case same
      show ?thesis by (cases ?free) (use same False Suc.IH in simp_all)
    next
      case late
      then show ?thesis using False by auto
    qed
  qed
qed

lemma Process_clock:
  "Process env clk rules uri q v = Process env (\<lambda>_. False) rules uri q v
   \<or> (\<exists>r. Process env clk rules uri q v = overload rules r)"
proof -
  consider (same) "process_run env clk rules uri q v = process_run env (\<lambda>_. False) rules uri q v"
    | (late) m r where "process_run env clk rules uri q v = (m, overload rules r)"
    using process_loop_clock [of env clk rules maxRewrites 0 "initial_result uri q" v]
    by (cases "length uri > maxRewriteString") (auto simp: process_run_def Let_def)
  then show ?thesis by cases (auto simp: Process_def)
qed

text \<open>
  C20. The engine fails closed. If the rule set contains a rule that denies access, then however and whenever
  the work allowance runs out, the outcome is the one an unlimited run would give, or the request is
  refused: a slow request is never let past an access rule.
\<close>

theorem Process_fail_closed:
  assumes "r \<in> set rules" and "Forbidden (flags r) \<or> Gone (flags r)"
  shows "Process env clk rules uri q v = Process env (\<lambda>_. False) rules uri q v
    \<or> isForbidden (Process env clk rules uri q v)"
proof -
  have "isForbidden (overload rules res)" for res
    using assms by (auto simp: overload_def list_ex_iff)
  then show ?thesis using Process_clock [of env clk rules uri q v] by auto
qed

definition deny_rule :: Rule where
  "deny_rule = \<lparr>Pattern = (\<lambda>s. if s = ''/secret'' then Some [s] else None), Target = ''-'',
     flags = no_flags\<lparr>Forbidden := True\<rparr>, Conditions = [], Negated = False, Without = None\<rparr>"

theorem Process_fail_closed_witness:
  "isForbidden (Process demo_rw (\<lambda>n. n \<ge> 1) [deny_rule] ''/secret'' [] demo_vars)
   \<and> \<not> isForbidden (Process demo_rw (\<lambda>_. False) [deny_rule] ''/public'' [] demo_vars)"
proof -
  have "Process demo_rw (\<lambda>n. n \<ge> 1) [deny_rule] ''/secret'' [] demo_vars = Process demo_rw (\<lambda>_. False) [deny_rule] ''/secret'' [] demo_vars
     \<or> isForbidden (Process demo_rw (\<lambda>n. n \<ge> 1) [deny_rule] ''/secret'' [] demo_vars)"
    by (rule Process_fail_closed [of deny_rule]) (simp_all add: deny_rule_def)
  moreover have "isForbidden (Process demo_rw (\<lambda>_. False) [deny_rule] ''/secret'' [] demo_vars)" by code_simp
  moreover have "\<not> isForbidden (Process demo_rw (\<lambda>_. False) [deny_rule] ''/public'' [] demo_vars)" by code_simp
  ultimately show ?thesis by auto
qed

section \<open>Work and size\<close>

definition pass_cost :: "Rule list \<Rightarrow> nat" where
  "pass_cost rules = sum_list (map (\<lambda>r. 1 + length (Conditions r)) rules)"

lemma cond_loop_readings: "fst (cond_loop env clk v n caps overall grp inGroup cs) \<le> n + length cs"
proof (induction cs arbitrary: n caps overall grp inGroup)
  case (Cons c cs)
  have "fst (cond_loop env clk v (Suc n) a b d e cs) \<le> Suc (n + length cs)" for a b d e
    using Cons.IH [of "Suc n"] by simp
  then show ?case by (simp add: Let_def split: option.splits prod.splits)
qed simp

lemma evalConditions_readings: "fst (evalConditionsBudget env clk v n cs) \<le> n + length cs"
  by (simp add: evalConditionsBudget_def cond_loop_readings)

lemma pass_cost_drop:
  assumes "i < length rules" and "i < j"
  shows "Suc (length (Conditions (rules ! i))) + pass_cost (drop j rules) \<le> pass_cost (drop i rules)"
proof -
  from assms(1) have "drop i rules = rules ! i # drop (Suc i) rules" by (simp add: Cons_nth_drop_Suc)
  moreover have "drop (Suc i) rules = take (j - Suc i) (drop (Suc i) rules) @ drop j rules"
    using assms(2) by (metis Suc_leI append_take_drop_id drop_drop le_add_diff_inverse2)
  then have "pass_cost (drop (Suc i) rules) = pass_cost (take (j - Suc i) (drop (Suc i) rules)) + pass_cost (drop j rules)"
    by (metis map_append pass_cost_def sum_list_append)
  ultimately show ?thesis by (simp add: pass_cost_def)
qed

definition fits :: "nat \<Rightarrow> nat \<Rightarrow> Result \<Rightarrow> bool" where
  "fits M K res \<longleftrightarrow> length (URI res) \<le> M \<and> length (Query res) \<le> K \<and> maxRewriteString \<le> M \<and> maxRewriteString \<le> K"

lemma sameHost_length: "length (sameHostRedirectPath uri) \<le> length uri"
proof (cases uri)
  case (Cons c cs)
  have "length (TrimLeftSet uri {CHR ''/'', CHR 0x5C}) \<le> length cs" if "c \<in> {CHR ''/'', CHR 0x5C}"
    using that Cons by (auto simp: TrimLeftSet_def length_dropWhile_le)
  then show ?thesis using Cons by (auto simp: sameHostRedirectPath_def)
qed (simp add: sameHostRedirectPath_def)

lemma final_flags_fits:
  "fits M K res \<Longrightarrow> final_flags rule res = Some r \<Longrightarrow> length (URI r) \<le> M + 1 + K"
  using sameHost_length [of "URI res"] by (auto simp: final_flags_def fits_def Let_def split: if_splits)

lemma URI_overload [simp]: "URI (overload rules res) = URI res"
  by (simp add: overload_def)

lemma substitute_fits:
  assumes "fits M K res" and "length newURI \<le> maxRewriteString"
  shows "case substitute rules fl newURI res v of Inl r \<Rightarrow> length (URI r) \<le> M | Inr (r, _) \<Rightarrow> fits M K r"
proof -
  obtain uri q where s: "split_query fl newURI (Query res) = (uri, q)" by fastforce
  then have "length uri \<le> length newURI" by (auto simp: split_query_def split: option.splits)
  then show ?thesis using assms s by (auto simp: substitute_def fits_def)
qed

lemma process_rules_bounded:
  assumes "fits M K res"
  shows "case process_rules env clk rules n i res v changed of
      Final m r \<Rightarrow> m \<le> n + pass_cost (drop i rules) \<and> length (URI r) \<le> M + 1 + K
    | Pass m r _ _ \<Rightarrow> m \<le> n + pass_cost (drop i rules) \<and> fits M K r"
  using assms
proof (induction "length rules - i" arbitrary: n i res v changed rule: less_induct)
  case less
  let ?ev = "fst (evalConditionsBudget env clk v (n + 1) (Conditions (rules ! i)))"
  have cost: "m + pass_cost (drop j rules) \<le> n + pass_cost (drop i rules)" if "i < length rules" "i < j" "m = ?ev" for j m
    using pass_cost_drop [OF that(1,2)] evalConditions_readings [of env clk v "n + 1" "Conditions (rules ! i)"] that(3)
    by simp
  have ev: "m \<le> n + pass_cost (drop i rules)" if "i < length rules" "m = ?ev" for m
    using cost [of "Suc i" m] that by simp
  have size: "length (URI res) \<le> M + 1 + K" using less.prems by (simp add: fits_def)
  show ?case
  proof (cases rule: process_rules_cases [of rules i env clk n res v changed])
    case past
    then show ?thesis using less.prems by (simp add: pass_cost_def)
  next
    case late
    then show ?thesis using pass_cost_drop [of i rules "Suc i"] size by simp
  next
    case (spent m)
    then show ?thesis using ev size by simp
  next
    case (skip m)
    let ?j = "(if Chain (flags (rules ! i)) then skipChain rules i else i) + 1"
    have "i < ?j" using skipChain_ge [of i rules] by simp
    then have less': "length rules - ?j < length rules - i" and c: "m + pass_cost (drop ?j rules) \<le> n + pass_cost (drop i rules)"
      using skip(1,3) cost by auto
    show ?thesis
      using less.hyps [OF less' less.prems, of m v changed] c unfolding skip(4) by (auto split: pass.splits)
  next
    case (fire m newURI)
    let ?j = "skip_to rules (rules ! i) i + 1"
    have "i < ?j" by (simp add: skip_to_def)
    then have less': "length rules - ?j < length rules - i" and c: "m + pass_cost (drop ?j rules) \<le> n + pass_cost (drop i rules)"
      using fire(1,4) cost by auto
    note s = substitute_fits [OF less.prems fire(5), of rules "flags (rules ! i)" v]
    show ?thesis
    proof (cases "substitute rules (flags (rules ! i)) newURI res v")
      case (Inl r)
      then show ?thesis using s fire(6) ev [OF fire(1,4)] by simp
    next
      case (Inr p)
      then obtain res' v' ch where p: "substitute rules (flags (rules ! i)) newURI res v = Inr (res', v', ch)" by (cases p) auto
      with s have f: "fits M K res'" by simp
      show ?thesis
      proof (cases "final_flags (rules ! i) res'")
        case None
        then show ?thesis
          using less.hyps [OF less' f, of m v' "changed \<or> ch"] c unfolding fire(6) p by (auto split: pass.splits)
      next
        case (Some r)
        then show ?thesis using final_flags_fits [OF f Some] fire(6) p ev [OF fire(1,4)] by simp
      qed
    qed
  qed
qed

lemma process_loop_bounded:
  assumes "fits M K res"
  shows "fst (process_loop env clk rules k n res v) \<le> n + k * (1 + pass_cost rules)
    \<and> length (URI (snd (process_loop env clk rules k n res v))) \<le> M + 1 + K"
  using assms
proof (induction k arbitrary: n res v)
  case 0
  then show ?case by (simp add: fits_def)
next
  case (Suc k)
  note b = process_rules_bounded [OF Suc.prems, where n = "n + 1" and i = 0 and v = v and changed = False and env = env and clk = clk and rules = rules]
  have size: "length (URI res) \<le> M + 1 + K" using Suc.prems by (simp add: fits_def)
  show ?case
  proof (cases "process_rules env clk rules (n + 1) 0 res v False")
    case (Final m r)
    then show ?thesis using b size by (auto simp: algebra_simps)
  next
    case (Pass m r v' ch)
    with b have m: "m \<le> n + 1 + pass_cost rules" and f: "fits M K r" by auto
    have "length (URI r) \<le> M + 1 + K" using f by (simp add: fits_def)
    then show ?thesis using Pass m size Suc.IH [OF f, of m v'] by (auto simp: algebra_simps)
  qed
qed

text \<open>
  C22. The engine always ends within its allowance. For every rule set, request and clock, the loop over
  passes finishes after at most ten passes over the rules, consulting the clock at most once per pass, once
  per rule and once per condition; and the rewritten URI never outgrows the 16 KiB bound, or the request's
  own size, by more than a separator and a query of bounded size.
\<close>

theorem Process_bounded:
  "fst (process_run env clk rules uri q v) \<le> maxRewrites * (1 + pass_cost rules)
   \<and> length (URI (Process env clk rules uri q v)) \<le> max (length uri) maxRewriteString + 1 + max (length q) maxRewriteString"
proof -
  have "fits (max (length uri) maxRewriteString) (max (length q) maxRewriteString) (initial_result uri q)"
    by (simp add: fits_def initial_result_def)
  from process_loop_bounded [OF this, where k = maxRewrites and n = 0 and v = v and env = env and clk = clk and rules = rules] show ?thesis
    by (cases "length uri > maxRewriteString") (auto simp: Process_def process_run_def Let_def initial_result_def)
qed

section \<open>Redirects\<close>

definition is_slash :: "char \<Rightarrow> bool" where "is_slash c \<longleftrightarrow> c = CHR ''/'' \<or> c = CHR 0x5C"

definition protocol_relative :: "string \<Rightarrow> bool" where
  "protocol_relative uri \<longleftrightarrow> 2 \<le> length uri \<and> is_slash (uri ! 0) \<and> is_slash (uri ! 1)"

lemma sameHost_local: "\<not> protocol_relative (sameHostRedirectPath uri @ s)" if "s = [] \<or> hd s = CHR ''?''" for s
proof (cases "uri = [] \<or> \<not> is_slash (hd uri)")
  case True
  then show ?thesis using that
    by (cases uri; cases s) (auto simp: sameHostRedirectPath_def protocol_relative_def is_slash_def)
next
  case False
  define t where "t = dropWhile (\<lambda>c. c \<in> {CHR ''/'', CHR 0x5C}) uri"
  have "t \<noteq> [] \<Longrightarrow> \<not> is_slash (hd t)"
    using hd_dropWhile [of "\<lambda>c. c \<in> {CHR ''/'', CHR 0x5C}" uri] by (auto simp: t_def is_slash_def)
  moreover have "sameHostRedirectPath uri = CHR ''/'' # t"
    using False by (auto simp: sameHostRedirectPath_def t_def TrimLeftSet_def is_slash_def)
  ultimately show ?thesis using that
    by (cases t; cases s) (auto simp: protocol_relative_def is_slash_def)
qed

definition safe_redirect :: "Result \<Rightarrow> bool" where
  "safe_redirect res \<longleftrightarrow> \<not> isRedirect res \<or> \<not> protocol_relative (URI res)"

lemma final_flags_safe: "\<not> isRedirect res \<Longrightarrow> final_flags rule res = Some r \<Longrightarrow> safe_redirect r"
  using sameHost_local [of "''?'' @ Query res" "URI res"] sameHost_local [of "[]" "URI res"]
  by (auto simp: final_flags_def safe_redirect_def Let_def split: if_splits)

lemma isRedirect_overload [simp]: "isRedirect (overload rules res) = isRedirect res"
  by (simp add: overload_def)

lemma process_rules_safe:
  "\<not> isRedirect res \<Longrightarrow> (case process_rules env clk rules n i res v changed of
      Final _ r \<Rightarrow> safe_redirect r | Pass _ r _ _ \<Rightarrow> \<not> isRedirect r)"
proof (induction "length rules - i" arbitrary: n i res v changed rule: less_induct)
  case less
  show ?case
  proof (cases rule: process_rules_cases [of rules i env clk n res v changed])
    case (skip m)
    let ?j = "(if Chain (flags (rules ! i)) then skipChain rules i else i) + 1"
    have "length rules - ?j < length rules - i" using skip(1) skipChain_ge [of i rules] by auto
    from less.hyps [OF this less.prems, of m v changed] show ?thesis unfolding skip(4) .
  next
    case (fire m newURI)
    let ?j = "skip_to rules (rules ! i) i + 1"
    have less': "length rules - ?j < length rules - i" using fire(1) by (auto simp: skip_to_def)
    show ?thesis
    proof (cases "substitute rules (flags (rules ! i)) newURI res v")
      case (Inl r)
      then have "\<not> isRedirect r" using less.prems by (auto simp: substitute_def split: if_splits prod.splits)
      then show ?thesis using Inl fire(6) by (simp add: safe_redirect_def)
    next
      case (Inr p)
      then obtain res' v' ch where p: "substitute rules (flags (rules ! i)) newURI res v = Inr (res', v', ch)" by (cases p) auto
      then have f: "\<not> isRedirect res'" using less.prems by (auto simp: substitute_def split: if_splits prod.splits)
      show ?thesis
      proof (cases "final_flags (rules ! i) res'")
        case None
        then show ?thesis using less.hyps [OF less' f, of m v' "changed \<or> ch"] unfolding fire(6) p by simp
      next
        case (Some r)
        then show ?thesis using final_flags_safe [OF f Some] fire(6) p by simp
      qed
    qed
  qed (use less.prems in \<open>auto simp: safe_redirect_def\<close>)
qed

lemma process_loop_safe: "\<not> isRedirect res \<Longrightarrow> safe_redirect (snd (process_loop env clk rules k n res v))"
proof (induction k arbitrary: n res v)
  case 0
  then show ?case by (simp add: safe_redirect_def)
next
  case (Suc k)
  note b = process_rules_safe [OF Suc.prems, of env clk rules "n + 1" 0 v False]
  show ?case
    by (cases "process_rules env clk rules (n + 1) 0 res v False")
      (use b Suc in \<open>auto simp: safe_redirect_def\<close>)
qed

text \<open>
  No open redirect through a path. Whatever the rules, the request and the captures are, a redirect that
  the engine issues never begins with two slashes or backslashes, which a browser would read as the
  address of another host.
\<close>

theorem Process_redirect_local:
  assumes "isRedirect (Process env clk rules uri q v)"
  shows "\<not> protocol_relative (URI (Process env clk rules uri q v))"
proof -
  have "safe_redirect (Process env clk rules uri q v)"
    using process_loop_safe [of "initial_result uri q" env clk rules maxRewrites 0 v]
    by (cases "length uri > maxRewriteString")
      (auto simp: Process_def process_run_def Let_def initial_result_def safe_redirect_def)
  then show ?thesis using assms by (simp add: safe_redirect_def)
qed

definition slash_rule :: Rule where
  "slash_rule = \<lparr>Pattern = (\<lambda>s. if HasPrefix s ''/old'' then Some [s, drop 4 s] else None), Target = ''$1'',
     flags = no_flags\<lparr>Redirect := 301\<rparr>, Conditions = [], Negated = False, Without = None\<rparr>"

theorem Process_redirect_local_witness:
  "URI (Process demo_rw (\<lambda>_. False) [slash_rule] ''/old//evil.com'' ''a=1'' demo_vars) = ''/evil.com?a=1''
   \<and> \<not> protocol_relative ''/evil.com?a=1''"
proof -
  have r: "isRedirect (Process demo_rw (\<lambda>_. False) [slash_rule] ''/old//evil.com'' ''a=1'' demo_vars)"
    and u: "URI (Process demo_rw (\<lambda>_. False) [slash_rule] ''/old//evil.com'' ''a=1'' demo_vars) = ''/evil.com?a=1''"
    by code_simp+
  show ?thesis using Process_redirect_local [OF r] u by simp
qed

end
