(* ===== verification/Cache_Disk.thy ===== *)
theory Cache_Disk
  imports Cache_Memory Cache_Key
begin

text \<open>
  The disk cache, \<open>internal/cache/disk.go\<close>: one file per entry, named by a hash of its key, an estimate of
  the space used and a limit on it. The file system is the list of cache files with their contents;
  which system calls succeed is a parameter (\<open>disk_io\<close>), as is SHA-256. Each operation runs under the lock
  of the cache and is one step. Temporary files, which no other operation looks at, and permissions are
  not part of the state.
\<close>

section \<open>State\<close>

record DiskCache =
  files :: "(string \<times> bytes) list"
  diskMax :: int
  diskUsed :: int

text \<open>Which calls succeed on a path: stat, writing and renaming a new file into place, reading, removing.\<close>

record disk_io =
  stat_ok :: "string \<Rightarrow> bool"
  write_ok :: "string \<Rightarrow> bool"
  read_ok :: "string \<Rightarrow> bool"
  remove_ok :: "string \<Rightarrow> bool"
  removeall :: "(string \<Rightarrow> bool) option" \<comment> \<open>\<open>None\<close>: \<open>RemoveAll\<close> succeeds; otherwise the paths it leaves\<close>

definition diskBlockSize :: int where "diskBlockSize = 4096"

definition diskCost :: "int \<Rightarrow> int" where
  "diskCost n = (if n \<le> 0 then 0 else (n + diskBlockSize - 1) div diskBlockSize * diskBlockSize)"

definition file_cost :: "bytes \<Rightarrow> int" where
  "file_cost data = diskCost (int (length data))"

definition disk_total :: "(string \<times> bytes) list \<Rightarrow> int" where
  "disk_total fs = sum_list (map (\<lambda>f. file_cost (snd f)) fs)"

definition NewDiskCache :: "(string \<times> bytes) list \<Rightarrow> int \<Rightarrow> DiskCache" where
  "NewDiskCache fs limit = \<lparr>files = fs, diskMax = limit, diskUsed = disk_total fs\<rparr>"

section \<open>Operations\<close>

text \<open>The path of a key below the base directory; \<open>sha\<close> is the hexadecimal SHA-256.\<close>

definition disk_path :: "(string \<Rightarrow> string) \<Rightarrow> string \<Rightarrow> string" where
  "disk_path sha key = (case KeyPrefix key of (d1, d2) \<Rightarrow> Join [d1, d2, sha key @ ''.cache''] ''/'')"

datatype disk_err = NoFile | BadFile cache_error | WriteFailed

definition DiskGet :: "disk_io \<Rightarrow> (string \<Rightarrow> string) \<Rightarrow> string \<Rightarrow> DiskCache \<Rightarrow> disk_err + CachedResponse" where
  "DiskGet io sha key dc =
     (case map_of (files dc) (disk_path sha key) of
        None \<Rightarrow> Inl NoFile
      | Some data \<Rightarrow>
          if \<not> read_ok io (disk_path sha key) then Inl NoFile
          else case Deserialize data of Inl e \<Rightarrow> Inl (BadFile e) | Inr resp \<Rightarrow> Inr resp)"

definition DiskSet :: "disk_io \<Rightarrow> (string \<Rightarrow> string) \<Rightarrow> string \<Rightarrow> CachedResponse \<Rightarrow> DiskCache \<Rightarrow> DiskCache \<times> disk_err option" where
  "DiskSet io sha key resp dc =
     (let data = Serialize resp; path = disk_path sha key;
          oldSize = (case map_of (files dc) path of
                       Some old \<Rightarrow> if stat_ok io path then file_cost old else 0
                     | None \<Rightarrow> 0);
          projectedBytes = diskUsed dc - min oldSize (diskUsed dc) + file_cost data
      in if diskMax dc > 0 \<and> projectedBytes > diskMax dc then (dc, None)
         else if \<not> write_ok io path then (dc, Some WriteFailed)
         else (dc\<lparr>files := map_put path data (files dc), diskUsed := projectedBytes\<rparr>, None))"

definition subtractUsedBytes :: "int \<Rightarrow> DiskCache \<Rightarrow> DiskCache" where
  "subtractUsedBytes n dc = (if n \<ge> diskUsed dc then dc\<lparr>diskUsed := 0\<rparr> else dc\<lparr>diskUsed := diskUsed dc - n\<rparr>)"

definition remove_file :: "string \<times> bytes \<Rightarrow> DiskCache \<Rightarrow> DiskCache" where
  "remove_file f dc = subtractUsedBytes (file_cost (snd f)) (dc\<lparr>files := map_delete (fst f) (files dc)\<rparr>)"

definition DiskDelete :: "disk_io \<Rightarrow> (string \<Rightarrow> string) \<Rightarrow> string \<Rightarrow> DiskCache \<Rightarrow> DiskCache" where
  "DiskDelete io sha key dc =
     (let path = disk_path sha key in
      case map_of (files dc) path of
        None \<Rightarrow> dc
      | Some data \<Rightarrow>
          if \<not> remove_ok io path then dc
          else if stat_ok io path then remove_file (path, data) dc
          else dc\<lparr>files := map_delete path (files dc)\<rparr>)"

definition DiskPurgeAll :: "disk_io \<Rightarrow> DiskCache \<Rightarrow> DiskCache" where
  "DiskPurgeAll io dc =
     (case removeall io of
        None \<Rightarrow> dc\<lparr>files := [], diskUsed := 0\<rparr>
      | Some left \<Rightarrow> dc\<lparr>files := filter (\<lambda>f. left (fst f)) (files dc)\<rparr>)"

text \<open>One file of the walk of a purge: corrupt files go uncounted, matching ones are counted.\<close>

definition purge_file :: "disk_io \<Rightarrow> string list \<Rightarrow> string \<times> bytes \<Rightarrow> DiskCache \<times> nat \<Rightarrow> DiskCache \<times> nat" where
  "purge_file io tags f st =
     (case st of (dc, n) \<Rightarrow>
        if \<not> read_ok io (fst f) then st
        else case Deserialize (snd f) of
          Inl _ \<Rightarrow> if stat_ok io (fst f) \<and> remove_ok io (fst f) then (remove_file f dc, n) else st
        | Inr resp \<Rightarrow>
            if list_ex (\<lambda>t. t \<in> set tags) (Tags resp) \<and> stat_ok io (fst f) \<and> remove_ok io (fst f)
            then (remove_file f dc, n + 1) else st)"

definition DiskPurgeByTag :: "disk_io \<Rightarrow> string list \<Rightarrow> DiskCache \<Rightarrow> DiskCache \<times> nat" where
  "DiskPurgeByTag io tags dc = fold (purge_file io tags) (files dc) (dc, 0)"

definition clean_file :: "disk_io \<Rightarrow> instant \<Rightarrow> string \<times> bytes \<Rightarrow> DiskCache \<Rightarrow> DiskCache" where
  "clean_file io now f dc =
     (if \<not> read_ok io (fst f) then dc
      else if (case Deserialize (snd f) of Inl _ \<Rightarrow> False | Inr resp \<Rightarrow> \<not> IsExpired now resp) then dc
      else if stat_ok io (fst f) \<and> remove_ok io (fst f) then remove_file f dc else dc)"

definition DiskCleanExpired :: "disk_io \<Rightarrow> instant \<Rightarrow> DiskCache \<Rightarrow> DiskCache" where
  "DiskCleanExpired io now dc = fold (clean_file io now) (files dc) dc"

section \<open>Accounting\<close>

text \<open>The estimate is never below the space the files take.\<close>

definition disk_inv :: "DiskCache \<Rightarrow> bool" where
  "disk_inv dc \<longleftrightarrow> distinct (map fst (files dc)) \<and> disk_total (files dc) \<le> diskUsed dc"

lemma diskCost_nonneg [simp]: "0 \<le> diskCost n"
  by (simp add: diskCost_def diskBlockSize_def)

lemma file_cost_nonneg: "0 \<le> file_cost d"
  by (simp add: file_cost_def)

lemma disk_total_nonneg: "0 \<le> disk_total fs"
  by (induction fs) (simp_all add: disk_total_def file_cost_nonneg)

lemma disk_total_delete:
  "distinct (map fst fs) \<Longrightarrow> map_of fs p = Some d \<Longrightarrow> disk_total (map_delete p fs) = disk_total fs - file_cost d"
proof (induction fs)
  case (Cons f fs)
  obtain q e where f: "f = (q, e)" by fastforce
  show ?case
  proof (cases "q = p")
    case True
    with Cons.prems f have "map_of fs p = None" by (auto simp: map_of_eq_None_iff)
    then have "map_delete p fs = fs" by (rule map_delete_absent)
    with True f Cons.prems show ?thesis by (simp add: map_delete_def disk_total_def)
  next
    case False
    with Cons f have "disk_total (map_delete p fs) = disk_total fs - file_cost d" by simp
    with False f show ?thesis by (simp add: map_delete_def disk_total_def)
  qed
qed simp

lemma disk_total_put:
  assumes "distinct (map fst fs)"
  shows "disk_total (map_put p d fs) =
    disk_total fs - (case map_of fs p of Some old \<Rightarrow> file_cost old | None \<Rightarrow> 0) + file_cost d"
proof (cases "map_of fs p")
  case None
  then show ?thesis by (simp add: map_put_def map_delete_absent) (simp add: disk_total_def)
next
  case (Some old)
  with disk_total_delete [OF assms Some] show ?thesis by (simp add: map_put_def disk_total_def)
qed

lemma remove_file_kept:
  assumes "disk_inv dc" and "map_of (files dc) (fst f) = Some (snd f)"
  shows "disk_inv (remove_file f dc) \<and> diskMax (remove_file f dc) = diskMax dc \<and> diskUsed (remove_file f dc) \<le> diskUsed dc
    \<and> files (remove_file f dc) = map_delete (fst f) (files dc)"
proof -
  have "disk_total (map_delete (fst f) (files dc)) = disk_total (files dc) - file_cost (snd f)"
    using assms by (intro disk_total_delete) (auto simp: disk_inv_def)
  then show ?thesis
    using assms(1) disk_total_nonneg [of "map_delete (fst f) (files dc)"] disk_total_nonneg [of "files dc"]
      file_cost_nonneg [of "snd f"]
    by (auto simp: disk_inv_def remove_file_def subtractUsedBytes_def intro: distinct_map_delete)
qed

text \<open>A sweep that removes some of the files it visits.\<close>

fun sweep :: "(string \<times> bytes \<Rightarrow> bool) \<Rightarrow> (string \<times> bytes) list \<Rightarrow> DiskCache \<Rightarrow> DiskCache" where
  "sweep P [] dc = dc"
| "sweep P (f # fs) dc = sweep P fs (if P f then remove_file f dc else dc)"

lemma sweep_kept:
  assumes "disk_inv dc" and "distinct (map fst fs)" and "\<And>f. f \<in> set fs \<Longrightarrow> map_of (files dc) (fst f) = Some (snd f)"
  shows "disk_inv (sweep P fs dc) \<and> diskMax (sweep P fs dc) = diskMax dc \<and> diskUsed (sweep P fs dc) \<le> diskUsed dc
    \<and> files (sweep P fs dc) = filter (\<lambda>f. \<not> (P f \<and> f \<in> set fs)) (files dc)"
  using assms
proof (induction fs arbitrary: dc)
  case (Cons f fs)
  let ?dc = "if P f then remove_file f dc else dc"
  note k = remove_file_kept [OF Cons.prems(1) Cons.prems(3) [of f]]
  have inv: "disk_inv ?dc" "diskMax ?dc = diskMax dc" "diskUsed ?dc \<le> diskUsed dc" using k Cons.prems(1) by auto
  have fs: "files ?dc = filter (\<lambda>g. \<not> (P f \<and> g = f)) (files dc)"
  proof (cases "P f")
    case True
    have "fst g \<noteq> fst f \<longleftrightarrow> g \<noteq> f" if "g \<in> set (files dc)" for g
    proof -
      from that Cons.prems(1) have "map_of (files dc) (fst g) = Some (snd g)" by (simp add: disk_inv_def)
      with Cons.prems(3) [of f] show ?thesis by (auto simp: prod_eq_iff)
    qed
    then have "map_delete (fst f) (files dc) = filter (\<lambda>g. g \<noteq> f) (files dc)"
      unfolding map_delete_def by (intro filter_cong) auto
    with True k show ?thesis by simp
  qed simp
  have "map_of (files ?dc) (fst g) = Some (snd g)" if "g \<in> set fs" for g
  proof -
    from that Cons.prems(2) have "fst g \<noteq> fst f" by (auto simp: image_iff)
    moreover have "map_of (files dc) (fst g) = Some (snd g)" using that Cons.prems(3) by simp
    ultimately show ?thesis using k by simp
  qed
  then have "disk_inv (sweep P fs ?dc) \<and> diskMax (sweep P fs ?dc) = diskMax ?dc \<and> diskUsed (sweep P fs ?dc) \<le> diskUsed ?dc
      \<and> files (sweep P fs ?dc) = filter (\<lambda>g. \<not> (P g \<and> g \<in> set fs)) (files ?dc)"
    using Cons.prems(2) inv(1) by (intro Cons.IH) auto
  moreover have "filter (\<lambda>g. \<not> (P g \<and> g \<in> set fs)) (files ?dc) = filter (\<lambda>g. \<not> (P g \<and> g \<in> set (f # fs))) (files dc)"
    unfolding fs by (simp, rule filter_cong, auto)
  ultimately show ?case using inv by simp
qed simp

definition purged :: "disk_io \<Rightarrow> string list \<Rightarrow> string \<times> bytes \<Rightarrow> bool" where
  "purged io tags f \<longleftrightarrow> read_ok io (fst f) \<and> stat_ok io (fst f) \<and> remove_ok io (fst f)
     \<and> (case Deserialize (snd f) of Inl _ \<Rightarrow> True | Inr resp \<Rightarrow> tagged tags resp)"

definition stale_file :: "disk_io \<Rightarrow> instant \<Rightarrow> string \<times> bytes \<Rightarrow> bool" where
  "stale_file io now f \<longleftrightarrow> read_ok io (fst f) \<and> stat_ok io (fst f) \<and> remove_ok io (fst f)
     \<and> (case Deserialize (snd f) of Inl _ \<Rightarrow> True | Inr resp \<Rightarrow> IsExpired now resp)"

lemma fold_purge_file: "fst (fold (purge_file io tags) fs (dc, n)) = sweep (purged io tags) fs dc"
proof (induction fs arbitrary: dc n)
  case (Cons f fs)
  have "fst (purge_file io tags f (dc, n)) = (if purged io tags f then remove_file f dc else dc)"
    by (auto simp: purge_file_def purged_def tagged_def list_ex_iff split: sum.splits)
  then show ?case using Cons.IH by (cases "purge_file io tags f (dc, n)") simp
qed simp

lemma fold_clean_file: "fold (clean_file io now) fs dc = sweep (stale_file io now) fs dc"
proof (induction fs arbitrary: dc)
  case (Cons f fs)
  have "clean_file io now f dc = (if stale_file io now f then remove_file f dc else dc)"
    by (auto simp: clean_file_def stale_file_def split: sum.splits)
  then show ?case using Cons.IH by simp
qed simp

lemma sweep_all:
  assumes "disk_inv dc"
  shows "disk_inv (sweep P (files dc) dc) \<and> diskMax (sweep P (files dc) dc) = diskMax dc
    \<and> diskUsed (sweep P (files dc) dc) \<le> diskUsed dc \<and> files (sweep P (files dc) dc) = filter (\<lambda>f. \<not> P f) (files dc)"
proof -
  have "filter (\<lambda>f. \<not> (P f \<and> f \<in> set (files dc))) (files dc) = filter (\<lambda>f. \<not> P f) (files dc)"
    by (intro filter_cong) auto
  then show ?thesis
    using sweep_kept [OF assms, of "files dc" P] assms by (auto simp: disk_inv_def)
qed

lemma disk_total_filter: "disk_total (filter P fs) \<le> disk_total fs"
proof (induction fs)
  case (Cons f fs)
  then show ?case using file_cost_nonneg [of "snd f"] by (simp add: disk_total_def)
qed simp

lemma DiskSet_kept:
  assumes "disk_inv dc"
  shows "disk_inv (fst (DiskSet io sha key r dc)) \<and> diskMax (fst (DiskSet io sha key r dc)) = diskMax dc
    \<and> (0 < diskMax dc \<longrightarrow> diskUsed (fst (DiskSet io sha key r dc)) \<le> max (diskMax dc) (diskUsed dc))"
proof -
  let ?p = "disk_path sha key"
  have d: "distinct (map fst (files dc))" and t: "disk_total (files dc) \<le> diskUsed dc" using assms by (auto simp: disk_inv_def)
  have "file_cost old \<le> diskUsed dc" if "map_of (files dc) ?p = Some old" for old
    using disk_total_delete [OF d that] disk_total_nonneg [of "map_delete ?p (files dc)"] t by simp
  then show ?thesis
    using d t disk_total_put [OF d, of ?p "Serialize r"] file_cost_nonneg [of "the (map_of (files dc) ?p)"]
      disk_total_nonneg [of "files dc"]
    by (cases "map_of (files dc) ?p") (auto simp: DiskSet_def Let_def disk_inv_def min_def intro: distinct_map_put)
qed

section \<open>Histories\<close>

fun disk_op :: "disk_io \<Rightarrow> (string \<Rightarrow> string) \<Rightarrow> cache_op \<Rightarrow> DiskCache \<Rightarrow> DiskCache" where
  "disk_op io sha (OpSet k r) dc = fst (DiskSet io sha k r dc)"
| "disk_op io sha (OpDelete k) dc = DiskDelete io sha k dc"
| "disk_op io sha (OpPurgeByTag tags) dc = fst (DiskPurgeByTag io tags dc)"
| "disk_op io sha OpPurgeAll dc = DiskPurgeAll io dc"
| "disk_op io sha (OpGet now k) dc = dc"
| "disk_op io sha (OpClean now) dc = DiskCleanExpired io now dc"

lemma disk_op_kept:
  assumes "disk_inv dc"
  shows "disk_inv (disk_op io sha c dc) \<and> diskMax (disk_op io sha c dc) = diskMax dc
    \<and> (0 < diskMax dc \<longrightarrow> diskUsed (disk_op io sha c dc) \<le> max (diskMax dc) (diskUsed dc))"
proof (cases c)
  case (OpSet k r)
  then show ?thesis using DiskSet_kept [OF assms] by simp
next
  case (OpDelete k)
  let ?p = "disk_path sha k"
  show ?thesis
  proof (cases "map_of (files dc) ?p")
    case None
    then show ?thesis using OpDelete assms by (simp add: DiskDelete_def)
  next
    case (Some d)
    have "disk_total (map_delete ?p (files dc)) \<le> disk_total (files dc)"
      unfolding map_delete_def by (rule disk_total_filter)
    then show ?thesis using OpDelete Some assms remove_file_kept [OF assms, of "(?p, d)"]
      by (auto simp: DiskDelete_def Let_def disk_inv_def intro: distinct_map_delete)
  qed
next
  case (OpPurgeByTag tags)
  then show ?thesis using sweep_all [OF assms, of "purged io tags"] by (auto simp: DiskPurgeByTag_def fold_purge_file)
next
  case OpPurgeAll
  then show ?thesis using assms disk_total_filter [of _ "files dc"] disk_total_nonneg [of "files dc"]
    by (auto simp: DiskPurgeAll_def disk_inv_def disk_total_def split: option.splits intro: order_trans)
next
  case (OpGet now k)
  then show ?thesis using assms by simp
next
  case (OpClean now)
  then show ?thesis using sweep_all [OF assms, of "stale_file io now"] by (auto simp: DiskCleanExpired_def fold_clean_file)
qed

text \<open>Operations with what the file system did during each.\<close>

definition disk_run :: "(string \<Rightarrow> string) \<Rightarrow> (disk_io \<times> cache_op) list \<Rightarrow> DiskCache \<Rightarrow> DiskCache" where
  "disk_run sha ops dc = fold (\<lambda>(io, c). disk_op io sha c) ops dc"

lemma disk_run_kept:
  "disk_inv dc \<Longrightarrow> disk_inv (disk_run sha ops dc) \<and> diskMax (disk_run sha ops dc) = diskMax dc
    \<and> (0 < diskMax dc \<longrightarrow> diskUsed (disk_run sha ops dc) \<le> max (diskMax dc) (diskUsed dc))"
proof (induction ops arbitrary: dc)
  case (Cons x ops)
  obtain io c where x: "x = (io, c)" by fastforce
  from Cons.IH [of "disk_op io sha c dc"] disk_op_kept [OF Cons.prems, of io sha c] x
  show ?case by (auto simp: disk_run_def)
qed (simp add: disk_run_def)


definition good_io :: disk_io where
  "good_io = \<lparr>stat_ok = (\<lambda>_. True), write_ok = (\<lambda>_. True), read_ok = (\<lambda>_. True), remove_ok = (\<lambda>_. True), removeall = None\<rparr>"


section \<open>Coherence\<close>

definition disk_lookup :: "(string \<Rightarrow> string) \<Rightarrow> DiskCache \<Rightarrow> string \<Rightarrow> CachedResponse option" where
  "disk_lookup sha dc k =
     (case map_of (files dc) (disk_path sha k) of
        None \<Rightarrow> None
      | Some d \<Rightarrow> (case Deserialize d of Inl _ \<Rightarrow> None | Inr r \<Rightarrow> Some r))"

text \<open>A file system on which everything but writing new files works.\<close>

definition reliable :: "disk_io \<Rightarrow> bool" where
  "reliable io \<longleftrightarrow> (\<forall>p. read_ok io p \<and> stat_ok io p \<and> remove_ok io p) \<and> removeall io = None"

fun storable_op :: "cache_op \<Rightarrow> bool" where
  "storable_op (OpSet k r) = response_wf r"
| "storable_op _ = True"

lemma KeyPrefix_lengths: "KeyPrefix key = (d1, d2) \<Longrightarrow> length d1 = 2 \<and> length d2 = 2"
  by (auto simp: KeyPrefix_def Let_def HashKey_def formatKey_def)

lemma disk_path_drop: "drop 6 (disk_path sha key) = sha key @ ''.cache''"
proof -
  obtain d1 d2 where k: "KeyPrefix key = (d1, d2)" by fastforce
  from KeyPrefix_lengths [OF k] obtain a b c d where "d1 = [a, b]" "d2 = [c, d]"
    by (auto simp: length_Suc_conv numeral_2_eq_2)
  then show ?thesis by (simp add: disk_path_def k)
qed

lemma disk_path_eq: "inj sha \<Longrightarrow> disk_path sha a = disk_path sha b \<longleftrightarrow> a = b"
  using disk_path_drop [of sha a] disk_path_drop [of sha b] by (auto dest: injD)

lemma map_of_filter_Some: "distinct (map fst fs) \<Longrightarrow> map_of (filter P fs) k = Some v \<Longrightarrow> map_of fs k = Some v \<and> P (k, v)"
  by (metis (no_types, lifting) distinct_filter_keys map_of_SomeD map_of_is_SomeI mem_Collect_eq set_filter)

lemma disk_lookup_swept:
  assumes "disk_inv dc" and "files dc' = filter P (files dc)" and "disk_lookup sha dc' k = Some r"
  shows "disk_lookup sha dc k = Some r \<and> (\<exists>p d. P (p, d) \<and> Deserialize d = Inr r)"
proof -
  from assms(2,3) obtain d where d: "map_of (filter P (files dc)) (disk_path sha k) = Some d" "Deserialize d = Inr r"
    by (auto simp: disk_lookup_def split: option.splits sum.splits)
  with map_of_filter_Some [of "files dc" P "disk_path sha k" d] assms(1)
  have "map_of (files dc) (disk_path sha k) = Some d" "P (disk_path sha k, d)" by (auto simp: disk_inv_def)
  with d(2) show ?thesis by (auto simp: disk_lookup_def)
qed

lemma disk_lookup_put:
  assumes "inj sha" and "response_wf r"
  shows "disk_lookup sha (dc\<lparr>files := map_put (disk_path sha k') (Serialize r) (files dc), diskUsed := u\<rparr>) k =
    (if k = k' then Some r else disk_lookup sha dc k)"
  using assms Deserialize_Serialize_wf [OF assms(2)] by (auto simp: disk_lookup_def disk_path_eq)

lemma disk_lookup_delete:
  assumes "inj sha"
  shows "disk_lookup sha (dc\<lparr>files := map_delete (disk_path sha k') (files dc)\<rparr>) k =
    (if k = k' then None else disk_lookup sha dc k)"
  using assms by (auto simp: disk_lookup_def disk_path_eq)

lemma disk_op_history:
  assumes "inj sha" and "reliable io" and "disk_inv dc" and "storable_op c"
    and "disk_lookup sha (disk_op io sha c dc) k = Some r"
  shows "r \<in> hist_op c (\<lambda>k. set_option (disk_lookup sha dc k)) k"
proof (cases c)
  case (OpSet k' r')
  then show ?thesis using assms(4,5) disk_lookup_put [OF assms(1), where r = r' and dc = dc and k' = k']
    by (auto simp: DiskSet_def Let_def split: if_splits)
next
  case (OpDelete k')
  show ?thesis
  proof (cases "map_of (files dc) (disk_path sha k')")
    case None
    then have "disk_lookup sha dc k' = None" by (simp add: disk_lookup_def)
    with None show ?thesis using OpDelete assms(5) by (cases "k = k'") (auto simp: DiskDelete_def)
  next
    case (Some d)
    let ?f = "(disk_path sha k', d)"
    have "files (disk_op io sha c dc) = map_delete (disk_path sha k') (files dc)"
      using OpDelete Some assms(2) remove_file_kept [OF assms(3), of ?f]
      by (simp add: DiskDelete_def Let_def reliable_def)
    then have "disk_lookup sha (disk_op io sha c dc) k = (if k = k' then None else disk_lookup sha dc k)"
      using disk_lookup_delete [OF assms(1), where dc = dc and k' = k' and k = k] by (simp add: disk_lookup_def)
    then show ?thesis using OpDelete assms(5) by (auto split: if_splits)
  qed
next
  case (OpPurgeByTag tags)
  then have f: "files (disk_op io sha c dc) = filter (\<lambda>f. \<not> purged io tags f) (files dc)"
    using sweep_all [OF assms(3), of "purged io tags"] by (simp add: DiskPurgeByTag_def fold_purge_file)
  from disk_lookup_swept [OF assms(3) f assms(5)] show ?thesis
    using assms(2) OpPurgeByTag by (auto simp: purged_def reliable_def)
next
  case OpPurgeAll
  then show ?thesis using assms(2,5) by (simp add: DiskPurgeAll_def reliable_def disk_lookup_def)
next
  case (OpGet now k')
  then show ?thesis using assms(5) by simp
next
  case (OpClean now)
  then have f: "files (disk_op io sha c dc) = filter (\<lambda>f. \<not> stale_file io now f) (files dc)"
    using sweep_all [OF assms(3), of "stale_file io now"] by (simp add: DiskCleanExpired_def fold_clean_file)
  from disk_lookup_swept [OF assms(3) f assms(5)] show ?thesis using OpClean by simp
qed

lemma disk_history_store:
  assumes "inj sha" and "reliable io"
  shows "history_store disk_inv (disk_lookup sha) (disk_op io sha) storable_op"
  using disk_op_kept disk_op_history [OF assms] by unfold_locales auto

lemma DiskGet_lookup: "DiskGet io sha k dc = Inr r \<Longrightarrow> disk_lookup sha dc k = Some r"
  by (auto simp: DiskGet_def disk_lookup_def split: option.splits if_splits sum.splits)

lemma disk_inv_New: "disk_inv (NewDiskCache [] limit)"
  by (simp add: disk_inv_def NewDiskCache_def)



end
