(* ===== verification/Cache_Redis.thy ===== *)
theory Cache_Redis
  imports Go_Bufio Go_Net "HOL-Library.Code_Target_Nat"
begin

text \<open>
  The Redis client of the response cache, \<open>internal/cache/redis_resp.go\<close>: the RESP wire format, one shared
  connection that is re-dialled once after a failure, and the commands of the cache on top of it. What the
  network does is a parameter: whether a dial or a write succeeds, the bytes that arrive while a reply is
  awaited, and whether the end of these bytes is an error of the kind \<open>isNetErr\<close> recognises. A connection
  is the bytes that have arrived and not been read.
\<close>

section \<open>Lines\<close>

definition maxBulkLen :: int where "maxBulkLen = 64 * 1024 * 1024"
definition maxArrayLen :: int where "maxArrayLen = 1024 * 1024"
definition maxLineLen :: nat where "maxLineLen = 64 * 1024"

text \<open>The buffer of \<open>bufio.NewReader\<close>.\<close>

definition bufSize :: nat where "bufSize = 4096"

datatype resp_err =
    ErrIO bool \<comment> \<open>reading or writing failed; whether \<open>isNetErr\<close> holds\<close>
  | ErrFramingLost
  | ErrServer string
  | ErrEmptyReply
  | ErrBadInteger
  | ErrBadBulkLen
  | ErrBadArrayLen
  | ErrNotConnected
  | ErrDial
  | ErrAuth resp_err
  | ErrSelect resp_err
  | ErrRedisNotFound
  | ErrReplyType
  | ErrTooLarge
  | OutOfFuel

function read_line :: "bool \<Rightarrow> string \<Rightarrow> string \<Rightarrow> (resp_err + string) \<times> string" where
  "read_line net buf s =
     (case ReadSlice bufSize s of (chunk, e, s') \<Rightarrow>
        let buf = buf @ chunk in
        if length buf > maxLineLen then (Inl ErrFramingLost, s')
        else if e = SliceOk then
          (if length buf < 2 \<or> buf ! (length buf - 2) \<noteq> CHR 0x0D then (Inl ErrFramingLost, s')
           else (Inr (take (length buf - 2) buf), s'))
        else if e = SliceEOF then (Inl (ErrIO net), s')
        else read_line net buf s')"
  by pat_completeness auto
termination
  by (relation "measure (\<lambda>(net, buf, s). length s)") (auto dest: ReadSlice_shorter [OF sym] simp: bufSize_def)

declare read_line.simps [simp del]

definition readLine :: "bool \<Rightarrow> string \<Rightarrow> (resp_err + string) \<times> string" where
  "readLine net s = read_line net [] s"

section \<open>Replies\<close>

datatype reply = RString string | RInt int | RArray "reply list" | RNil

definition ReadFull :: "nat \<Rightarrow> bool \<Rightarrow> string \<Rightarrow> (resp_err + string) \<times> string" where
  "ReadFull n net s = (if n \<le> length s then (Inr (take n s), drop n s) else (Inl (ErrIO net), []))"

definition read_bulk :: "int \<Rightarrow> bool \<Rightarrow> string \<Rightarrow> (resp_err + reply) \<times> string" where
  "read_bulk n net s =
     (if n = -1 then (Inr RNil, s)
      else if n < -1 then (Inl ErrFramingLost, s)
      else if n > maxBulkLen then (Inl ErrFramingLost, s)
      else case ReadFull (nat n + 2) net s of
        (Inl err, s') \<Rightarrow> (Inl err, s')
      | (Inr buf, s') \<Rightarrow>
          if buf ! nat n \<noteq> CHR 0x0D \<or> buf ! (nat n + 1) \<noteq> CHR 0x0A then (Inl ErrFramingLost, s')
          else (Inr (RString (take (nat n) buf)), s'))"

text \<open>The type switch on the first line: a finished reply and the rest of the bytes, or the length of an array.\<close>

definition reply_line :: "bool \<Rightarrow> string \<Rightarrow> string \<Rightarrow> (resp_err + reply) \<times> string + nat" where
  "reply_line net line s =
     (case line of
        [] \<Rightarrow> Inl (Inl ErrEmptyReply, s)
      | c # arg \<Rightarrow>
          if c = CHR ''+'' then Inl (Inr (RString arg), s)
          else if c = CHR ''-'' then Inl (Inl (ErrServer arg), s)
          else if c = CHR '':'' then
            (case Atoi arg of None \<Rightarrow> Inl (Inl ErrBadInteger, s) | Some n \<Rightarrow> Inl (Inr (RInt n), s))
          else if c = CHR ''$'' then
            (case Atoi arg of None \<Rightarrow> Inl (Inl ErrBadBulkLen, s) | Some n \<Rightarrow> Inl (read_bulk n net s))
          else if c = CHR ''*'' then
            (case Atoi arg of
               None \<Rightarrow> Inl (Inl ErrBadArrayLen, s)
             | Some n \<Rightarrow>
                 if n < 0 then Inl (Inr RNil, s)
                 else if n > maxArrayLen then Inl (Inl ErrFramingLost, s)
                 else Inr (nat n))
          else Inl (Inl ErrFramingLost, s))"

text \<open>The recursion of the code is on the nesting of arrays, which the bytes that arrive bound: the fuel.\<close>

fun read_reply :: "nat \<Rightarrow> bool \<Rightarrow> string \<Rightarrow> (resp_err + reply) \<times> string"
  and read_elems :: "nat \<Rightarrow> bool \<Rightarrow> nat \<Rightarrow> string \<Rightarrow> (resp_err + reply list) \<times> string" where
  "read_reply 0 net s = (Inl OutOfFuel, s)"
| "read_reply (Suc k) net s =
     (case readLine net s of
        (Inl err, s') \<Rightarrow> (Inl err, s')
      | (Inr line, s') \<Rightarrow>
          (case reply_line net line s' of
             Inl result \<Rightarrow> result
           | Inr n \<Rightarrow>
               (case read_elems k net n s' of
                  (Inl err, s'') \<Rightarrow> (Inl err, s'')
                | (Inr out, s'') \<Rightarrow> (Inr (RArray out), s''))))"
| "read_elems k net 0 s = (Inr [], s)"
| "read_elems k net (Suc n) s =
     (case read_reply k net s of
        (Inl err, s') \<Rightarrow> (Inl err, s')
      | (Inr v, s') \<Rightarrow>
          (case read_elems k net n s' of
             (Inl err, s'') \<Rightarrow> (Inl err, s'')
           | (Inr vs, s'') \<Rightarrow> (Inr (v # vs), s'')))"

definition readReply :: "bool \<Rightarrow> string \<Rightarrow> (resp_err + reply) \<times> string" where
  "readReply net s = read_reply (length s + 1) net s"

section \<open>Commands\<close>

definition writeArray :: "string list \<Rightarrow> string" where
  "writeArray args =
     ''*'' @ Itoa (length args) @ crlf @
     concat (map (\<lambda>a. ''$'' @ Itoa (length a) @ crlf @ a @ crlf) args)"

text \<open>What the network does at the n-th dial and the n-th command.\<close>

record redis_net =
  dial_ok :: "nat \<Rightarrow> bool"
  send_err :: "nat \<Rightarrow> bool option"
  arrives :: "nat \<Rightarrow> string \<Rightarrow> string"
  end_net :: "nat \<Rightarrow> bool"

record respClient =
  password :: string
  db :: int
  conn :: "string option"
  dials :: nat
  commands :: nat

definition isNetErr :: "resp_err \<Rightarrow> bool" where
  "isNetErr err = (case err of ErrIO net \<Rightarrow> net | _ \<Rightarrow> False)"

definition commandLocked :: "redis_net \<Rightarrow> string list \<Rightarrow> respClient \<Rightarrow> respClient \<times> (resp_err + reply)" where
  "commandLocked env args c =
     (case conn c of
        None \<Rightarrow> (c, Inl ErrNotConnected)
      | Some buf \<Rightarrow>
          let i = commands c; c = c\<lparr>commands := i + 1\<rparr> in
          case send_err env i of
            Some net \<Rightarrow> (c, Inl (ErrIO net))
          | None \<Rightarrow>
              (case readReply (end_net env i) (buf @ arrives env i (writeArray args)) of
                 (r, rest) \<Rightarrow> (c\<lparr>conn := Some rest\<rparr>, r)))"

text \<open>One of the commands that follow a dial; its failure closes the connection.\<close>

definition dial_command ::
  "redis_net \<Rightarrow> string list \<Rightarrow> (resp_err \<Rightarrow> resp_err) \<Rightarrow> respClient \<Rightarrow> respClient \<times> resp_err option" where
  "dial_command env args wrap c =
     (case commandLocked env args c of
        (c, Inl err) \<Rightarrow> (c\<lparr>conn := None\<rparr>, Some (wrap err))
      | (c, Inr _) \<Rightarrow> (c, None))"

definition dial :: "redis_net \<Rightarrow> respClient \<Rightarrow> respClient \<times> resp_err option" where
  "dial env c =
     (let i = dials c; c = c\<lparr>conn := None, dials := i + 1\<rparr> in
      if \<not> dial_ok env i then (c, Some ErrDial)
      else
        let c = c\<lparr>conn := Some []\<rparr> in
        case (if password c \<noteq> [] then dial_command env [''AUTH'', password c] ErrAuth c else (c, None)) of
          (c, Some err) \<Rightarrow> (c, Some err)
        | (c, None) \<Rightarrow>
            if db c \<noteq> 0 then dial_command env [''SELECT'', FormatInt (db c)] ErrSelect c else (c, None))"

definition newRespClient :: "redis_net \<Rightarrow> string \<Rightarrow> int \<Rightarrow> respClient \<times> resp_err option" where
  "newRespClient env pw n = dial env \<lparr>password = pw, db = n, conn = None, dials = 0, commands = 0\<rparr>"

definition hostFromAddr :: "string \<Rightarrow> string" where
  "hostFromAddr addr = (case SplitHostPort addr of Some (host, _) \<Rightarrow> host | None \<Rightarrow> addr)"

definition command :: "redis_net \<Rightarrow> string list \<Rightarrow> respClient \<Rightarrow> respClient \<times> (resp_err + reply)" where
  "command env args c =
     (case (if conn c = None then dial env c else (c, None)) of
        (c, Some err) \<Rightarrow> (c, Inl err)
      | (c, None) \<Rightarrow>
          (case commandLocked env args c of
             (c, Inr reply) \<Rightarrow> (c, Inr reply)
           | (c, Inl err) \<Rightarrow>
               if isNetErr err \<or> err = ErrFramingLost then
                 (case dial env c of
                    (c, Some derr) \<Rightarrow> (c, Inl derr)
                  | (c, None) \<Rightarrow> commandLocked env args c)
               else (c, Inl err)))"

definition RespGet :: "redis_net \<Rightarrow> string \<Rightarrow> respClient \<Rightarrow> respClient \<times> (resp_err + string)" where
  "RespGet env key c =
     (case command env [''GET'', key] c of
        (c, Inl err) \<Rightarrow> (c, Inl err)
      | (c, Inr RNil) \<Rightarrow> (c, Inl ErrRedisNotFound)
      | (c, Inr (RString s)) \<Rightarrow> (c, Inr s)
      | (c, Inr _) \<Rightarrow> (c, Inl ErrReplyType))"

definition done_reply :: "respClient \<times> (resp_err + reply) \<Rightarrow> respClient \<times> resp_err option" where
  "done_reply r = (fst r, case snd r of Inl err \<Rightarrow> Some err | Inr _ \<Rightarrow> None)"

definition RespSet :: "redis_net \<Rightarrow> string \<Rightarrow> string \<Rightarrow> duration \<Rightarrow> respClient \<Rightarrow> respClient \<times> resp_err option" where
  "RespSet env key val ttl c =
     (if int (length val) > maxBulkLen then (c, Some ErrTooLarge)
      else if ttl > 0 then
        (let secs = ttl div 1000000000; secs = (if secs < 1 then 1 else secs)
         in done_reply (command env [''SET'', key, val, ''EX'', FormatInt secs] c))
      else done_reply (command env [''SET'', key, val] c))"

definition RespDel :: "redis_net \<Rightarrow> string list \<Rightarrow> respClient \<Rightarrow> respClient \<times> resp_err option" where
  "RespDel env keys c = (if keys = [] then (c, None) else done_reply (command env (''DEL'' # keys) c))"

fun strings_of :: "reply list \<Rightarrow> string list" where
  "strings_of [] = []"
| "strings_of (RString s # vs) = s # strings_of vs"
| "strings_of (_ # vs) = strings_of vs"

definition RespKeys :: "redis_net \<Rightarrow> string \<Rightarrow> respClient \<Rightarrow> respClient \<times> (resp_err + string list)" where
  "RespKeys env pat c =
     (case command env [''KEYS'', pat] c of
        (c, Inl err) \<Rightarrow> (c, Inl err)
      | (c, Inr (RArray arr)) \<Rightarrow> (c, Inr (strings_of arr))
      | (c, Inr RNil) \<Rightarrow> (c, Inr [])
      | (c, Inr _) \<Rightarrow> (c, Inl ErrReplyType))"

definition RespClose :: "respClient \<Rightarrow> respClient" where
  "RespClose c = c\<lparr>conn := None\<rparr>"

section \<open>Reading lines\<close>

lemma read_line_piece:
  assumes "is_line t" and "buf @ t = l @ crlf" and "length l + 2 \<le> maxLineLen"
  shows "read_line net buf (t @ rest) = (Inr l, rest)"
  using assms
proof (induction "length t" arbitrary: t buf rule: less_induct)
  case less
  have total: "length buf + length t = length l + 2" using arg_cong [OF less.prems(2), of length] by (simp add: crlf_def)
  show ?case
  proof (cases "length t \<le> bufSize")
    case True
    have "(l @ crlf) ! (length l) = CHR 0x0D" by (simp add: nth_append crlf_def)
    then show ?thesis
      using ReadSlice_line [OF less.prems(1) True, of rest] less.prems(2,3) total
      by (subst read_line.simps) (simp add: Let_def crlf_def)
  next
    case False
    then have long: "bufSize < length t" by simp
    note r = ReadSlice_long [OF less.prems(1) long]
    have "length (drop bufSize t) < length t" using long by (simp add: bufSize_def)
    moreover have "(buf @ take bufSize t) @ drop bufSize t = l @ crlf" using less.prems(2) by simp
    ultimately have "read_line net (buf @ take bufSize t) (drop bufSize t @ rest) = (Inr l, rest)"
      using less.hyps r(3) less.prems(3) by blast
    moreover have "\<not> length (buf @ take bufSize t) > maxLineLen" using total less.prems(3) by simp
    ultimately show ?thesis by (subst read_line.simps) (simp add: r(1) Let_def)
  qed
qed

lemma readLine_line:
  assumes "CHR 0x0A \<notin> set l" and "length l + 2 \<le> maxLineLen"
  shows "readLine net (l @ crlf @ rest) = (Inr l, rest)"
proof -
  have "is_line (l @ crlf)" using assms(1) by (simp add: is_line_def crlf_def butlast_append)
  from read_line_piece [OF this, of "[]" l net rest] assms(2) show ?thesis by (simp add: readLine_def)
qed

lemma read_line_rest: "read_line net buf s = (r, s') \<Longrightarrow> length s' \<le> length s \<and> (\<forall>l. r = Inr l \<longrightarrow> length s' < length s)"
proof (induction net buf s arbitrary: r s' rule: read_line.induct)
  case (1 net buf s)
  obtain chunk e t where c: "ReadSlice bufSize s = (chunk, e, t)" by (metis prod_cases3)
  have t: "length t \<le> length s" "e \<noteq> SliceEOF \<Longrightarrow> length t < length s"
    using c ReadSlice_shorter [OF c] by (auto simp: ReadSlice_def bufSize_def split: option.splits if_splits)
  note step = "1.prems" [unfolded read_line.simps [of net buf s] c, simplified Let_def, simplified]
  show ?case
  proof (cases "length (buf @ chunk) > maxLineLen \<or> e = SliceEOF \<or> e = SliceOk")
    case True
    with step t show ?thesis by (auto split: if_splits)
  next
    case False
    then have "read_line net (buf @ chunk) t = (r, s')" using step by (auto split: if_splits)
    from "1.IH" [OF c [symmetric] refl refl _ _ _ this] False t show ?thesis by (auto simp: )
  qed
qed

lemma readLine_rest: "readLine net s = (r, s') \<Longrightarrow> length s' \<le> length s"
  and readLine_consumes: "readLine net s = (Inr l, s') \<Longrightarrow> length s' < length s"
  using read_line_rest [of net "[]" s] by (auto simp: readLine_def)

section \<open>Enough fuel\<close>

lemma read_bulk_rest: "read_bulk n net s = (r, s') \<Longrightarrow> length s' \<le> length s \<and> r \<noteq> Inl OutOfFuel"
  by (auto simp: read_bulk_def ReadFull_def split: if_splits prod.splits sum.splits)

lemma reply_line_rest: "reply_line net line s = Inl res \<Longrightarrow> length (snd res) \<le> length s \<and> fst res \<noteq> Inl OutOfFuel"
  using read_bulk_rest [of _ net s "fst res" "snd res"]
  by (auto simp: reply_line_def split: list.splits if_splits option.splits)

lemma read_line_fuel: "fst (read_line net buf s) \<noteq> Inl OutOfFuel"
  by (induction net buf s rule: read_line.induct) (subst read_line.simps, auto simp: Let_def split: prod.splits)

text \<open>A reply that is not an array is read from its first line and at most one block behind it.\<close>

lemma read_reply_cases:
  obtains (flat) r t where "\<And>k. read_reply (Suc k) net s = (r, t)" "r \<noteq> Inl OutOfFuel" "length t \<le> length s"
      "\<And>v. r = Inr v \<Longrightarrow> length t < length s"
  | (arr) n t where "length t < length s"
      "\<And>k. read_reply (Suc k) net s = (case read_elems k net n t of
         (Inl err, s'') \<Rightarrow> (Inl err, s'') | (Inr out, s'') \<Rightarrow> (Inr (RArray out), s''))"
proof -
  obtain l t where l: "readLine net s = (l, t)" by fastforce
  show ?thesis
  proof (cases l)
    case (Inl err)
    have "\<And>k. read_reply (Suc k) net s = (Inl err, t)" using l Inl by simp
    moreover have "Inl err \<noteq> Inl OutOfFuel" using read_line_fuel [of net "[]" s] l Inl by (simp add: readLine_def)
    ultimately show ?thesis using flat [of "Inl err" t] readLine_rest [OF l] by simp
  next
    case (Inr line)
    with l have t: "length t < length s" by (simp add: readLine_consumes)
    show ?thesis
    proof (cases "reply_line net line t")
      case (Inl res)
      from reply_line_rest [OF Inl] t have "length (snd res) < length s" "fst res \<noteq> Inl OutOfFuel" by auto
      then show ?thesis using l Inr Inl by (intro flat [of "fst res" "snd res"]) simp_all
    next
      case (Inr n)
      then show ?thesis using l \<open>l = Inr line\<close> t by (intro arr [of t n]) simp_all
    qed
  qed
qed

declare read_reply.simps(2) [simp del]

lemma read_elems_rest:
  assumes "\<And>s. length (snd (read_reply k net s)) \<le> length s"
  shows "read_elems k net n s = (rs, s') \<Longrightarrow> length s' \<le> length s"
proof (induction n arbitrary: s rs)
  case (Suc n)
  obtain r t where r: "read_reply k net s = (r, t)" by fastforce
  from assms [of s] r have "length t \<le> length s" by simp
  with Suc r show ?case by (auto split: sum.splits prod.splits) (meson le_trans)+
qed simp

lemma read_reply_rest: "length (snd (read_reply k net s)) \<le> length s"
proof (induction k arbitrary: s)
  case (Suc k)
  show ?case
  proof (cases rule: read_reply_cases [of net s])
    case (flat r' t)
    then show ?thesis by simp
  next
    case (arr n t)
    obtain rs u where e: "read_elems k net n t = (rs, u)" by fastforce
    from read_elems_rest [OF Suc.IH e] arr e show ?thesis by (cases rs) simp_all
  qed
qed simp

lemma read_elems_fuel:
  assumes "\<And>s. length s < k \<Longrightarrow> fst (read_reply k net s) \<noteq> Inl OutOfFuel \<and> read_reply (Suc k) net s = read_reply k net s"
  shows "length s < k \<Longrightarrow> fst (read_elems k net n s) \<noteq> Inl OutOfFuel \<and> read_elems (Suc k) net n s = read_elems k net n s"
proof (induction n arbitrary: s)
  case (Suc n)
  obtain r t where r: "read_reply k net s = (r, t)" by fastforce
  with assms [OF Suc.prems] have "r \<noteq> Inl OutOfFuel" "read_reply (Suc k) net s = (r, t)" by auto
  moreover have "length t < k" using read_reply_rest [of k net s] r Suc.prems by simp
  ultimately show ?case using Suc.IH [of t] r by (auto split: sum.splits prod.splits)
qed simp

lemma read_reply_fuel:
  "length s < k \<Longrightarrow> fst (read_reply k net s) \<noteq> Inl OutOfFuel \<and> read_reply (Suc k) net s = read_reply k net s"
proof (induction k arbitrary: s)
  case (Suc k)
  show ?case
  proof (cases rule: read_reply_cases [of net s])
    case (flat r t)
    then show ?thesis by simp
  next
    case (arr n t)
    then have "length t < k" using Suc.prems by simp
    from read_elems_fuel [OF Suc.IH this, of n] show ?thesis by (simp only: arr(2)) (auto split: sum.splits prod.splits)
  qed
qed simp

lemma readReply_fuel: "length s < k \<Longrightarrow> read_reply k net s = readReply net s"
proof (induction k)
  case (Suc k)
  then show ?case using read_reply_fuel [of s k net] by (cases "length s = k") (auto simp: readReply_def)
qed simp

section \<open>The wire format\<close>

text \<open>The reference: the values of the protocol and how a server writes them.\<close>

datatype resp = Simple string | Error string | Integer int | Bulk string | NilBulk | NilArr | Arr "resp list"

fun encode :: "resp \<Rightarrow> string" where
  "encode (Simple s) = ''+'' @ s @ crlf"
| "encode (Error s) = ''-'' @ s @ crlf"
| "encode (Integer n) = '':'' @ FormatInt n @ crlf"
| "encode (Bulk s) = ''$'' @ Itoa (length s) @ crlf @ s @ crlf"
| "encode NilBulk = ''$-1'' @ crlf"
| "encode NilArr = ''*-1'' @ crlf"
| "encode (Arr vs) = ''*'' @ Itoa (length vs) @ crlf @ concat (map encode vs)"

definition is_error :: "resp \<Rightarrow> bool" where
  "is_error v = (case v of Error _ \<Rightarrow> True | _ \<Rightarrow> False)"

fun resp_wf :: "resp \<Rightarrow> bool" where
  "resp_wf (Simple s) = (CHR 0x0A \<notin> set s \<and> length s + 3 \<le> maxLineLen)"
| "resp_wf (Error s) = (CHR 0x0A \<notin> set s \<and> length s + 3 \<le> maxLineLen)"
| "resp_wf (Integer n) = in_int64 n"
| "resp_wf (Bulk s) = (int (length s) \<le> maxBulkLen)"
| "resp_wf NilBulk = True"
| "resp_wf NilArr = True"
| "resp_wf (Arr vs) = (int (length vs) \<le> maxArrayLen \<and> list_all (\<lambda>v. resp_wf v \<and> \<not> is_error v) vs)"

fun value_of :: "resp \<Rightarrow> reply" where
  "value_of (Simple s) = RString s"
| "value_of (Error s) = RNil"
| "value_of (Integer n) = RInt n"
| "value_of (Bulk s) = RString s"
| "value_of NilBulk = RNil"
| "value_of NilArr = RNil"
| "value_of (Arr vs) = RArray (map value_of vs)"

definition answer_of :: "resp \<Rightarrow> resp_err + reply" where
  "answer_of v = (case v of Error s \<Rightarrow> Inl (ErrServer s) | _ \<Rightarrow> Inr (value_of v))"

lemma Itoa_length: "n < 10 ^ k \<Longrightarrow> 0 < k \<Longrightarrow> length (Itoa n) \<le> k"
proof (induction n arbitrary: k rule: Itoa.induct)
  case (1 n)
  show ?case
  proof (cases "n < 10")
    case True
    then show ?thesis using "1.prems" by (subst Itoa.simps) simp
  next
    case False
    then obtain j where k: "k = Suc j" "0 < j" using "1.prems" by (cases k; cases "k - 1") auto
    have "n div 10 < 10 ^ j" using "1.prems"(1) k(1) by (simp add: less_mult_imp_div_less)
    with "1.IH" [OF False, of j] k show ?thesis using False by (subst Itoa.simps) simp
  qed
qed

lemma no_newline_digits: "list_all is_digit ds \<Longrightarrow> CHR 0x0A \<notin> set ds"
  by (auto simp: list_all_iff is_digit_def)

lemma no_newline_Itoa: "CHR 0x0A \<notin> set (Itoa n)"
  by (rule no_newline_digits [OF Itoa_digits])

lemma no_newline_FormatInt: "CHR 0x0A \<notin> set (FormatInt n)"
  by (simp add: FormatInt_def no_newline_Itoa)

lemma FormatInt_length:
  assumes "in_int64 n"
  shows "length (FormatInt n) \<le> 20"
proof (cases "n < 0")
  case True
  then have "nat (- n) < 10 ^ 19" using assms by (simp add: in_int64_def)
  from Itoa_length [OF this] True show ?thesis by (simp add: FormatInt_def)
next
  case False
  then have "nat n < 10 ^ 19" using assms by (simp add: in_int64_def)
  from Itoa_length [OF this] False show ?thesis by (simp add: FormatInt_def)
qed

lemma readLine_typed:
  assumes "CHR 0x0A \<notin> set l" and "length l + 3 \<le> maxLineLen" and "c \<noteq> CHR 0x0A"
  shows "readLine net (c # l @ crlf @ rest) = (Inr (c # l), rest)"
  using readLine_line [of "c # l" net rest] assms by simp

lemma readLine_number:
  assumes "int n \<le> maxBulkLen" and "c \<noteq> CHR 0x0A"
  shows "readLine net (c # Itoa n @ crlf @ rest) = (Inr (c # Itoa n), rest)"
proof -
  have "n < 10 ^ 9" using assms(1) by (simp add: maxBulkLen_def)
  from Itoa_length [OF this] have "length (Itoa n) + 3 \<le> maxLineLen" by (simp add: maxLineLen_def)
  then show ?thesis using assms(2) by (intro readLine_typed no_newline_Itoa)
qed

lemma Atoi_bulk: "int n \<le> maxBulkLen \<Longrightarrow> Atoi (Itoa n) = Some (int n)"
  by (rule Atoi_Itoa) (simp add: maxBulkLen_def)

lemma read_bulk_encode:
  assumes "int (length s) \<le> maxBulkLen"
  shows "read_bulk (int (length s)) net (s @ crlf @ rest) = (Inr (RString s), rest)"
  using assms by (simp add: read_bulk_def ReadFull_def crlf_def nth_append)

lemma read_elems_encode:
  assumes "\<And>v k rest. v \<in> set vs \<Longrightarrow> length (encode v @ rest) < k \<Longrightarrow> read_reply k net (encode v @ rest) = (Inr (value_of v), rest)"
    and "length (concat (map encode vs) @ rest) < k"
  shows "read_elems k net (length vs) (concat (map encode vs) @ rest) = (Inr (map value_of vs), rest)"
  using assms
proof (induction vs)
  case (Cons v vs)
  have "read_reply k net (encode v @ concat (map encode vs) @ rest) = (Inr (value_of v), concat (map encode vs) @ rest)"
    using Cons.prems by (intro Cons.prems(1)) auto
  moreover have "read_elems k net (length vs) (concat (map encode vs) @ rest) = (Inr (map value_of vs), rest)"
    using Cons.prems by (intro Cons.IH) auto
  ultimately show ?case by simp
qed simp

lemma read_reply_encode:
  "resp_wf v \<Longrightarrow> length (encode v @ rest) < k \<Longrightarrow> read_reply k net (encode v @ rest) = (answer_of v, rest)"
proof (induction v arbitrary: k rest)
  case (Simple s)
  then obtain k' where "k = Suc k'" by (cases k) auto
  with Simple show ?case by (simp add: read_reply.simps(2) readLine_typed reply_line_def answer_of_def)
next
  case (Error s)
  then obtain k' where "k = Suc k'" by (cases k) auto
  with Error show ?case by (simp add: read_reply.simps(2) readLine_typed reply_line_def answer_of_def)
next
  case (Integer n)
  then obtain k' where "k = Suc k'" by (cases k) auto
  moreover have "length (FormatInt n) + 3 \<le> maxLineLen"
    using FormatInt_length [of n] Integer.prems(1) by (simp add: maxLineLen_def)
  ultimately show ?case using Integer.prems
    by (simp add: read_reply.simps(2) readLine_typed no_newline_FormatInt reply_line_def answer_of_def Atoi_FormatInt)
next
  case (Bulk s)
  then obtain k' where "k = Suc k'" by (cases k) auto
  with Bulk show ?case
    by (simp add: read_reply.simps(2) readLine_number reply_line_def answer_of_def Atoi_bulk read_bulk_encode)
next
  case NilBulk
  then obtain k' where "k = Suc k'" by (cases k) auto
  moreover have "Atoi ''-1'' = Some (-1)" by code_simp
  moreover have "readLine net (CHR ''$'' # ''-1'' @ crlf @ rest) = (Inr (CHR ''$'' # ''-1''), rest)"
    by (intro readLine_typed) (simp_all add: maxLineLen_def)
  ultimately show ?case by (simp add: read_reply.simps(2) reply_line_def answer_of_def read_bulk_def)
next
  case NilArr
  then obtain k' where "k = Suc k'" by (cases k) auto
  moreover have "Atoi ''-1'' = Some (-1)" by code_simp
  moreover have "readLine net (CHR ''*'' # ''-1'' @ crlf @ rest) = (Inr (CHR ''*'' # ''-1''), rest)"
    by (intro readLine_typed) (simp_all add: maxLineLen_def)
  ultimately show ?case by (simp add: read_reply.simps(2) reply_line_def answer_of_def)
next
  case (Arr vs)
  then obtain k' where k: "k = Suc k'" by (cases k) auto
  have n: "int (length vs) \<le> maxArrayLen" "int (length vs) \<le> maxBulkLen"
    using Arr.prems(1) by (simp_all add: maxArrayLen_def maxBulkLen_def)
  have "read_elems k' net (length vs) (concat (map encode vs) @ rest) = (Inr (map value_of vs), rest)"
  proof (rule read_elems_encode)
    fix v j r
    assume v: "v \<in> set vs" "length (encode v @ r) < j"
    with Arr.prems(1) have "resp_wf v" "\<not> is_error v" by (auto simp: list_all_iff)
    then show "read_reply j net (encode v @ r) = (Inr (value_of v), r)"
      using Arr.IH [OF v(1) _ v(2)] by (cases v) (simp_all add: answer_of_def is_error_def)
  qed (use Arr.prems(2) k in simp)
  then show ?case using k n
    by (simp add: read_reply.simps(2) readLine_number reply_line_def answer_of_def Atoi_bulk)
qed

lemma writeArray_encode: "writeArray args = encode (Arr (map Bulk args))"
  by (simp add: writeArray_def comp_def)

section \<open>Properties\<close>

text \<open>
  Replies are read exactly. Whatever well-formed value a server writes, nested arrays of any depth
  included, and whatever follows on the connection, the reader returns that value (or the server's error)
  and leaves exactly what follows; lines longer than the read buffer make no difference. The request the
  client writes is such a value, so a server reading by the same rules gets back the arguments.
\<close>

theorem readReply_encode:
  assumes "resp_wf v" and "int (length args) \<le> maxArrayLen" and "\<forall>a \<in> set args. int (length a) \<le> maxBulkLen"
  shows "readReply net (encode v @ rest) = (answer_of v, rest)
    \<and> readReply net (writeArray args @ rest) = (Inr (RArray (map RString args)), rest)"
proof
  show "readReply net (encode v @ rest) = (answer_of v, rest)"
    unfolding readReply_def by (rule read_reply_encode [OF assms(1)]) simp
  have "resp_wf (Arr (map Bulk args))" using assms(2,3) by (simp add: list_all_iff is_error_def)
  from read_reply_encode [OF this, of rest "length (writeArray args @ rest) + 1" net]
  show "readReply net (writeArray args @ rest) = (Inr (RArray (map RString args)), rest)"
    by (simp add: readReply_def writeArray_encode answer_of_def comp_def)
qed

theorem readReply_encode_witness:
  "readReply True (''*2'' @ crlf @ ''$3'' @ crlf @ ''GET'' @ crlf @ ''$1'' @ crlf @ ''k'' @ crlf @ ''+OK'')
     = (Inr (RArray [RString ''GET'', RString ''k'']), ''+OK'')"
proof -
  have "writeArray [''GET'', ''k''] = ''*2'' @ crlf @ ''$3'' @ crlf @ ''GET'' @ crlf @ ''$1'' @ crlf @ ''k'' @ crlf"
    by code_simp
  then show ?thesis
    using readReply_encode [of NilBulk "[''GET'', ''k'']" True "''+OK''"] by (simp add: maxArrayLen_def maxBulkLen_def)
qed

text \<open>A run of commands, with what each returned.\<close>

fun run_commands :: "redis_net \<Rightarrow> string list list \<Rightarrow> respClient \<Rightarrow> respClient \<times> (resp_err + reply) list" where
  "run_commands env [] c = (c, [])"
| "run_commands env (args # cmds) c =
     (case command env args c of (c, r) \<Rightarrow> (case run_commands env cmds c of (c, rs) \<Rightarrow> (c, r # rs)))"

text \<open>A server that answers the i-th command with one well-formed value.\<close>

definition serves :: "redis_net \<Rightarrow> (nat \<Rightarrow> string list \<Rightarrow> resp) \<Rightarrow> bool" where
  "serves env srv \<longleftrightarrow>
     (\<forall>i args. send_err env i = None \<and> arrives env i (writeArray args) = encode (srv i args) \<and> resp_wf (srv i args))"

lemma commandLocked_in_step:
  assumes "serves env srv" and "conn c = Some []"
  shows "commandLocked env args c = (c\<lparr>commands := commands c + 1\<rparr>, answer_of (srv (commands c) args))"
proof -
  let ?v = "srv (commands c) args"
  have "readReply (end_net env (commands c)) (encode ?v) = (answer_of ?v, [])"
    using readReply_fuel [of "encode ?v" "length (encode ?v) + 1"] read_reply_encode [of ?v "[]" "length (encode ?v) + 1"] assms(1)
    by (simp add: serves_def)
  then show ?thesis using assms by (simp add: commandLocked_def serves_def Let_def)
qed

lemma answer_of_final: "answer_of v = Inl err \<Longrightarrow> \<not> isNetErr err \<and> err \<noteq> ErrFramingLost"
  by (auto simp: answer_of_def isNetErr_def split: resp.splits)

lemma command_in_step:
  assumes "serves env srv" and "conn c = Some []"
  shows "command env args c = (c\<lparr>commands := commands c + 1\<rparr>, answer_of (srv (commands c) args))"
  using commandLocked_in_step [OF assms, of args] assms(2) answer_of_final
  by (cases "answer_of (srv (commands c) args)") (auto simp: command_def)

text \<open>
  C23. The shared connection stays in step. Against a server that answers every command with one well-formed
  value, a run of commands through the client is a run of calls to the server: the i-th result is the value
  the server gave for the i-th command, no command is sent twice, and the connection is left with nothing
  unread.
\<close>

theorem redis_in_step:
  assumes "serves env srv" and "conn c = Some []"
  shows "run_commands env cmds c =
    (c\<lparr>commands := commands c + length cmds\<rparr>,
     map (\<lambda>i. answer_of (srv (commands c + i) (cmds ! i))) [0..<length cmds])"
  using assms(2)
proof (induction cmds arbitrary: c)
  case (Cons args cmds)
  let ?c = "c\<lparr>commands := commands c + 1\<rparr>"
  have "[0..<length (args # cmds)] = 0 # map Suc [0..<length cmds]" by (simp add: map_Suc_upt upt_conv_Cons del: upt_Suc)
  moreover have "run_commands env cmds ?c =
      (c\<lparr>commands := commands c + 1 + length cmds\<rparr>,
       map (\<lambda>i. answer_of (srv (commands c + 1 + i) (cmds ! i))) [0..<length cmds])"
    using Cons.IH [of ?c] Cons.prems by simp
  ultimately show ?case using command_in_step [OF assms(1) Cons.prems, of args] by (simp add: comp_def)
qed simp

definition demo_redis :: redis_net where
  "demo_redis = \<lparr>dial_ok = (\<lambda>_. True), send_err = (\<lambda>_. None), arrives = (\<lambda>_ _. encode (Bulk ''v'')), end_net = (\<lambda>_. True)\<rparr>"

definition demo_client :: respClient where
  "demo_client = \<lparr>password = [], db = 0, conn = Some [], dials = 1, commands = 0\<rparr>"

theorem redis_in_step_witness:
  "run_commands demo_redis [[''GET'', ''a''], [''GET'', ''b'']] demo_client
     = (demo_client\<lparr>commands := 2\<rparr>, [Inr (RString ''v''), Inr (RString ''v'')])"
proof -
  have "serves demo_redis (\<lambda>_ _. Bulk ''v'')" by (simp add: serves_def demo_redis_def maxBulkLen_def)
  from redis_in_step [OF this, of demo_client "[[''GET'', ''a''], [''GET'', ''b'']]"]
  show ?thesis by (simp add: demo_client_def answer_of_def upt_rec)
qed

text \<open>
  C24. Where the connection falls out of step. If a reply is an array with an error inside, the client returns
  that error and keeps the connection with the rest of the array unread, without marking the framing as
  lost: the next GET, for any key, is answered with the left-over element even though the server reports
  that the key has no value.
\<close>

theorem redis_nested_error_desync:
  assumes "conn c = Some []" and "send_err env (commands c) = None" and "send_err env (commands c + 1) = None"
    and "arrives env (commands c) (writeArray args) = encode (Arr [Error msg, Bulk s])"
    and "arrives env (commands c + 1) (writeArray [''GET'', key]) = encode NilBulk"
    and "resp_wf (Error msg)" and "resp_wf (Bulk s)"
  shows "\<exists>c'. command env args c = (c', Inl (ErrServer msg)) \<and> snd (RespGet env key c') = Inr s"
proof -
  let ?c = "c\<lparr>conn := Some (encode (Bulk s)), commands := commands c + 1\<rparr>"
  have "readReply net (encode (Arr [Error msg, Bulk s])) = (Inl (ErrServer msg), encode (Bulk s))" for net
  proof -
    define t where "t = encode (Error msg) @ encode (Bulk s)"
    have w: "encode (Arr [Error msg, Bulk s]) = CHR ''*'' # Itoa 2 @ crlf @ t" by (simp add: t_def numeral_2_eq_2)
    have l: "readLine net (CHR ''*'' # Itoa 2 @ crlf @ t) = (Inr (CHR ''*'' # Itoa 2), t)"
      by (rule readLine_number) (simp_all add: maxBulkLen_def)
    have a: "Atoi (Itoa 2) = Some 2" using Atoi_Itoa [of 2] by simp
    have "read_elems k net 2 t = (Inl (ErrServer msg), encode (Bulk s))" if "length t < k" for k
      using read_reply_encode [OF assms(6), of "encode (Bulk s)" k net] that
      by (simp add: t_def answer_of_def numeral_2_eq_2)
    then show ?thesis unfolding readReply_def w
      by (simp add: read_reply.simps(2) l a reply_line_def maxArrayLen_def)
  qed
  then have "command env args c = (?c, Inl (ErrServer msg))"
    using assms(1,2,4) by (simp add: command_def commandLocked_def Let_def isNetErr_def del: encode.simps)
  moreover have "readReply net (encode (Bulk s) @ encode NilBulk) = (Inr (RString s), encode NilBulk)" for net
    unfolding readReply_def using read_reply_encode [OF assms(7), of "encode NilBulk" _ net] by (simp add: answer_of_def)
  then have "snd (RespGet env key ?c) = Inr s"
    using assms(3,5) by (simp add: RespGet_def command_def commandLocked_def Let_def del: encode.simps)
  ultimately show ?thesis by blast
qed

theorem redis_nested_error_desync_witness:
  "let env = demo_redis\<lparr>arrives := \<lambda>i _. if i = 0 then encode (Arr [Error ''LOADING'', Bulk ''secret'']) else encode NilBulk\<rparr>
   in \<exists>c'. command env [''KEYS'', ''*''] demo_client = (c', Inl (ErrServer ''LOADING'')) \<and> snd (RespGet env ''a'' c') = Inr ''secret''"
  unfolding Let_def
  by (rule redis_nested_error_desync)
    (simp_all add: demo_client_def demo_redis_def maxLineLen_def maxBulkLen_def)

text \<open>
  The second way out of step: when the reply to the repeated command loses the framing too, the error is
  returned and the connection is kept, against the comment on \<open>errFramingLost\<close>. The next GET reads what the
  bad reply left behind.
\<close>

definition bad_length_net :: redis_net where
  "bad_length_net = demo_redis\<lparr>arrives := \<lambda>i _. if i < 2 then ''$-5'' @ crlf @ encode (Bulk ''secret'') else encode NilBulk\<rparr>"

lemma redis_retry_desync:
  "\<exists>c'. command bad_length_net [''GET'', ''a''] demo_client = (c', Inl ErrFramingLost)
     \<and> snd (RespGet bad_length_net ''b'' c') = Inr ''secret''"
proof -
  have "snd (command bad_length_net [''GET'', ''a''] demo_client) = Inl ErrFramingLost"
    "snd (RespGet bad_length_net ''b'' (fst (command bad_length_net [''GET'', ''a''] demo_client))) = Inr ''secret''"
    by code_simp+
  then show ?thesis by (metis prod.collapse)
qed

end
