(* ===== verification/Cache_Engine.thy ===== *)
theory Cache_Engine
  imports Cache_Disk Cache_Redis
begin

text \<open>
  The cache engine, \<open>internal/cache/engine.go\<close>, over its three tiers: memory (\<open>Cache_Memory\<close>), disk
  (\<open>Cache_Disk\<close>) and Redis (\<open>internal/cache/redis.go\<close>, modelled here over the client interface that
  \<open>Cache_Redis\<close> implements). Writes to the slower tiers run in the background: they are a list of writes
  that hold a place of the semaphore, and a step of its own carries one of them out at any later time.
  One call reads the clock once. JSON is a parameter.
\<close>

section \<open>The Redis tier\<close>

record 'c RedisClient =
  cGet :: "string \<Rightarrow> 'c \<Rightarrow> 'c \<times> (resp_err + string)"
  cSet :: "string \<Rightarrow> string \<Rightarrow> duration \<Rightarrow> 'c \<Rightarrow> 'c \<times> resp_err option"
  cDel :: "string list \<Rightarrow> 'c \<Rightarrow> 'c \<times> resp_err option"
  cKeys :: "string \<Rightarrow> 'c \<Rightarrow> 'c \<times> (resp_err + string list)"

definition newRedisClient :: "redis_net \<Rightarrow> respClient RedisClient" where
  "newRedisClient net = \<lparr>cGet = RespGet net, cSet = RespSet net, cDel = RespDel net, cKeys = RespKeys net\<rparr>"

record 'c cache_env =
  io :: disk_io
  sha256 :: "string \<Rightarrow> string"
  rclient :: "'c RedisClient"
  rprefix :: string
  marshal :: "CachedResponse \<Rightarrow> string option"
  unmarshal :: "string \<Rightarrow> CachedResponse option"

datatype tier_err = ClientErr resp_err | JSONErr

definition prefixKey :: "'c cache_env \<Rightarrow> string \<Rightarrow> string" where
  "prefixKey env key = (if rprefix env = [] then key else rprefix env @ '':'' @ key)"

definition RedisGet :: "'c cache_env \<Rightarrow> string \<Rightarrow> 'c \<Rightarrow> 'c \<times> (tier_err + CachedResponse option)" where
  "RedisGet env key c =
     (case cGet (rclient env) (prefixKey env key) c of
        (c, Inl err) \<Rightarrow> (c, if err = ErrRedisNotFound then Inr None else Inl (ClientErr err))
      | (c, Inr data) \<Rightarrow>
          (c, case unmarshal env data of None \<Rightarrow> Inl JSONErr | Some resp \<Rightarrow> Inr (Some resp)))"

definition RedisSet :: "'c cache_env \<Rightarrow> string \<Rightarrow> CachedResponse \<Rightarrow> duration \<Rightarrow> 'c \<Rightarrow> 'c \<times> tier_err option" where
  "RedisSet env key resp ttl c =
     (case marshal env resp of
        None \<Rightarrow> (c, Some JSONErr)
      | Some data \<Rightarrow>
          (case cSet (rclient env) (prefixKey env key) data ttl c of (c, e) \<Rightarrow> (c, map_option ClientErr e)))"

definition RedisDelete :: "'c cache_env \<Rightarrow> string \<Rightarrow> 'c \<Rightarrow> 'c \<times> tier_err option" where
  "RedisDelete env key c =
     (case cDel (rclient env) [prefixKey env key] c of (c, e) \<Rightarrow> (c, map_option ClientErr e))"

text \<open>The scan of a purge: the keys to delete, or the error that ends it.\<close>

fun purge_scan :: "'c cache_env \<Rightarrow> string \<Rightarrow> string list \<Rightarrow> string list \<Rightarrow> 'c \<Rightarrow> 'c \<times> (tier_err + string list)" where
  "purge_scan env tag [] toDelete c = (c, Inr toDelete)"
| "purge_scan env tag (k # ks) toDelete c =
     (case cGet (rclient env) k c of
        (c, Inl err) \<Rightarrow>
          if err = ErrRedisNotFound then purge_scan env tag ks toDelete c else (c, Inl (ClientErr err))
      | (c, Inr data) \<Rightarrow>
          (case unmarshal env data of
             None \<Rightarrow> purge_scan env tag ks toDelete c
           | Some resp \<Rightarrow>
               purge_scan env tag ks (if tag \<in> set (Tags resp) then toDelete @ [k] else toDelete) c))"

definition RedisPurgeByTag :: "'c cache_env \<Rightarrow> string \<Rightarrow> 'c \<Rightarrow> 'c \<times> tier_err option" where
  "RedisPurgeByTag env tag c =
     (case cKeys (rclient env) (prefixKey env ''*'') c of
        (c, Inl err) \<Rightarrow> (c, Some (ClientErr err))
      | (c, Inr keys) \<Rightarrow>
          (case purge_scan env tag keys [] c of
             (c, Inl err) \<Rightarrow> (c, Some err)
           | (c, Inr toDelete) \<Rightarrow>
               if toDelete = [] then (c, None)
               else (case cDel (rclient env) toDelete c of (c, e) \<Rightarrow> (c, map_option ClientErr e))))"

definition RedisPurgeAll :: "'c cache_env \<Rightarrow> 'c \<Rightarrow> 'c \<times> tier_err option" where
  "RedisPurgeAll env c =
     (case cKeys (rclient env) (prefixKey env ''*'') c of
        (c, Inl err) \<Rightarrow> (c, Some (ClientErr err))
      | (c, Inr keys) \<Rightarrow>
          if keys = [] then (c, None)
          else (case cDel (rclient env) keys c of (c, e) \<Rightarrow> (c, map_option ClientErr e)))"

section \<open>The engine\<close>

definition maxConcurrentWrites :: nat where "maxConcurrentWrites = 16"

datatype bg_write = ToDisk string CachedResponse | ToRedis string CachedResponse

record 'c Engine =
  memory :: MemoryCache
  disk :: "DiskCache option"
  redis :: "'c option"
  varyKeys :: "string list"
  varyByQuery :: bool
  pending :: "bg_write list" \<comment> \<open>goroutines that hold a place of \<open>writeSem\<close>\<close>

definition NewEngine :: "int \<Rightarrow> DiskCache option \<Rightarrow> 'c Engine" where
  "NewEngine memoryLimit dk =
     \<lparr>memory = NewMemoryCache memoryLimit, disk = dk, redis = None, varyKeys = [''Accept-Encoding''],
      varyByQuery = True, pending = []\<rparr>"

definition SetVaryHeaders :: "string list \<Rightarrow> 'c Engine \<Rightarrow> 'c Engine" where
  "SetVaryHeaders hdrs e = e\<lparr>varyKeys := ''Accept-Encoding'' # hdrs\<rparr>"

definition SetVaryByQuery :: "bool \<Rightarrow> 'c Engine \<Rightarrow> 'c Engine" where
  "SetVaryByQuery vary e = e\<lparr>varyByQuery := vary\<rparr>"

definition SetRedis :: "'c \<Rightarrow> 'c Engine \<Rightarrow> 'c Engine" where
  "SetRedis c e = e\<lparr>redis := Some c\<rparr>"

definition engine_key :: "(string \<Rightarrow> string) \<Rightarrow> (string \<Rightarrow> bool option) \<Rightarrow> 'c Engine \<Rightarrow> key_request \<Rightarrow> string" where
  "engine_key uni floatPos e r =
     (if \<not> varyByQuery e then GenerateKeyWithoutQuery uni floatPos r (varyKeys e)
      else GenerateKey uni floatPos r (varyKeys e))"

definition spawn :: "bg_write \<Rightarrow> 'c Engine \<Rightarrow> 'c Engine" where
  "spawn w e = (if length (pending e) < maxConcurrentWrites then e\<lparr>pending := pending e @ [w]\<rparr> else e)"

definition usable :: "instant \<Rightarrow> CachedResponse \<Rightarrow> bool" where
  "usable now r \<longleftrightarrow> IsFresh now r \<or> IsStale now r"

definition found :: "instant \<Rightarrow> CachedResponse \<Rightarrow> 'c Engine \<Rightarrow> 'c Engine \<times> CachedResponse option \<times> cache_status" where
  "found now r e = (e, Some r, if IsFresh now r then StatusHit else StatusStale)"

definition get_redis :: "'c cache_env \<Rightarrow> instant \<Rightarrow> string \<Rightarrow> 'c Engine \<Rightarrow> 'c Engine \<times> CachedResponse option \<times> cache_status" where
  "get_redis env now key e =
     (case redis e of
        None \<Rightarrow> (e, None, StatusMiss)
      | Some c \<Rightarrow>
          (case RedisGet env key c of
             (c, Inr (Some r)) \<Rightarrow>
               let e = e\<lparr>redis := Some c\<rparr> in
               if usable now r then
                 (let e = e\<lparr>memory := MemSet key r (memory e)\<rparr>;
                      e = (if disk e \<noteq> None then spawn (ToDisk key r) e else e)
                  in found now r e)
               else (e, None, StatusMiss)
           | (c, _) \<Rightarrow> (e\<lparr>redis := Some c\<rparr>, None, StatusMiss)))"

definition get_disk :: "'c cache_env \<Rightarrow> instant \<Rightarrow> string \<Rightarrow> 'c Engine \<Rightarrow> 'c Engine \<times> CachedResponse option \<times> cache_status" where
  "get_disk env now key e =
     (case disk e of
        None \<Rightarrow> get_redis env now key e
      | Some d \<Rightarrow>
          (case DiskGet (io env) (sha256 env) key d of
             Inl _ \<Rightarrow> get_redis env now key e
           | Inr r \<Rightarrow>
               if usable now r then found now r (e\<lparr>memory := MemSet key r (memory e)\<rparr>)
               else get_redis env now key (e\<lparr>disk := Some (DiskDelete (io env) (sha256 env) key d)\<rparr>)))"

definition GetByKey :: "'c cache_env \<Rightarrow> instant \<Rightarrow> string \<Rightarrow> 'c Engine \<Rightarrow> 'c Engine \<times> CachedResponse option \<times> cache_status" where
  "GetByKey env now key e =
     (case MemGet now key (memory e) of
        (m, Some r, st) \<Rightarrow> (e\<lparr>memory := m\<rparr>, Some r, st)
      | (m, None, _) \<Rightarrow> get_disk env now key (e\<lparr>memory := m\<rparr>))"

definition varyCoveredByKey :: "(string \<Rightarrow> string \<Rightarrow> bool) \<Rightarrow> header \<Rightarrow> 'c Engine \<Rightarrow> bool" where
  "varyCoveredByKey uniEq h e =
     list_all (\<lambda>v. list_all (\<lambda>name0. let name = TrimSpace name0 in name = [] \<or> list_ex (\<lambda>k. EqualFoldU uniEq name k) (varyKeys e))
                 (SplitByte v (CHR '','')))
       (HeaderValues h ''Vary'')"

definition SetByKey :: "(string \<Rightarrow> string \<Rightarrow> bool) \<Rightarrow> string \<Rightarrow> CachedResponse \<Rightarrow> 'c Engine \<Rightarrow> 'c Engine" where
  "SetByKey uniEq key resp e =
     (if \<not> varyCoveredByKey uniEq (Headers resp) e then e
      else
        let e = e\<lparr>memory := MemSet key resp (memory e)\<rparr>;
            e = (if disk e \<noteq> None then spawn (ToDisk key resp) e else e)
        in if redis e \<noteq> None then spawn (ToRedis key resp) e else e)"

definition EngineGet ::
  "'c cache_env \<Rightarrow> (string \<Rightarrow> string) \<Rightarrow> (string \<Rightarrow> bool option) \<Rightarrow> instant \<Rightarrow> key_request \<Rightarrow> 'c Engine
   \<Rightarrow> 'c Engine \<times> CachedResponse option \<times> cache_status" where
  "EngineGet env uni floatPos now r e = GetByKey env now (engine_key uni floatPos e r) e"

definition EngineSet ::
  "(string \<Rightarrow> string \<Rightarrow> bool) \<Rightarrow> (string \<Rightarrow> string) \<Rightarrow> (string \<Rightarrow> bool option) \<Rightarrow> key_request \<Rightarrow> CachedResponse \<Rightarrow> 'c Engine \<Rightarrow> 'c Engine" where
  "EngineSet uniEq uni floatPos r resp e = SetByKey uniEq (engine_key uni floatPos e r) resp e"

text \<open>A background write: the lifetime in Redis is the time to live and the grace period, added as int64.\<close>

definition run_write :: "'c cache_env \<Rightarrow> bg_write \<Rightarrow> 'c Engine \<Rightarrow> 'c Engine" where
  "run_write env w e =
     (case w of
        ToDisk key r \<Rightarrow> e\<lparr>disk := map_option (\<lambda>d. fst (DiskSet (io env) (sha256 env) key r d)) (disk e)\<rparr>
      | ToRedis key r \<Rightarrow> e\<lparr>redis := map_option (\<lambda>c. fst (RedisSet env key r (wrap64 (TTL r + GraceTTL r)) c)) (redis e)\<rparr>)"

definition finish_write :: "'c cache_env \<Rightarrow> nat \<Rightarrow> 'c Engine \<Rightarrow> 'c Engine" where
  "finish_write env i e =
     (if i < length (pending e)
      then run_write env (pending e ! i) (e\<lparr>pending := take i (pending e) @ drop (i + 1) (pending e)\<rparr>) else e)"

definition PurgeKey :: "'c cache_env \<Rightarrow> string \<Rightarrow> 'c Engine \<Rightarrow> 'c Engine" where
  "PurgeKey env key e =
     e\<lparr>memory := MemDelete key (memory e), disk := map_option (DiskDelete (io env) (sha256 env) key) (disk e),
       redis := map_option (\<lambda>c. fst (RedisDelete env key c)) (redis e)\<rparr>"

definition EnginePurgeByTag :: "'c cache_env \<Rightarrow> string list \<Rightarrow> 'c Engine \<Rightarrow> 'c Engine \<times> nat" where
  "EnginePurgeByTag env tags e =
     (case PurgeByTag tags (memory e) of (m, n) \<Rightarrow>
        (e\<lparr>memory := m, disk := map_option (\<lambda>d. fst (DiskPurgeByTag (io env) tags d)) (disk e),
           redis := map_option (fold (\<lambda>tag c. fst (RedisPurgeByTag env tag c)) tags) (redis e)\<rparr>,
         n + (case disk e of None \<Rightarrow> 0 | Some d \<Rightarrow> snd (DiskPurgeByTag (io env) tags d))))"

definition EnginePurgeAll :: "'c cache_env \<Rightarrow> 'c Engine \<Rightarrow> 'c Engine" where
  "EnginePurgeAll env e =
     e\<lparr>memory := PurgeAll (memory e), disk := map_option (DiskPurgeAll (io env)) (disk e),
       redis := map_option (\<lambda>c. fst (RedisPurgeAll env c)) (redis e)\<rparr>"

definition EngineStats :: "'c Engine \<Rightarrow> (string \<times> int) list" where
  "EngineStats e =
     (case MemStats (memory e) of (h, m, st, used) \<Rightarrow>
        [(''hits'', h), (''misses'', m), (''stales'', st), (''used_bytes'', used), (''entries'', int (MemLen (memory e)))])"

section \<open>What may be cached, and for how long\<close>

definition sharedCacheableHeaders :: "(string \<Rightarrow> string) \<Rightarrow> header \<Rightarrow> bool" where
  "sharedCacheableHeaders uni h =
     (if list_ex (\<lambda>v. list_ex (\<lambda>name0. let name = TrimSpace name0 in
            name = ''*'' \<or> EqualFoldASCII name ''Cookie'' \<or> EqualFoldASCII name ''Authorization'')
          (SplitByte v (CHR '',''))) (HeaderValues h ''Vary'') then False
      else if HeaderValues h ''Set-Cookie'' \<noteq> [] then False
      else
        let cc = ToLower uni (Join (HeaderValues h ''Cache-Control'') '','')
        in \<not> (Contains cc ''no-store'' \<or> Contains cc ''private''))"

definition IsCacheable :: "(string \<Rightarrow> string) \<Rightarrow> string \<Rightarrow> header \<Rightarrow> int \<Rightarrow> header \<Rightarrow> bool" where
  "IsCacheable uni meth reqHeader statusCode h =
     (if meth \<noteq> ''GET'' \<and> meth \<noteq> ''HEAD'' then False
      else if HeaderGet reqHeader ''Authorization'' \<noteq> [] then False
      else if statusCode \<notin> {200, 301, 404} then False
      else sharedCacheableHeaders uni h)"

definition ShouldBypass :: "string \<Rightarrow> string \<Rightarrow> bool" where
  "ShouldBypass meth path =
     (if meth \<noteq> ''GET'' \<and> meth \<noteq> ''HEAD'' then True else HasSuffix path ''.php'')"

text \<open>One directive; \<open>(max-age, s-maxage)\<close> found so far. The product is an int64.\<close>

definition directive :: "(string \<Rightarrow> string) \<Rightarrow> string \<Rightarrow> duration option \<times> duration option \<Rightarrow> duration option \<times> duration option" where
  "directive uni d0 st =
     (let d = TrimSpace d0 in
      case IndexByte d (CHR ''='') of
        None \<Rightarrow> st
      | Some i \<Rightarrow>
          (case Atoi (TrimSet (TrimSpace (drop (i + 1) d)) {CHR 0x22}) of
             None \<Rightarrow> st
           | Some secs \<Rightarrow>
               if secs < 0 then st
               else
                 let name = ToLower uni (TrimSpace (take i d)); v = wrap64 (secs * 1000000000)
                 in if name = ''s-maxage'' then (fst st, Some v)
                    else if name = ''max-age'' then (Some v, snd st)
                    else st))"

definition originMaxAge :: "(string \<Rightarrow> string) \<Rightarrow> string \<Rightarrow> duration option" where
  "originMaxAge uni cc =
     (case fold (directive uni) (SplitByte cc (CHR '','')) (None, None) of
        (maxAge, Some s) \<Rightarrow> Some s
      | (maxAge, None) \<Rightarrow> maxAge)"

definition CapTTL :: "(string \<Rightarrow> string) \<Rightarrow> duration \<Rightarrow> header \<Rightarrow> duration" where
  "CapTTL uni ttl h =
     (case originMaxAge uni (Join (HeaderValues h ''Cache-Control'') '','') of
        Some origin \<Rightarrow> if origin > 0 \<and> origin < ttl then origin else ttl
      | None \<Rightarrow> ttl)"

section \<open>Runs\<close>

datatype engine_op =
    ESet string CachedResponse
  | EGet instant string
  | EPurgeKey string
  | EPurgeByTag "string list"
  | EPurgeAll
  | EFinish nat \<comment> \<open>a background write is carried out\<close>
  | EClean instant

definition clean_tiers :: "'c cache_env \<Rightarrow> instant \<Rightarrow> 'c Engine \<Rightarrow> 'c Engine" where
  "clean_tiers env now e =
     e\<lparr>memory := Cache_Memory.cleanExpired now (memory e), disk := map_option (DiskCleanExpired (io env) now) (disk e)\<rparr>"

fun engine_step :: "'c cache_env \<Rightarrow> (string \<Rightarrow> string \<Rightarrow> bool) \<Rightarrow> engine_op \<Rightarrow> 'c Engine \<Rightarrow> 'c Engine" where
  "engine_step env uniEq (ESet k r) e = SetByKey uniEq k r e"
| "engine_step env uniEq (EGet now k) e = fst (GetByKey env now k e)"
| "engine_step env uniEq (EPurgeKey k) e = PurgeKey env k e"
| "engine_step env uniEq (EPurgeByTag tags) e = fst (EnginePurgeByTag env tags e)"
| "engine_step env uniEq EPurgeAll e = EnginePurgeAll env e"
| "engine_step env uniEq (EFinish i) e = finish_write env i e"
| "engine_step env uniEq (EClean now) e = clean_tiers env now e"

text \<open>
  What a lookup may find: the responses set under a key so far, less what a purge took away. A purge counts
  only when no background write is outstanding.
\<close>

fun hist_step :: "engine_op \<Rightarrow> 'c Engine \<Rightarrow> (string \<Rightarrow> CachedResponse set) \<Rightarrow> (string \<Rightarrow> CachedResponse set)" where
  "hist_step (ESet k r) e H = hist_op (OpSet k r) H"
| "hist_step (EPurgeKey k) e H = (if pending e = [] then hist_op (OpDelete k) H else H)"
| "hist_step (EPurgeByTag tags) e H = (if pending e = [] then hist_op (OpPurgeByTag tags) H else H)"
| "hist_step EPurgeAll e H = (if pending e = [] then hist_op OpPurgeAll H else H)"
| "hist_step _ e H = H"

fun engine_run ::
  "'c cache_env \<Rightarrow> (string \<Rightarrow> string \<Rightarrow> bool) \<Rightarrow> engine_op list \<Rightarrow> 'c Engine \<times> (string \<Rightarrow> CachedResponse set)
   \<Rightarrow> 'c Engine \<times> (string \<Rightarrow> CachedResponse set)" where
  "engine_run env uniEq [] st = st"
| "engine_run env uniEq (c # cs) st = engine_run env uniEq cs (engine_step env uniEq c (fst st), hist_step c (fst st) (snd st))"

section \<open>The contract of the Redis tier\<close>

fun redis_op :: "'c cache_env \<Rightarrow> cache_op \<Rightarrow> 'c \<Rightarrow> 'c" where
  "redis_op env (OpSet k r) c = fst (RedisSet env k r (wrap64 (TTL r + GraceTTL r)) c)"
| "redis_op env (OpDelete k) c = fst (RedisDelete env k c)"
| "redis_op env (OpPurgeByTag tags) c = fold (\<lambda>tag c. fst (RedisPurgeByTag env tag c)) tags c"
| "redis_op env OpPurgeAll c = fst (RedisPurgeAll env c)"
| "redis_op env (OpGet now k) c = fst (RedisGet env k c)"
| "redis_op env (OpClean now) c = c"

text \<open>
  A server that keeps what is set until it is deleted or expires, and JSON that rebuilds what it wrote:
  \<open>rcontent\<close> is what the tier holds for a key, \<open>radm\<close> says which responses JSON rebuilds.
\<close>

definition redis_contract ::
  "'c cache_env \<Rightarrow> ('c \<Rightarrow> bool) \<Rightarrow> ('c \<Rightarrow> string \<Rightarrow> CachedResponse option) \<Rightarrow> (cache_op \<Rightarrow> bool) \<Rightarrow> bool" where
  "redis_contract env rinv rcontent radm \<longleftrightarrow>
     history_store rinv rcontent (redis_op env) radm
     \<and> (\<forall>c k c' r. rinv c \<longrightarrow> RedisGet env k c = (c', Inr (Some r)) \<longrightarrow> rcontent c k = Some r)
     \<and> radm OpPurgeAll \<and> (\<forall>k. radm (OpDelete k)) \<and> (\<forall>tags. radm (OpPurgeByTag tags)) \<and> (\<forall>now k. radm (OpGet now k) \<and> radm (OpClean now))"

section \<open>What the tiers hold\<close>

fun write_known :: "(string \<Rightarrow> CachedResponse set) \<Rightarrow> bg_write \<Rightarrow> bool" where
  "write_known H (ToDisk k r) = (r \<in> H k)"
| "write_known H (ToRedis k r) = (r \<in> H k)"

definition known :: "(string \<Rightarrow> CachedResponse set) \<Rightarrow> (string \<Rightarrow> CachedResponse option) \<Rightarrow> bool" where
  "known H f \<longleftrightarrow> (\<forall>k. set_option (f k) \<subseteq> H k)"

definition engine_known ::
  "'c cache_env \<Rightarrow> ('c \<Rightarrow> bool) \<Rightarrow> ('c \<Rightarrow> string \<Rightarrow> CachedResponse option) \<Rightarrow> (cache_op \<Rightarrow> bool)
   \<Rightarrow> (string \<Rightarrow> CachedResponse set) \<Rightarrow> 'c Engine \<Rightarrow> bool" where
  "engine_known env rinv rcontent radm H e \<longleftrightarrow>
     cache_inv (memory e) \<and> known H (lookup (memory e))
     \<and> (\<forall>d. disk e = Some d \<longrightarrow> disk_inv d \<and> known H (disk_lookup (sha256 env) d))
     \<and> (\<forall>c. redis e = Some c \<longrightarrow> rinv c \<and> known H (rcontent c))
     \<and> (\<forall>w \<in> set (pending e). write_known H w)
     \<and> (\<forall>k. \<forall>r \<in> H k. response_wf r \<and> radm (OpSet k r))"

lemma known_op:
  assumes "history_store ok ct perform adm" and "ok s" and "adm c" and "known H (ct s)"
  shows "ok (perform c s)" and "known (hist_op c H) (ct (perform c s))"
  using history_store.history_inv [OF assms(1,2)] history_store.step_known [OF assms(1,2,3), of H] assms(4)
  by (auto simp: known_def)

lemma hist_op_same: "r \<in> H k \<Longrightarrow> hist_op (OpSet k r) H = H"
  by (auto simp: insert_absorb)

lemma hist_op_smaller: "(\<forall>k r. c \<noteq> OpSet k r) \<Longrightarrow> hist_op c H k \<subseteq> H k"
  by (cases c) auto

lemma known_mono: "known H f \<Longrightarrow> (\<And>k. H k \<subseteq> H' k) \<Longrightarrow> known H' f"
  unfolding known_def by blast

text \<open>The tiers change by one operation each; \<open>None\<close> leaves a tier alone.\<close>

definition tiers_op :: "'c cache_env \<Rightarrow> cache_op \<Rightarrow> 'c Engine \<Rightarrow> 'c Engine" where
  "tiers_op env c e =
     e\<lparr>memory := mem_op c (memory e), disk := map_option (disk_op (io env) (sha256 env) c) (disk e),
       redis := map_option (redis_op env c) (redis e)\<rparr>"

lemma tiers_op_known:
  assumes "engine_known env rinv rcontent radm H e" and "redis_contract env rinv rcontent radm"
    and "inj (sha256 env)" and "reliable (io env)" and "storable_op c" and "radm c"
    and "\<forall>w \<in> set (pending e). write_known (hist_op c H) w" and "\<forall>k. \<forall>r \<in> hist_op c H k. response_wf r \<and> radm (OpSet k r)"
  shows "engine_known env rinv rcontent radm (hist_op c H) (tiers_op env c e)"
proof -
  note k = assms(1) [unfolded engine_known_def]
  have "history_store rinv rcontent (redis_op env) radm" using assms(2) by (simp add: redis_contract_def)
  moreover have "history_store disk_inv (disk_lookup (sha256 env)) (disk_op (io env) (sha256 env)) storable_op"
    by (rule disk_history_store [OF assms(3,4)])
  moreover have "history_store cache_inv lookup mem_op (\<lambda>_. True)" by (rule mem.history_store_axioms)
  ultimately show ?thesis
    using k assms(5-8) by (auto simp: engine_known_def tiers_op_def intro: known_op)
qed

text \<open>One tier at a time, for operations that add nothing new.\<close>

context history_store
begin

lemma known_smaller:
  assumes "inv s" and "admissible c" and "known H (content s)" and "\<And>k. hist_op c H k \<subseteq> H k"
  shows "inv (perform c s) \<and> known H (content (perform c s))"
  using history_inv [OF assms(1)] step_known [OF assms(1,2), of H] assms(3,4) unfolding known_def by blast

end

text \<open>The assumptions on the parameters, together.\<close>

definition tiers_ok :: "'c cache_env \<Rightarrow> ('c \<Rightarrow> bool) \<Rightarrow> ('c \<Rightarrow> string \<Rightarrow> CachedResponse option) \<Rightarrow> (cache_op \<Rightarrow> bool) \<Rightarrow> bool" where
  "tiers_ok env rinv rcontent radm \<longleftrightarrow>
     redis_contract env rinv rcontent radm \<and> inj (sha256 env) \<and> reliable (io env)"

lemma tiers_okD:
  assumes "tiers_ok env rinv rcontent radm"
  shows "history_store disk_inv (disk_lookup (sha256 env)) (disk_op (io env) (sha256 env)) storable_op"
    and "history_store rinv rcontent (redis_op env) radm"
  using assms by (auto simp: tiers_ok_def redis_contract_def intro: disk_history_store)

lemma known_memory:
  "engine_known env rinv rcontent radm H e \<Longrightarrow> (\<And>k. hist_op c H k \<subseteq> H k) \<Longrightarrow> engine_known env rinv rcontent radm H (e\<lparr>memory := mem_op c (memory e)\<rparr>)"
  using mem.known_smaller [where s = "memory e" and c = c and H = H] by (simp add: engine_known_def)

lemma known_disk:
  "tiers_ok env rinv rcontent radm \<Longrightarrow> engine_known env rinv rcontent radm H e \<Longrightarrow> storable_op c \<Longrightarrow> (\<And>k. hist_op c H k \<subseteq> H k) \<Longrightarrow>
   engine_known env rinv rcontent radm H (e\<lparr>disk := map_option (disk_op (io env) (sha256 env) c) (disk e)\<rparr>)"
  using history_store.known_smaller [OF tiers_okD(1) [of env rinv rcontent radm], where c = c and H = H] by (auto simp: engine_known_def)

lemma known_redis:
  "tiers_ok env rinv rcontent radm \<Longrightarrow> engine_known env rinv rcontent radm H e \<Longrightarrow> radm c \<Longrightarrow> (\<And>k. hist_op c H k \<subseteq> H k) \<Longrightarrow>
   engine_known env rinv rcontent radm H (e\<lparr>redis := map_option (redis_op env c) (redis e)\<rparr>)"
  using history_store.known_smaller [OF tiers_okD(2) [of env rinv rcontent radm], where c = c and H = H] by (auto simp: engine_known_def)

lemma known_spawn: "engine_known env rinv rcontent radm H e \<Longrightarrow> write_known H w \<Longrightarrow> engine_known env rinv rcontent radm H (spawn w e)"
  by (auto simp: engine_known_def spawn_def)

lemma known_wider:
  assumes "engine_known env rinv rcontent radm H e" and "response_wf r" and "radm (OpSet k r)"
  shows "engine_known env rinv rcontent radm (hist_op (OpSet k r) H) e"
proof -
  have "\<And>j. H j \<subseteq> hist_op (OpSet k r) H j" by auto
  moreover from this have "write_known H w \<Longrightarrow> write_known (hist_op (OpSet k r) H) w" for w by (cases w) auto
  ultimately show ?thesis using assms known_mono by (auto simp: engine_known_def)
qed

lemma known_SetByKey:
  assumes "engine_known env rinv rcontent radm H e" and "response_wf r" and "radm (OpSet k r)"
  shows "engine_known env rinv rcontent radm (hist_op (OpSet k r) H) (SetByKey uniEq k r e)"
proof -
  let ?H = "hist_op (OpSet k r) H"
  have "engine_known env rinv rcontent radm ?H (e\<lparr>memory := mem_op (OpSet k r) (memory e)\<rparr>)"
    by (intro known_memory known_wider assms) auto
  moreover have "write_known ?H (ToDisk k r)" "write_known ?H (ToRedis k r)" by auto
  ultimately show ?thesis
    using known_wider [OF assms] by (auto simp: SetByKey_def Let_def intro!: known_spawn)
qed

lemma disk_op_set: "disk_op io' sha (OpSet k r) = (\<lambda>d. fst (DiskSet io' sha k r d))"
  by (simp add: fun_eq_iff)

lemma redis_op_set: "redis_op env (OpSet k r) = (\<lambda>c. fst (RedisSet env k r (wrap64 (TTL r + GraceTTL r)) c))"
  by (simp add: fun_eq_iff)

lemma known_run_write:
  assumes "tiers_ok env rinv rcontent radm" and "engine_known env rinv rcontent radm H e" and "write_known H w"
  shows "engine_known env rinv rcontent radm H (run_write env w e)"
proof (cases w)
  case (ToDisk k r)
  with assms have "r \<in> H k" "response_wf r" by (auto simp: engine_known_def)
  then show ?thesis using known_disk [OF assms(1,2), of "OpSet k r"] ToDisk by (simp add: run_write_def insert_absorb disk_op_set redis_op_set)
next
  case (ToRedis k r)
  with assms have "r \<in> H k" "radm (OpSet k r)" by (auto simp: engine_known_def)
  then show ?thesis using known_redis [OF assms(1,2), of "OpSet k r"] ToRedis by (simp add: run_write_def insert_absorb disk_op_set redis_op_set)
qed

lemma known_finish: "tiers_ok env rinv rcontent radm \<Longrightarrow> engine_known env rinv rcontent radm H e \<Longrightarrow> engine_known env rinv rcontent radm H (finish_write env i e)"
proof (cases "i < length (pending e)")
  case True
  assume ok: "tiers_ok env rinv rcontent radm" and k: "engine_known env rinv rcontent radm H e"
  with True have "write_known H (pending e ! i)" by (auto simp: engine_known_def)
  moreover have "engine_known env rinv rcontent radm H (e\<lparr>pending := take i (pending e) @ drop (i + 1) (pending e)\<rparr>)"
    using k by (auto simp: engine_known_def dest: in_set_takeD in_set_dropD)
  ultimately show ?thesis using True by (simp add: finish_write_def known_run_write [OF ok])
qed (simp add: finish_write_def)

lemma known_found:
  assumes "engine_known env rinv rcontent radm H e" and "r \<in> H k"
  shows "engine_known env rinv rcontent radm H (e\<lparr>memory := MemSet k r (memory e)\<rparr>)"
  using known_memory [OF assms(1), of "OpSet k r"] assms(2) by (simp add: insert_absorb)

text \<open>The result of a lookup, and what it leaves behind.\<close>

definition get_ok :: "(string \<Rightarrow> CachedResponse set) \<Rightarrow> instant \<Rightarrow> string \<Rightarrow> ('c Engine \<Rightarrow> bool) \<Rightarrow> 'c Engine \<times> CachedResponse option \<times> cache_status \<Rightarrow> bool" where
  "get_ok H now k ok res \<longleftrightarrow> ok (fst res) \<and>
     (case snd res of
        (None, st) \<Rightarrow> st = StatusMiss
      | (Some r, st) \<Rightarrow> r \<in> H k \<and> usable now r \<and> st = (if IsFresh now r then StatusHit else StatusStale))"

lemma get_redis_ok:
  assumes "tiers_ok env rinv rcontent radm" and "engine_known env rinv rcontent radm H e"
  shows "get_ok H now k (engine_known env rinv rcontent radm H) (get_redis env now k e)"
proof (cases "redis e")
  case None
  then show ?thesis using assms(2) by (simp add: get_redis_def get_ok_def)
next
  case (Some c)
  obtain c' res where g: "RedisGet env k c = (c', res)" by fastforce
  have "engine_known env rinv rcontent radm H (e\<lparr>redis := map_option (redis_op env (OpGet now k)) (redis e)\<rparr>)"
    using assms by (intro known_redis) (auto simp: tiers_ok_def redis_contract_def)
  then have e': "engine_known env rinv rcontent radm H (e\<lparr>redis := Some c'\<rparr>)" by (simp add: Some g)
  show ?thesis
  proof (cases "\<exists>r. res = Inr (Some r) \<and> usable now r")
    case True
    then obtain r where r: "res = Inr (Some r)" "usable now r" by blast
    have "rcontent c k = Some r"
      using assms g r(1) Some by (auto simp: tiers_ok_def redis_contract_def engine_known_def)
    then have "r \<in> H k" using assms(2) Some by (auto simp: engine_known_def known_def)
    moreover from this have "engine_known env rinv rcontent radm H (e\<lparr>redis := Some c', memory := MemSet k r (memory e)\<rparr>)"
      using known_found [OF e', of r k] by simp
    ultimately show ?thesis using r Some g
      by (auto simp: get_redis_def get_ok_def found_def Let_def intro: known_spawn)
  next
    case False
    then show ?thesis using Some g e'
      by (auto simp: get_redis_def get_ok_def Let_def split: sum.splits option.splits)
  qed
qed

lemma get_disk_ok:
  assumes "tiers_ok env rinv rcontent radm" and "engine_known env rinv rcontent radm H e"
  shows "get_ok H now k (engine_known env rinv rcontent radm H) (get_disk env now k e)"
proof (cases "disk e")
  case None
  then show ?thesis using get_redis_ok [OF assms] by (simp add: get_disk_def)
next
  case (Some d)
  show ?thesis
  proof (cases "DiskGet (io env) (sha256 env) k d")
    case (Inl err)
    then show ?thesis using get_redis_ok [OF assms] Some by (simp add: get_disk_def)
  next
    case (Inr r)
    then have "r \<in> H k" using DiskGet_lookup [OF Inr] assms(2) Some by (auto simp: engine_known_def known_def)
    moreover have "engine_known env rinv rcontent radm H (e\<lparr>disk := Some (DiskDelete (io env) (sha256 env) k d)\<rparr>)"
      using known_disk [OF assms, of "OpDelete k"] Some by simp
    ultimately show ?thesis
      using known_found [OF assms(2), of r k] get_redis_ok [OF assms(1)] Some Inr
      by (auto simp: get_disk_def get_ok_def found_def)
  qed
qed

lemma GetByKey_ok:
  assumes "tiers_ok env rinv rcontent radm" and "engine_known env rinv rcontent radm H e"
  shows "get_ok H now k (engine_known env rinv rcontent radm H) (GetByKey env now k e)"
proof -
  obtain m r st where g: "MemGet now k (memory e) = (m, r, st)" by (metis prod_cases3)
  have inv: "cache_inv (memory e)" using assms(2) by (simp add: engine_known_def)
  note spec = MemGet_spec [OF inv g]
  have e': "engine_known env rinv rcontent radm H (e\<lparr>memory := m\<rparr>)"
    using assms(2) spec(1,2) by (simp add: engine_known_def)
  show ?thesis
  proof (cases r)
    case None
    then show ?thesis using get_disk_ok [OF assms(1) e'] g by (simp add: GetByKey_def)
  next
    case (Some v)
    then have "lookup (memory e) k = Some v" "usable now v" "st = (if IsFresh now v then StatusHit else StatusStale)"
      using spec(5,6) by (auto simp: usable_def split: option.splits if_splits)
    moreover from this(1) have "v \<in> H k" using assms(2) by (auto simp: engine_known_def known_def)
    ultimately show ?thesis using Some g e' by (simp add: GetByKey_def get_ok_def)
  qed
qed

section \<open>Every run\<close>

lemma hist_step_known:
  assumes "tiers_ok env rinv rcontent radm" and "engine_known env rinv rcontent radm H e" and "radm c"
    and "storable_op c" and "\<forall>k r. c \<noteq> OpSet k r"
  shows "engine_known env rinv rcontent radm (if pending e = [] then hist_op c H else H) (tiers_op env c e)"
proof (cases "pending e = []")
  case True
  have "\<forall>k. \<forall>r \<in> hist_op c H k. response_wf r \<and> radm (OpSet k r)"
    using assms(2) hist_op_smaller [OF assms(5), of H] unfolding engine_known_def by blast
  with True show ?thesis using assms(1,3,4) tiers_op_known [OF assms(2)] by (simp add: tiers_ok_def)
next
  case False
  have "\<And>k. hist_op c H k \<subseteq> H k" by (rule hist_op_smaller [OF assms(5)])
  then have "engine_known env rinv rcontent radm H (tiers_op env c e)"
    using known_memory [OF known_disk [OF assms(1) known_redis [OF assms(1,2)]], of c c c] assms(3,4)
    by (simp add: tiers_op_def engine_known_def)
  with False show ?thesis by simp
qed

fun admissible_step :: "(cache_op \<Rightarrow> bool) \<Rightarrow> engine_op \<Rightarrow> bool" where
  "admissible_step radm (ESet k r) = (response_wf r \<and> radm (OpSet k r))"
| "admissible_step radm _ = True"

lemma engine_step_known:
  assumes "tiers_ok env rinv rcontent radm" and "engine_known env rinv rcontent radm H e" and "admissible_step radm c"
  shows "engine_known env rinv rcontent radm (hist_step c e H) (engine_step env uniEq c e)"
proof -
  have adm: "radm OpPurgeAll" "radm (OpDelete k)" "radm (OpPurgeByTag tags)" "radm (OpClean now)" for k tags now
    using assms(1) by (auto simp: tiers_ok_def redis_contract_def)
  show ?thesis
  proof (cases c)
    case (ESet k r)
    then show ?thesis using known_SetByKey [OF assms(2)] assms(3) by (simp del: hist_op.simps)
  next
    case (EGet now k)
    then show ?thesis using GetByKey_ok [OF assms(1,2), of now k] by (simp add: get_ok_def)
  next
    case (EPurgeKey k)
    have "PurgeKey env k e = tiers_op env (OpDelete k) e"
      by (simp add: PurgeKey_def tiers_op_def fun_eq_iff cong: map_option_cong)
    then show ?thesis using hist_step_known [OF assms(1,2) adm(2), of k] EPurgeKey by simp
  next
    case (EPurgeByTag tags)
    have "fst (EnginePurgeByTag env tags e) = tiers_op env (OpPurgeByTag tags) e"
      by (simp add: EnginePurgeByTag_def tiers_op_def cong: map_option_cong split: prod.split)
    then show ?thesis using hist_step_known [OF assms(1,2) adm(3), of tags] EPurgeByTag by simp
  next
    case EPurgeAll
    have "EnginePurgeAll env e = tiers_op env OpPurgeAll e"
      by (simp add: EnginePurgeAll_def tiers_op_def cong: map_option_cong)
    then show ?thesis using hist_step_known [OF assms(1,2) adm(1)] EPurgeAll by simp
  next
    case (EFinish i)
    then show ?thesis using known_finish [OF assms(1,2)] by simp
  next
    case (EClean now)
    have "clean_tiers env now e = tiers_op env (OpClean now) e"
      by (cases "redis e") (simp_all add: clean_tiers_def tiers_op_def cong: map_option_cong)
    then show ?thesis using hist_step_known [OF assms(1,2) adm(4), of now] EClean by (simp split: if_splits)
  qed
qed

lemma engine_run_known:
  assumes "tiers_ok env rinv rcontent radm" and "engine_known env rinv rcontent radm H e" and "list_all (admissible_step radm) cs"
  shows "engine_known env rinv rcontent radm (snd (engine_run env uniEq cs (e, H))) (fst (engine_run env uniEq cs (e, H)))"
  using assms(2,3)
proof (induction cs arbitrary: e H)
  case (Cons c cs)
  then show ?case using engine_step_known [OF assms(1) Cons.prems(1), of c uniEq] by simp
qed simp

lemma engine_known_New:
  "0 \<le> b \<Longrightarrow> engine_known env rinv rcontent radm (\<lambda>_. {}) (NewEngine b (map_option (NewDiskCache []) limit))"
  using cache_inv_New [of b]
  by (auto simp: engine_known_def NewEngine_def known_def disk_inv_def disk_lookup_def NewDiskCache_def
      lookup_def NewMemoryCache_def empty_shard_def)

section \<open>Properties\<close>


definition no_redis :: "unit cache_env" where
  "no_redis = \<lparr>io = good_io, sha256 = (\<lambda>k. k),
     rclient = \<lparr>cGet = (\<lambda>_ c. (c, Inl ErrRedisNotFound)), cSet = (\<lambda>_ _ _ c. (c, None)), cDel = (\<lambda>_ c. (c, None)),
       cKeys = (\<lambda>_ c. (c, Inr []))\<rparr>,
     rprefix = [], marshal = (\<lambda>_. None), unmarshal = (\<lambda>_. None)\<rparr>"

lemma no_redis_ok: "tiers_ok no_redis (\<lambda>_. True) (\<lambda>_ _. None) (\<lambda>_. True)"
proof -
  have "history_store (\<lambda>_ :: unit. True) (\<lambda>_ _. None) (redis_op no_redis) (\<lambda>_. True)" by unfold_locales auto
  then show ?thesis
    by (auto simp: tiers_ok_def redis_contract_def RedisGet_def no_redis_def reliable_def good_io_def inj_on_def)
qed

definition demo_cache_ops :: "engine_op list" where
  "demo_cache_ops =
     [ESet ''k'' (example_response\<lparr>Headers := []\<rparr>), EFinish 0, EPurgeKey ''k'', ESet ''k'' (example_response\<lparr>Headers := [], Body := [7]\<rparr>)]"

definition demo_cache_run :: "unit Engine \<times> (string \<Rightarrow> CachedResponse set)" where
  "demo_cache_run = engine_run no_redis (\<lambda>_ _. False) demo_cache_ops (NewEngine 100000 (map_option (NewDiskCache []) (Some 0)), \<lambda>_. {})"


text \<open>
  C28. A purge can be undone by a write that was on its way. If a response is stored and its key is purged
  before the background write to disk has run, the write puts the response back, and the next lookup
  serves it as a hit: \<open>PurgeKey\<close> does not wait for outstanding writes or cancel them.
\<close>

theorem engine_purge_race:
  assumes "cache_inv (memory e)" and "pending e = []" and "disk e = Some d" and "diskMax d \<le> 0" and "redis e = None"
    and "varyCoveredByKey uniEq (Headers r) e" and "response_wf r" and "IsFresh now r"
    and "reliable (io env)" and "write_ok (io env) (disk_path (sha256 env) k)"
  shows "\<exists>e'. GetByKey env now k (fold (engine_step env uniEq) [ESet k r, EPurgeKey k, EFinish 0] e) = (e', Some r, StatusHit)"
proof -
  let ?m = "MemDelete k (MemSet k r (memory e))" and ?d = "DiskDelete (io env) (sha256 env) k d"
  have inv: "cache_inv (MemSet k r (memory e))" using MemSet_spec [OF assms(1)] by simp
  note m = MemDelete_spec [OF inv, where k = k]
  have run: "fold (engine_step env uniEq) [ESet k r, EPurgeKey k, EFinish 0] e =
      e\<lparr>memory := ?m, disk := Some (fst (DiskSet (io env) (sha256 env) k r ?d)), redis := None, pending := []\<rparr>"
    using assms(2,3,5,6)
    by (simp add: SetByKey_def Let_def spawn_def maxConcurrentWrites_def PurgeKey_def finish_write_def run_write_def)
  have "diskMax ?d \<le> 0"
    using assms(4) by (simp add: DiskDelete_def Let_def remove_file_def subtractUsedBytes_def split: option.splits)
  then have "DiskGet (io env) (sha256 env) k (fst (DiskSet (io env) (sha256 env) k r ?d)) = Inr r"
    using assms(9,10) Deserialize_Serialize_wf [OF assms(7)]
    by (simp add: DiskSet_def Let_def DiskGet_def reliable_def)
  moreover obtain m' x st where g: "MemGet now k ?m = (m', x, st)" by (metis prod_cases3)
  moreover have "x = None" using MemGet_spec(5) [OF m(1) g] m(2) by simp
  ultimately show ?thesis unfolding run
    by (simp add: GetByKey_def get_disk_def usable_def assms(8) found_def)
qed

theorem engine_purge_race_witness:
  "\<exists>e'. GetByKey no_redis 1700000000000000001 ''k'' (fold (engine_step no_redis (\<lambda>_ _. False))
      [ESet ''k'' (example_response\<lparr>Headers := []\<rparr>), EPurgeKey ''k'', EFinish 0] (NewEngine 100000 (Some (NewDiskCache [] 0))))
    = (e', Some (example_response\<lparr>Headers := []\<rparr>), StatusHit)"
proof (rule engine_purge_race [where d = "NewDiskCache [] 0"])
  show "response_wf (example_response\<lparr>Headers := []\<rparr>)"
    using example_response_wf by (simp add: response_wf_def header_wf_def header_lines_def)
  show "cache_inv (memory (NewEngine 100000 (Some (NewDiskCache [] 0))))"
    using cache_inv_New [of 100000] by (simp add: NewEngine_def)
qed (simp_all add: NewEngine_def NewDiskCache_def varyCoveredByKey_def HeaderValues_def IsFresh_def since_def
    example_response_def no_redis_def reliable_def good_io_def)

text \<open>The origin's lifetime only ever shortens the configured one, and never to nothing.\<close>

lemma CapTTL_shortens: "CapTTL uni ttl h \<le> ttl \<and> (CapTTL uni ttl h = ttl \<or> 0 < CapTTL uni ttl h)"
  by (auto simp: CapTTL_def split: option.splits)

text \<open>A lifetime of more than 292 years wraps around in nanoseconds: 584 years become 0.29 seconds.\<close>

lemma originMaxAge_wraps: "originMaxAge uni ''max-age=18446744074'' = Some 290448384"
proof -
  have s: "SplitByte ''max-age=18446744074'' (CHR '','') = [''max-age=18446744074'']" by code_simp
  have t: "TrimSpace ''max-age=18446744074'' = ''max-age=18446744074''" by code_simp
  have i: "IndexByte ''max-age=18446744074'' (CHR ''='') = Some 7" by code_simp
  have a: "Atoi (TrimSet (TrimSpace ''18446744074'') {CHR 0x22}) = Some 18446744074" by code_simp
  have n: "ToLower uni (TrimSpace ''max-age'') = ''max-age''"
  proof -
    have "TrimSpace ''max-age'' = ''max-age''" "isASCII ''max-age''" "map to_lower ''max-age'' = ''max-age''" by code_simp+
    then show ?thesis by (simp only: ToLower_def if_True)
  qed
  show ?thesis by (simp add: originMaxAge_def s directive_def t i a n Let_def wrap64_def)
qed

end
