(* ===== verification/Cache_ESI.thy ===== *)
theory Cache_ESI
  imports Cache_Engine
begin

text \<open>
  Edge side includes, \<open>internal/cache/esi.go\<close>: the three fixed regular expressions as scanners, the
  replacement of includes by fragments from the cache or from a sub-request, nesting, and the allowance of
  includes and bytes that one page may use. The fetcher of the server is a parameter.
\<close>

section \<open>Scanners\<close>

definition ESIMaxDepthDefault :: int where "ESIMaxDepthDefault = 3"
definition ESIMaxIncludes :: int where "ESIMaxIncludes = 50"
definition ESIMaxOutputBytes :: int where "ESIMaxOutputBytes = 8 * 1024 * 1024"

text \<open>The white space of the regular expressions.\<close>

definition re_space :: "char \<Rightarrow> bool" where
  "re_space c \<longleftrightarrow> c \<in> {CHR 0x09, CHR 0x0A, CHR 0x0C, CHR 0x0D, CHR 0x20}"

definition trim_end :: "string \<Rightarrow> string" where
  "trim_end s = rev (dropWhile re_space (rev s))"

text \<open>A match at the start of a text: what the first group holds, and the text behind the match.\<close>

definition esiCommentRe :: "string \<Rightarrow> (string \<times> string) option" where
  "esiCommentRe s =
     (if \<not> HasPrefix s ''<!--esi'' then None
      else
        let t = drop 7 s; u = dropWhile re_space t in
        if u = t then None
        else case Index u ''-->'' of
          None \<Rightarrow> None
        | Some i \<Rightarrow> Some (trim_end (take i u), drop (i + 3) u))"

definition esiIncludeRe :: "string \<Rightarrow> (string \<times> string) option" where
  "esiIncludeRe s =
     (if \<not> HasPrefix s ''<esi:include'' then None
      else
        let t = drop 12 s; u = dropWhile re_space t in
        if u = t \<or> \<not> HasPrefix u ''src='' \<or> drop 4 u = [] \<or> hd (drop 4 u) \<noteq> CHR 0x22 then None
        else
          let v = drop 5 u; src = takeWhile (\<lambda>c. c \<noteq> CHR 0x22) v; w = drop (length src) v in
          if src = [] \<or> w = [] then None
          else
            let x = dropWhile re_space (tl w) in
            if HasPrefix x ''/>'' then Some (src, drop 2 x) else None)"

definition esiRemoveRe :: "string \<Rightarrow> (string \<times> string) option" where
  "esiRemoveRe s =
     (if \<not> HasPrefix s ''<esi:remove>'' then None
      else case Index (drop 12 s) ''</esi:remove>'' of
        None \<Rightarrow> None
      | Some i \<Rightarrow> Some ([], drop (i + 13) (drop 12 s)))"

text \<open>
  The scanners consume text; the pieces of a text are its characters outside matches (\<open>Inl\<close>) and the groups
  of the leftmost matches that do not overlap (\<open>Inr\<close>), as \<open>ReplaceAllFunc\<close> visits them.
\<close>

lemma dropWhile_shorter: "length (dropWhile P s) \<le> length s"
  by (rule length_dropWhile_le)

lemma esiCommentRe_shorter: "esiCommentRe s = Some (g, rest) \<Longrightarrow> length g + length rest + 8 \<le> length s"
proof -
  assume m: "esiCommentRe s = Some (g, rest)"
  define u where "u = dropWhile re_space (drop 7 s)"
  from m obtain i where i: "Index u ''-->'' = Some i" "g = trim_end (take i u)" "rest = drop (i + 3) u" and ne: "u \<noteq> drop 7 s"
    and p: "HasPrefix s ''<!--esi''"
    by (auto simp: esiCommentRe_def Let_def u_def split: if_splits option.splits)
  have "length u < length (drop 7 s)"
    using ne dropWhile_shorter [of re_space "drop 7 s"] by (metis append_self_conv2 length_append le_neq_implies_less takeWhile_dropWhile_id u_def add_cancel_left_left length_0_conv)
  moreover have "7 \<le> length s" using p by (auto simp: HasPrefix_def prefix_def)
  moreover have "i + 3 \<le> length u" using Index_SomeD [OF i(1)] by auto
  moreover have "length g \<le> i" using i(2) dropWhile_shorter [of re_space "rev (take i u)"] by (simp add: trim_end_def)
  ultimately show ?thesis using i(3) by simp
qed

lemma esiIncludeRe_shorter: "esiIncludeRe s = Some (g, rest) \<Longrightarrow> length g + length rest + 21 \<le> length s"
proof -
  assume m: "esiIncludeRe s = Some (g, rest)"
  define u where "u = dropWhile re_space (drop 12 s)"
  define v where "v = drop 5 u"
  define w where "w = drop (length g) v"
  from m have g: "g = takeWhile (\<lambda>c. c \<noteq> CHR 0x22) v" and p: "HasPrefix s ''<esi:include''" and ne: "u \<noteq> drop 12 s"
    and q: "HasPrefix u ''src=''" "drop 4 u \<noteq> []" and w: "w \<noteq> []"
    and x: "HasPrefix (dropWhile re_space (tl w)) ''/>''" "rest = drop 2 (dropWhile re_space (tl w))"
    by (auto simp: esiIncludeRe_def Let_def u_def v_def w_def split: if_splits)
  have "length u < length (drop 12 s)"
    using ne dropWhile_shorter [of re_space "drop 12 s"]
    by (metis append_self_conv2 length_append le_neq_implies_less takeWhile_dropWhile_id u_def add_cancel_left_left length_0_conv)
  moreover have "12 \<le> length s" using p by (auto simp: HasPrefix_def prefix_def)
  moreover have "5 \<le> length u" using q(2) by (simp add: Suc_le_eq)
  moreover have "length g \<le> length v" unfolding g by (rule length_takeWhile_le)
  moreover have "2 \<le> length (dropWhile re_space (tl w))" using x(1) by (auto simp: HasPrefix_def prefix_def)
  moreover have "length (dropWhile re_space (tl w)) \<le> length (tl w)" by (rule length_dropWhile_le)
  moreover have "length w = length v - length g" by (simp add: w_def)
  moreover have "length v = length u - 5" by (simp add: v_def)
  moreover have "length rest = length (dropWhile re_space (tl w)) - 2" by (simp add: x(2))
  moreover have "length (tl w) = length w - 1" by simp
  moreover have "0 < length w" using w by simp
  ultimately show ?thesis by (simp only: length_drop) linarith
qed

lemma esiRemoveRe_shorter: "esiRemoveRe s = Some (g, rest) \<Longrightarrow> length g + length rest < length s"
  using Index_SomeD [of "drop 12 s" "''</esi:remove>''"]
  by (auto simp: esiRemoveRe_def HasPrefix_def prefix_def split: if_splits option.splits)

function pieces :: "(string \<Rightarrow> (string \<times> string) option) \<Rightarrow> string \<Rightarrow> (char + string) list" where
  "pieces m s =
     (case s of
        [] \<Rightarrow> []
      | c # cs \<Rightarrow>
          (case m s of
             Some (g, rest) \<Rightarrow> if length rest < length s then Inr g # pieces m rest else Inl c # pieces m cs
           | None \<Rightarrow> Inl c # pieces m cs))"
  by pat_completeness auto
termination
  by (relation "measure (\<lambda>(m, s). length s)") auto

declare pieces.simps [simp del]

text \<open>\<open>ReplaceAllFunc\<close> with a function that also changes a state.\<close>

fun replace_pieces :: "(string \<Rightarrow> 's \<Rightarrow> string \<times> 's) \<Rightarrow> (char + string) list \<Rightarrow> 's \<Rightarrow> string \<times> 's" where
  "replace_pieces f [] st = ([], st)"
| "replace_pieces f (Inl c # ps) st = (case replace_pieces f ps st of (out, st') \<Rightarrow> (c # out, st'))"
| "replace_pieces f (Inr g # ps) st =
     (case f g st of (x, st1) \<Rightarrow> (case replace_pieces f ps st1 of (out, st') \<Rightarrow> (x @ out, st')))"

section \<open>Processing\<close>

record 'c esi_state =
  engine :: "'c Engine"
  incLeft :: int
  bytesLeft :: int
  fetches :: nat

text \<open>
  One call: host, headers of the parent request (if any), tags, the time, and the fetcher, which may answer
  every request differently and may be able to say whether a fragment is allowed.
\<close>

record esi_call =
  esiHost :: string
  parent :: "header option"
  esiTags :: "string list"
  now :: instant
  FetchFragment :: "nat \<Rightarrow> string \<Rightarrow> (string \<times> int \<times> header) option"
  FragmentAllowed :: "(string \<Rightarrow> bool) option"
  uniLower :: "string \<Rightarrow> string"
  uniFold :: "string \<Rightarrow> string \<Rightarrow> bool"

definition ContainsESI :: "string \<Rightarrow> bool" where
  "ContainsESI body = Contains body ''<!--esi''"

definition esiFragmentKey :: "string \<Rightarrow> string \<Rightarrow> string" where
  "esiFragmentKey host path = ''esi|'' @ host @ ''|'' @ path"

definition parseFragmentTTL :: "(string \<Rightarrow> string) \<Rightarrow> header \<Rightarrow> duration" where
  "parseFragmentTTL uni h =
     (case originMaxAge uni (Join (HeaderValues h ''Cache-Control'') '','') of
        Some origin \<Rightarrow> if origin > 0 then origin else 0
      | None \<Rightarrow> 0)"

definition fragmentAllowed :: "esi_call \<Rightarrow> string \<Rightarrow> bool" where
  "fragmentAllowed call path =
     (case (FragmentAllowed call, parent call) of (Some f, Some _) \<Rightarrow> f path | _ \<Rightarrow> True)"

definition shareable :: "esi_call \<Rightarrow> bool" where
  "shareable call = (case parent call of None \<Rightarrow> True | Some h \<Rightarrow> HeaderGet h ''Cookie'' = [])"

text \<open>Charging a fragment to the page and expanding it; \<open>None\<close> is the output limit.\<close>

definition expand ::
  "(string \<Rightarrow> 'c esi_state \<Rightarrow> string \<times> 'c esi_state) \<Rightarrow> string \<Rightarrow> 'c esi_state \<Rightarrow> string \<times> 'c esi_state" where
  "expand proc body st = (if ContainsESI body then proc body st else (body, st))"

definition fragment_response :: "esi_call \<Rightarrow> string \<Rightarrow> int \<Rightarrow> header \<Rightarrow> CachedResponse" where
  "fragment_response call body statusCode hdrs =
     (let ttl = parseFragmentTTL (uniLower call) hdrs in
      \<lparr>StatusCode = statusCode, Headers = hdrs, Body = bytes_of_string body, Created = now call,
       TTL = (if ttl \<le> 0 then 60 * 1000000000 else ttl), GraceTTL = 0, Tags = esiTags call, ESITemplate = False\<rparr>)"

definition sub_request ::
  "(string \<Rightarrow> 'c esi_state \<Rightarrow> string \<times> 'c esi_state) \<Rightarrow> esi_call \<Rightarrow> string \<Rightarrow> 'c esi_state \<Rightarrow> string option \<times> 'c esi_state" where
  "sub_request proc call path st0 =
     (let st = st0\<lparr>fetches := fetches st0 + 1\<rparr> in
      case FetchFragment call (fetches st0) path of
        None \<Rightarrow> (None, st)
      | Some (body, statusCode, hdrs) \<Rightarrow>
          if statusCode \<noteq> 200 then (None, st)
          else if int (length body) > bytesLeft st then (None, st)
          else
            let st = st\<lparr>bytesLeft := bytesLeft st - int (length body)\<rparr>;
                st = (if shareable call \<and> sharedCacheableHeaders (uniLower call) hdrs
                      then st\<lparr>engine := SetByKey (uniFold call) (esiFragmentKey (esiHost call) path)
                                 (fragment_response call body statusCode hdrs) (engine st)\<rparr>
                      else st)
            in (case expand proc body st of (out, st) \<Rightarrow> (Some out, st)))"

definition fetchFragmentWithin ::
  "'c cache_env \<Rightarrow> (string \<Rightarrow> 'c esi_state \<Rightarrow> string \<times> 'c esi_state) \<Rightarrow> esi_call \<Rightarrow> string \<Rightarrow> 'c esi_state
   \<Rightarrow> string option \<times> 'c esi_state" where
  "fetchFragmentWithin env proc call path st =
     (if shareable call \<and> fragmentAllowed call path then
        (case GetByKey env (now call) (esiFragmentKey (esiHost call) path) (engine st) of
           (e, Some r, status) \<Rightarrow>
             let st = st\<lparr>engine := e\<rparr>; body = string_of_bytes (Body r) in
             if int (length body) > bytesLeft st then (None, st)
             else (case expand proc body (st\<lparr>bytesLeft := bytesLeft st - int (length body)\<rparr>) of
                     (out, st) \<Rightarrow> (Some out, st))
         | (e, None, status) \<Rightarrow> sub_request proc call path (st\<lparr>engine := e\<rparr>))
      else sub_request proc call path st)"

definition max_includes_text :: string where
  "max_includes_text = ''<!-- ESI: max includes exceeded -->''"

definition esi_include ::
  "'c cache_env \<Rightarrow> (string \<Rightarrow> 'c esi_state \<Rightarrow> string \<times> 'c esi_state) \<Rightarrow> esi_call \<Rightarrow> string \<Rightarrow> 'c esi_state
   \<Rightarrow> string \<times> 'c esi_state" where
  "esi_include env proc call src st =
     (if incLeft st \<le> 0 then (max_includes_text, st)
      else
        (case fetchFragmentWithin env proc call src (st\<lparr>incLeft := incLeft st - 1\<rparr>) of
           (None, st) \<Rightarrow> (''<!-- ESI error: '' @ src @ '' -->'', st)
         | (Some body, st) \<Rightarrow> (body, st)))"

text \<open>\<open>process\<close>, by the number of levels that are left.\<close>

fun esi_process :: "'c cache_env \<Rightarrow> esi_call \<Rightarrow> nat \<Rightarrow> string \<Rightarrow> 'c esi_state \<Rightarrow> string \<times> 'c esi_state" where
  "esi_process env call 0 body st = (body, st)"
| "esi_process env call (Suc n) body st =
     (let body = fst (replace_pieces (\<lambda>g st. ([], st)) (pieces esiRemoveRe body) ()) in
      if \<not> ContainsESI body then (body, st)
      else replace_pieces
             (\<lambda>inner st. replace_pieces (esi_include env (esi_process env call n) call) (pieces esiIncludeRe inner) st)
             (pieces esiCommentRe body) st)"

definition NewESIProcessor :: "int \<Rightarrow> int" where
  "NewESIProcessor maxDepth = (if maxDepth \<le> 0 then ESIMaxDepthDefault else maxDepth)"

definition ESIProcess :: "'c cache_env \<Rightarrow> esi_call \<Rightarrow> int \<Rightarrow> string \<Rightarrow> int \<Rightarrow> 'c Engine \<Rightarrow> string \<times> 'c esi_state" where
  "ESIProcess env call maxDepth body depth e =
     esi_process env call (nat (maxDepth - depth)) body
       \<lparr>engine = e, incLeft = ESIMaxIncludes, bytesLeft = ESIMaxOutputBytes, fetches = 0\<rparr>"

section \<open>Bounds\<close>

definition piece_weight :: "nat \<Rightarrow> char + string \<Rightarrow> nat" where
  "piece_weight over p = (case p of Inl _ \<Rightarrow> 1 | Inr g \<Rightarrow> length g + over)"

lemma pieces_weight:
  assumes "\<And>s g rest. m s = Some (g, rest) \<Longrightarrow> length g + length rest + over \<le> length s"
  shows "sum_list (map (piece_weight over) (pieces m s)) \<le> length s"
proof (induction "length s" arbitrary: s rule: less_induct)
  case less
  show ?case
  proof (cases s)
    case Nil
    then show ?thesis by (simp add: pieces.simps)
  next
    case (Cons c cs)
    have tail: "sum_list (map (piece_weight over) (pieces m cs)) \<le> length cs" using less Cons by simp
    show ?thesis
    proof (cases "m s")
      case None
      with tail Cons show ?thesis by (subst pieces.simps) (simp add: piece_weight_def)
    next
      case (Some x)
      obtain g rest where x: "x = (g, rest)" by fastforce
      with assms [of s g rest] Some have l: "length g + length rest + over \<le> length s" by simp
      show ?thesis
      proof (cases "length rest < length s")
        case True
        with less have "sum_list (map (piece_weight over) (pieces m rest)) \<le> length rest" by simp
        with True l x Some Cons show ?thesis by (subst pieces.simps) (simp add: piece_weight_def)
      next
        case False
        with tail x Some Cons show ?thesis by (subst pieces.simps) (simp add: piece_weight_def)
      qed
    qed
  qed
qed

text \<open>What a replacement may use up: text from the page, bytes and fetches from the allowance.\<close>

definition within :: "int \<Rightarrow> 'c esi_state \<Rightarrow> string \<times> 'c esi_state \<Rightarrow> bool" where
  "within n st res \<longleftrightarrow>
     (case res of (out, st') \<Rightarrow>
        int (length out) \<le> 2 * n + 2 * (bytesLeft st - bytesLeft st')
        \<and> bytesLeft st' \<le> bytesLeft st \<and> (0 \<le> bytesLeft st \<longrightarrow> 0 \<le> bytesLeft st')
        \<and> (0 \<le> incLeft st \<longrightarrow> 0 \<le> incLeft st')
        \<and> int (fetches st') - int (fetches st) \<le> incLeft st - incLeft st')"

lemma replace_pieces_within:
  assumes "\<And>g st. within (int (length g + over)) st (f g st)"
  shows "within (int (sum_list (map (piece_weight over) ps))) st (replace_pieces f ps st)"
proof (induction ps arbitrary: st)
  case Nil
  then show ?case by (simp add: within_def)
next
  case (Cons p ps)
  show ?case
  proof (cases p)
    case (Inl c)
    with Cons.IH [of st] show ?thesis by (auto simp: within_def piece_weight_def split: prod.splits)
  next
    case (Inr g)
    obtain x st1 where f: "f g st = (x, st1)" by fastforce
    obtain out st' where r: "replace_pieces f ps st1 = (out, st')" by fastforce
    from assms [of g st] Cons.IH [of st1] f r Inr show ?thesis by (auto simp: within_def piece_weight_def)
  qed
qed

lemma within_pieces:
  assumes "\<And>s g rest. m s = Some (g, rest) \<Longrightarrow> length g + length rest + over \<le> length s"
    and "\<And>g st. within (int (length g + over)) st (f g st)"
  shows "within (int (length s)) st (replace_pieces f (pieces m s) st)"
  using pieces_weight [of m over s, OF assms(1)] replace_pieces_within [of over f, OF assms(2), of "pieces m s" st]
  by (auto simp: within_def split: prod.splits)

lemma removed_shorter: "length (fst (replace_pieces (\<lambda>g st. ([], st)) (pieces esiRemoveRe s) st)) \<le> length s"
proof -
  have "length (fst (replace_pieces (\<lambda>g st. ([], st)) ps st)) \<le> sum_list (map (piece_weight 0) ps)" for ps and st :: 'a
  proof (induction ps arbitrary: st)
    case (Cons p ps)
    obtain out st' where "replace_pieces (\<lambda>g st. ([], st)) ps st = (out, st')" by fastforce
    with Cons.IH [of st] show ?case by (cases p) (auto simp: piece_weight_def)
  qed simp
  moreover have "sum_list (map (piece_weight 0) (pieces esiRemoveRe s)) \<le> length s"
    by (rule pieces_weight) (use esiRemoveRe_shorter in fastforce)
  ultimately show ?thesis by (rule order_trans)
qed

lemma expand_within:
  assumes "\<And>body st. within (int (length body)) st (proc body st)"
  shows "within (int (length body)) st (expand proc body st)"
  using assms [of body st] by (simp add: expand_def within_def)

text \<open>One fragment: it is charged before it is expanded.\<close>

definition charged :: "'c esi_state \<Rightarrow> string option \<times> 'c esi_state \<Rightarrow> bool" where
  "charged st res \<longleftrightarrow>
     (case res of (out, st') \<Rightarrow>
        (\<forall>x. out = Some x \<longrightarrow> int (length x) \<le> 2 * (bytesLeft st - bytesLeft st'))
        \<and> bytesLeft st' \<le> bytesLeft st \<and> (0 \<le> bytesLeft st \<longrightarrow> 0 \<le> bytesLeft st')
        \<and> (0 \<le> incLeft st \<longrightarrow> 0 \<le> incLeft st')
        \<and> int (fetches st') - int (fetches st) \<le> 1 + incLeft st - incLeft st')"

lemma expand_charged:
  assumes "\<And>body st. within (int (length body)) st (proc body st)"
    and "bytesLeft st1 = bytesLeft st - int (length body)" and "int (length body) \<le> bytesLeft st"
    and "incLeft st1 = incLeft st" and "int (fetches st1) \<le> int (fetches st) + 1"
  shows "charged st (case expand proc body st1 of (out, st') \<Rightarrow> (Some out, st'))"
  using expand_within [of proc body st1, OF assms(1)] assms(2-5)
  by (cases "expand proc body st1") (auto simp: within_def charged_def)

lemma sub_request_charged:
  assumes "\<And>body st. within (int (length body)) st (proc body st)"
  shows "charged st (sub_request proc call path st)"
proof (cases "FetchFragment call (fetches st) path")
  case None
  then show ?thesis by (simp add: sub_request_def charged_def)
next
  case (Some x)
  obtain body code hdrs where x: "x = (body, code, hdrs)" by (cases x) auto
  show ?thesis
  proof (cases "code \<noteq> 200 \<or> int (length body) > bytesLeft st")
    case True
    then show ?thesis using Some x by (auto simp: sub_request_def charged_def Let_def)
  next
    case False
    define st1 where "st1 = (let s = st\<lparr>fetches := fetches st + 1, bytesLeft := bytesLeft st - int (length body)\<rparr> in
        if shareable call \<and> sharedCacheableHeaders (uniLower call) hdrs
        then s\<lparr>engine := SetByKey (uniFold call) (esiFragmentKey (esiHost call) path)
                 (fragment_response call body code hdrs) (engine s)\<rparr> else s)"
    have "sub_request proc call path st = (case expand proc body st1 of (out, st') \<Rightarrow> (Some out, st'))"
      using Some x False by (simp add: sub_request_def Let_def st1_def)
    moreover have "charged st (case expand proc body st1 of (out, st') \<Rightarrow> (Some out, st'))"
      by (rule expand_charged [OF assms]) (use False in \<open>auto simp: st1_def Let_def\<close>)
    ultimately show ?thesis by simp
  qed
qed

lemma charged_engine: "charged (st\<lparr>engine := e\<rparr>) res = charged st res"
  by (simp add: charged_def)

lemma fetchFragment_charged:
  assumes "\<And>body st. within (int (length body)) st (proc body st)"
  shows "charged st (fetchFragmentWithin env proc call path st)"
proof (cases "shareable call \<and> fragmentAllowed call path")
  case False
  then show ?thesis using sub_request_charged [OF assms] by (auto simp: fetchFragmentWithin_def)
next
  case True
  obtain e r status where g: "GetByKey env (now call) (esiFragmentKey (esiHost call) path) (engine st) = (e, r, status)"
    by (metis prod_cases3)
  show ?thesis
  proof (cases r)
    case None
    then show ?thesis using True g sub_request_charged [OF assms, of "st\<lparr>engine := e\<rparr>" call path]
      by (simp add: fetchFragmentWithin_def charged_engine)
  next
    case (Some v)
    let ?body = "string_of_bytes (Body v)"
    show ?thesis
    proof (cases "int (length ?body) > bytesLeft st")
      case over: True
      then show ?thesis using True g Some by (simp add: fetchFragmentWithin_def charged_def)
    next
      case False
      have "charged st (case expand proc ?body (st\<lparr>engine := e, bytesLeft := bytesLeft st - int (length ?body)\<rparr>) of
          (out, st') \<Rightarrow> (Some out, st'))"
        by (rule expand_charged [OF assms]) (use False in auto)
      then show ?thesis using True g Some False by (simp add: fetchFragmentWithin_def Let_def)
    qed
  qed
qed

lemma esi_include_within:
  assumes "\<And>body st. within (int (length body)) st (proc body st)"
  shows "within (int (length src + 21)) st (esi_include env proc call src st)"
proof (cases "incLeft st \<le> 0")
  case True
  then show ?thesis by (simp add: esi_include_def within_def max_includes_text_def)
next
  case False
  obtain out st' where f: "fetchFragmentWithin env proc call src (st\<lparr>incLeft := incLeft st - 1\<rparr>) = (out, st')" by fastforce
  from fetchFragment_charged [OF assms, of "st\<lparr>incLeft := incLeft st - 1\<rparr>" env call src] f False
  show ?thesis by (cases out) (auto simp: esi_include_def within_def charged_def)
qed

lemma esi_process_within: "within (int (length body)) st (esi_process env call n body st)"
proof (induction n arbitrary: body st)
  case 0
  then show ?case by (simp add: within_def)
next
  case (Suc n)
  define b where "b = fst (replace_pieces (\<lambda>g st. ([], st)) (pieces esiRemoveRe body) ())"
  have b: "length b \<le> length body" unfolding b_def by (rule removed_shorter)
  have "within (int (length g + 8)) st
      (replace_pieces (esi_include env (esi_process env call n) call) (pieces esiIncludeRe g) st)" for g st
  proof -
    have "within (int (length g)) st (replace_pieces (esi_include env (esi_process env call n) call) (pieces esiIncludeRe g) st)"
      by (rule within_pieces [of esiIncludeRe 21]) (use esiIncludeRe_shorter esi_include_within Suc.IH in blast)+
    then show ?thesis by (auto simp: within_def split: prod.splits)
  qed
  then have "within (int (length b)) st (replace_pieces
      (\<lambda>inner st. replace_pieces (esi_include env (esi_process env call n) call) (pieces esiIncludeRe inner) st)
      (pieces esiCommentRe b) st)"
    by (intro within_pieces [of esiCommentRe 8]) (use esiCommentRe_shorter in auto)
  with b show ?case by (auto simp: within_def Let_def b_def [symmetric] split: prod.splits)
qed

section \<open>Properties\<close>

text \<open>
  C29. One page cannot exhaust the server. Whatever the fetcher and the cache return, however deep fragments
  include each other, and even if a fragment includes itself, assembling one page ends with at most fifty
  sub-requests, draws at most 8 MiB of fragments, and produces at most twice the size of the page plus
  twice the fragments drawn.
\<close>

theorem esi_bounded:
  "case ESIProcess env call maxDepth body depth e of (out, st) \<Rightarrow>
     int (fetches st) \<le> ESIMaxIncludes \<and> 0 \<le> bytesLeft st \<and> bytesLeft st \<le> ESIMaxOutputBytes
     \<and> int (length out) \<le> 2 * int (length body) + 2 * (ESIMaxOutputBytes - bytesLeft st)"
proof -
  define st where "st = \<lparr>engine = e, incLeft = ESIMaxIncludes, bytesLeft = ESIMaxOutputBytes, fetches = 0\<rparr>"
  obtain out st' where r: "esi_process env call (nat (maxDepth - depth)) body st = (out, st')" by fastforce
  with esi_process_within [of body st env call "nat (maxDepth - depth)"]
  have w: "within (int (length body)) st (out, st')" by simp
  have "ESIProcess env call maxDepth body depth e = (out, st')" using r by (simp add: ESIProcess_def st_def)
  moreover have "bytesLeft st = ESIMaxOutputBytes" "incLeft st = ESIMaxIncludes" "fetches st = 0" by (simp_all add: st_def)
  ultimately show ?thesis using w by (auto simp: within_def ESIMaxIncludes_def ESIMaxOutputBytes_def)
qed

section \<open>Pages with a cookie\<close>

text \<open>A step that neither reads nor writes the cache.\<close>

definition blind :: "(string \<Rightarrow> 'c esi_state \<Rightarrow> 'a \<times> 'c esi_state) \<Rightarrow> bool" where
  "blind f \<longleftrightarrow> (\<forall>g st e. f g (st\<lparr>engine := e\<rparr>) = (fst (f g st), (snd (f g st))\<lparr>engine := e\<rparr>))"

lemma blindD: "blind f \<Longrightarrow> f g st = (x, st') \<Longrightarrow> f g (st\<lparr>engine := e\<rparr>) = (x, st'\<lparr>engine := e\<rparr>)"
  by (simp add: blind_def)

lemma blind_replace:
  assumes "blind f"
  shows "blind (\<lambda>s. replace_pieces f (pieces m s))"
proof -
  have "replace_pieces f ps (st\<lparr>engine := e\<rparr>) = (fst (replace_pieces f ps st), (snd (replace_pieces f ps st))\<lparr>engine := e\<rparr>)" for ps st e
  proof (induction ps arbitrary: st)
    case (Cons p ps)
    show ?case
    proof (cases p)
      case (Inl c)
      with Cons.IH [of st] show ?thesis by (simp add: case_prod_beta)
    next
      case (Inr g)
      obtain x st1 where f: "f g st = (x, st1)" by fastforce
      from Cons.IH [of st1] Inr blindD [OF assms f] f show ?thesis by (simp add: case_prod_beta)
    qed
  qed simp
  then show ?thesis by (simp add: blind_def)
qed

lemma blind_include:
  assumes "\<not> shareable call" and "blind proc"
  shows "blind (esi_include env proc call)"
proof -
  have x: "blind (expand proc)" using assms(2) by (simp add: blind_def expand_def)
  have "sub_request proc call path (st\<lparr>engine := e\<rparr>) = (fst (sub_request proc call path st), (snd (sub_request proc call path st))\<lparr>engine := e\<rparr>)"
    for path st e
  proof (cases "FetchFragment call (fetches st) path")
    case (Some y)
    obtain body code hdrs where y: "y = (body, code, hdrs)" by (cases y) auto
    define st1 where "st1 = st\<lparr>fetches := fetches st + 1, bytesLeft := bytesLeft st - int (length body)\<rparr>"
    obtain out st2 where p: "expand proc body st1 = (out, st2)" by fastforce
    have eq: "st\<lparr>fetches := Suc (fetches st), engine := e, bytesLeft := bytesLeft st - int (length body)\<rparr> = st1\<lparr>engine := e\<rparr>"
      "st\<lparr>fetches := Suc (fetches st), bytesLeft := bytesLeft st - int (length body)\<rparr> = st1"
      "st\<lparr>engine := e, fetches := Suc (fetches st)\<rparr> = st\<lparr>fetches := Suc (fetches st), engine := e\<rparr>"
      by (simp_all add: st1_def)
    from blindD [OF x p, of e] p Some y assms(1) show ?thesis
      by (simp add: sub_request_def Let_def eq)
  qed (simp add: sub_request_def Let_def)
  then have "blind (sub_request proc call)" by (simp add: blind_def)
  moreover have "fetchFragmentWithin env proc call = sub_request proc call"
    using assms(1) by (simp add: fetchFragmentWithin_def fun_eq_iff)
  ultimately have b: "blind (fetchFragmentWithin env proc call)" by simp
  show ?thesis unfolding blind_def
  proof (intro allI)
    fix g st e
    obtain o' st' where f: "fetchFragmentWithin env proc call g (st\<lparr>incLeft := incLeft st - 1\<rparr>) = (o', st')" by fastforce
    have eq: "st\<lparr>engine := e, incLeft := incLeft st - 1\<rparr> = st\<lparr>incLeft := incLeft st - 1, engine := e\<rparr>" by simp
    from blindD [OF b f, of e] f
    show "esi_include env proc call g (st\<lparr>engine := e\<rparr>) =
        (fst (esi_include env proc call g st), (snd (esi_include env proc call g st))\<lparr>engine := e\<rparr>)"
      by (cases o') (simp_all add: esi_include_def eq)
  qed
qed

lemma blind_process: "\<not> shareable call \<Longrightarrow> blind (esi_process env call n)"
proof (induction n)
  case 0
  then show ?case by (simp add: blind_def)
next
  case (Suc n)
  let ?f = "\<lambda>inner. replace_pieces (esi_include env (esi_process env call n) call) (pieces esiIncludeRe inner)"
  have "blind (\<lambda>s. replace_pieces ?f (pieces esiCommentRe s))"
    by (intro blind_replace blind_include Suc)
  then show ?case by (simp add: blind_def Let_def)
qed

text \<open>
  C30. Personal pages stay out of the shared cache. When the request behind a page carries a cookie, assembling
  the page reads nothing from the cache and writes nothing to it, at any depth of includes: the page is the
  same whatever the cache holds, and the cache is left as it was.
\<close>

theorem esi_cookie_isolated:
  assumes "parent call = Some h" and "HeaderGet h ''Cookie'' \<noteq> []"
  shows "engine (snd (ESIProcess env call maxDepth body depth e)) = e
    \<and> fst (ESIProcess env call maxDepth body depth e) = fst (ESIProcess env call maxDepth body depth e')"
proof -
  have "\<not> shareable call" using assms by (simp add: shareable_def)
  from blind_process [OF this, of env "nat (maxDepth - depth)"]
  have b: "esi_process env call (nat (maxDepth - depth)) body (st\<lparr>engine := x\<rparr>) =
      (fst (esi_process env call (nat (maxDepth - depth)) body st), (snd (esi_process env call (nat (maxDepth - depth)) body st))\<lparr>engine := x\<rparr>)"
    for st x by (simp add: blind_def)
  define st where "st = \<lparr>engine = e', incLeft = ESIMaxIncludes, bytesLeft = ESIMaxOutputBytes, fetches = 0\<rparr>"
  have "ESIProcess env call maxDepth body depth e = esi_process env call (nat (maxDepth - depth)) body (st\<lparr>engine := e\<rparr>)"
    by (simp add: ESIProcess_def st_def)
  moreover have "ESIProcess env call maxDepth body depth e' = esi_process env call (nat (maxDepth - depth)) body st"
    by (simp add: ESIProcess_def st_def)
  ultimately show ?thesis using b [where st = st and x = e] by simp
qed

definition demo_esi :: esi_call where
  "demo_esi = \<lparr>esiHost = ''h'', parent = Some [(''Cookie'', [''sid=1''])], esiTags = [], now = 5,
     FetchFragment = (\<lambda>_ p. Some (''hello '' @ p, 200, [])), FragmentAllowed = None, uniLower = (\<lambda>s. s), uniFold = (\<lambda>_ _. False)\<rparr>"

definition demo_page :: string where
  "demo_page = ''<p><!--esi <esi:include src='' @ [CHR 0x22] @ ''/a'' @ [CHR 0x22] @ ''/> --></p>''"

theorem esi_cookie_isolated_witness:
  "engine (snd (ESIProcess no_redis demo_esi 3 demo_page 0 (NewEngine 100000 None))) = NewEngine 100000 None
   \<and> fst (ESIProcess no_redis demo_esi 3 demo_page 0 (NewEngine 100000 None)) = ''<p>hello /a</p>''"
proof -
  have "fst (ESIProcess no_redis demo_esi 3 demo_page 0 (NewEngine 100000 None)) = ''<p>hello /a</p>''" by code_simp
  then show ?thesis
    using esi_cookie_isolated [of demo_esi "[(''Cookie'', [''sid=1''])]" no_redis 3 demo_page 0 "NewEngine 100000 None"]
    by (simp add: demo_esi_def HeaderGet_def HeaderValues_def CanonicalMIMEHeaderKey_def validHeaderFieldByte_def
        is_upper_def is_lower_def is_digit_def to_upper_def to_lower_def)
qed

end
