(* ===== verification/Go_Netip.thy ===== *)
theory Go_Netip
  imports Go_Net
begin

text \<open>
  What the source uses of \<open>net/netip\<close> beyond parsing one address: printing, unmapping, zones,
  prefixes and \<open>ParseAddrPort\<close>. The main result is that an address that carries no mapped IPv4 address
  is read back from the text it prints, with its zone.
\<close>

section \<open>Addresses\<close>

fun Is4In6 :: "netip_addr \<Rightarrow> bool" where
  "Is4In6 (Addr4 b) = False"
| "Is4In6 (Addr6 b z) = (take 12 b = v4InV6Prefix)"

fun Unmap :: "netip_addr \<Rightarrow> netip_addr" where
  "Unmap (Addr4 b) = Addr4 b"
| "Unmap (Addr6 b z) = (if take 12 b = v4InV6Prefix then Addr4 (drop 12 b) else Addr6 b z)"

fun WithoutZone :: "netip_addr \<Rightarrow> netip_addr" where
  "WithoutZone (Addr4 b) = Addr4 b"
| "WithoutZone (Addr6 b z) = Addr6 b []"

fun AddrBytes :: "netip_addr \<Rightarrow> bytes" where
  "AddrBytes (Addr4 b) = b"
| "AddrBytes (Addr6 b z) = b"

fun addr_wf :: "netip_addr \<Rightarrow> bool" where
  "addr_wf (Addr4 b) = (length b = 4)"
| "addr_wf (Addr6 b z) = (length b = 16)"

definition zone_text :: "string \<Rightarrow> string" where
  "zone_text z = (if z = [] then [] else ''%'' @ z)"

fun AddrString :: "netip_addr \<Rightarrow> string" where
  "AddrString (Addr4 b) = dotted b"
| "AddrString (Addr6 b z) =
     (if take 12 b = v4InV6Prefix then ''::ffff:'' @ dotted (drop 12 b) @ zone_text z
      else string6 b @ zone_text z)"

lemma Unmap_not_4in6 [simp]: "\<not> Is4In6 (Unmap a)"
  by (cases a) auto

lemma Unmap_idem [simp]: "\<not> Is4In6 a \<Longrightarrow> Unmap a = a"
  by (cases a) auto

lemma addr_wf_Unmap [simp]: "addr_wf a \<Longrightarrow> addr_wf (Unmap a)"
  by (cases a) auto

lemma ParseAddr_wf: "ParseAddr s = Some a \<Longrightarrow> addr_wf a"
  by (auto simp: ParseAddr_def split: option.splits if_splits dest: parseIPv4Fields_length parseIPv6_length)

section \<open>Prefixes\<close>

record Prefix =
  prefixAddr :: netip_addr
  prefixBits :: nat

definition PrefixFrom :: "netip_addr \<Rightarrow> nat \<Rightarrow> Prefix" where
  "PrefixFrom a n = \<lparr>prefixAddr = WithoutZone a, prefixBits = n\<rparr>"

definition ParsePrefix :: "string \<Rightarrow> Prefix option" where
  "ParsePrefix s =
     (case LastIndexByte s CHR ''/'' of
        None \<Rightarrow> None
      | Some i \<Rightarrow>
          (case ParseAddr (take i s) of
             None \<Rightarrow> None
           | Some a \<Rightarrow>
               (let bits = drop (i + 1) s in
                if AddrZone a \<noteq> [] \<or> bits = [] \<or> \<not> list_all is_digit bits
                   \<or> (length bits > 1 \<and> hd bits = CHR ''0'') \<or> digits_value bits > BitLen a then None
                else Some \<lparr>prefixAddr = a, prefixBits = digits_value bits\<rparr>)))"

fun mask_addr :: "nat \<Rightarrow> netip_addr \<Rightarrow> netip_addr" where
  "mask_addr n (Addr4 b) = Addr4 (and_bytes b (CIDRMask n 32))"
| "mask_addr n (Addr6 b z) = Addr6 (and_bytes b (CIDRMask n 128)) []"

definition Masked :: "Prefix \<Rightarrow> Prefix" where
  "Masked p = p\<lparr>prefixAddr := mask_addr (prefixBits p) (prefixAddr p)\<rparr>"

definition PrefixContains :: "Prefix \<Rightarrow> netip_addr \<Rightarrow> bool" where
  "PrefixContains p a \<longleftrightarrow>
     AddrZone a = [] \<and> BitLen (prefixAddr p) = BitLen a
     \<and> and_bytes (AddrBytes a) (CIDRMask (prefixBits p) (BitLen a))
       = and_bytes (AddrBytes (prefixAddr p)) (CIDRMask (prefixBits p) (BitLen a))"

section \<open>Address and port\<close>

definition ParsePort :: "string \<Rightarrow> nat option" where
  "ParsePort s =
     (if s = [] \<or> \<not> list_all is_digit s then None
      else let n = digits_value s in if n < 65536 then Some n else None)"

definition ParseAddrPort :: "string \<Rightarrow> (netip_addr \<times> nat) option" where
  "ParseAddrPort s =
     (case LastIndexByte s CHR '':'' of
        None \<Rightarrow> None
      | Some i \<Rightarrow>
          (let ip = take i s; port = drop (i + 1) s in
           if ip = [] \<or> port = [] then None
           else
             (let v6 = (hd ip = CHR ''['') in
              if v6 \<and> (length ip < 2 \<or> last ip \<noteq> CHR '']'') then None
              else
                (case (ParsePort port, ParseAddr (if v6 then butlast (tl ip) else ip)) of
                   (Some n, Some a) \<Rightarrow> if v6 = (BitLen a = 128) then Some (a, n) else None
                 | _ \<Rightarrow> None))))"

section \<open>Reading back a printed address\<close>

lemma unat_byte_less [simp]: "unat (b :: byte) < 256"
  using unsigned_less [of b, where 'a = nat] by simp

text \<open>Hexadecimal groups.\<close>

lemma hexDigits_nth: "n < 16 \<Longrightarrow> hex_value (hexDigits ! n) = Some n"
proof -
  assume "n < 16"
  moreover have "\<forall>n \<in> set [0..<16]. hex_value (hexDigits ! n) = Some n" by code_simp
  ultimately show ?thesis by simp
qed

lemma hex_number_snoc: "hex_number (s @ [c]) = hex_number s * 16 + (case hex_value c of Some d \<Rightarrow> d | None \<Rightarrow> 0)"
  by (simp add: hex_number_def)

lemma appendHex_number [simp]: "hex_number (appendHex n) = n"
proof (induction n rule: appendHex.induct)
  case (1 n)
  show ?case
  proof (cases "n < 16")
    case True
    then have "appendHex n = [] @ [hexDigits ! n]" by (subst appendHex.simps) simp
    with True show ?thesis by (simp only: hex_number_snoc) (simp add: hexDigits_nth hex_number_def)
  next
    case False
    with 1 show ?thesis by (subst appendHex.simps) (simp add: hex_number_snoc hexDigits_nth)
  qed
qed

lemma appendHex_hex: "list_all is_hex (appendHex n)"
proof (induction n rule: appendHex.induct)
  case (1 n)
  moreover have "is_hex (hexDigits ! m)" if "m < 16" for m using that by (simp add: is_hex_def hexDigits_nth)
  ultimately show ?case by (subst appendHex.simps) simp
qed

lemma appendHex_nonempty [simp]: "appendHex n \<noteq> []"
  by (subst appendHex.simps) simp

lemma length_appendHex: "n < 16 ^ k \<Longrightarrow> 0 < k \<Longrightarrow> length (appendHex n) \<le> k"
proof (induction k arbitrary: n)
  case 0
  then show ?case by simp
next
  case (Suc k)
  show ?case
  proof (cases "n < 16")
    case True
    then show ?thesis by (subst appendHex.simps) simp
  next
    case False
    with Suc.prems have "n div 16 < 16 ^ k" "0 < k" by (auto simp: less_mult_imp_div_less mult.commute intro: Nat.gr0I)
    with Suc.IH False show ?thesis by (subst appendHex.simps) simp
  qed
qed

lemma is_hex_punct [simp]: "\<not> is_hex CHR '':''" "\<not> is_hex CHR ''.''" "\<not> is_hex CHR ''%''" "\<not> is_hex CHR ''[''"
  by (simp_all add: is_hex_def hex_value_def)

lemma hex_span:
  assumes "rest = [] \<or> \<not> is_hex (hd rest)"
  shows "takeWhile is_hex (appendHex n @ rest) = appendHex n" and "dropWhile is_hex (appendHex n @ rest) = rest"
proof -
  have h: "\<forall>c \<in> set (appendHex n). is_hex c" using appendHex_hex by (simp add: list_all_iff)
  have "takeWhile is_hex rest = []" "dropWhile is_hex rest = rest" using assms by (cases rest; simp)+
  with h show "takeWhile is_hex (appendHex n @ rest) = appendHex n" "dropWhile is_hex (appendHex n @ rest) = rest"
    by (simp_all add: takeWhile_append dropWhile_append)
qed

lemma ipv6_group:
  assumes "n < 65536" and "length ip < 16"
  shows "ipv6_groups ip ell (appendHex n) = Some (ip @ put_be 2 n, ell, [])"
    and "c \<noteq> CHR '':'' \<Longrightarrow> ipv6_groups ip ell (appendHex n @ CHR '':'' # c # r) = ipv6_groups (ip @ put_be 2 n) ell (c # r)"
    and "ipv6_groups ip None (appendHex n @ ''::'') = Some (ip @ put_be 2 n, Some (length ip + 2), [])"
    and "ipv6_groups ip None (appendHex n @ ''::'' @ c # r) = ipv6_groups (ip @ put_be 2 n) (Some (length ip + 2)) (c # r)"
proof -
  have len: "\<not> 4 < length (appendHex n)" using length_appendHex [of n 4] assms(1) by simp
  note step = ipv6_groups.simps [of ip]
  have span: "takeWhile is_hex (appendHex n) = appendHex n" "dropWhile is_hex (appendHex n) = []"
    "takeWhile is_hex (appendHex n @ CHR '':'' # t) = appendHex n"
    "dropWhile is_hex (appendHex n @ CHR '':'' # t) = CHR '':'' # t" for t
    using hex_span [of "[]" n] hex_span [of "CHR '':'' # t" n] by simp_all
  show "ipv6_groups ip ell (appendHex n) = Some (ip @ put_be 2 n, ell, [])"
    using assms(2) len by (subst step) (simp add: Let_def span)
  show "c \<noteq> CHR '':'' \<Longrightarrow> ipv6_groups ip ell (appendHex n @ CHR '':'' # c # r) = ipv6_groups (ip @ put_be 2 n) ell (c # r)"
    using assms(2) len by (subst step) (simp add: Let_def span)
  show "ipv6_groups ip None (appendHex n @ ''::'') = Some (ip @ put_be 2 n, Some (length ip + 2), [])"
    using assms(2) len by (subst step) (simp add: Let_def span)
  show "ipv6_groups ip None (appendHex n @ ''::'' @ c # r) = ipv6_groups (ip @ put_be 2 n) (Some (length ip + 2)) (c # r)"
    using assms(2) len by (subst step) (simp add: Let_def span)
qed

text \<open>Groups joined by colons, as \<open>string6\<close> prints them.\<close>

definition gtext :: "nat list \<Rightarrow> string" where
  "gtext vs = Join (map appendHex vs) '':''"

definition gbytes :: "nat list \<Rightarrow> bytes" where
  "gbytes vs = concat (map (put_be 2) vs)"

lemma gtext_Cons: "vs \<noteq> [] \<Longrightarrow> gtext (v # vs) = appendHex v @ CHR '':'' # gtext vs"
  by (cases vs) (simp_all add: gtext_def)

lemma gtext_single [simp]: "gtext [v] = appendHex v"
  by (simp add: gtext_def)

lemma gtext_Nil [simp]: "gtext [] = []"
  by (simp add: gtext_def)

lemma length_gbytes [simp]: "length (gbytes vs) = 2 * length vs"
  by (induction vs) (simp_all add: gbytes_def)

lemma gbytes_Cons [simp]: "gbytes (v # vs) = put_be 2 v @ gbytes vs"
  by (simp add: gbytes_def)

lemma gbytes_Nil [simp]: "gbytes [] = []"
  by (simp add: gbytes_def)

lemma gtext_hd: "vs \<noteq> [] \<Longrightarrow> \<exists>c r. gtext vs = c # r \<and> is_hex c"
proof (cases vs)
  case (Cons v vs')
  obtain c r where "appendHex v = c # r" using appendHex_nonempty [of v] by (cases "appendHex v") auto
  moreover from this have "is_hex c" using appendHex_hex [of v] by simp
  ultimately show ?thesis using Cons gtext_Cons [of vs' v] by (cases "vs' = []") auto
qed simp

lemma not_colon: "is_hex c \<Longrightarrow> c \<noteq> CHR '':''"
  by (metis is_hex_punct(1))

lemma ipv6_gtext:
  assumes "\<forall>v \<in> set vs. v < 65536" and "length ip + 2 * length vs \<le> 16" and "vs \<noteq> []"
  shows "ipv6_groups ip ell (gtext vs) = Some (ip @ gbytes vs, ell, [])"
    and "ipv6_groups ip None (gtext vs @ ''::'') = Some (ip @ gbytes vs, Some (length ip + 2 * length vs), [])"
    and "ipv6_groups ip None (gtext vs @ ''::'' @ c # r)
       = ipv6_groups (ip @ gbytes vs) (Some (length ip + 2 * length vs)) (c # r)"
  using assms
proof (induction vs arbitrary: ip)
  case Nil
  case 1 then show ?case by simp
  case 2 then show ?case by simp
  case 3 then show ?case by simp
next
  case (Cons v vs)
  have step: "ipv6_groups ip ell (gtext (v # vs) @ t) = ipv6_groups (ip @ put_be 2 v) ell (gtext vs @ t)"
    if g: "vs \<noteq> []" "v < 65536" "length ip < 16" for ip ell t
  proof -
    from gtext_hd [OF g(1)] obtain c r where "gtext vs = c # r" "is_hex c" by blast
    with not_colon have "gtext vs = c # r" "c \<noteq> CHR '':''" by blast+
    with g show ?thesis by (simp add: gtext_Cons ipv6_group(2))
  qed
  case 1
  then show ?case
    by (cases "vs = []") (use Cons.IH(1) [of "ip @ put_be 2 v"] step [where t = "[]"] in \<open>simp_all add: ipv6_group(1)\<close>)
  case 2
  then show ?case
    by (cases "vs = []") (use Cons.IH(2) [of "ip @ put_be 2 v"] step in \<open>simp_all add: ipv6_group(3)\<close>)
  case 3
  then show ?case
    by (cases "vs = []")
      (use Cons.IH(3) [of "ip @ put_be 2 v"] step ipv6_group(4) [of v ip c r] in \<open>simp_all\<close>)
qed

text \<open>The groups of sixteen bytes, and the run of zero groups that is printed as \<open>::\<close>.\<close>

lemma gbytes_append: "gbytes (vs @ ws) = gbytes vs @ gbytes ws"
  by (simp add: gbytes_def)

lemma gbytes_groups:
  assumes "length b = 16" and "i \<le> j" and "j \<le> 8"
  shows "gbytes (map (v6u16 b) [i..<j]) = drop (2 * i) (take (2 * j) b)"
  using assms(2,3)
proof (induction j rule: dec_induct)
  case base
  then show ?case by simp
next
  case (step j)
  then have room: "2 * j + 2 \<le> length b" using assms(1) by simp
  then have len: "length (take 2 (drop (2 * j) b)) = 2" by simp
  have "put_be 2 (v6u16 b j) = take 2 (drop (2 * j) b)"
    unfolding v6u16_def by (rule put_get_be [OF len])
  moreover have "take (2 * Suc j) b = take (2 * j) b @ take 2 (drop (2 * j) b)"
    using take_add [of "2 * j" 2 b] by (simp add: add.commute)
  ultimately show ?case using step room by (simp add: gbytes_append)
qed

lemma v6u16_less: "v6u16 b i < 65536"
proof -
  have "get_be (take 2 (drop (2 * i) b)) < 256 ^ length (take 2 (drop (2 * i) b))" by (rule get_be_bound)
  also have "\<dots> \<le> 256 ^ 2" by (rule power_increasing) simp_all
  finally show ?thesis by (simp add: v6u16_def)
qed

definition run_ok :: "bytes \<Rightarrow> (nat \<times> nat) option \<Rightarrow> bool" where
  "run_ok b r \<longleftrightarrow> (case r of None \<Rightarrow> True
     | Some (i, j) \<Rightarrow> i + 2 \<le> j \<and> j \<le> 8 \<and> (\<forall>k. i \<le> k \<and> k < j \<longrightarrow> v6u16 b k = 0))"

lemma zero_run_zero: "i \<le> k \<Longrightarrow> k < zero_run b i \<Longrightarrow> v6u16 b k = 0"
proof -
  assume k: "i \<le> k" "k < zero_run b i"
  let ?t = "takeWhile (\<lambda>j. v6u16 b j = 0) [i..<8]"
  have l: "k - i < length ?t" using k by (simp add: zero_run_def)
  then have "?t ! (k - i) \<in> set ?t" by (rule nth_mem)
  then have "v6u16 b (?t ! (k - i)) = 0" by (rule set_takeWhileD [THEN conjunct2])
  moreover have "k - i < length [i..<8]" using l length_takeWhile_le [of _ "[i..<8]"] by (metis less_le_trans)
  then have "?t ! (k - i) = k" using takeWhile_nth [OF l] k by simp
  ultimately show ?thesis by simp
qed

lemma zero_run_le: "i \<le> 8 \<Longrightarrow> zero_run b i \<le> 8"
  using length_takeWhile_le [of "\<lambda>j. v6u16 b j = 0" "[i..<8]"] by (simp add: zero_run_def)

lemma run_ok_longest: "run_ok b (longest_zero_run b)"
proof -
  let ?f = "\<lambda>best i. let j = zero_run b i; l = j - i;
      cur = (case best of None \<Rightarrow> 0 | Some (a, c) \<Rightarrow> c - a)
    in if l \<ge> 2 \<and> l > cur then Some (i, j) else best"
  have "run_ok b r \<Longrightarrow> \<forall>i \<in> set is. i \<le> 8 \<Longrightarrow> run_ok b (foldl ?f r is)" for r "is"
  proof (induction "is" arbitrary: r)
    case Nil
    then show ?case by simp
  next
    case (Cons i "is")
    have "run_ok b (?f r i)"
      using Cons.prems zero_run_zero [of i _ b] zero_run_le [of i b] by (auto simp: run_ok_def Let_def)
    with Cons show ?case by simp
  qed
  from this [of None "[0..<8]"] show ?thesis by (simp add: longest_zero_run_def run_ok_def)
qed

lemma gbytes_zeros: "gbytes (replicate n 0) = replicate (2 * n) 0"
proof (induction n)
  case (Suc n)
  then show ?case by (simp add: numeral_2_eq_2)
qed simp

lemma zero_gap:
  assumes "length b = 16" and "run_ok b (Some (i, j))"
  shows "take (2 * i) b @ replicate (2 * j - 2 * i) 0 @ drop (2 * j) b = b"
proof -
  have ij: "i \<le> j" "j \<le> 8" using assms(2) by (simp_all add: run_ok_def)
  have "map (v6u16 b) [i..<j] = replicate (j - i) 0"
    using assms(2) by (auto simp: run_ok_def intro!: nth_equalityI)
  then have "drop (2 * i) (take (2 * j) b) = gbytes (replicate (j - i) 0)"
    using gbytes_groups [OF assms(1) ij] by simp
  also have "\<dots> = replicate (2 * (j - i)) 0"
    by (rule gbytes_zeros)
  finally have "replicate (2 * j - 2 * i) 0 = drop (2 * i) (take (2 * j) b)" by (simp add: diff_mult_distrib2)
  moreover have "take (2 * i) b = take (2 * i) (take (2 * j) b)" using ij by simp
  ultimately show ?thesis by (metis append_assoc append_take_drop_id)
qed

lemma groups_text_gtext: "groups_text b is = gtext (map (v6u16 b) is)"
  by (simp add: groups_text_def gtext_def comp_def)

text \<open>The text of an IPv6 address, read by \<open>parseIPv6\<close>.\<close>

definition v6_text :: "string \<Rightarrow> bool" where
  "v6_text s \<longleftrightarrow> list_all (\<lambda>c. is_hex c \<or> c = CHR '':'') s"

lemma v6_text_append [simp]: "v6_text (s @ t) \<longleftrightarrow> v6_text s \<and> v6_text t"
  by (simp add: v6_text_def)

lemma v6_text_Cons [simp]: "v6_text (c # t) \<longleftrightarrow> (is_hex c \<or> c = CHR '':'') \<and> v6_text t"
  by (simp add: v6_text_def)

lemma v6_text_gtext [simp]: "v6_text (gtext vs)"
proof (induction vs)
  case (Cons v vs)
  moreover have "v6_text (appendHex v)" using appendHex_hex by (auto simp: v6_text_def list_all_iff)
  ultimately show ?case by (cases "vs = []") (simp_all add: gtext_Cons)
qed (simp add: v6_text_def)

lemma gtext_not_lead: "vs \<noteq> [] \<Longrightarrow> \<not> HasPrefix (gtext vs @ t) ''::''"
  using gtext_hd [of vs] not_colon by (fastforce simp: HasPrefix_def)

lemma IndexByte_absent: "c \<notin> set s \<Longrightarrow> IndexByte s c = None"
  by (induction s) auto

lemma IndexByte_prefix: "c \<notin> set s \<Longrightarrow> IndexByte (s @ c # t) c = Some (length s)"
  by (induction s) auto

lemma parseIPv6_zone:
  assumes "v6_text s"
  shows "parseIPv6 (s @ zone_text z)
    = (let lead = HasPrefix s ''::''; s' = (if lead then drop 2 s else s) in
            if lead \<and> s' = [] then Some (Addr6 (replicate 16 0) z)
            else
              (case ipv6_groups [] (if lead then Some 0 else None) s' of
                 Some (ip, ell, []) \<Rightarrow> map_option (\<lambda>b. Addr6 b z) (ipv6_expand ip ell)
               | _ \<Rightarrow> None))"
proof -
  have "CHR ''%'' \<notin> set s" using assms by (auto simp: v6_text_def list_all_iff)
  then have "(case IndexByte (s @ zone_text z) CHR ''%'' of
                Some i \<Rightarrow> (take i (s @ zone_text z), drop (i + 1) (s @ zone_text z), True)
              | None \<Rightarrow> (s @ zone_text z, [], False)) = (s, z, z \<noteq> [])"
    by (simp add: zone_text_def IndexByte_absent IndexByte_prefix)
  then show ?thesis unfolding parseIPv6_def by (simp add: Let_def)
qed

lemma parseIPv6_string6:
  assumes "length b = 16"
  shows "parseIPv6 (string6 b @ zone_text z) = Some (Addr6 b z)"
proof (cases "longest_zero_run b")
  case None
  let ?vs = "map (v6u16 b) [0..<8]"
  have g: "ipv6_groups [] None (gtext ?vs) = Some (gbytes ?vs, None, [])"
    using ipv6_gtext(1) [of ?vs "[]" None] v6u16_less by simp
  have "\<not> HasPrefix (gtext ?vs) ''::''" using gtext_not_lead [of ?vs "[]"] by simp
  moreover have "gbytes ?vs = b" using gbytes_groups [OF assms, of 0 8] assms by simp
  moreover have "string6 b = gtext ?vs" using None by (simp only: string6_def groups_text_gtext option.case)
  ultimately show ?thesis using g assms by (simp add: parseIPv6_zone ipv6_expand_def del: upt.simps)
next
  case (Some r)
  then obtain i j where r: "longest_zero_run b = Some (i, j)" by (cases r) auto
  have ok: "run_ok b (Some (i, j))" using run_ok_longest [of b] r by simp
  then have ij: "i + 2 \<le> j" "j \<le> 8" by (simp_all add: run_ok_def)
  let ?vs = "map (v6u16 b) [0..<i]" and ?ws = "map (v6u16 b) [j..<8]"
  have s: "string6 b = gtext ?vs @ ''::'' @ gtext ?ws"
    by (simp only: string6_def groups_text_gtext r option.case prod.case)
  have vs: "gbytes ?vs = take (2 * i) b" and ws: "gbytes ?ws = drop (2 * j) b"
    using gbytes_groups [OF assms, of 0 i] gbytes_groups [OF assms, of j 8] ij assms by simp_all
  have fits: "2 * i + 2 * (8 - j) < 16" using ij by simp
  have expand: "ipv6_expand (take (2 * i) b @ drop (2 * j) b) (Some (2 * i)) = Some b"
    using zero_gap [OF assms ok] assms ij by (simp add: ipv6_expand_def)
  have tail: "ipv6_groups ip (Some e) (gtext ?ws) = Some (ip @ drop (2 * j) b, Some e, [])"
    if "j < 8" "length ip = 2 * i" for ip e
    using ipv6_gtext(1) [of ?ws ip "Some e"] that ws v6u16_less fits by simp
  have lead: "HasPrefix (string6 b) ''::'' \<longleftrightarrow> i = 0"
    using gtext_not_lead [of ?vs "''::'' @ gtext ?ws"] unfolding s by (cases "i = 0") (simp_all add: HasPrefix_def)
  have v6: "v6_text (string6 b)" unfolding s by (simp add: v6_text_def [of "[]"])
  show ?thesis
  proof (cases "i = 0")
    case True
    with s have d: "drop 2 (string6 b) = gtext ?ws" by simp
    show ?thesis
    proof (cases "j = 8")
      case True
      with \<open>i = 0\<close> zero_gap [OF assms ok] assms have b: "replicate 16 0 = b" by simp
      have "drop 2 (string6 b) = []" using d True by simp
      then have "parseIPv6 (string6 b @ zone_text z) = Some (Addr6 (replicate 16 0) z)"
        using lead \<open>i = 0\<close> by (simp only: parseIPv6_zone [OF v6] Let_def if_True simp_thms)
      then show ?thesis unfolding b .
    next
      case False
      with ij have "j < 8" by simp
      with tail [of "[]" 0] \<open>i = 0\<close> expand gtext_hd [of ?ws] lead d show ?thesis
        by (auto simp add: parseIPv6_zone [OF v6] Let_def simp del: upt.simps)
    qed
  next
    case False
    have vsn: "?vs \<noteq> []" using False by simp
    have "ipv6_groups [] None (string6 b) = Some (take (2 * i) b @ drop (2 * j) b, Some (2 * i), [])"
    proof (cases "j = 8")
      case True
      with ipv6_gtext(2) [of ?vs "[]"] vsn v6u16_less ij vs show ?thesis unfolding s by (simp add: assms)
    next
      case False
      with ij have "j < 8" by simp
      with gtext_hd [of ?ws] obtain c r where c: "gtext ?ws = c # r" by auto
      have "ipv6_groups [] None (gtext ?vs @ ''::'' @ c # r) = ipv6_groups ([] @ gbytes ?vs) (Some (length ([] :: bytes) + 2 * length ?vs)) (c # r)"
        by (rule ipv6_gtext(3)) (use vsn v6u16_less ij in auto)
      with tail [of "take (2 * i) b" "2 * i"] \<open>j < 8\<close> vs c assms ij show ?thesis unfolding s by simp
    qed
    with False lead expand show ?thesis by (simp add: parseIPv6_zone [OF v6] Let_def)
  qed
qed

text \<open>Dotted IPv4 text.\<close>

lemma Itoa_step: "Itoa n = (if n < 10 then [] else Itoa (n div 10)) @ [char_of (48 + n mod 10)]"
  by (subst Itoa.simps) simp

lemma ipv4_octet:
  assumes "n < 256"
  shows "\<exists>d > 0. ipv4_fields fs 0 0 (Itoa n @ t) = ipv4_fields fs n d t"
proof -
  have d: "is_digit (char_of (48 + k))" "digit_value (char_of (48 + k)) = k" if "k < 10" for k
    using that by (simp_all add: is_digit_def digit_value_def)
  consider (one) "n < 10" | (two) "10 \<le> n" "n < 100" | (three) "100 \<le> n" by linarith
  then show ?thesis
  proof cases
    case one
    then have "Itoa n = [char_of (48 + n)]" by (simp add: Itoa.simps)
    with one d [of n] show ?thesis by (intro exI [of _ 1]) (simp add: Let_def)
  next
    case two
    then have "n div 10 < 10" by simp
    with two have "Itoa n = [char_of (48 + n div 10), char_of (48 + n mod 10)]"
      by (simp add: Itoa.simps [of n] Itoa.simps [of "n div 10"])
    with two \<open>n div 10 < 10\<close> d [of "n div 10"] d [of "n mod 10"] assms show ?thesis
      by (intro exI [of _ "Suc (Suc 0)"]) (simp add: Let_def div_eq_0_iff mult.commute)
  next
    case three
    define a b c where "a = n div 10 div 10" and "b = n div 10 mod 10" and "c = n mod 10"
    have n: "(a * 10 + b) * 10 + c = n" unfolding a_def b_def c_def by (simp only: div_mult_mod_eq)
    have lt: "a < 10" "b < 10" "c < 10" "0 < a" using assms three by (simp_all add: a_def b_def c_def)
    have "Itoa n = Itoa (n div 10) @ [char_of (48 + c)]" using three unfolding c_def by (subst Itoa_step) simp
    moreover have "Itoa (n div 10) = Itoa a @ [char_of (48 + b)]"
    proof -
      have "\<not> n div 10 < 10" using three by simp
      then show ?thesis unfolding b_def a_def by (subst Itoa_step) (simp only: if_False)
    qed
    moreover have "Itoa a = [char_of (48 + a)]" using lt by (subst Itoa_step) simp
    ultimately have "Itoa n = [char_of (48 + a), char_of (48 + b), char_of (48 + c)]" by (simp only: append.simps)
    with lt d n assms show ?thesis by (intro exI [of _ "Suc (Suc (Suc 0))"]) (simp add: Let_def)
  qed
qed

lemma length_4E:
  assumes "length b = 4"
  obtains w x y z where "b = [w, x, y, z]"
  using assms by (auto simp: numeral_eq_Suc length_Suc_conv)

lemma ipv4_dot: "0 < d \<Longrightarrow> cs \<noteq> [] \<Longrightarrow> length fs < 3 \<Longrightarrow> ipv4_fields fs v d (CHR ''.'' # cs) = ipv4_fields (fs @ [v]) 0 0 cs"
  by (simp add: is_digit_def)

lemma ParseIPv4_dotted:
  assumes "length b = 4"
  shows "parseIPv4Fields (dotted b) = Some b"
proof -
  obtain w x y z where b: "b = [w, x, y, z]" using assms by (rule length_4E)
  have dot: "ipv4_fields fs 0 0 (Itoa (unat v) @ CHR ''.'' # Itoa m @ t) = ipv4_fields (fs @ [unat v]) 0 0 (Itoa m @ t)"
    if "length fs < 3" for fs t m and v :: byte
  proof -
    obtain d where "0 < d" "ipv4_fields fs 0 0 (Itoa (unat v) @ CHR ''.'' # Itoa m @ t) = ipv4_fields fs (unat v) d (CHR ''.'' # Itoa m @ t)"
      using ipv4_octet [OF unat_byte_less] by blast
    with ipv4_dot [of d "Itoa m @ t" fs "unat v"] that show ?thesis by (simp only: Itoa_nonempty append_is_Nil_conv) simp
  qed
  have last: "ipv4_fields fs 0 0 (Itoa (unat v)) = Some (fs @ [unat v])" if "length fs = 3" for fs and v :: byte
    using ipv4_octet [OF unat_byte_less, of fs v "[]"] that by auto
  have "dotted b = Itoa (unat w) @ CHR ''.'' # Itoa (unat x) @ CHR ''.'' # Itoa (unat y) @ CHR ''.'' # Itoa (unat z)"
    by (simp add: b dotted_def)
  then have "ipv4_fields [] 0 0 (dotted b) = Some [unat w, unat x, unat y, unat z]"
    by (simp only: dot list.size append.simps) (simp add: dot [where t = "[]", simplified] last)
  then show ?thesis by (simp add: parseIPv4Fields_def b)
qed

text \<open>The character that decides the family is the first of \<open>.\<close>, \<open>:\<close> and \<open>%\<close>.\<close>

definition family_mark :: "char \<Rightarrow> bool" where
  "family_mark c \<longleftrightarrow> c \<in> {CHR ''.'', CHR '':'', CHR ''%''}"

lemma ParseAddr_find:
  "ParseAddr s = (case find family_mark s of
        None \<Rightarrow> None
      | Some c \<Rightarrow>
          if c = CHR ''.'' then map_option Addr4 (parseIPv4Fields s)
          else if c = CHR '':'' then parseIPv6 s
          else None)"
  by (simp add: ParseAddr_def family_mark_def [abs_def])

lemma find_v6_text: "v6_text s \<Longrightarrow> find family_mark (s @ t) = (if CHR '':'' \<in> set s then Some CHR '':'' else find family_mark t)"
  by (induction s) (auto simp: v6_text_def family_mark_def)

lemma find_octets:
  assumes "length b = 4"
  shows "find family_mark (dotted b) = Some CHR ''.''"
proof -
  obtain w x y z where b: "b = [w, x, y, z]" using assms by (rule length_4E)
  have "find family_mark (s @ CHR ''.'' # t) = Some CHR ''.''" if "list_all is_digit s" for s t
    using that by (induction s) (auto simp: family_mark_def is_digit_def)
  from this [OF Itoa_digits] show ?thesis by (simp add: b dotted_def)
qed

lemma colon_string6: "length b = 16 \<Longrightarrow> CHR '':'' \<in> set (string6 b)"
proof (cases "longest_zero_run b")
  case None
  have "gtext (v # w # vs) = appendHex v @ CHR '':'' # gtext (w # vs)" for v w vs by (simp add: gtext_Cons)
  moreover have "map (v6u16 b) [0..<8] = v6u16 b 0 # v6u16 b 1 # map (v6u16 b) [2..<8]"
    by (simp add: upt_conv_Cons numeral_eq_Suc del: upt_Suc)
  ultimately show ?thesis using None by (simp add: string6_def groups_text_gtext del: upt.simps)
next
  case (Some r)
  then show ?thesis by (cases r) (simp add: string6_def groups_text_gtext)
qed

lemma v6_text_string6: "v6_text (string6 b)"
  by (cases "longest_zero_run b") (auto simp: string6_def groups_text_gtext v6_text_def [of "[]"] simp del: upt.simps)

text \<open>An address without a mapped IPv4 address is read back from the text it prints.\<close>

theorem ParseAddr_AddrString:
  assumes "addr_wf a" and "\<not> Is4In6 a"
  shows "ParseAddr (AddrString a) = Some a"
proof (cases a)
  case (Addr4 b)
  with assms show ?thesis by (simp add: ParseAddr_find find_octets ParseIPv4_dotted)
next
  case (Addr6 b z)
  with assms show ?thesis
    by (simp add: ParseAddr_find find_v6_text v6_text_string6 colon_string6 parseIPv6_string6)
qed

end
