(* ===== verification/Autoblock.thy ===== *)
theory Autoblock
  imports Go_Netip "HOL-Library.Code_Target_Nat"
begin

text \<open>
  The abusive-source blocker (\<open>internal/autoblock\<close>): policy, per-address counters, detection,
  the block list with its sharded enforced view, escalation, the never-block list, the firewall queue
  and the persisted state. Every critical section of the source is one function on the blocker, and
  the handlers are compositions of them; a reading of the clock is an argument (\<open>clk i\<close> is the
  \<open>i\<close>-th reading of a handler that reads it more than once). Maps whose size or iteration order the
  code looks at are association lists in some iteration order. The firewall commands, the kernel's
  rules and the state file are in theory \<open>Autoblock_Firewall\<close>; the listener is in \<open>Autoblock_Guard\<close>.
\<close>

section \<open>Policy\<close>

definition ReasonConnFlood :: string where "ReasonConnFlood = ''conn_flood''"
definition ReasonTLSAbort :: string where "ReasonTLSAbort = ''tls_abort''"
definition ReasonConcurrent :: string where "ReasonConcurrent = ''concurrent''"
definition ReasonWAF :: string where "ReasonWAF = ''waf''"
definition ReasonRate :: string where "ReasonRate = ''rate''"
definition ReasonBot :: string where "ReasonBot = ''bot''"
definition ReasonNotFound :: string where "ReasonNotFound = ''notfound''"
definition ReasonManual :: string where "ReasonManual = ''manual''"

definition time_Second :: duration where "time_Second = 1000000000"
definition time_Minute :: duration where "time_Minute = 60 * time_Second"

record AutoConfig =
  Enabled :: bool
  cfgWindow :: duration
  MaxConnections :: int
  MaxAborts :: int
  MaxConcurrent :: int
  MaxWAFHits :: int
  MaxRateHits :: int
  MaxNotFound :: int
  BlockDuration :: duration
  MaxBlockDuration :: duration
  Escalate :: bool
  DryRun :: bool
  Whitelist :: "string list"
  FirewallSync :: bool
  FeedRateHits :: bool
  PersistPath :: string

definition Normalize :: "AutoConfig \<Rightarrow> AutoConfig" where
  "Normalize c =
     (let dur = (if BlockDuration c \<le> 0 then 15 * time_Minute else BlockDuration c);
          mx = (if MaxBlockDuration c \<le> 0 then 24 * 60 * time_Minute else MaxBlockDuration c)
      in c\<lparr>cfgWindow := if cfgWindow c \<le> 0 then time_Minute else cfgWindow c,
           MaxAborts := if MaxAborts c \<le> 0 then 60 else MaxAborts c,
           MaxWAFHits := if MaxWAFHits c \<le> 0 then 15 else MaxWAFHits c,
           MaxRateHits := if MaxRateHits c \<le> 0 then 120 else MaxRateHits c,
           MaxNotFound := if MaxNotFound c \<le> 0 then 200 else MaxNotFound c,
           BlockDuration := dur,
           MaxBlockDuration := if mx < dur then dur else mx\<rparr>)"

section \<open>State\<close>

text \<open>\<open>ExpiresAt\<close> is \<open>None\<close> where the code stores the zero time.\<close>

record Entry =
  entryIP :: string
  Reason :: string
  Hits :: int
  Level :: int
  BlockedAt :: instant
  ExpiresAt :: "instant option"
  Firewall :: bool
  entryDry :: bool

definition Expired :: "instant \<Rightarrow> Entry \<Rightarrow> bool" where
  "Expired now e \<longleftrightarrow> (case ExpiresAt e of None \<Rightarrow> False | Some t \<Rightarrow> t < now)"

record track =
  windowStart :: instant
  conns :: int
  aborts :: int
  waf :: int
  rate :: int
  notfound :: int
  concurrent :: int
  lastSeen :: instant

definition new_track :: "instant \<Rightarrow> track" where
  "new_track now = \<lparr>windowStart = now, conns = 0, aborts = 0, waf = 0, rate = 0, notfound = 0,
     concurrent = 0, lastSeen = 0\<rparr>"

definition maxTracksPerShard :: nat where "maxTracksPerShard = 4096"
definition maxHistory :: nat where "maxHistory = 100000"
definition fwQueueCap :: nat where "fwQueueCap = 1024"

record trackShard =
  tracks :: "(netip_addr \<times> track) list"
  sweptAt :: instant

datatype fwOp = FwAdd string | FwRemove string

record Blocker =
  cfg :: AutoConfig
  trackShards :: "byte \<Rightarrow> trackShard"
  blocked :: "(netip_addr \<times> Entry) list"
  vshards :: "byte \<Rightarrow> netip_addr list"
  history :: "(netip_addr \<times> int) list"
  safeNets :: "Prefix list option"
  fwEnabled :: bool
  fwHooks :: "bool \<times> bool" \<comment> \<open>\<open>fwBlock\<close> and \<open>fwUnlock\<close> are installed\<close>
  fwQueue :: "fwOp list"
  fwPending :: "string list"
  saveOnce :: bool
  blockedN :: int
  detectedN :: int

section \<open>Addresses and shards\<close>

definition ParseRemote :: "string \<Rightarrow> netip_addr option" where
  "ParseRemote remote =
     (if remote = [] then None
      else (case ParseAddrPort remote of
              Some (a, p) \<Rightarrow> Some (Unmap a)
            | None \<Rightarrow>
                (case ParseAddr remote of
                   Some a \<Rightarrow> Some (Unmap a)
                 | None \<Rightarrow>
                     (case SplitHostPort remote of
                        Some (host, p) \<Rightarrow> map_option Unmap (ParseAddr host)
                      | None \<Rightarrow> None))))"

definition addrShardIndex :: "netip_addr \<Rightarrow> byte" where
  "addrShardIndex a = ucast (foldl (\<lambda>(h :: u32) c. (h XOR ucast c) * 16777619) 2166136261 (As16 a))"

section \<open>The never-block list\<close>

definition defaultSafeNets :: "Prefix list" where
  "defaultSafeNets = List.map_filter (\<lambda>s. map_option Masked (ParsePrefix s))
     [''127.0.0.0/8'', ''::1/128'',
      ''10.0.0.0/8'', ''172.16.0.0/12'', ''192.168.0.0/16'',
      ''169.254.0.0/16'', ''fe80::/10'', ''fc00::/7'',
      ''0.0.0.0/32'', ''::/128'']"

definition whitelistNet :: "string \<Rightarrow> Prefix option" where
  "whitelistNet raw =
     (case ParsePrefix raw of
        Some p \<Rightarrow>
          (let p' = (if Is4In6 (prefixAddr p) \<and> prefixBits p \<ge> 96
                     then PrefixFrom (Unmap (prefixAddr p)) (prefixBits p - 96) else p)
           in Some (Masked p'))
      | None \<Rightarrow> map_option (\<lambda>a. PrefixFrom (Unmap a) (BitLen (Unmap a))) (ParseAddr raw))"

definition Safe :: "Blocker \<Rightarrow> netip_addr \<Rightarrow> bool" where
  "Safe b a \<longleftrightarrow>
     (case safeNets b of
        None \<Rightarrow> False
      | Some nets \<Rightarrow> list_ex (\<lambda>p. PrefixContains p (WithoutZone (Unmap a))) nets)"

section \<open>The enforced view\<close>

definition Blocked :: "Blocker \<Rightarrow> netip_addr \<Rightarrow> bool" where
  "Blocked b a \<longleftrightarrow>
     Enabled (cfg b) \<and> blockedN b \<noteq> 0 \<and> \<not> Safe b a
     \<and> Unmap a \<in> set (vshards b (addrShardIndex (Unmap a)))"

definition BlockedAddr :: "Blocker \<Rightarrow> string \<Rightarrow> bool" where
  "BlockedAddr b remote = (case ParseRemote remote of Some a \<Rightarrow> Blocked b a | None \<Rightarrow> False)"

definition enforced :: "(netip_addr \<times> Entry) list \<Rightarrow> netip_addr list" where
  "enforced bl = map fst (filter (\<lambda>(a, e). \<not> entryDry e) bl)"

definition publish :: "Blocker \<Rightarrow> Blocker" where
  "publish b = b\<lparr>vshards := (\<lambda>i. filter (\<lambda>a. addrShardIndex a = i) (enforced (blocked b))),
                 blockedN := int (length (enforced (blocked b)))\<rparr>"

definition viewAdd :: "netip_addr \<Rightarrow> Blocker \<Rightarrow> Blocker" where
  "viewAdd a b =
     (let i = addrShardIndex a in
      if a \<in> set (vshards b i) then b
      else b\<lparr>vshards := (vshards b)(i := a # vshards b i), blockedN := blockedN b + 1\<rparr>)"

definition viewDel :: "netip_addr \<Rightarrow> Blocker \<Rightarrow> Blocker" where
  "viewDel a b =
     (let i = addrShardIndex a in
      if a \<in> set (vshards b i)
      then b\<lparr>vshards := (vshards b)(i := filter (\<lambda>x. x \<noteq> a) (vshards b i)), blockedN := blockedN b - 1\<rparr>
      else b)"

fun trim_keys :: "nat \<Rightarrow> (netip_addr \<times> Entry) list \<Rightarrow> netip_addr list \<Rightarrow> (netip_addr \<times> int) list \<Rightarrow> (netip_addr \<times> int) list" where
  "trim_keys target bl [] h = h"
| "trim_keys target bl (a # as) h =
     (if length h \<le> target then h
      else trim_keys target bl as (if map_of bl a = None then map_delete a h else h))"

definition trimHistory :: "Blocker \<Rightarrow> Blocker" where
  "trimHistory b =
     (if length (history b) \<le> maxHistory then b
      else b\<lparr>history := trim_keys (maxHistory - maxHistory div 10) (blocked b)
                          (map fst (history b)) (history b)\<rparr>)"

section \<open>Counters\<close>

definition dropQuiet :: "instant \<Rightarrow> trackShard \<Rightarrow> trackShard" where
  "dropQuiet cutoff sh =
     sh\<lparr>tracks := filter (\<lambda>(a, t). \<not> (concurrent t \<le> 0 \<and> lastSeen t < cutoff)) (tracks sh)\<rparr>"

definition put_shard :: "byte \<Rightarrow> trackShard \<Rightarrow> Blocker \<Rightarrow> Blocker" where
  "put_shard i sh b = b\<lparr>trackShards := (trackShards b)(i := sh)\<rparr>"

definition withTrack :: "netip_addr \<Rightarrow> instant \<Rightarrow> (track \<Rightarrow> track) \<Rightarrow> Blocker \<Rightarrow> Blocker \<times> track" where
  "withTrack a now fn b =
     (let i = addrShardIndex a; sh = trackShards b i; win = cfgWindow (cfg b);
          known = map_of (tracks sh) a;
          sh1 = (if known = None \<and> length (tracks sh) \<ge> maxTracksPerShard \<and> now - sweptAt sh \<ge> time_Second
                 then dropQuiet (now + wrap64 (- 2 * win)) (sh\<lparr>sweptAt := now\<rparr>) else sh);
          t = (case known of Some t \<Rightarrow> t | None \<Rightarrow> new_track now);
          kept = (known \<noteq> None \<or> length (tracks sh1) < maxTracksPerShard);
          t1 = (if now - windowStart t \<ge> win then (new_track now)\<lparr>concurrent := concurrent t\<rparr> else t);
          t2 = fn (t1\<lparr>lastSeen := now\<rparr>)
      in (put_shard i (if kept then sh1\<lparr>tracks := map_put a t2 (tracks sh1)\<rparr> else sh1) b, t2))"

definition shardIndices :: "byte list" where
  "shardIndices = map word_of_nat [0..<256]"

definition gcTracks :: "instant \<Rightarrow> Blocker \<Rightarrow> Blocker" where
  "gcTracks now b =
     (let cutoff = now + wrap64 (- 2 * cfgWindow (cfg b))
      in fold (\<lambda>i b. put_shard i (dropQuiet cutoff (trackShards b i)) b) shardIndices b)"

section \<open>Installing and lifting blocks\<close>

definition requestSave :: "Blocker \<Rightarrow> Blocker" where
  "requestSave b = b\<lparr>saveOnce := True\<rparr>"

definition queueAdd :: "string \<Rightarrow> Blocker \<Rightarrow> Blocker" where
  "queueAdd ip b =
     (if fwEnabled b \<and> fst (fwHooks b) \<and> length (fwQueue b) < fwQueueCap
      then b\<lparr>fwQueue := fwQueue b @ [FwAdd ip]\<rparr> else b)"

definition queueRemove :: "string \<Rightarrow> Blocker \<Rightarrow> Blocker" where
  "queueRemove ip b =
     (if \<not> snd (fwHooks b) then b
      else if length (fwQueue b) < fwQueueCap then b\<lparr>fwQueue := fwQueue b @ [FwRemove ip]\<rparr>
      else b\<lparr>fwPending := List.insert ip (fwPending b)\<rparr>)"

text \<open>The section of \<open>apply\<close> and of \<open>Block\<close> under the blocker's mutex.\<close>

definition install :: "netip_addr \<Rightarrow> Entry \<Rightarrow> Blocker \<Rightarrow> Blocker" where
  "install a e b =
     (let b1 = trimHistory (b\<lparr>blocked := map_put a e (blocked b), history := map_put a (Level e) (history b)\<rparr>)
      in if entryDry e then viewDel a b1 else viewAdd a b1)"

definition apply_entry :: "instant \<Rightarrow> AutoConfig \<Rightarrow> netip_addr \<Rightarrow> string \<Rightarrow> int \<Rightarrow> int \<Rightarrow> duration \<Rightarrow> Entry" where
  "apply_entry now c a reason hits level dur =
     \<lparr>entryIP = AddrString a, Reason = reason, Hits = hits, Level = level, BlockedAt = now,
      ExpiresAt = Some (now + dur), Firewall = False, entryDry = DryRun c\<rparr>"

definition apply_block :: "instant \<Rightarrow> netip_addr \<Rightarrow> string \<Rightarrow> int \<Rightarrow> int \<Rightarrow> duration \<Rightarrow> Blocker \<Rightarrow> Blocker" where
  "apply_block now a reason hits level dur b =
     (let e = apply_entry now (cfg b) a reason hits level dur; b1 = install a e b
      in if DryRun (cfg b) then requestSave b1 else requestSave (queueAdd (entryIP e) b1))"

text \<open>\<open>escalated\<close>: the loop multiplies as \<open>uint64\<close> and leaves as soon as the cap is reached.\<close>

fun escalate :: "nat \<Rightarrow> duration \<Rightarrow> duration \<Rightarrow> duration" where
  "escalate 0 d mx = (if d \<ge> mx then mx else d)"
| "escalate (Suc n) d mx =
     (let ns = (word_of_int d :: u64) * 4
      in if ns \<ge> word_of_int mx then mx else escalate n (sint ns) mx)"

definition escalated :: "AutoConfig \<Rightarrow> int \<Rightarrow> duration" where
  "escalated c level =
     (if \<not> Escalate c \<or> level \<le> 1 then BlockDuration c
      else escalate (nat (level - 1)) (BlockDuration c) (MaxBlockDuration c))"

definition history_level :: "netip_addr \<Rightarrow> Blocker \<Rightarrow> int" where
  "history_level a b = (case map_of (history b) a of Some l \<Rightarrow> l | None \<Rightarrow> 0)"

definition already_blocked :: "instant \<Rightarrow> netip_addr \<Rightarrow> Blocker \<Rightarrow> bool" where
  "already_blocked now a b = (case map_of (blocked b) a of Some e \<Rightarrow> \<not> Expired now e | None \<Rightarrow> False)"

definition trip :: "instant \<Rightarrow> instant \<Rightarrow> netip_addr \<Rightarrow> string \<Rightarrow> int \<Rightarrow> Blocker \<Rightarrow> Blocker" where
  "trip now now' a reason hits b =
     (let b1 = b\<lparr>detectedN := detectedN b + 1\<rparr> in
      if already_blocked now a b1 then b1
      else let level = history_level a b1 + 1
           in apply_block now' a reason hits level (escalated (cfg b1) level) b1)"

datatype ab_err = InvalidIP | RefusedSafe | NotBlocked

definition Block :: "instant \<Rightarrow> string \<Rightarrow> string \<Rightarrow> duration \<Rightarrow> Blocker \<Rightarrow> ab_err option \<times> Blocker" where
  "Block now ip reason dur b =
     (case ParseRemote ip of
        None \<Rightarrow> (Some InvalidIP, b)
      | Some a \<Rightarrow>
          if Safe b a then (Some RefusedSafe, b)
          else
            (let reason' = (if reason = [] then ReasonManual else reason);
                 dur' = (if dur = 0 then BlockDuration (cfg b) else dur);
                 e = \<lparr>entryIP = AddrString a, Reason = reason', Hits = 0,
                      Level = (case map_of (history b) a of Some prev \<Rightarrow> prev + 1 | None \<Rightarrow> 1),
                      BlockedAt = now, ExpiresAt = (if dur' > 0 then Some (now + dur') else None),
                      Firewall = False, entryDry = False\<rparr>
             in (None, requestSave (queueAdd (entryIP e) (install a e b)))))"

text \<open>The sections that lift blocks; each hands the texts to queue for removal to its caller.\<close>

definition forget :: "netip_addr \<Rightarrow> Blocker \<Rightarrow> Blocker" where
  "forget a b = viewDel a (b\<lparr>blocked := map_delete a (blocked b), history := map_delete a (history b)\<rparr>)"

definition Unblock :: "string \<Rightarrow> Blocker \<Rightarrow> ab_err option \<times> Blocker" where
  "Unblock ip b =
     (case ParseRemote ip of
        None \<Rightarrow> (Some InvalidIP, b)
      | Some a \<Rightarrow>
          (let b1 = forget a b in
           if map_of (blocked b) a = None then (Some NotBlocked, b1)
           else (None, requestSave (queueRemove (AddrString a) b1))))"

definition lift_safe :: "Blocker \<Rightarrow> Blocker \<times> string list" where
  "lift_safe b =
     (let lifted = filter (\<lambda>(a, e). Safe b a) (blocked b)
      in (fold forget (map fst lifted) b, map (entryIP \<circ> snd) lifted))"

definition liftSafeBlocks :: "Blocker \<Rightarrow> Blocker" where
  "liftSafeBlocks b =
     (case lift_safe b of (b1, lifted) \<Rightarrow>
        let b2 = fold queueRemove lifted b1 in if lifted = [] then b2 else requestSave b2)"

definition SetWhitelist :: "string list \<Rightarrow> Blocker \<Rightarrow> Blocker" where
  "SetWhitelist entries b =
     liftSafeBlocks (b\<lparr>safeNets := Some (defaultSafeNets @ List.map_filter whitelistNet entries)\<rparr>)"

definition unlist :: "netip_addr \<Rightarrow> Blocker \<Rightarrow> Blocker" where
  "unlist a b = viewDel a (b\<lparr>blocked := map_delete a (blocked b)\<rparr>)"

definition lift_expired :: "instant \<Rightarrow> Blocker \<Rightarrow> Blocker \<times> string list" where
  "lift_expired now b =
     (let lifted = filter (\<lambda>(a, e). Expired now e) (blocked b)
      in (fold unlist (map fst lifted) b, map (entryIP \<circ> snd) lifted))"

definition wanted :: "string \<Rightarrow> Blocker \<Rightarrow> bool" where
  "wanted ip b =
     (case ParseRemote ip of
        None \<Rightarrow> False
      | Some a \<Rightarrow> (case map_of (blocked b) a of Some e \<Rightarrow> \<not> entryDry e | None \<Rightarrow> False))"

fun retry_from :: "string list \<Rightarrow> Blocker \<Rightarrow> Blocker" where
  "retry_from [] b = b"
| "retry_from (ip # ips) b =
     (if wanted ip b then retry_from ips (b\<lparr>fwPending := removeAll ip (fwPending b)\<rparr>)
      else if length (fwQueue b) < fwQueueCap
      then retry_from ips (b\<lparr>fwQueue := fwQueue b @ [FwRemove ip], fwPending := removeAll ip (fwPending b)\<rparr>)
      else b)"

definition retryPendingRemoves :: "Blocker \<Rightarrow> Blocker" where
  "retryPendingRemoves b = retry_from (fwPending b) b"

definition expire :: "instant \<Rightarrow> Blocker \<Rightarrow> Blocker" where
  "expire now b =
     (case lift_expired now b of (b1, lifted) \<Rightarrow>
        let b2 = retryPendingRemoves (fold queueRemove lifted b1)
        in if lifted = [] then b2 else requestSave b2)"

section \<open>Detection\<close>

definition free_slot :: "track \<Rightarrow> track" where
  "free_slot t = (if concurrent t > 0 then t\<lparr>concurrent := concurrent t - 1\<rparr> else t)"

definition count_open :: "track \<Rightarrow> track" where
  "count_open t = t\<lparr>conns := conns t + 1, concurrent := concurrent t + 1\<rparr>"

definition count_close :: "bool \<Rightarrow> track \<Rightarrow> track" where
  "count_close aborted t = (let t1 = free_slot t in if aborted then t1\<lparr>aborts := aborts t1 + 1\<rparr> else t1)"

text \<open>A threshold crossed by an accepted connection: the slot goes back unless this is a dry run.\<close>

definition over :: "int \<Rightarrow> int \<Rightarrow> bool" where
  "over limit n \<longleftrightarrow> limit > 0 \<and> n > limit"

definition trip_conn :: "(nat \<Rightarrow> instant) \<Rightarrow> netip_addr \<Rightarrow> string \<Rightarrow> int \<Rightarrow> Blocker \<Rightarrow> Blocker" where
  "trip_conn clk a reason hits b =
     trip (clk 1) (clk 2) a reason hits
       (if DryRun (cfg b) then b else fst (withTrack a (clk 0) free_slot b))"

definition ConnOpened :: "(nat \<Rightarrow> instant) \<Rightarrow> netip_addr \<Rightarrow> Blocker \<Rightarrow> Blocker \<times> bool" where
  "ConnOpened clk a b =
     (if \<not> Enabled (cfg b) then (b, True)
      else if Safe b a then (b, True)
      else if Blocked b a then (b, False)
      else
        (case withTrack a (clk 0) count_open b of
           (b1, t) \<Rightarrow>
             (let conc = over (MaxConcurrent (cfg b)) (concurrent t);
                  b2 = (if conc then trip_conn (\<lambda>i. clk (i + 1)) a ReasonConcurrent (concurrent t) b1 else b1)
              in if conc \<and> \<not> DryRun (cfg b) then (b2, False)
                 else
                   (let flood = over (MaxConnections (cfg b)) (conns t);
                        b3 = (if flood then trip_conn (\<lambda>i. clk (i + 4)) a ReasonConnFlood (conns t) b2 else b2)
                    in (b3, \<not> (flood \<and> \<not> DryRun (cfg b)))))))"

text \<open>The close of a connection from an address that became safe gives its slot back, no more.\<close>

definition close_safe :: "netip_addr \<Rightarrow> Blocker \<Rightarrow> Blocker" where
  "close_safe a b =
     (let i = addrShardIndex a; sh = trackShards b i in
      case map_of (tracks sh) a of
        Some t \<Rightarrow> if concurrent t > 0
                  then put_shard i (sh\<lparr>tracks := map_put a (free_slot t) (tracks sh)\<rparr>) b else b
      | None \<Rightarrow> b)"

definition ConnClosed :: "(nat \<Rightarrow> instant) \<Rightarrow> netip_addr \<Rightarrow> bool \<Rightarrow> Blocker \<Rightarrow> Blocker" where
  "ConnClosed clk a aborted b =
     (if \<not> Enabled (cfg b) then b
      else if Safe b a then close_safe a b
      else
        (case withTrack a (clk 0) (count_close aborted) b of
           (b1, t) \<Rightarrow>
             if aborted \<and> aborts t > MaxAborts (cfg b)
             then trip (clk 1) (clk 2) a ReasonTLSAbort (aborts t) b1 else b1))"

definition count_http :: "string \<Rightarrow> track \<Rightarrow> track" where
  "count_http reason t =
     (if reason = ReasonWAF \<or> reason = ReasonBot then t\<lparr>waf := waf t + 1\<rparr>
      else if reason = ReasonRate then t\<lparr>rate := rate t + 1\<rparr>
      else if reason = ReasonNotFound then t\<lparr>notfound := notfound t + 1\<rparr>
      else t)"

definition RecordHTTP :: "(nat \<Rightarrow> instant) \<Rightarrow> string \<Rightarrow> string \<Rightarrow> Blocker \<Rightarrow> Blocker" where
  "RecordHTTP clk remote reason b =
     (if \<not> Enabled (cfg b) then b
      else if reason = ReasonRate \<and> \<not> FeedRateHits (cfg b) then b
      else
        (case ParseRemote remote of
           None \<Rightarrow> b
         | Some a \<Rightarrow>
             if Safe b a \<or> Blocked b a then b
             else
               (case withTrack a (clk 0) (count_http reason) b of
                  (b1, t) \<Rightarrow>
                    (let verdict =
                           (if reason = ReasonWAF \<or> reason = ReasonBot then Some (waf t, MaxWAFHits (cfg b), ReasonWAF)
                            else if reason = ReasonRate then Some (rate t, MaxRateHits (cfg b), reason)
                            else if reason = ReasonNotFound then Some (notfound t, MaxNotFound (cfg b), reason)
                            else None)
                     in case verdict of
                          None \<Rightarrow> b1
                        | Some (n, limit, reason') \<Rightarrow>
                            if over limit n then trip (clk 1) (clk 2) a reason' n b1 else b1))))"

section \<open>Listing, saving and loading\<close>

definition ListBlocks :: "(Entry list \<Rightarrow> Entry list) \<Rightarrow> Blocker \<Rightarrow> Entry list" where
  "ListBlocks newest_first b = newest_first (map snd (blocked b))"

text \<open>What the state file holds, as the value \<open>encoding/json\<close> carries.\<close>

record persisted =
  Blocks :: "Entry list"
  History :: "(string \<times> int) list"
  Saved :: instant

definition snapshot :: "instant \<Rightarrow> Blocker \<Rightarrow> persisted" where
  "snapshot now b =
     \<lparr>Blocks = map snd (blocked b), History = map (\<lambda>(a, l). (AddrString a, l)) (history b), Saved = now\<rparr>"

definition load_block :: "instant \<Rightarrow> Entry \<Rightarrow> Blocker \<Rightarrow> Blocker" where
  "load_block now e b =
     (case ParseRemote (entryIP e) of
        None \<Rightarrow> b
      | Some a \<Rightarrow>
          if Expired now e \<or> Safe b a then
            (if Firewall e \<and> \<not> entryDry e then b\<lparr>fwPending := List.insert (AddrString a) (fwPending b)\<rparr> else b)
          else b\<lparr>blocked := map_put a e (blocked b)\<rparr>)"

definition load_level :: "string \<times> int \<Rightarrow> Blocker \<Rightarrow> Blocker" where
  "load_level = (\<lambda>(ip, lvl) b.
     case ParseRemote ip of None \<Rightarrow> b | Some a \<Rightarrow> b\<lparr>history := map_put a lvl (history b)\<rparr>)"

text \<open>\<open>None\<close> is a state file that is not configured, absent or unreadable.\<close>

definition loadState :: "instant \<Rightarrow> persisted option \<Rightarrow> Blocker \<Rightarrow> Blocker" where
  "loadState now st b =
     (case st of
        None \<Rightarrow> b
      | Some p \<Rightarrow> publish (fold load_level (History p) (fold (load_block now) (Blocks p) b)))"

text \<open>The zero time, further in the past than any reading the code compares it with.\<close>

definition never_swept :: instant where "never_swept = - (2 ^ 63)"

definition empty_blocker :: "AutoConfig \<Rightarrow> Blocker" where
  "empty_blocker c =
     \<lparr>cfg = c, trackShards = (\<lambda>_. \<lparr>tracks = [], sweptAt = never_swept\<rparr>), blocked = [],
      vshards = (\<lambda>_. []), history = [], safeNets = None, fwEnabled = False, fwHooks = (False, False),
      fwQueue = [], fwPending = [], saveOnce = False, blockedN = 0, detectedN = 0\<rparr>"

definition NewBlocker :: "instant \<Rightarrow> AutoConfig \<Rightarrow> persisted option \<Rightarrow> Blocker" where
  "NewBlocker now c st =
     (let c' = Normalize c;
          b = SetWhitelist (Whitelist c') (publish (empty_blocker c'))
      in loadState now st (b\<lparr>fwEnabled := FirewallSync c'\<rparr>))"

definition SetFirewall :: "bool \<Rightarrow> bool \<Rightarrow> Blocker \<Rightarrow> Blocker" where
  "SetFirewall blk unblk b = b\<lparr>fwHooks := (blk, unblk)\<rparr>"

definition SetFirewallSync :: "bool \<Rightarrow> Blocker \<Rightarrow> Blocker" where
  "SetFirewallSync on b = b\<lparr>fwEnabled := on\<rparr>"

section \<open>The invariant\<close>

text \<open>
  The block list is a map, no two shards or entries of the view disagree with it, the counter is the
  number of enforced blocks, no counter table is over its bound and every counter sits in the shard of
  its address, no gauge is negative and the firewall queue fits its channel.
\<close>

definition view_ok :: "Blocker \<Rightarrow> bool" where
  "view_ok b \<longleftrightarrow> distinct (map fst (blocked b)) \<and> distinct (map fst (history b))
     \<and> (\<forall>i. distinct (vshards b i)
          \<and> set (vshards b i) = {a \<in> set (enforced (blocked b)). addrShardIndex a = i})
     \<and> blockedN b = int (length (enforced (blocked b)))"

definition tracks_ok :: "byte \<Rightarrow> trackShard \<Rightarrow> bool" where
  "tracks_ok i sh \<longleftrightarrow> distinct (map fst (tracks sh)) \<and> length (tracks sh) \<le> maxTracksPerShard
     \<and> (\<forall>(a, t) \<in> set (tracks sh). addrShardIndex a = i \<and> 0 \<le> concurrent t)"

definition blocker_ok :: "Blocker \<Rightarrow> bool" where
  "blocker_ok b \<longleftrightarrow> view_ok b \<and> (\<forall>i. tracks_ok i (trackShards b i)) \<and> length (fwQueue b) \<le> fwQueueCap"

text \<open>What the view shows, as a set.\<close>

definition shows_set :: "Blocker \<Rightarrow> netip_addr set \<Rightarrow> bool" where
  "shows_set b S \<longleftrightarrow> finite S \<and> blockedN b = int (card S)
     \<and> (\<forall>i. distinct (vshards b i) \<and> set (vshards b i) = {a \<in> S. addrShardIndex a = i})"

lemma view_ok_shows:
  "view_ok b \<longleftrightarrow> distinct (map fst (blocked b)) \<and> distinct (map fst (history b))
     \<and> shows_set b (set (enforced (blocked b)))"
proof -
  have "distinct (map fst (blocked b)) \<Longrightarrow> length (enforced (blocked b)) = card (set (enforced (blocked b)))"
    unfolding enforced_def using distinct_card distinct_filter_keys by metis
  then show ?thesis by (auto simp: view_ok_def shows_set_def)
qed

lemma shows_viewAdd: "shows_set b S \<Longrightarrow> shows_set (viewAdd a b) (insert a S)"
  by (auto simp: shows_set_def viewAdd_def Let_def card_insert_if)

lemma shows_viewDel: "shows_set b S \<Longrightarrow> shows_set (viewDel a b) (S - {a})"
proof -
  assume s: "shows_set b S"
  show ?thesis
  proof (cases "a \<in> S")
    case True
    with s have "0 < card S" by (auto simp: shows_set_def card_gt_0_iff)
    with s True show ?thesis by (auto simp: shows_set_def viewDel_def Let_def of_nat_diff)
  next
    case False
    with s show ?thesis by (auto simp: shows_set_def viewDel_def Let_def)
  qed
qed

lemma shows_cong:
  "vshards b' = vshards b \<Longrightarrow> blockedN b' = blockedN b \<Longrightarrow> shows_set b' S = shows_set b S"
  by (simp add: shows_set_def)

lemma in_enforced:
  "distinct (map fst bl) \<Longrightarrow> a \<in> set (enforced bl) \<longleftrightarrow> (\<exists>e. map_of bl a = Some e \<and> \<not> entryDry e)"
  by (force simp: enforced_def dest: map_of_SomeD)

lemma set_enforced:
  "distinct (map fst bl) \<Longrightarrow> set (enforced bl) = {a. \<exists>e. map_of bl a = Some e \<and> \<not> entryDry e}"
  using in_enforced by blast

lemma enforced_put:
  "distinct (map fst bl) \<Longrightarrow>
   set (enforced (map_put a e bl)) = (if entryDry e then set (enforced bl) - {a} else insert a (set (enforced bl)))"
  by (simp only: set_enforced distinct_map_put) (auto split: if_splits)

lemma enforced_delete:
  "distinct (map fst bl) \<Longrightarrow> set (enforced (map_delete a bl)) = set (enforced bl) - {a}"
  by (simp only: set_enforced distinct_map_delete) (auto split: if_splits)

lemma viewAdd_fields [simp]:
  "cfg (viewAdd a b) = cfg b" "trackShards (viewAdd a b) = trackShards b" "blocked (viewAdd a b) = blocked b"
  "history (viewAdd a b) = history b" "safeNets (viewAdd a b) = safeNets b" "fwEnabled (viewAdd a b) = fwEnabled b"
  "fwHooks (viewAdd a b) = fwHooks b" "fwQueue (viewAdd a b) = fwQueue b" "fwPending (viewAdd a b) = fwPending b"
  "saveOnce (viewAdd a b) = saveOnce b" "detectedN (viewAdd a b) = detectedN b"
  by (simp_all add: viewAdd_def Let_def)

lemma viewDel_fields [simp]:
  "cfg (viewDel a b) = cfg b" "trackShards (viewDel a b) = trackShards b" "blocked (viewDel a b) = blocked b"
  "history (viewDel a b) = history b" "safeNets (viewDel a b) = safeNets b" "fwEnabled (viewDel a b) = fwEnabled b"
  "fwHooks (viewDel a b) = fwHooks b" "fwQueue (viewDel a b) = fwQueue b" "fwPending (viewDel a b) = fwPending b"
  "saveOnce (viewDel a b) = saveOnce b" "detectedN (viewDel a b) = detectedN b"
  by (simp_all add: viewDel_def Let_def)

lemma trimHistory_fields [simp]:
  "cfg (trimHistory b) = cfg b" "trackShards (trimHistory b) = trackShards b" "blocked (trimHistory b) = blocked b"
  "vshards (trimHistory b) = vshards b" "safeNets (trimHistory b) = safeNets b" "fwEnabled (trimHistory b) = fwEnabled b"
  "fwHooks (trimHistory b) = fwHooks b" "fwQueue (trimHistory b) = fwQueue b" "fwPending (trimHistory b) = fwPending b"
  "saveOnce (trimHistory b) = saveOnce b" "detectedN (trimHistory b) = detectedN b" "blockedN (trimHistory b) = blockedN b"
  by (simp_all add: trimHistory_def)

lemma distinct_trim_keys: "distinct (map fst h) \<Longrightarrow> distinct (map fst (trim_keys n bl as h))"
  by (induction n bl "as" h rule: trim_keys.induct) (simp_all add: distinct_map_delete)

lemma distinct_trimHistory: "distinct (map fst (history b)) \<Longrightarrow> distinct (map fst (history (trimHistory b)))"
  by (simp add: trimHistory_def distinct_trim_keys)

lemma install_fields [simp]:
  "cfg (install a e b) = cfg b" "trackShards (install a e b) = trackShards b"
  "blocked (install a e b) = map_put a e (blocked b)"
  "safeNets (install a e b) = safeNets b" "fwEnabled (install a e b) = fwEnabled b"
  "fwHooks (install a e b) = fwHooks b" "fwQueue (install a e b) = fwQueue b" "fwPending (install a e b) = fwPending b"
  "saveOnce (install a e b) = saveOnce b" "detectedN (install a e b) = detectedN b"
  by (simp_all add: install_def Let_def)

lemma forget_fields [simp]:
  "cfg (forget a b) = cfg b" "trackShards (forget a b) = trackShards b"
  "blocked (forget a b) = map_delete a (blocked b)"
  "safeNets (forget a b) = safeNets b" "fwEnabled (forget a b) = fwEnabled b"
  "fwHooks (forget a b) = fwHooks b" "fwQueue (forget a b) = fwQueue b" "fwPending (forget a b) = fwPending b"
  "saveOnce (forget a b) = saveOnce b" "detectedN (forget a b) = detectedN b"
  by (simp_all add: forget_def)

lemma unlist_fields [simp]:
  "cfg (unlist a b) = cfg b" "trackShards (unlist a b) = trackShards b"
  "blocked (unlist a b) = map_delete a (blocked b)" "history (unlist a b) = history b"
  "safeNets (unlist a b) = safeNets b" "fwEnabled (unlist a b) = fwEnabled b"
  "fwHooks (unlist a b) = fwHooks b" "fwQueue (unlist a b) = fwQueue b" "fwPending (unlist a b) = fwPending b"
  "saveOnce (unlist a b) = saveOnce b" "detectedN (unlist a b) = detectedN b"
  by (simp_all add: unlist_def)

lemma view_ok_install [intro]: "view_ok b \<Longrightarrow> view_ok (install a e b)"
proof -
  assume v: "view_ok b"
  define b1 where "b1 = trimHistory (b\<lparr>blocked := map_put a e (blocked b), history := map_put a (Level e) (history b)\<rparr>)"
  have s: "shows_set b1 (set (enforced (blocked b)))"
    using v by (simp add: view_ok_shows b1_def shows_set_def)
  have h: "distinct (map fst (history b1))"
    using v unfolding b1_def by (intro distinct_trimHistory) (auto simp: view_ok_shows)
  have "blocked b1 = map_put a e (blocked b)" by (simp add: b1_def)
  moreover have "distinct (map fst (map_put a e (blocked b)))" using v by (auto simp: view_ok_shows)
  moreover have "install a e b = (if entryDry e then viewDel a b1 else viewAdd a b1)"
    by (simp add: install_def b1_def Let_def)
  ultimately show ?thesis
    using shows_viewDel [OF s, of a] shows_viewAdd [OF s, of a] h v
    by (cases "entryDry e") (simp_all add: view_ok_shows enforced_put)
qed

lemma view_ok_drop: "view_ok b \<Longrightarrow> distinct (map fst h) \<Longrightarrow>
  view_ok (viewDel a (b\<lparr>blocked := map_delete a (blocked b), history := h\<rparr>))"
  using shows_viewDel [of "b\<lparr>blocked := map_delete a (blocked b), history := h\<rparr>" "set (enforced (blocked b))" a]
    enforced_delete [of "blocked b" a]
  by (auto simp: view_ok_shows shows_set_def)

lemma view_ok_forget [intro]: "view_ok b \<Longrightarrow> view_ok (forget a b)"
  unfolding forget_def by (rule view_ok_drop) (auto simp: view_ok_shows)

lemma view_ok_unlist [intro]: "view_ok b \<Longrightarrow> view_ok (unlist a b)"
  using view_ok_drop [of b "history b" a] by (simp add: unlist_def view_ok_shows)

lemma put_shard_fields [simp]:
  "cfg (put_shard i sh b) = cfg b" "trackShards (put_shard i sh b) = (trackShards b)(i := sh)"
  "blocked (put_shard i sh b) = blocked b" "vshards (put_shard i sh b) = vshards b"
  "history (put_shard i sh b) = history b" "safeNets (put_shard i sh b) = safeNets b"
  "fwEnabled (put_shard i sh b) = fwEnabled b" "fwHooks (put_shard i sh b) = fwHooks b"
  "fwQueue (put_shard i sh b) = fwQueue b" "fwPending (put_shard i sh b) = fwPending b"
  "saveOnce (put_shard i sh b) = saveOnce b" "blockedN (put_shard i sh b) = blockedN b"
  "detectedN (put_shard i sh b) = detectedN b"
  by (simp_all add: put_shard_def)

lemma blocker_ok_put_shard:
  "blocker_ok b \<Longrightarrow> tracks_ok i sh \<Longrightarrow> blocker_ok (put_shard i sh b)"
  by (auto simp: blocker_ok_def view_ok_def)

lemma tracks_ok_dropQuiet: "tracks_ok i sh \<Longrightarrow> tracks_ok i (dropQuiet c sh)"
  by (auto simp: tracks_ok_def dropQuiet_def intro: le_trans [OF length_filter_le])

lemma tracks_ok_swept [simp]: "tracks_ok i (sh\<lparr>sweptAt := t\<rparr>) = tracks_ok i sh"
  by (simp add: tracks_ok_def)

lemma tracks_ok_put:
  assumes "tracks_ok (addrShardIndex a) sh" and "0 \<le> concurrent t"
    and "map_of (tracks sh) a \<noteq> None \<or> length (tracks sh) < maxTracksPerShard"
  shows "tracks_ok (addrShardIndex a) (sh\<lparr>tracks := map_put a t (tracks sh)\<rparr>)"
proof -
  have d: "distinct (map fst (tracks sh))" using assms(1) by (simp add: tracks_ok_def)
  have "length (map_put a t (tracks sh)) \<le> maxTracksPerShard"
  proof (cases "map_of (tracks sh) a")
    case None
    with assms show ?thesis using length_map_delete_le [of a "tracks sh"] by (simp add: map_put_def)
  next
    case (Some v)
    with length_map_delete [OF d Some] assms(1) show ?thesis by (simp add: map_put_def tracks_ok_def)
  qed
  with assms distinct_map_put [OF d, of a t] show ?thesis
    by (auto simp: tracks_ok_def map_put_def set_map_delete)
qed

text \<open>One turn of a counter: what is stored is what the caller sees, and only its shard moves.\<close>

lemma withTrack_cases:
  assumes "withTrack a now fn b = (b', t)"
  obtains (kept) sh t0 where "b' = put_shard (addrShardIndex a) (sh\<lparr>tracks := map_put a t (tracks sh)\<rparr>) b"
      "map_of (tracks sh) a \<noteq> None \<or> length (tracks sh) < maxTracksPerShard"
      "sh = trackShards b (addrShardIndex a)
       \<or> map_of (tracks (trackShards b (addrShardIndex a))) a = None \<and> (\<exists>c. sh = dropQuiet c (trackShards b (addrShardIndex a)\<lparr>sweptAt := now\<rparr>))"
      "t = fn t0" "lastSeen t0 = now"
      "concurrent t0 = (case map_of (tracks (trackShards b (addrShardIndex a))) a of Some u \<Rightarrow> concurrent u | None \<Rightarrow> 0)"
  | (passing) sh t0 where "b' = put_shard (addrShardIndex a) sh b"
      "map_of (tracks (trackShards b (addrShardIndex a))) a = None"
      "sh = trackShards b (addrShardIndex a) \<or> (\<exists>c. sh = dropQuiet c (trackShards b (addrShardIndex a)\<lparr>sweptAt := now\<rparr>))"
      "t = fn t0" "concurrent t0 = 0"
proof -
  let ?sh = "trackShards b (addrShardIndex a)"
  let ?known = "map_of (tracks ?sh) a"
  define sh1 where "sh1 = (if ?known = None \<and> length (tracks ?sh) \<ge> maxTracksPerShard \<and> now - sweptAt ?sh \<ge> time_Second
      then dropQuiet (now + wrap64 (- 2 * cfgWindow (cfg b))) (?sh\<lparr>sweptAt := now\<rparr>) else ?sh)"
  define u where "u = (case ?known of Some t \<Rightarrow> t | None \<Rightarrow> new_track now)"
  define t0 where "t0 = (if now - windowStart u \<ge> cfgWindow (cfg b) then (new_track now)\<lparr>concurrent := concurrent u\<rparr> else u)\<lparr>lastSeen := now\<rparr>"
  define keep where "keep = (?known \<noteq> None \<or> length (tracks sh1) < maxTracksPerShard)"
  have e: "t = fn t0" "b' = put_shard (addrShardIndex a) (if keep then sh1\<lparr>tracks := map_put a t (tracks sh1)\<rparr> else sh1) b"
    using assms by (auto simp: withTrack_def Let_def sh1_def u_def t0_def keep_def)
  have c: "concurrent t0 = (case ?known of Some u \<Rightarrow> concurrent u | None \<Rightarrow> 0)" "lastSeen t0 = now"
    by (auto simp: t0_def u_def new_track_def split: option.splits)
  have s: "sh1 = ?sh \<or> ?known = None \<and> (\<exists>c. sh1 = dropQuiet c (?sh\<lparr>sweptAt := now\<rparr>))" by (auto simp: sh1_def)
  show thesis
  proof (cases keep)
    case True
    have "map_of (tracks sh1) a \<noteq> None \<or> length (tracks sh1) < maxTracksPerShard"
      using True s by (auto simp: keep_def)
    with True e c s show ?thesis by (intro kept [of sh1 t0]) simp_all
  next
    case False
    then have "?known = None" by (simp add: keep_def)
    with False e c s show ?thesis by (intro passing [of sh1 t0]) auto
  qed
qed

lemma withTrack_frame:
  assumes "withTrack a now fn b = (b', t)"
  obtains sh where "b' = put_shard (addrShardIndex a) sh b"
  using assms by (cases rule: withTrack_cases) auto

lemma tracks_ok_known:
  "tracks_ok i sh \<Longrightarrow> 0 \<le> (case map_of (tracks sh) a of Some u \<Rightarrow> concurrent u | None \<Rightarrow> 0)"
  by (auto simp: tracks_ok_def split: option.splits dest!: map_of_SomeD)

lemma blocker_ok_withTrack:
  assumes "blocker_ok b" and "\<And>u. 0 \<le> concurrent u \<Longrightarrow> 0 \<le> concurrent (fn u)"
  shows "blocker_ok (fst (withTrack a now fn b))"
proof -
  obtain b' t where w: "withTrack a now fn b = (b', t)" by fastforce
  have ok: "tracks_ok (addrShardIndex a) (trackShards b (addrShardIndex a))"
    using assms(1) by (simp add: blocker_ok_def)
  from w show ?thesis
  proof (cases rule: withTrack_cases)
    case (kept sh t0)
    have "tracks_ok (addrShardIndex a) sh" using kept(3) ok by (auto intro: tracks_ok_dropQuiet)
    moreover have "0 \<le> concurrent t" using kept(4,6) assms(2) tracks_ok_known [OF ok] by simp
    ultimately show ?thesis using kept(1,2) assms(1) w by (simp add: blocker_ok_put_shard tracks_ok_put)
  next
    case (passing sh t0)
    then have "tracks_ok (addrShardIndex a) sh" using ok by (auto intro: tracks_ok_dropQuiet)
    with passing(1) assms(1) w show ?thesis by (simp add: blocker_ok_put_shard)
  qed
qed

lemma counted_nonneg [simp]:
  "0 \<le> concurrent u \<Longrightarrow> 0 \<le> concurrent (free_slot u)"
  "0 \<le> concurrent u \<Longrightarrow> 0 \<le> concurrent (count_open u)"
  "0 \<le> concurrent u \<Longrightarrow> 0 \<le> concurrent (count_close aborted u)"
  "0 \<le> concurrent u \<Longrightarrow> 0 \<le> concurrent (count_http reason u)"
  by (simp_all add: free_slot_def count_open_def count_close_def count_http_def Let_def)

lemma blocker_ok_gc: "blocker_ok b \<Longrightarrow> blocker_ok (gcTracks now b)"
proof -
  have "blocker_ok b \<Longrightarrow> blocker_ok (fold (\<lambda>i b. put_shard i (dropQuiet c (trackShards b i)) b) is b)" for c "is" b
  proof (induction "is" arbitrary: b)
    case (Cons i "is")
    have "tracks_ok i (dropQuiet c (trackShards b i))"
      using Cons.prems by (intro tracks_ok_dropQuiet) (simp add: blocker_ok_def)
    with Cons show ?case by (simp add: blocker_ok_put_shard)
  qed simp
  then show "blocker_ok b \<Longrightarrow> blocker_ok (gcTracks now b)" by (simp add: gcTracks_def Let_def)
qed

lemma blocker_ok_view:
  "blocker_ok b \<Longrightarrow> view_ok b' \<Longrightarrow> trackShards b' = trackShards b \<Longrightarrow> fwQueue b' = fwQueue b \<Longrightarrow> blocker_ok b'"
  by (simp add: blocker_ok_def)

lemma blocker_ok_install [intro]: "blocker_ok b \<Longrightarrow> blocker_ok (install a e b)"
  by (rule blocker_ok_view) (auto simp: blocker_ok_def)

lemma blocker_ok_forget [intro]: "blocker_ok b \<Longrightarrow> blocker_ok (forget a b)"
  by (rule blocker_ok_view) (auto simp: blocker_ok_def)

lemma blocker_ok_unlist [intro]: "blocker_ok b \<Longrightarrow> blocker_ok (unlist a b)"
  by (rule blocker_ok_view) (auto simp: blocker_ok_def)

lemma blocker_ok_flags [simp]:
  "blocker_ok (b\<lparr>detectedN := n\<rparr>) = blocker_ok b" "blocker_ok (b\<lparr>saveOnce := s\<rparr>) = blocker_ok b"
  "blocker_ok (b\<lparr>safeNets := ns\<rparr>) = blocker_ok b" "blocker_ok (b\<lparr>fwEnabled := f\<rparr>) = blocker_ok b"
  "blocker_ok (b\<lparr>fwHooks := h\<rparr>) = blocker_ok b" "blocker_ok (b\<lparr>fwPending := p\<rparr>) = blocker_ok b"
  by (simp_all add: blocker_ok_def view_ok_def)

lemma blocker_ok_queue:
  "blocker_ok b \<Longrightarrow> length q \<le> fwQueueCap \<Longrightarrow> blocker_ok (b\<lparr>fwQueue := q\<rparr>)"
  by (simp add: blocker_ok_def view_ok_def)

lemma blocker_ok_queueAdd [intro]: "blocker_ok b \<Longrightarrow> blocker_ok (queueAdd ip b)"
  by (simp add: queueAdd_def blocker_ok_queue)

lemma blocker_ok_queueRemove [intro]: "blocker_ok b \<Longrightarrow> blocker_ok (queueRemove ip b)"
  by (simp add: queueRemove_def blocker_ok_queue)

lemma blocker_ok_requestSave [simp]: "blocker_ok (requestSave b) = blocker_ok b"
  by (simp add: requestSave_def)

lemma blocker_ok_apply [intro]: "blocker_ok b \<Longrightarrow> blocker_ok (apply_block now a r h l d b)"
  by (auto simp: apply_block_def Let_def)

lemma blocker_ok_trip [intro]: "blocker_ok b \<Longrightarrow> blocker_ok (trip now now' a r h b)"
  by (auto simp: trip_def Let_def)

lemma blocker_ok_fold: "(\<And>x b. blocker_ok b \<Longrightarrow> blocker_ok (f x b)) \<Longrightarrow> blocker_ok b \<Longrightarrow> blocker_ok (fold f xs b)"
  by (induction xs arbitrary: b) simp_all

lemma blocker_ok_retry: "blocker_ok b \<Longrightarrow> blocker_ok (retry_from ips b)"
proof (induction ips b rule: retry_from.induct)
  case (2 ip ips b)
  then show ?case using blocker_ok_queue [of b "fwQueue b @ [FwRemove ip]"] by simp
qed simp

lemma blocker_ok_track_then:
  assumes "withTrack a now fn b = (b', t)" and "blocker_ok b"
    and "\<And>u. 0 \<le> concurrent u \<Longrightarrow> 0 \<le> concurrent (fn u)"
  shows "blocker_ok b'"
  using blocker_ok_withTrack [of b fn a now] assms by simp

lemma blocker_ok_Block [intro]: "blocker_ok b \<Longrightarrow> blocker_ok (snd (Block now ip r d b))"
  by (auto simp: Block_def Let_def split: option.splits)

lemma blocker_ok_Unblock [intro]: "blocker_ok b \<Longrightarrow> blocker_ok (snd (Unblock ip b))"
  by (auto simp: Unblock_def Let_def split: option.splits)

lemma blocker_ok_lift_expired [intro]: "blocker_ok b \<Longrightarrow> blocker_ok (fst (lift_expired now b))"
  by (auto simp: lift_expired_def Let_def intro: blocker_ok_fold)

lemma blocker_ok_lift_safe [intro]: "blocker_ok b \<Longrightarrow> blocker_ok (fst (lift_safe b))"
  by (auto simp: lift_safe_def Let_def intro: blocker_ok_fold)

lemma blocker_ok_liftSafe [intro]: "blocker_ok b \<Longrightarrow> blocker_ok (liftSafeBlocks b)"
  using blocker_ok_lift_safe [of b] by (auto simp: liftSafeBlocks_def Let_def split: prod.splits intro!: blocker_ok_fold)

lemma blocker_ok_SetWhitelist [intro]: "blocker_ok b \<Longrightarrow> blocker_ok (SetWhitelist es b)"
  by (simp add: SetWhitelist_def blocker_ok_liftSafe)

lemma blocker_ok_expire [intro]: "blocker_ok b \<Longrightarrow> blocker_ok (expire now b)"
  using blocker_ok_lift_expired [of b now]
  by (auto simp: expire_def Let_def retryPendingRemoves_def split: prod.splits intro!: blocker_ok_retry blocker_ok_fold)

lemma blocker_ok_trip_conn: "blocker_ok b \<Longrightarrow> blocker_ok (trip_conn clk a r h b)"
  using blocker_ok_withTrack [of b free_slot] by (auto simp: trip_conn_def)

lemma blocker_ok_ConnOpened [intro]: "blocker_ok b \<Longrightarrow> blocker_ok (fst (ConnOpened clk a b))"
  by (auto simp: ConnOpened_def Let_def split: prod.splits dest: blocker_ok_track_then intro!: blocker_ok_trip_conn)

lemma blocker_ok_close_safe: "blocker_ok b \<Longrightarrow> blocker_ok (close_safe a b)"
proof -
  assume ok: "blocker_ok b"
  then have t: "tracks_ok (addrShardIndex a) (trackShards b (addrShardIndex a))" by (simp add: blocker_ok_def)
  have "tracks_ok (addrShardIndex a) (trackShards b (addrShardIndex a)
      \<lparr>tracks := map_put a (free_slot u) (tracks (trackShards b (addrShardIndex a)))\<rparr>)"
    if "map_of (tracks (trackShards b (addrShardIndex a))) a = Some u" for u
    using tracks_ok_put [OF t, of "free_slot u"] tracks_ok_known [OF t, of a] that by simp
  with ok show ?thesis by (auto simp: close_safe_def Let_def blocker_ok_put_shard split: option.splits)
qed

lemma blocker_ok_ConnClosed [intro]: "blocker_ok b \<Longrightarrow> blocker_ok (ConnClosed clk a ab b)"
  by (auto simp: ConnClosed_def split: prod.splits dest: blocker_ok_track_then intro!: blocker_ok_close_safe)

lemma blocker_ok_RecordHTTP [intro]: "blocker_ok b \<Longrightarrow> blocker_ok (RecordHTTP clk r reason b)"
  by (auto simp: RecordHTTP_def Let_def split: option.splits prod.splits dest: blocker_ok_track_then)

section \<open>Loading and construction\<close>

lemma distinct_enforced_length: "distinct (map fst bl) \<Longrightarrow> distinct (enforced bl)"
  unfolding enforced_def by (rule distinct_filter_keys)

lemma view_ok_publish:
  "distinct (map fst (blocked b)) \<Longrightarrow> distinct (map fst (history b)) \<Longrightarrow> view_ok (publish b)"
  by (auto simp: view_ok_def publish_def distinct_enforced_length)

definition loading :: "Blocker \<Rightarrow> bool" where
  "loading b \<longleftrightarrow> distinct (map fst (blocked b)) \<and> distinct (map fst (history b))
     \<and> (\<forall>i. tracks_ok i (trackShards b i)) \<and> length (fwQueue b) \<le> fwQueueCap"

lemma loading_publish: "loading b \<Longrightarrow> blocker_ok (publish b)"
  using view_ok_publish [of b] by (simp add: loading_def blocker_ok_def) (simp add: publish_def)

lemma loading_block: "loading b \<Longrightarrow> loading (load_block now e b)"
  by (auto simp: loading_def load_block_def split: option.splits)

lemma loading_level: "loading b \<Longrightarrow> loading (load_level x b)"
  by (cases x) (auto simp: loading_def load_level_def split: option.splits)

lemma loading_folds:
  "loading b \<Longrightarrow> loading (fold load_level hs (fold (load_block now) es b))"
proof -
  have f: "(\<And>x b. loading b \<Longrightarrow> loading (f x b)) \<Longrightarrow> loading b \<Longrightarrow> loading (fold f xs b)" for f b and xs :: "'x list"
    by (induction xs arbitrary: b) simp_all
  have "loading (fold load_level hs b)" if "loading b" for b hs
    using that by (induction hs arbitrary: b) (simp_all add: loading_level)
  moreover have "loading (fold (load_block now) es b)" if "loading b" for b es
    using that by (induction es arbitrary: b) (simp_all add: loading_block)
  ultimately show "loading b \<Longrightarrow> loading (fold load_level hs (fold (load_block now) es b))" by blast
qed

lemma blocker_ok_load: "blocker_ok b \<Longrightarrow> blocker_ok (loadState now st b)"
proof (cases st)
  case (Some p)
  assume "blocker_ok b"
  then have "loading b" by (simp add: loading_def blocker_ok_def view_ok_def)
  then show ?thesis using Some loading_publish [OF loading_folds] by (simp add: loadState_def)
qed (simp add: loadState_def)

lemma blocker_ok_New: "blocker_ok (NewBlocker now c st)"
proof -
  have "blocker_ok (publish (empty_blocker c'))" for c'
    by (rule loading_publish) (simp add: loading_def empty_blocker_def tracks_ok_def)
  then show ?thesis by (simp add: NewBlocker_def Let_def blocker_ok_load blocker_ok_SetWhitelist)
qed

section \<open>What the view answers\<close>

text \<open>
  The sharded view with its counter, read without the blocker's mutex, answers what the block list
  says.
\<close>

lemma Blocked_exact:
  assumes "blocker_ok b"
  shows "Blocked b a \<longleftrightarrow> Enabled (cfg b) \<and> \<not> Safe b a
    \<and> (\<exists>e. map_of (blocked b) (Unmap a) = Some e \<and> \<not> entryDry e)"
proof -
  have d: "distinct (map fst (blocked b))"
    and v: "set (vshards b (addrShardIndex (Unmap a))) = {x \<in> set (enforced (blocked b)). addrShardIndex x = addrShardIndex (Unmap a)}"
    and n: "blockedN b = int (length (enforced (blocked b)))"
    using assms by (auto simp: blocker_ok_def view_ok_def)
  have "Unmap a \<in> set (enforced (blocked b)) \<Longrightarrow> blockedN b \<noteq> 0" using n by auto
  then show ?thesis using in_enforced [OF d, of "Unmap a"] by (auto simp: Blocked_def v)
qed

end
