(* ===== verification/Autoblock_Policy.thy ===== *)
theory Autoblock_Policy
  imports Autoblock
begin

text \<open>
  What the policy of the blocker promises: how long a repeat offender is blocked, which addresses are
  never blocked, and what a restart restores from the state file.
\<close>

section \<open>Escalation\<close>

lemma escalate_exact:
  "0 < d \<Longrightarrow> d \<le> mx \<Longrightarrow> mx < 2 ^ 62 \<Longrightarrow> escalate n d mx = min (d * 4 ^ n) mx"
proof (induction n d mx rule: escalate.induct)
  case (1 d mx)
  then show ?case by simp
next
  case (2 n d mx)
  define ns :: u64 where "ns = word_of_int d * 4"
  have w: "ns = word_of_int (d * 4)" by (simp add: ns_def)
  have u: "uint ns = d * 4" unfolding w by (subst unsigned_of_int) (use 2(2-4) in \<open>simp add: take_bit_eq_mod\<close>)
  have m: "uint (word_of_int mx :: u64) = mx" by (subst unsigned_of_int) (use 2(2-4) in \<open>simp add: take_bit_eq_mod\<close>)
  show ?case
  proof (cases "d * 4 \<ge> mx")
    case True
    have "d * 4 * 1 \<le> d * 4 * 4 ^ n" using 2(2) by (intro mult_left_mono) simp_all
    with True have "min (d * 4 ^ Suc n) mx = mx" by (simp add: algebra_simps)
    with True show ?thesis by (simp add: Let_def ns_def [symmetric] word_le_def u m)
  next
    case False
    have s: "sint ns = d * 4" using 2(2-4) False unfolding w by (subst signed_of_int) (simp add: signed_take_bit_int_eq_self)
    have "escalate n (sint ns) mx = min (sint ns * 4 ^ n) mx"
      by (rule 2(1) [unfolded Let_def, folded ns_def]) (use False 2(2-4) s u m in \<open>simp_all add: ns_def word_le_def\<close>)
    with False show ?thesis by (simp add: Let_def ns_def [symmetric] word_le_def u m s algebra_simps)
  qed
qed

lemma Normalize_durations:
  "0 < BlockDuration (Normalize c)" "BlockDuration (Normalize c) \<le> MaxBlockDuration (Normalize c)"
  "0 < cfgWindow (Normalize c)" "Escalate (Normalize c) = Escalate c"
  by (auto simp: Normalize_def Let_def time_Minute_def time_Second_def)

text \<open>
  The \<open>n\<close>-th offence of an address is blocked for the base duration times \<open>4^(n-1)\<close>, cut at the
  configured maximum, whatever the level: no level overflows the 64-bit product, provided the
  maximum is below \<open>2^62\<close> nanoseconds (146 years).
\<close>

theorem escalated_exact:
  assumes "MaxBlockDuration (Normalize c) < 2 ^ 62"
  shows "escalated (Normalize c) level
    = (if Escalate c then min (BlockDuration (Normalize c) * 4 ^ nat (level - 1)) (MaxBlockDuration (Normalize c))
       else BlockDuration (Normalize c))"
  using escalate_exact [OF Normalize_durations(1,2) assms] Normalize_durations(2) [of c]
  by (cases "level \<le> 1") (simp_all add: escalated_def Normalize_durations(4))

definition example_policy :: AutoConfig where
  "example_policy =
     \<lparr>Enabled = True, cfgWindow = time_Minute, MaxConnections = 600, MaxAborts = 60, MaxConcurrent = 150,
      MaxWAFHits = 15, MaxRateHits = 120, MaxNotFound = 200, BlockDuration = 15 * time_Minute,
      MaxBlockDuration = 24 * 60 * time_Minute, Escalate = True, DryRun = False, Whitelist = [''203.0.113.0/24''],
      FirewallSync = True, FeedRateHits = True, PersistPath = ''/var/lib/uwas/autoblock.json''\<rparr>"

lemma escalated_exact_witness:
  "escalated (Normalize example_policy) 3 = 240 * time_Minute
   \<and> escalated (Normalize example_policy) 50 = 1440 * time_Minute"
  using escalated_exact [of example_policy 3] escalated_exact [of example_policy 50]
  by (simp add: example_policy_def Normalize_def Let_def time_Minute_def time_Second_def)

text \<open>At the maximum of \<open>2^62\<close> the product wraps to zero and the second offence is not blocked at all.\<close>

lemma escalated_wraps:
  "escalated (Normalize (example_policy\<lparr>BlockDuration := 2 ^ 62, MaxBlockDuration := 2 ^ 62\<rparr>)) 2 = 0"
  by (simp add: example_policy_def Normalize_def Let_def escalated_def word_le_def uint_word_of_int)

section \<open>Keys\<close>

text \<open>The addresses the code uses as keys: unmapped, and printed to a text that is read back.\<close>

definition key_addr :: "netip_addr \<Rightarrow> bool" where
  "key_addr a \<longleftrightarrow> addr_wf a \<and> \<not> Is4In6 a"

lemma ParseRemote_key: "ParseRemote s = Some a \<Longrightarrow> key_addr a"
proof -
  have "ParseAddrPort s = Some (a', p) \<Longrightarrow> addr_wf a'" for a' p
    by (auto simp: ParseAddrPort_def Let_def dest: ParseAddr_wf split: option.splits if_splits)
  then show "ParseRemote s = Some a \<Longrightarrow> key_addr a"
    by (auto simp: ParseRemote_def key_addr_def dest!: ParseAddr_wf split: if_splits option.splits)
qed

lemma ParseAddr_v6_text:
  assumes "v6_text p" and "CHR '':'' \<in> set p \<or> t = []" and "ParseAddr (p @ t) = Some a"
  shows "BitLen a = 128"
  using assms by (auto simp: ParseAddr_find find_v6_text dest: parseIPv6_length split: option.splits if_splits)

lemma ParseAddrPort_bare:
  assumes "key_addr a"
  shows "ParseAddrPort (AddrString a) = None"
proof (cases a)
  case (Addr4 b)
  then obtain w x y z where b: "b = [w, x, y, z]" using assms by (auto simp: key_addr_def elim: length_4E)
  have "CHR '':'' \<notin> set (Itoa n)" for n using Itoa_digits [of n] by (auto simp: list_all_iff is_digit_def)
  then have "CHR '':'' \<notin> set (AddrString a)" by (simp add: Addr4 b dotted_def)
  then have "LastIndexByte (AddrString a) CHR '':'' = None" by (simp add: LastIndexByte_def IndexByte_absent)
  then show ?thesis by (simp add: ParseAddrPort_def)
next
  case (Addr6 b z)
  let ?s = "string6 b @ zone_text z"
  have s: "AddrString a = ?s" and len: "length b = 16" using assms Addr6 by (simp_all add: key_addr_def)
  have "ParseAddrPort ?s = None"
  proof (cases "LastIndexByte ?s CHR '':''")
    case None
    then show ?thesis by (simp add: ParseAddrPort_def)
  next
    case (Some i)
    define p t where "p = take i (string6 b)" and "t = take (i - length (string6 b)) (zone_text z)"
    have ip: "take i ?s = p @ t" by (simp add: p_def t_def)
    have v6: "v6_text p" using v6_text_string6 [of b] by (auto simp: p_def v6_text_def list_all_iff dest: in_set_takeD)
    have "CHR '':'' \<in> set p \<or> t = []"
      using colon_string6 [OF len] by (cases "i \<le> length (string6 b)") (simp_all add: p_def t_def)
    then have fam: "BitLen a' = 128" if "ParseAddr (p @ t) = Some a'" for a'
      using ParseAddr_v6_text [OF v6 _ that] by simp
    have "hd (p @ t) \<noteq> CHR ''[''" if ne: "p @ t \<noteq> []"
    proof -
      have "p \<noteq> []" using ne colon_string6 [OF len] by (auto simp: p_def t_def)
      then have "hd p \<in> set p" by simp
      then have "is_hex (hd p) \<or> hd p = CHR '':''" using v6 by (simp add: v6_text_def list_all_iff)
      with \<open>p \<noteq> []\<close> is_hex_punct(4) show ?thesis by auto
    qed
    with Some ip fam show ?thesis by (auto simp: ParseAddrPort_def Let_def split: option.splits)
  qed
  with s show ?thesis by simp
qed

lemma ParseRemote_AddrString:
  assumes "key_addr a"
  shows "ParseRemote (AddrString a) = Some a"
proof -
  have p: "ParseAddr (AddrString a) = Some a" using assms by (simp add: key_addr_def ParseAddr_AddrString)
  then have "AddrString a \<noteq> []" by (auto simp: ParseAddr_def)
  then show ?thesis using p ParseAddrPort_bare [OF assms] assms by (simp add: ParseRemote_def key_addr_def)
qed

lemma AddrString_inj: "key_addr a \<Longrightarrow> key_addr a' \<Longrightarrow> AddrString a = AddrString a' \<Longrightarrow> a = a'"
  by (metis ParseRemote_AddrString option.inject)

section \<open>The never-block list\<close>

text \<open>An address lies in a network when it has its family and shares its leading bits.\<close>

definition in_prefix :: "Prefix \<Rightarrow> netip_addr \<Rightarrow> bool" where
  "in_prefix p a \<longleftrightarrow> AddrZone a = [] \<and> BitLen (prefixAddr p) = BitLen a
     \<and> take (prefixBits p) (ip_bits (AddrBytes a)) = take (prefixBits p) (ip_bits (AddrBytes (prefixAddr p)))"

lemma BitLen_bytes: "addr_wf a \<Longrightarrow> BitLen a = 8 * length (AddrBytes a)"
  by (cases a) auto

lemma PrefixContains_bits:
  assumes "addr_wf a" and "addr_wf (prefixAddr p)"
  shows "PrefixContains p a \<longleftrightarrow> in_prefix p a"
  using masked_eq_bits [of "AddrBytes a" "length (AddrBytes a)" "AddrBytes (prefixAddr p)" "prefixBits p"]
    BitLen_bytes [OF assms(1)] BitLen_bytes [OF assms(2)]
  by (auto simp: PrefixContains_def in_prefix_def)

lemma and_bytes_idem: "and_bytes (and_bytes x m) m = and_bytes x m"
  by (induction x m rule: list_induct2') (simp_all add: and_bytes_def and.assoc)

lemma Contains_Masked: "PrefixContains (Masked p) a = PrefixContains p a"
  by (cases "prefixAddr p"; cases a) (simp_all add: PrefixContains_def Masked_def and_bytes_idem)

text \<open>The network an entry of the list stands for: its prefix, or the address alone.\<close>

definition entry_net :: "string \<Rightarrow> Prefix option" where
  "entry_net raw =
     (case ParsePrefix raw of
        Some p \<Rightarrow> Some (if Is4In6 (prefixAddr p) \<and> prefixBits p \<ge> 96
                         then PrefixFrom (Unmap (prefixAddr p)) (prefixBits p - 96) else p)
      | None \<Rightarrow> map_option (\<lambda>a. PrefixFrom (Unmap a) (BitLen (Unmap a))) (ParseAddr raw))"

definition builtin_nets :: "string list" where
  "builtin_nets =
     [''127.0.0.0/8'', ''::1/128'', ''10.0.0.0/8'', ''172.16.0.0/12'', ''192.168.0.0/16'',
      ''169.254.0.0/16'', ''fe80::/10'', ''fc00::/7'', ''0.0.0.0/32'', ''::/128'']"

definition exempt :: "string list \<Rightarrow> netip_addr \<Rightarrow> bool" where
  "exempt entries a \<longleftrightarrow> (\<exists>raw \<in> set (builtin_nets @ entries). \<exists>p. entry_net raw = Some p
     \<and> in_prefix p (WithoutZone (Unmap a)))"

lemma ParsePrefix_wf: "ParsePrefix s = Some p \<Longrightarrow> addr_wf (prefixAddr p)"
  by (auto simp: ParsePrefix_def Let_def dest: ParseAddr_wf split: option.splits if_splits)

lemma addr_wf_WithoutZone [simp]: "addr_wf (WithoutZone a) = addr_wf a"
  by (cases a) auto

lemma entry_net_wf: "entry_net raw = Some p \<Longrightarrow> addr_wf (prefixAddr p)"
  by (auto simp: entry_net_def PrefixFrom_def dest: ParseAddr_wf ParsePrefix_wf split: option.splits if_splits)

lemma whitelistNet_contains:
  assumes "addr_wf a"
  shows "(\<exists>p. whitelistNet raw = Some p \<and> PrefixContains p a) \<longleftrightarrow> (\<exists>p. entry_net raw = Some p \<and> in_prefix p a)"
proof -
  have "(\<exists>p. whitelistNet raw = Some p \<and> PrefixContains p a) \<longleftrightarrow> (\<exists>p. entry_net raw = Some p \<and> PrefixContains p a)"
    by (auto simp: whitelistNet_def entry_net_def Let_def Contains_Masked split: option.splits)
  then show ?thesis using PrefixContains_bits [OF assms] entry_net_wf by blast
qed

lemma defaultSafeNets_builtin: "defaultSafeNets = List.map_filter whitelistNet builtin_nets"
  by code_simp

lemma set_map_filter: "set (List.map_filter f xs) = {y. \<exists>x \<in> set xs. f x = Some y}"
  by (force simp: List.map_filter_def)

lemma exempt_nets:
  assumes "addr_wf a" and "safeNets b = Some (defaultSafeNets @ List.map_filter whitelistNet entries)"
  shows "Safe b a \<longleftrightarrow> exempt entries a"
proof -
  have wf: "addr_wf (WithoutZone (Unmap a))" using assms(1) by simp
  have "Safe b a \<longleftrightarrow> (\<exists>p \<in> set (List.map_filter whitelistNet (builtin_nets @ entries)). PrefixContains p (WithoutZone (Unmap a)))"
    using assms(2) by (auto simp: Safe_def list_ex_iff defaultSafeNets_builtin map_filter_append)
  also have "\<dots> \<longleftrightarrow> exempt entries a"
    using whitelistNet_contains [OF wf] unfolding exempt_def set_map_filter by blast
  finally show ?thesis .
qed

lemma Safe_cong: "safeNets b' = safeNets b \<Longrightarrow> Safe b' a = Safe b a"
  by (simp add: Safe_def)

lemma fold_forget:
  "cfg (fold forget ks b) = cfg b" "safeNets (fold forget ks b) = safeNets b"
  "map_of (blocked (fold forget ks b)) = (\<lambda>a. if a \<in> set ks then None else map_of (blocked b) a)"
  by (induction ks arbitrary: b) (auto simp: fun_eq_iff)

lemma fold_queueRemove:
  "cfg (fold queueRemove ips b) = cfg b" "safeNets (fold queueRemove ips b) = safeNets b"
  "blocked (fold queueRemove ips b) = blocked b"
  by (induction ips arbitrary: b) (simp_all add: queueRemove_def)

lemma SetWhitelist_effect:
  assumes "blocker_ok b"
  shows "safeNets (SetWhitelist es b) = Some (defaultSafeNets @ List.map_filter whitelistNet es)"
    and "cfg (SetWhitelist es b) = cfg b"
    and "map_of (blocked (SetWhitelist es b)) a = (if Safe (SetWhitelist es b) a then None else map_of (blocked b) a)"
proof -
  define b0 where "b0 = b\<lparr>safeNets := Some (defaultSafeNets @ List.map_filter whitelistNet es)\<rparr>"
  define ks where "ks = map fst (filter (\<lambda>(a, e). Safe b0 a) (blocked b0))"
  define ips where "ips = map (entryIP \<circ> snd) (filter (\<lambda>(a, e). Safe b0 a) (blocked b0))"
  define b1 where "b1 = fold queueRemove ips (fold forget ks b0)"
  have s: "SetWhitelist es b = (if ips = [] then b1 else requestSave b1)"
    by (simp add: SetWhitelist_def b0_def [symmetric] liftSafeBlocks_def lift_safe_def Let_def ks_def ips_def b1_def)
  have n: "safeNets b1 = safeNets b0" "cfg b1 = cfg b"
    by (simp_all add: b1_def fold_queueRemove fold_forget) (simp add: b0_def)
  then show "safeNets (SetWhitelist es b) = Some (defaultSafeNets @ List.map_filter whitelistNet es)"
    and "cfg (SetWhitelist es b) = cfg b" by (simp_all add: s requestSave_def b0_def)
  have "map_of (blocked b1) a = (if a \<in> set ks then None else map_of (blocked b) a)"
    by (simp add: b1_def fold_queueRemove fold_forget) (simp add: b0_def)
  moreover have "a \<in> set ks \<longleftrightarrow> Safe b0 a \<and> map_of (blocked b) a \<noteq> None"
    by (force simp: ks_def b0_def map_of_eq_None_iff image_iff)
  moreover have "Safe (SetWhitelist es b) a = Safe b0 a"
    using n by (intro Safe_cong) (simp add: s requestSave_def)
  ultimately show "map_of (blocked (SetWhitelist es b)) a = (if Safe (SetWhitelist es b) a then None else map_of (blocked b) a)"
    by (auto simp: s requestSave_def)
qed

text \<open>
  C35. A refreshed whitelist takes effect at once and completely. From then on an address of the built-in
  ranges (loopback, private, link-local, unspecified) or of any listed network or address is served
  by the listener, never reported as blocked, refused by the manual block and not counted by the HTTP
  guards, and no block on it is left; a block on any other address stays as it was. Membership is
  equality of family and leading bits, with zones stripped and mapped addresses unmapped.
\<close>

theorem whitelist_protects:
  assumes "blocker_ok b" and "addr_wf a"
  shows "if exempt es a then
       ConnOpened clk a (SetWhitelist es b) = (SetWhitelist es b, True)
       \<and> \<not> Blocked (SetWhitelist es b) a
       \<and> map_of (blocked (SetWhitelist es b)) (Unmap a) = None
       \<and> (\<forall>ip. ParseRemote ip = Some (Unmap a)
            \<longrightarrow> Block now ip r d (SetWhitelist es b) = (Some RefusedSafe, SetWhitelist es b)
              \<and> RecordHTTP clk ip reason (SetWhitelist es b) = SetWhitelist es b)
     else map_of (blocked (SetWhitelist es b)) (Unmap a) = map_of (blocked b) (Unmap a)"
proof -
  let ?b = "SetWhitelist es b"
  have s: "Safe ?b a = exempt es a" by (rule exempt_nets [OF assms(2) SetWhitelist_effect(1) [OF assms(1)]])
  have u: "Safe ?b (Unmap a) = Safe ?b a" by (simp add: Safe_def split: option.split)
  note m = SetWhitelist_effect(3) [OF assms(1), of es "Unmap a"]
  show ?thesis
    using s u m by (auto simp: ConnOpened_def Blocked_def Block_def RecordHTTP_def)
qed

lemma whitelist_protects_witness:
  "let b = NewBlocker 0 example_policy None; a = Addr6 (v4InV6Prefix @ [198, 51, 100, 7]) [] in
     blocker_ok b \<and> exempt [''198.51.100.0/24''] a
     \<and> snd (ConnOpened (\<lambda>i. int i) a (SetWhitelist [''198.51.100.0/24''] b))"
proof -
  let ?a = "Addr6 (v4InV6Prefix @ [198, 51, 100, 7]) []" and ?b = "NewBlocker 0 example_policy None"
  have "entry_net ''198.51.100.0/24'' = Some \<lparr>prefixAddr = Addr4 [198, 51, 100, 0], prefixBits = 24\<rparr>" by code_simp
  moreover have "in_prefix \<lparr>prefixAddr = Addr4 [198, 51, 100, 0], prefixBits = 24\<rparr> (WithoutZone (Unmap ?a))"
    by code_simp
  ultimately have "exempt [''198.51.100.0/24''] ?a" by (auto simp: exempt_def)
  moreover have "addr_wf ?a" by (simp add: v4InV6Prefix_def)
  ultimately show ?thesis
    using whitelist_protects [OF blocker_ok_New, of ?a "[''198.51.100.0/24'']" "\<lambda>i. int i" 0 example_policy None]
    by (simp add: blocker_ok_New)
qed

section \<open>Restart\<close>

text \<open>Every key is an unmapped address, and every entry prints its own key.\<close>

definition keys_ok :: "Blocker \<Rightarrow> bool" where
  "keys_ok b \<longleftrightarrow> (\<forall>(a, e) \<in> set (blocked b). key_addr a \<and> entryIP e = AddrString a)
     \<and> (\<forall>(a, l) \<in> set (history b). key_addr a)"

lemma load_block_effect:
  assumes "key_addr a" and "entryIP e = AddrString a"
  shows "load_block now e b =
    (if Expired now e \<or> Safe b a then
       (if Firewall e \<and> \<not> entryDry e then b\<lparr>fwPending := List.insert (AddrString a) (fwPending b)\<rparr> else b)
     else b\<lparr>blocked := map_put a e (blocked b)\<rparr>)"
  using assms by (simp add: load_block_def ParseRemote_AddrString)

lemma load_blocks_frame:
  "safeNets (fold (load_block now) es b) = safeNets b \<and> history (fold (load_block now) es b) = history b
     \<and> cfg (fold (load_block now) es b) = cfg b"
proof (induction es arbitrary: b)
  case (Cons e es)
  have "safeNets (load_block now e b) = safeNets b \<and> history (load_block now e b) = history b \<and> cfg (load_block now e b) = cfg b"
    by (auto simp: load_block_def split: option.splits)
  with Cons show ?case by simp
qed simp

lemma load_blocks_map:
  assumes "\<forall>(a, e) \<in> set bl. key_addr a \<and> entryIP e = AddrString a" and "distinct (map fst bl)"
  shows "map_of (blocked (fold (load_block now) (map snd bl) b)) a
      = (case map_of bl a of Some e \<Rightarrow> if Expired now e \<or> Safe b a then map_of (blocked b) a else Some e
                           | None \<Rightarrow> map_of (blocked b) a)"
  using assms
proof (induction bl arbitrary: b)
  case Nil
  then show ?case by simp
next
  case (Cons kv bl)
  obtain k e where kv: "kv = (k, e)" by (cases kv)
  have k: "key_addr k" "entryIP e = AddrString k" using Cons.prems(1) kv by auto
  let ?b = "load_block now e b"
  note eff = load_block_effect [OF k, of now b]
  have s: "Safe ?b x = Safe b x" for x by (rule Safe_cong) (simp add: eff)
  have m: "map_of bl k = None" using Cons.prems(2) kv by (simp add: map_of_eq_None_iff)
  have bb: "map_of (blocked ?b) x
      = (if x = k \<and> \<not> (Expired now e \<or> Safe b k) then Some e else map_of (blocked b) x)" for x by (simp add: eff)
  have "map_of (blocked (fold (load_block now) (map snd bl) ?b)) a
      = (case map_of bl a of Some e \<Rightarrow> if Expired now e \<or> Safe ?b a then map_of (blocked ?b) a else Some e
                           | None \<Rightarrow> map_of (blocked ?b) a)"
    by (rule Cons.IH) (use Cons.prems kv in auto)
  then show ?case unfolding s by (cases "a = k") (simp_all add: kv bb m split: option.split)
qed

lemma load_blocks_pending:
  assumes "\<forall>(a, e) \<in> set bl. key_addr a \<and> entryIP e = AddrString a"
  shows "x \<in> set (fwPending (fold (load_block now) (map snd bl) b)) \<longleftrightarrow>
      x \<in> set (fwPending b) \<or> (\<exists>(a, e) \<in> set bl. x = AddrString a \<and> (Expired now e \<or> Safe b a) \<and> Firewall e \<and> \<not> entryDry e)"
  using assms
proof (induction bl arbitrary: b)
  case Nil
  then show ?case by simp
next
  case (Cons kv bl)
  obtain k e where kv: "kv = (k, e)" by (cases kv)
  have k: "key_addr k" "entryIP e = AddrString k" using Cons.prems(1) kv by auto
  let ?b = "load_block now e b"
  note eff = load_block_effect [OF k, of now b]
  have s: "Safe ?b x = Safe b x" for x by (rule Safe_cong) (simp add: eff)
  have "x \<in> set (fwPending ?b) \<longleftrightarrow> x \<in> set (fwPending b)
      \<or> x = AddrString k \<and> (Expired now e \<or> Safe b k) \<and> Firewall e \<and> \<not> entryDry e" by (auto simp: eff)
  then show ?case using Cons.prems Cons.IH [of ?b] by (auto simp: kv s)
qed

lemma load_levels:
  assumes "\<forall>(a, l) \<in> set hs. key_addr a" and "distinct (map fst hs)"
  shows "map_of (history (fold load_level (map (\<lambda>(a, l). (AddrString a, l)) hs) b)) a
      = (case map_of hs a of Some l \<Rightarrow> Some l | None \<Rightarrow> map_of (history b) a)"
  using assms
proof (induction hs arbitrary: b)
  case (Cons kv hs)
  obtain k l where kv: "kv = (k, l)" by (cases kv)
  have "key_addr k" using Cons.prems(1) kv by auto
  then have "load_level (AddrString k, l) b = b\<lparr>history := map_put k l (history b)\<rparr>"
    by (simp add: load_level_def ParseRemote_AddrString)
  moreover have "map_of hs k = None" using Cons.prems(2) kv by (simp add: map_of_eq_None_iff)
  ultimately show ?case using Cons.prems Cons.IH [of "b\<lparr>history := map_put k l (history b)\<rparr>"]
    by (auto simp: kv split: option.splits)
qed simp

lemma load_levels_frame:
  "blocked (fold load_level hs b) = blocked b \<and> fwPending (fold load_level hs b) = fwPending b
   \<and> safeNets (fold load_level hs b) = safeNets b"
  by (induction hs arbitrary: b) (auto simp: load_level_def split: option.splits)

lemma SetWhitelist_empty:
  "blocked b = [] \<Longrightarrow> SetWhitelist es b = b\<lparr>safeNets := Some (defaultSafeNets @ List.map_filter whitelistNet es)\<rparr>"
  by (simp add: SetWhitelist_def liftSafeBlocks_def lift_safe_def)

text \<open>
  C36. A restart restores what was enforced. Loading the state a blocker saved gives back, under the new
  whitelist, exactly the entries that have not lapsed and are not exempt, with the escalation level of
  every address; the kernel rules of the others are parked for removal if the file says they were
  installed; and the new blocker refuses exactly the restored addresses that are enforced.
\<close>

theorem autoblock_restart:
  assumes "blocker_ok b" and "keys_ok b" and "key_addr a"
  shows "map_of (blocked (NewBlocker now c (Some (snapshot t b)))) a
       = (case map_of (blocked b) a of
            Some e \<Rightarrow> if Expired now e \<or> exempt (Whitelist c) a then None else Some e | None \<Rightarrow> None)
    \<and> map_of (history (NewBlocker now c (Some (snapshot t b)))) a = map_of (history b) a
    \<and> (AddrString a \<in> set (fwPending (NewBlocker now c (Some (snapshot t b))))
         \<longleftrightarrow> (\<exists>e. map_of (blocked b) a = Some e \<and> (Expired now e \<or> exempt (Whitelist c) a)
               \<and> Firewall e \<and> \<not> entryDry e))
    \<and> (Blocked (NewBlocker now c (Some (snapshot t b))) a
         \<longleftrightarrow> Enabled c \<and> \<not> exempt (Whitelist c) a
             \<and> (\<exists>e. map_of (blocked b) a = Some e \<and> \<not> Expired now e \<and> \<not> entryDry e))"
proof -
  define b0 where "b0 = (publish (empty_blocker (Normalize c)))
      \<lparr>safeNets := Some (defaultSafeNets @ List.map_filter whitelistNet (Whitelist c)), fwEnabled := FirewallSync (Normalize c)\<rparr>"
  let ?bl = "fold (load_block now) (map snd (blocked b)) b0"
  let ?b = "fold load_level (map (\<lambda>(a, l). (AddrString a, l)) (history b)) ?bl"
  have W: "Whitelist (Normalize c) = Whitelist c" "Enabled (Normalize c) = Enabled c"
    by (simp_all add: Normalize_def Let_def)
  have N: "NewBlocker now c (Some (snapshot t b)) = publish ?b"
    by (simp add: NewBlocker_def Let_def SetWhitelist_empty publish_def empty_blocker_def b0_def loadState_def snapshot_def W)
  have z: "blocked b0 = []" "history b0 = []" "fwPending b0 = []" "Enabled (cfg b0) = Enabled c"
    by (simp_all add: b0_def publish_def empty_blocker_def W)
  have d: "distinct (map fst (blocked b))" "distinct (map fst (history b))"
    using assms(1) by (simp_all add: blocker_ok_def view_ok_def)
  have k: "\<forall>(a, e) \<in> set (blocked b). key_addr a \<and> entryIP e = AddrString a" "\<forall>(a, l) \<in> set (history b). key_addr a"
    using assms(2) by (simp_all add: keys_ok_def)
  have a: "addr_wf a" "Unmap a = a" using assms(3) by (simp_all add: key_addr_def)
  have safe: "Safe b0 x \<longleftrightarrow> exempt (Whitelist c) x" if "addr_wf x" for x
    by (rule exempt_nets [OF that]) (simp add: b0_def)
  have B: "map_of (blocked (publish ?b)) a = (case map_of (blocked b) a of
            Some e \<Rightarrow> if Expired now e \<or> exempt (Whitelist c) a then None else Some e | None \<Rightarrow> None)"
    using load_blocks_map [OF k(1) d(1), of now b0 a] load_levels_frame safe [OF a(1)] z
    by (simp add: publish_def split: option.split)
  have H: "map_of (history (publish ?b)) a = map_of (history b) a"
    using load_levels [OF k(2) d(2)] load_blocks_frame z by (simp add: publish_def split: option.split)
  have P: "AddrString a \<in> set (fwPending (publish ?b))
         \<longleftrightarrow> (\<exists>e. map_of (blocked b) a = Some e \<and> (Expired now e \<or> exempt (Whitelist c) a) \<and> Firewall e \<and> \<not> entryDry e)"
  proof -
    have "AddrString a \<in> set (fwPending (publish ?b)) \<longleftrightarrow>
        (\<exists>(a', e) \<in> set (blocked b). AddrString a = AddrString a' \<and> (Expired now e \<or> Safe b0 a') \<and> Firewall e \<and> \<not> entryDry e)"
      using load_blocks_pending [OF k(1), of "AddrString a" now b0] load_levels_frame z by (simp add: publish_def)
    also have "\<dots> \<longleftrightarrow> (\<exists>e. (a, e) \<in> set (blocked b) \<and> (Expired now e \<or> Safe b0 a) \<and> Firewall e \<and> \<not> entryDry e)"
      using k(1) AddrString_inj [OF assms(3)] by fastforce
    finally show ?thesis using d(1) safe [OF a(1)] by (simp add: map_of_eq_Some_iff)
  qed
  have S: "Safe (publish ?b) a = exempt (Whitelist c) a" "Enabled (cfg (publish ?b)) = Enabled c"
  proof -
    have "safeNets (publish ?b) = safeNets b0"
      using load_levels_frame load_blocks_frame by (simp add: publish_def)
    then show "Safe (publish ?b) a = exempt (Whitelist c) a" using Safe_cong safe [OF a(1)] by blast
    have "cfg (fold load_level hs x) = cfg x" for hs x
      by (induction hs arbitrary: x) (auto simp: load_level_def split: option.splits)
    then show "Enabled (cfg (publish ?b)) = Enabled c" using load_blocks_frame z by (simp add: publish_def)
  qed
  have "blocker_ok (publish ?b)" using blocker_ok_New [of now c "Some (snapshot t b)"] N by simp
  then have "Blocked (publish ?b) a \<longleftrightarrow> Enabled c \<and> \<not> exempt (Whitelist c) a
             \<and> (\<exists>e. map_of (blocked b) a = Some e \<and> \<not> Expired now e \<and> \<not> entryDry e)"
    using S B a(2) by (auto simp: Blocked_exact split: option.splits if_splits)
  with B H P N show ?thesis by simp
qed

definition example_blocked :: Blocker where
  "example_blocked = snd (Block 5 ''198.51.100.7:443'' '''' 0 (NewBlocker 0 example_policy None))"

definition restart_facts :: "Blocker \<Rightarrow> bool \<times> (bool \<times> bool) option" where
  "restart_facts b = (keys_ok b, map_option (\<lambda>e. (Expired 60 e, entryDry e)) (map_of (blocked b) (Addr4 [198, 51, 100, 7])))"

lemma autoblock_restart_witness:
  "blocker_ok example_blocked \<and> keys_ok example_blocked \<and> key_addr (Addr4 [198, 51, 100, 7])
   \<and> Blocked (NewBlocker 60 (example_policy\<lparr>Whitelist := []\<rparr>) (Some (snapshot 30 example_blocked))) (Addr4 [198, 51, 100, 7])
   \<and> \<not> Blocked (NewBlocker 60 (example_policy\<lparr>Whitelist := [''198.51.100.7'']\<rparr>) (Some (snapshot 30 example_blocked))) (Addr4 [198, 51, 100, 7])"
proof -
  let ?a = "Addr4 [198, 51, 100, 7]"
  have f: "restart_facts example_blocked = (True, Some (False, False))" by code_simp
  then have k: "keys_ok example_blocked" by (simp add: restart_facts_def)
  from f obtain e where e: "map_of (blocked example_blocked) ?a = Some e" "\<not> Expired 60 e" "\<not> entryDry e"
    by (auto simp: restart_facts_def)
  have ok: "blocker_ok example_blocked" by (simp add: example_blocked_def blocker_ok_Block blocker_ok_New)
  have a: "key_addr ?a" by (simp add: key_addr_def)
  have n: "\<forall>raw \<in> set builtin_nets. case entry_net raw of None \<Rightarrow> False | Some p \<Rightarrow> \<not> in_prefix p (WithoutZone (Unmap ?a))"
    by code_simp
  have "\<not> exempt [] ?a" using n by (auto simp: exempt_def)
  moreover have "(case entry_net ''198.51.100.7'' of None \<Rightarrow> False | Some p \<Rightarrow> in_prefix p (WithoutZone (Unmap ?a)))"
    by code_simp
  then have "exempt [''198.51.100.7''] ?a" by (auto simp: exempt_def split: option.splits)
  moreover have "Enabled example_policy" by (simp add: example_policy_def)
  ultimately show ?thesis
    using ok k a e autoblock_restart [OF ok k a, of 60 "example_policy\<lparr>Whitelist := []\<rparr>" 30]
      autoblock_restart [OF ok k a, of 60 "example_policy\<lparr>Whitelist := [''198.51.100.7'']\<rparr>" 30]
    by simp
qed

end
