(* ===== verification/Autoblock_Firewall.thy ===== *)
theory Autoblock_Firewall
  imports Autoblock_Policy
begin

text \<open>
  The blocker together with what runs around it: the worker that applies its queued firewall
  commands, the kernel's deny rules, the goroutines that still hold removals they have not queued yet,
  and the state file. A step is one critical section or one call to the firewall, so an execution is
  any interleaving of the handlers, the expiry loop, a reload and the worker. The outcome of a firewall
  command is an argument of the step. The results: the lock-free view always answers what the block
  list says, and no kernel rule outlives its block, as long as a block and its queued rule
  are published together; where they are not, and across a restart, a rule can be left behind.
\<close>

section \<open>Sections of the blocker\<close>

datatype track_use = UseOpen | UseFree | UseClose bool | UseHTTP string

fun use_fn :: "track_use \<Rightarrow> track \<Rightarrow> track" where
  "use_fn UseOpen = count_open"
| "use_fn UseFree = free_slot"
| "use_fn (UseClose aborted) = count_close aborted"
| "use_fn (UseHTTP reason) = count_http reason"

datatype sec =
    SecTrack netip_addr instant track_use
  | SecCloseSafe netip_addr
  | SecDetected
  | SecInstall netip_addr Entry
  | SecQueueAdd string
  | SecApply instant netip_addr string int int duration
  | SecBlock instant string string duration
  | SecGc byte instant
  | SecNets "string list"
  | SecSync bool
  | SecRetry
  | SecSave

fun sec_do :: "sec \<Rightarrow> Blocker \<Rightarrow> Blocker" where
  "sec_do (SecTrack a now u) b = fst (withTrack a now (use_fn u) b)"
| "sec_do (SecCloseSafe a) b = close_safe a b"
| "sec_do SecDetected b = b\<lparr>detectedN := detectedN b + 1\<rparr>"
| "sec_do (SecInstall a e) b = install a e b"
| "sec_do (SecQueueAdd ip) b = queueAdd ip b"
| "sec_do (SecApply now a reason hits level dur) b = apply_block now a reason hits level dur b"
| "sec_do (SecBlock now ip reason dur) b = snd (Block now ip reason dur b)"
| "sec_do (SecGc i cutoff) b = put_shard i (dropQuiet cutoff (trackShards b i)) b"
| "sec_do (SecNets entries) b = b\<lparr>safeNets := Some (defaultSafeNets @ List.map_filter whitelistNet entries)\<rparr>"
| "sec_do (SecSync on) b = SetFirewallSync on b"
| "sec_do SecRetry b = retryPendingRemoves b"
| "sec_do SecSave b = requestSave b"

text \<open>The detection handlers are sequences of sections.\<close>

definition by_secs :: "Blocker \<Rightarrow> Blocker \<Rightarrow> bool" where
  "by_secs b b' \<longleftrightarrow> (\<exists>ss. b' = fold sec_do ss b)"

lemma by_secs_refl [simp, intro]: "by_secs b b"
  unfolding by_secs_def by (rule exI [of _ "[]"]) simp

lemma by_secs_trans: "by_secs b c \<Longrightarrow> by_secs c d \<Longrightarrow> by_secs b d"
  unfolding by_secs_def by (metis fold_append comp_apply)

lemma by_secs_one: "by_secs b (sec_do s b)"
  unfolding by_secs_def by (rule exI [of _ "[s]"]) simp

lemma by_secs_track: "withTrack a now (use_fn u) b = (b', t) \<Longrightarrow> by_secs b b'"
  using by_secs_one [of b "SecTrack a now u"] by simp

lemma by_secs_trip: "by_secs b (trip now now' a r h b)"
proof -
  have "by_secs b (b\<lparr>detectedN := detectedN b + 1\<rparr>)" using by_secs_one [of b SecDetected] by simp
  moreover have "by_secs c (apply_block now' a r h l d c)" for l d c
    using by_secs_one [of c "SecApply now' a r h l d"] by simp
  ultimately show ?thesis by (auto simp: trip_def Let_def intro: by_secs_trans)
qed

lemma by_secs_trip_conn: "by_secs b (trip_conn clk a r h b)"
  using by_secs_trip by_secs_one [of b "SecTrack a (clk 0) UseFree"]
  by (auto simp: trip_conn_def intro: by_secs_trans)

lemma ConnOpened_by_secs: "by_secs b (fst (ConnOpened clk a b))"
proof -
  obtain b1 t where w: "withTrack a (clk 0) count_open b = (b1, t)" by fastforce
  then have t: "by_secs b b1" using by_secs_track [of a "clk 0" UseOpen] by simp
  then have "by_secs b (trip_conn clk' a r h b1)" for clk' r h using by_secs_trip_conn by (rule by_secs_trans)
  moreover from this have "by_secs b (trip_conn clk2 a r2 h2 (trip_conn clk' a r h b1))" for clk' r h clk2 r2 h2
    using by_secs_trip_conn by (rule by_secs_trans)
  ultimately show ?thesis using t by (simp add: ConnOpened_def Let_def w)
qed

lemma ConnClosed_by_secs: "by_secs b (ConnClosed clk a aborted b)"
proof -
  obtain b1 t where w: "withTrack a (clk 0) (count_close aborted) b = (b1, t)" by fastforce
  then have t: "by_secs b b1" using by_secs_track [of a "clk 0" "UseClose aborted"] by simp
  then have "by_secs b (trip now now' a r h b1)" for now now' r h using by_secs_trip by (rule by_secs_trans)
  with t show ?thesis using by_secs_one [of b "SecCloseSafe a"] by (simp add: ConnClosed_def w)
qed

lemma RecordHTTP_by_secs: "by_secs b (RecordHTTP clk r reason b)"
proof (cases "ParseRemote r")
  case (Some a)
  obtain b1 t where w: "withTrack a (clk 0) (count_http reason) b = (b1, t)" by fastforce
  then have t: "by_secs b b1" using by_secs_track [of a "clk 0" "UseHTTP reason"] by simp
  then have "by_secs b (trip now now' a r h b1)" for now now' r h using by_secs_trip by (rule by_secs_trans)
  with t Some show ?thesis by (simp add: RecordHTTP_def Let_def w split: option.split)
qed (simp add: RecordHTTP_def)

section \<open>The system\<close>

datatype worker_state =
    Idle
  | Popped fwOp
  | Removing string \<comment> \<open>past the check, about to call \<open>fwUnlock\<close>\<close>
  | Adding string \<comment> \<open>about to call \<open>fwBlock\<close>\<close>
  | Added string \<comment> \<open>the rule is in, the entry not marked yet\<close>

record ABSys =
  blk :: Blocker
  rules :: "string list"
  worker :: worker_state
  inflight :: "string list"
  dirty :: bool
  stateFile :: "persisted option"

text \<open>The worker takes an operation, decides, calls the firewall and marks the entry.\<close>

definition worker_take :: "ABSys \<Rightarrow> ABSys" where
  "worker_take s =
     (case (worker s, fwQueue (blk s)) of
        (Idle, op # q) \<Rightarrow> s\<lparr>worker := Popped op, blk := (blk s)\<lparr>fwQueue := q\<rparr>\<rparr>
      | _ \<Rightarrow> s)"

definition worker_decide :: "ABSys \<Rightarrow> ABSys" where
  "worker_decide s =
     (case worker s of
        Popped (FwRemove ip) \<Rightarrow>
          s\<lparr>worker := if \<not> snd (fwHooks (blk s)) \<or> wanted ip (blk s) then Idle else Removing ip\<rparr>
      | Popped (FwAdd ip) \<Rightarrow> s\<lparr>worker := if fst (fwHooks (blk s)) then Adding ip else Idle\<rparr>
      | _ \<Rightarrow> s)"

definition worker_call :: "bool \<Rightarrow> ABSys \<Rightarrow> ABSys" where
  "worker_call ok s =
     (case worker s of
        Removing ip \<Rightarrow> s\<lparr>worker := Idle, rules := if ok then removeAll ip (rules s) else rules s\<rparr>
      | Adding ip \<Rightarrow> if ok then s\<lparr>worker := Added ip, rules := List.insert ip (rules s)\<rparr> else s\<lparr>worker := Idle\<rparr>
      | _ \<Rightarrow> s)"

definition mark_installed :: "string \<Rightarrow> Blocker \<Rightarrow> Blocker" where
  "mark_installed ip b =
     (case ParseRemote ip of
        None \<Rightarrow> b
      | Some a \<Rightarrow>
          (case map_of (blocked b) a of
             None \<Rightarrow> b
           | Some e \<Rightarrow> b\<lparr>blocked := map_put a (e\<lparr>Firewall := True\<rparr>) (blocked b)\<rparr>))"

definition worker_mark :: "ABSys \<Rightarrow> ABSys" where
  "worker_mark s =
     (case worker s of Added ip \<Rightarrow> s\<lparr>worker := Idle, blk := mark_installed ip (blk s)\<rparr> | _ \<Rightarrow> s)"

definition run_op :: "bool \<Rightarrow> ABSys \<Rightarrow> ABSys" where
  "run_op ok s = worker_mark (worker_call ok (worker_decide (worker_take s)))"

text \<open>\<open>saveWorker\<close>: a request makes the state dirty, a tick writes it.\<close>

definition save_request :: "ABSys \<Rightarrow> ABSys" where
  "save_request s = (if saveOnce (blk s) then s\<lparr>dirty := True, blk := (blk s)\<lparr>saveOnce := False\<rparr>\<rparr> else s)"

definition save_tick :: "instant \<Rightarrow> ABSys \<Rightarrow> ABSys" where
  "save_tick now s =
     (if dirty s
      then s\<lparr>dirty := False,
             stateFile := if PersistPath (cfg (blk s)) = [] then stateFile s else Some (snapshot now (blk s))\<rparr>
      else s)"

definition save_shutdown :: "instant \<Rightarrow> ABSys \<Rightarrow> ABSys" where
  "save_shutdown now s = save_tick now (save_request s)"

text \<open>The sections that lift blocks leave the removals with their goroutine.\<close>

definition unblock_section :: "string \<Rightarrow> ABSys \<Rightarrow> ABSys" where
  "unblock_section ip s =
     (case ParseRemote ip of
        None \<Rightarrow> s
      | Some a \<Rightarrow>
          s\<lparr>blk := forget a (blk s),
            inflight := if map_of (blocked (blk s)) a = None then inflight s else inflight s @ [AddrString a]\<rparr>)"

definition lift_section :: "(Blocker \<Rightarrow> Blocker \<times> string list) \<Rightarrow> ABSys \<Rightarrow> ABSys" where
  "lift_section f s = (case f (blk s) of (b, lifted) \<Rightarrow> s\<lparr>blk := b, inflight := inflight s @ lifted\<rparr>)"

definition removal_section :: "nat \<Rightarrow> ABSys \<Rightarrow> ABSys" where
  "removal_section i s =
     (if i < length (inflight s)
      then s\<lparr>blk := queueRemove (inflight s ! i) (blk s), inflight := take i (inflight s) @ drop (Suc i) (inflight s)\<rparr>
      else s)"

text \<open>A restart keeps the kernel's rules and the state file and loses everything else.\<close>

definition restart :: "instant \<Rightarrow> AutoConfig \<Rightarrow> ABSys \<Rightarrow> ABSys" where
  "restart now c s =
     s\<lparr>blk := SetFirewall True True (NewBlocker now c (stateFile s)), worker := Idle, inflight := [], dirty := False\<rparr>"

datatype ab_label =
    LSec sec
  | LUnblock string
  | LLiftSafe
  | LExpire instant
  | LRemoval nat
  | LTake
  | LDecide
  | LCall bool
  | LMark
  | LSaveRequest
  | LSaveTick instant
  | LRestart instant AutoConfig

fun ab_do :: "ab_label \<Rightarrow> ABSys \<Rightarrow> ABSys" where
  "ab_do (LSec c) s = s\<lparr>blk := sec_do c (blk s)\<rparr>"
| "ab_do (LUnblock ip) s = unblock_section ip s"
| "ab_do LLiftSafe s = lift_section lift_safe s"
| "ab_do (LExpire now) s = lift_section (lift_expired now) s"
| "ab_do (LRemoval i) s = removal_section i s"
| "ab_do LTake s = worker_take s"
| "ab_do LDecide s = worker_decide s"
| "ab_do (LCall ok) s = worker_call ok s"
| "ab_do LMark s = worker_mark s"
| "ab_do LSaveRequest s = save_request s"
| "ab_do (LSaveTick now) s = save_tick now s"
| "ab_do (LRestart now c) s = restart now c s"

definition boot :: "instant \<Rightarrow> AutoConfig \<Rightarrow> persisted option \<Rightarrow> string list \<Rightarrow> ABSys" where
  "boot now c st rs =
     \<lparr>blk = SetFirewall True True (NewBlocker now c st), rules = rs, worker = Idle, inflight = [],
      dirty = False, stateFile = st\<rparr>"

section \<open>The view is exact\<close>

definition ab_init :: "ABSys \<Rightarrow> bool" where
  "ab_init s \<longleftrightarrow> (\<exists>now c st rs. s = boot now c st rs)"

definition ab_step :: "ABSys \<Rightarrow> ab_label \<Rightarrow> ABSys \<Rightarrow> bool" where
  "ab_step s l s' \<longleftrightarrow> s' = ab_do l s"

definition sys_ok :: "ABSys \<Rightarrow> bool" where
  "sys_ok s \<longleftrightarrow> blocker_ok (blk s)"

lemma blocker_ok_hooks: "blocker_ok b \<Longrightarrow> blocker_ok (SetFirewall x y b)"
  by (simp add: SetFirewall_def)

lemma blocker_ok_sec: "blocker_ok b \<Longrightarrow> blocker_ok (sec_do c b)"
proof (cases c)
  case (SecTrack a now u)
  assume "blocker_ok b"
  then have "blocker_ok (fst (withTrack a now (use_fn u) b))"
    by (rule blocker_ok_withTrack) (cases u; simp)
  with SecTrack show ?thesis by simp
next
  case (SecGc i c)
  assume ok: "blocker_ok b"
  then have "tracks_ok i (dropQuiet c (trackShards b i))" by (intro tracks_ok_dropQuiet) (simp add: blocker_ok_def)
  with ok SecGc show ?thesis by (simp add: blocker_ok_put_shard)
qed (auto simp: blocker_ok_close_safe SetFirewallSync_def retryPendingRemoves_def blocker_ok_retry)

lemma blocker_ok_mark: "blocker_ok b \<Longrightarrow> blocker_ok (mark_installed ip b)"
proof -
  assume ok: "blocker_ok b"
  have "blocker_ok (b\<lparr>blocked := map_put a (e\<lparr>Firewall := True\<rparr>) (blocked b)\<rparr>)"
    if e: "map_of (blocked b) a = Some e" for a e
  proof -
    have d: "distinct (map fst (blocked b))" using ok by (simp add: blocker_ok_def view_ok_def)
    have "set (enforced (map_put a (e\<lparr>Firewall := True\<rparr>) (blocked b))) = set (enforced (blocked b))"
      using e d by (auto simp: enforced_put in_enforced)
    then show ?thesis
      using ok distinct_map_put [OF d, of a] by (simp add: blocker_ok_def view_ok_shows shows_set_def)
  qed
  with ok show ?thesis by (simp add: mark_installed_def split: option.split)
qed

lemma sys_ok_step: "sys_ok s \<Longrightarrow> sys_ok (ab_do l s)"
proof (cases l)
  case (LRestart now c)
  then show ?thesis by (simp add: sys_ok_def restart_def blocker_ok_hooks blocker_ok_New)
next
  case LTake
  assume ok: "sys_ok s"
  then have "blocker_ok ((blk s)\<lparr>fwQueue := q\<rparr>)" if "fwQueue (blk s) = op # q" for op q
    using that by (intro blocker_ok_queue) (simp_all add: sys_ok_def blocker_ok_def)
  with ok LTake show ?thesis by (auto simp: sys_ok_def worker_take_def split: worker_state.splits list.splits)
next
  case (LExpire now)
  assume "sys_ok s"
  then have "blocker_ok (fst (lift_expired now (blk s)))" by (auto simp: sys_ok_def)
  with LExpire show ?thesis by (simp add: sys_ok_def lift_section_def case_prod_beta)
next
  case LLiftSafe
  assume "sys_ok s"
  then have "blocker_ok (fst (lift_safe (blk s)))" by (auto simp: sys_ok_def)
  with LLiftSafe show ?thesis by (simp add: sys_ok_def lift_section_def case_prod_beta)
qed (auto simp: sys_ok_def blocker_ok_sec unblock_section_def removal_section_def worker_decide_def
    worker_call_def worker_mark_def save_request_def save_tick_def blocker_ok_mark
    split: option.splits prod.splits worker_state.splits fwOp.splits)

interpretation absys: transition_system ab_init ab_step sys_ok
proof unfold_locales
  show "ab_init s \<Longrightarrow> sys_ok s" for s
    by (auto simp: ab_init_def boot_def sys_ok_def blocker_ok_hooks blocker_ok_New)
  show "sys_ok s \<Longrightarrow> ab_step s l s' \<Longrightarrow> sys_ok s'" for s l s'
    by (simp add: ab_step_def sys_ok_step)
qed

text \<open>
  C31. The view and its counter never drift from the block list. In every state reached by any interleaving
  of the handlers, the expiry loop, reloads, the firewall worker and restarts, the check
  the listener makes without the blocker's mutex answers exactly: detection is on, the address is not
  exempt, and the block list holds an enforced entry for its unmapped form; the counter is the number
  of enforced entries, and no table is over its bound.
\<close>

theorem autoblock_view_exact:
  assumes "reach ab_init ab_step s"
  shows "(Blocked (blk s) a \<longleftrightarrow> Enabled (cfg (blk s)) \<and> \<not> Safe (blk s) a
      \<and> (\<exists>e. map_of (blocked (blk s)) (Unmap a) = Some e \<and> \<not> entryDry e))
    \<and> blockedN (blk s) = int (length (filter (\<lambda>(a, e). \<not> entryDry e) (blocked (blk s))))
    \<and> length (tracks (trackShards (blk s) i)) \<le> maxTracksPerShard
    \<and> length (fwQueue (blk s)) \<le> fwQueueCap"
proof -
  have ok: "blocker_ok (blk s)" using absys.reach_inv [OF assms] by (simp add: sys_ok_def)
  then have "blockedN (blk s) = int (length (filter (\<lambda>(a, e). \<not> entryDry e) (blocked (blk s))))"
    by (simp add: blocker_ok_def view_ok_def enforced_def)
  with ok Blocked_exact [OF ok] show ?thesis by (simp add: blocker_ok_def tracks_ok_def)
qed

definition one_enforced :: "netip_addr \<Rightarrow> Blocker \<Rightarrow> bool" where
  "one_enforced a b \<longleftrightarrow> Enabled (cfg b) \<and> \<not> Safe b a
     \<and> map_option entryDry (map_of (blocked b) (Unmap a)) = Some False
     \<and> length (filter (\<lambda>(a, e). \<not> entryDry e) (blocked b)) = 1"

lemma autoblock_view_exact_witness:
  "let s = ab_do (LSec (SecBlock 5 ''198.51.100.7:443'' '''' 0)) (boot 0 example_policy None []) in
     Blocked (blk s) (Addr6 (v4InV6Prefix @ [198, 51, 100, 7]) []) \<and> blockedN (blk s) = 1"
proof -
  let ?s = "ab_do (LSec (SecBlock 5 ''198.51.100.7:443'' '''' 0)) (boot 0 example_policy None [])"
  let ?a = "Addr6 (v4InV6Prefix @ [198, 51, 100, 7]) []"
  have "reach ab_init ab_step (boot 0 example_policy None [])"
    by (rule reach_init) (auto simp: ab_init_def)
  then have r: "reach ab_init ab_step ?s" by (rule reach_step) (simp only: ab_step_def)
  have "one_enforced ?a (snd (Block 5 ''198.51.100.7:443'' [] 0 (SetFirewall True True (NewBlocker 0 example_policy None))))"
    by code_simp
  then have "one_enforced ?a (blk ?s)" by (simp add: boot_def)
  with autoblock_view_exact [OF r, of ?a 0] show ?thesis by (auto simp: Let_def one_enforced_def)
qed

section \<open>Rules and blocks\<close>

text \<open>The texts that name an address, and the operations the worker still has to finish.\<close>

definition canon :: "string \<Rightarrow> bool" where
  "canon x \<longleftrightarrow> (\<exists>a. key_addr a \<and> x = AddrString a)"

fun op_text :: "fwOp \<Rightarrow> string" where
  "op_text (FwAdd ip) = ip"
| "op_text (FwRemove ip) = ip"

fun worker_ops :: "worker_state \<Rightarrow> fwOp list" where
  "worker_ops Idle = []"
| "worker_ops (Popped op) = [op]"
| "worker_ops (Removing ip) = [FwRemove ip]"
| "worker_ops (Adding ip) = [FwAdd ip]"
| "worker_ops (Added ip) = []"

definition todo_ops :: "ABSys \<Rightarrow> fwOp list" where
  "todo_ops s = worker_ops (worker s) @ fwQueue (blk s)"

text \<open>
  A rule is held while its address is listed or a removal is parked or about to be queued. An add in
  the queue needs the same, or a removal behind it.
\<close>

definition listed :: "Blocker \<Rightarrow> string \<Rightarrow> bool" where
  "listed b x \<longleftrightarrow> (\<exists>a. map_of (blocked b) a \<noteq> None \<and> x = AddrString a)"

definition held :: "ABSys \<Rightarrow> string \<Rightarrow> bool" where
  "held s x \<longleftrightarrow> listed (blk s) x \<or> x \<in> set (fwPending (blk s)) \<or> x \<in> set (inflight s)"

fun adds_held :: "(string \<Rightarrow> bool) \<Rightarrow> fwOp list \<Rightarrow> bool" where
  "adds_held P [] = True"
| "adds_held P (FwAdd x # q) = ((P x \<or> FwRemove x \<in> set q) \<and> adds_held P q)"
| "adds_held P (FwRemove x # q) = adds_held P q"

definition entries_ok :: "Blocker \<Rightarrow> bool" where
  "entries_ok b \<longleftrightarrow> (\<forall>(a, e) \<in> set (blocked b). key_addr a \<and> entryIP e = AddrString a)"

definition marked_ok :: "ABSys \<Rightarrow> bool" where
  "marked_ok s \<longleftrightarrow> (\<forall>(a, e) \<in> set (blocked (blk s)). Firewall e \<and> \<not> entryDry e
     \<longrightarrow> AddrString a \<in> set (rules s) \<and> worker s \<noteq> Removing (AddrString a))"

definition texts_ok :: "ABSys \<Rightarrow> bool" where
  "texts_ok s \<longleftrightarrow> (\<forall>x \<in> set (rules s) \<union> set (fwPending (blk s)) \<union> set (inflight s)
     \<union> op_text ` set (todo_ops s). canon x)"

definition rules_ok :: "ABSys \<Rightarrow> bool" where
  "rules_ok s \<longleftrightarrow> blocker_ok (blk s) \<and> entries_ok (blk s) \<and> fwHooks (blk s) = (True, True)
     \<and> marked_ok s \<and> texts_ok s
     \<and> (\<forall>x \<in> set (rules s). held s x \<or> FwRemove x \<in> set (todo_ops s))
     \<and> adds_held (held s) (todo_ops s)
     \<and> (\<forall>x. worker s = Added x \<longrightarrow> x \<in> set (rules s))"

lemma adds_held_append:
  "adds_held P q \<Longrightarrow> (\<And>x. P x \<Longrightarrow> P' x \<or> FwRemove x \<in> set r) \<Longrightarrow> adds_held P' r \<Longrightarrow> adds_held P' (q @ r)"
  by (induction P q rule: adds_held.induct) auto

lemma adds_held_all: "(\<And>x. FwAdd x \<in> set q \<Longrightarrow> P x) \<Longrightarrow> adds_held P q"
  by (induction P q rule: adds_held.induct) auto

lemma rules_held_append:
  assumes "rules_ok s" and "\<And>y. held s y \<Longrightarrow> held s' y \<or> FwRemove y \<in> set r"
  shows "\<forall>y \<in> set (rules s). held s' y \<or> FwRemove y \<in> set (todo_ops s @ r)"
  using assms by (auto simp: rules_ok_def)

text \<open>What every section of the blocker does to the list, the queue and the parked removals.\<close>

definition extends :: "Blocker \<Rightarrow> Blocker \<Rightarrow> bool" where
  "extends b b' \<longleftrightarrow> fwHooks b' = fwHooks b
     \<and> (\<forall>a. map_of (blocked b) a \<noteq> None \<longrightarrow> map_of (blocked b') a \<noteq> None)
     \<and> (\<forall>(a, e) \<in> set (blocked b'). (a, e) \<in> set (blocked b) \<or> \<not> Firewall e \<and> key_addr a \<and> entryIP e = AddrString a)
     \<and> (\<forall>x \<in> set (fwPending b'). x \<in> set (fwPending b))
     \<and> (\<exists>r. fwQueue b' = fwQueue b @ r
          \<and> (\<forall>x. FwAdd x \<in> set r \<longrightarrow> canon x \<and> listed b' x)
          \<and> (\<forall>x. FwRemove x \<in> set r \<longrightarrow> x \<in> set (fwPending b))
          \<and> (\<forall>x \<in> set (fwPending b). x \<in> set (fwPending b') \<or> FwRemove x \<in> set r \<or> listed b' x))"

lemma extends_same:
  "blocked b' = blocked b \<Longrightarrow> fwHooks b' = fwHooks b \<Longrightarrow> fwQueue b' = fwQueue b \<Longrightarrow> fwPending b' = fwPending b
   \<Longrightarrow> extends b b'"
  by (auto simp: extends_def)

lemma rules_ok_extends:
  assumes ok: "rules_ok s" and ext: "extends (blk s) b'" and bok: "blocker_ok b'"
  shows "rules_ok (s\<lparr>blk := b'\<rparr>)"
proof -
  let ?s = "s\<lparr>blk := b'\<rparr>"
  obtain r where r: "fwQueue b' = fwQueue (blk s) @ r"
    "\<And>x. FwAdd x \<in> set r \<Longrightarrow> canon x \<and> listed b' x"
    "\<And>x. FwRemove x \<in> set r \<Longrightarrow> x \<in> set (fwPending (blk s))"
    "\<And>x. x \<in> set (fwPending (blk s)) \<Longrightarrow> x \<in> set (fwPending b') \<or> FwRemove x \<in> set r \<or> listed b' x"
    using ext unfolding extends_def by blast
  have q: "todo_ops ?s = todo_ops s @ r" by (simp add: todo_ops_def r(1))
  have l: "listed b' x" if "listed (blk s) x" for x
    using ext that unfolding extends_def listed_def by blast
  have h: "held ?s x \<or> FwRemove x \<in> set r" if "held s x" for x
    using that l r(4) by (auto simp: held_def)
  have t: "texts_ok s" using ok by (simp add: rules_ok_def)
  have "canon (op_text op)" if "op \<in> set r" for op
    using r(2,3) t that by (cases op) (auto simp: texts_ok_def)
  moreover have "\<forall>x \<in> set (fwPending b'). x \<in> set (fwPending (blk s))" using ext by (simp add: extends_def)
  ultimately have "texts_ok ?s" using t by (auto simp: texts_ok_def q)
  moreover have "adds_held (held ?s) r" by (rule adds_held_all) (auto dest: r(2) simp: held_def)
  then have "adds_held (held ?s) (todo_ops s @ r)"
    using ok h by (intro adds_held_append [where P = "held s"]) (auto simp: rules_ok_def)
  moreover have "entries_ok b'" "marked_ok ?s"
    using ok ext by (fastforce simp: rules_ok_def extends_def entries_ok_def marked_ok_def)+
  moreover have "\<forall>y \<in> set (rules s). held ?s y \<or> FwRemove y \<in> set (todo_ops ?s)"
    unfolding q using h by (rule rules_held_append [OF ok])
  moreover have "fwHooks b' = (True, True)" using ok ext by (simp add: rules_ok_def extends_def)
  ultimately show ?thesis using ok bok q by (simp add: rules_ok_def)
qed

text \<open>Lifting sections: what leaves the list goes to the goroutine.\<close>

lemma rules_ok_lift:
  assumes ok: "rules_ok s" and bok: "blocker_ok b'"
    and same: "fwHooks b' = fwHooks (blk s)" "fwQueue b' = fwQueue (blk s)" "fwPending b' = fwPending (blk s)"
    and sub: "set (blocked b') \<subseteq> set (blocked (blk s))"
    and gone: "\<And>a e. (a, e) \<in> set (blocked (blk s)) \<Longrightarrow> map_of (blocked b') a = None \<Longrightarrow> AddrString a \<in> set l"
    and l: "\<forall>x \<in> set l. canon x"
  shows "rules_ok (s\<lparr>blk := b', inflight := inflight s @ l\<rparr>)"
proof -
  let ?s = "s\<lparr>blk := b', inflight := inflight s @ l\<rparr>"
  have q: "todo_ops ?s = todo_ops s" by (simp add: todo_ops_def same)
  have "listed b' x \<or> x \<in> set l" if "listed (blk s) x" for x
  proof -
    from that obtain a where a: "map_of (blocked (blk s)) a \<noteq> None" "x = AddrString a" by (auto simp: listed_def)
    then obtain e where "(a, e) \<in> set (blocked (blk s))" by (auto dest: map_of_SomeD)
    with gone a(2) show ?thesis unfolding listed_def by blast
  qed
  then have h: "held ?s x" if "held s x" for x using that same by (auto simp: held_def)
  have "adds_held (held ?s) (todo_ops s @ [])"
    using ok h by (intro adds_held_append [where P = "held s"]) (auto simp: rules_ok_def)
  moreover have "entries_ok b'" "marked_ok ?s"
    using ok sub by (auto simp: rules_ok_def entries_ok_def marked_ok_def)
  moreover have "texts_ok ?s" using ok l by (auto simp: rules_ok_def texts_ok_def q same)
  ultimately show ?thesis using ok bok h q same by (auto simp: rules_ok_def)
qed

lemma rules_ok_removal:
  assumes ok: "rules_ok s"
  shows "rules_ok (removal_section i s)"
proof (cases "i < length (inflight s)")
  case False
  with ok show ?thesis by (simp add: removal_section_def)
next
  case True
  define x where "x = inflight s ! i"
  define fl where "fl = take i (inflight s) @ drop (Suc i) (inflight s)"
  let ?s = "s\<lparr>blk := queueRemove x (blk s), inflight := fl\<rparr>"
  have s': "removal_section i s = ?s" using True by (simp add: removal_section_def x_def fl_def)
  have "inflight s = take i (inflight s) @ x # drop (Suc i) (inflight s)"
    unfolding x_def by (rule id_take_nth_drop [OF True])
  then have fl: "set (inflight s) = insert x (set fl)"
    unfolding fl_def by (metis insert_is_Un list.set(2) set_append sup_left_commute)
  have hooks: "fwHooks (blk s) = (True, True)" using ok by (simp add: rules_ok_def)
  obtain r where r: "todo_ops ?s = todo_ops s @ r" "r = [] \<or> r = [FwRemove x]"
      "x \<in> set (fwPending (queueRemove x (blk s))) \<or> r = [FwRemove x]"
    using hooks by (cases "length (fwQueue (blk s)) < fwQueueCap") (auto simp: todo_ops_def queueRemove_def)
  have p: "set (fwPending (blk s)) \<subseteq> set (fwPending (queueRemove x (blk s)))"
    "set (fwPending (queueRemove x (blk s))) \<subseteq> insert x (set (fwPending (blk s)))"
    "blocked (queueRemove x (blk s)) = blocked (blk s)" "fwHooks (queueRemove x (blk s)) = fwHooks (blk s)"
    by (auto simp: queueRemove_def)
  have h: "held ?s y \<or> FwRemove y \<in> set r" if "held s y" for y
    using that r(2,3) p(1,3) fl by (auto simp: held_def listed_def)
  have "adds_held (held ?s) r" using r(2) by auto
  then have "adds_held (held ?s) (todo_ops s @ r)"
    using ok h by (intro adds_held_append [where P = "held s"]) (auto simp: rules_ok_def)
  moreover have "texts_ok ?s" using ok r(1,2) p(2) fl by (auto simp: rules_ok_def texts_ok_def)
  moreover have "blocker_ok (queueRemove x (blk s))" using ok by (auto simp: rules_ok_def)
  moreover have "\<forall>y \<in> set (rules s). held ?s y \<or> FwRemove y \<in> set (todo_ops ?s)"
    unfolding r(1) using h by (rule rules_held_append [OF ok])
  ultimately show ?thesis unfolding s' using ok r(1) p hooks
    by (auto simp: rules_ok_def entries_ok_def marked_ok_def)
qed

text \<open>The worker.\<close>

lemma rules_ok_take: "rules_ok s \<Longrightarrow> rules_ok (worker_take s)"
proof (cases "worker s = Idle \<and> fwQueue (blk s) \<noteq> []")
  case True
  assume ok: "rules_ok s"
  obtain op q where q: "fwQueue (blk s) = op # q" "worker s = Idle" using True by (cases "fwQueue (blk s)") auto
  let ?s = "s\<lparr>worker := Popped op, blk := (blk s)\<lparr>fwQueue := q\<rparr>\<rparr>"
  have t: "todo_ops ?s = todo_ops s" by (simp add: todo_ops_def q)
  have h: "held ?s = held s" by (simp add: fun_eq_iff held_def listed_def)
  have "blocker_ok ((blk s)\<lparr>fwQueue := q\<rparr>)"
    using ok q by (intro blocker_ok_queue) (simp_all add: rules_ok_def blocker_ok_def)
  then have "rules_ok ?s" using ok q t
    by (auto simp: rules_ok_def h entries_ok_def marked_ok_def texts_ok_def)
  then show ?thesis by (simp add: worker_take_def q)
next
  case False
  moreover assume "rules_ok s"
  ultimately show ?thesis by (auto simp: worker_take_def split: worker_state.splits list.splits)
qed

lemma rules_ok_worker:
  assumes ok: "rules_ok s" and ops: "worker_ops (worker s) = worker_ops w @ d"
    and d: "d = [] \<or> (\<exists>x. d = [FwAdd x] \<or> d = [FwRemove x] \<and> listed (blk s) x)"
    and w: "\<And>x a e. w = Removing x \<Longrightarrow> (a, e) \<in> set (blocked (blk s)) \<Longrightarrow> x = AddrString a \<Longrightarrow> entryDry e"
    and ad: "\<And>x. w \<noteq> Added x"
  shows "rules_ok (s\<lparr>worker := w\<rparr>)"
proof -
  let ?s = "s\<lparr>worker := w\<rparr>"
  have h: "held ?s = held s" by (simp add: fun_eq_iff held_def)
  have dw: "d = [] \<or> worker_ops w = []" using ops by (cases "worker s"; cases w) auto
  have t: "set (todo_ops ?s) \<subseteq> set (todo_ops s)" using ops dw by (auto simp: todo_ops_def)
  have r: "held ?s x \<or> FwRemove x \<in> set (todo_ops ?s)" if "x \<in> set (rules s)" for x
  proof -
    have "held s x \<or> FwRemove x \<in> set (todo_ops s)" using ok that by (auto simp: rules_ok_def)
    then show ?thesis using ops d h by (auto simp: todo_ops_def held_def)
  qed
  have "adds_held (held s) (worker_ops w @ d @ fwQueue (blk s))" using ok ops by (simp add: rules_ok_def todo_ops_def)
  then have a: "adds_held (held ?s) (todo_ops ?s)" using d dw h by (auto simp: todo_ops_def)
  have "marked_ok ?s" using ok w by (auto simp: rules_ok_def marked_ok_def)
  moreover have "texts_ok ?s" using ok t by (auto simp: rules_ok_def texts_ok_def)
  ultimately show ?thesis using ok r a ad by (auto simp: rules_ok_def)
qed

lemma wanted_listed: "canon x \<Longrightarrow> wanted x b \<Longrightarrow> listed b x"
  by (auto simp: canon_def wanted_def listed_def ParseRemote_AddrString split: option.splits)

lemma unwanted_dry:
  assumes "rules_ok s" and "\<not> wanted (AddrString a) (blk s)" and "(a, e) \<in> set (blocked (blk s))"
  shows "entryDry e"
proof -
  have "key_addr a" using assms(1,3) by (auto simp: rules_ok_def entries_ok_def)
  moreover have "map_of (blocked (blk s)) a = Some e"
    using assms(1,3) by (simp add: rules_ok_def blocker_ok_def view_ok_def)
  ultimately show ?thesis using assms(2) by (simp add: wanted_def ParseRemote_AddrString)
qed

lemma rules_ok_decide:
  assumes ok: "rules_ok s"
  shows "rules_ok (worker_decide s)"
proof -
  have hooks: "fwHooks (blk s) = (True, True)" using ok by (simp add: rules_ok_def)
  show ?thesis
  proof (cases "\<exists>op. worker s = Popped op")
    case False
    with ok show ?thesis by (cases "worker s") (simp_all add: worker_decide_def)
  next
    case True
    then obtain op where op: "worker s = Popped op" by blast
    show ?thesis
    proof (cases op)
      case (FwAdd ip)
      then have "rules_ok (s\<lparr>worker := Adding ip\<rparr>)"
        using op by (intro rules_ok_worker [OF ok, of _ "[]"]) simp_all
      then show ?thesis using op FwAdd hooks by (simp add: worker_decide_def)
    next
      case (FwRemove ip)
      show ?thesis
      proof (cases "wanted ip (blk s)")
        case True
        have "canon ip" using ok op FwRemove by (auto simp: rules_ok_def texts_ok_def todo_ops_def)
        with True have "listed (blk s) ip" by (simp add: wanted_listed)
        then have "rules_ok (s\<lparr>worker := Idle\<rparr>)"
          using op FwRemove by (intro rules_ok_worker [OF ok, of _ "[FwRemove ip]"]) simp_all
        with True op FwRemove show ?thesis by (simp add: worker_decide_def)
      next
        case False
        then have "rules_ok (s\<lparr>worker := Removing ip\<rparr>)"
          using op FwRemove unwanted_dry [OF ok] by (intro rules_ok_worker [OF ok, of _ "[]"]) auto
        with False op FwRemove hooks show ?thesis by (simp add: worker_decide_def)
      qed
    qed
  qed
qed

lemma rules_ok_call:
  assumes ok: "rules_ok s" and succ: "\<And>ip. worker s = Removing ip \<Longrightarrow> ok"
  shows "rules_ok (worker_call ok s)"
proof (cases "worker s")
  case (Removing ip)
  let ?s = "s\<lparr>worker := Idle, rules := removeAll ip (rules s)\<rparr>"
  have h: "held ?s = held s" by (simp add: fun_eq_iff held_def)
  have t: "todo_ops s = FwRemove ip # todo_ops ?s" by (simp add: todo_ops_def Removing)
  have "marked_ok ?s" using ok Removing by (auto simp: rules_ok_def marked_ok_def)
  moreover have "texts_ok ?s" using ok t by (auto simp: rules_ok_def texts_ok_def)
  ultimately have "rules_ok ?s" using ok h t by (auto simp: rules_ok_def)
  then show ?thesis using Removing succ by (simp add: worker_call_def)
next
  case (Adding ip)
  show ?thesis
  proof (cases ok)
    case True
    let ?s = "s\<lparr>worker := Added ip, rules := List.insert ip (rules s)\<rparr>"
    have h: "held ?s = held s" by (simp add: fun_eq_iff held_def)
    have t: "todo_ops s = FwAdd ip # todo_ops ?s" by (simp add: todo_ops_def Adding)
    have "marked_ok ?s" using ok Adding by (auto simp: rules_ok_def marked_ok_def)
    moreover have "texts_ok ?s" using ok t by (auto simp: rules_ok_def texts_ok_def)
    ultimately have "rules_ok ?s" using ok h t by (auto simp: rules_ok_def)
    then show ?thesis using Adding True by (simp add: worker_call_def)
  next
    case False
    have "rules_ok (s\<lparr>worker := Idle\<rparr>)"
      using Adding by (intro rules_ok_worker [OF ok, of _ "[FwAdd ip]"]) simp_all
    with False Adding show ?thesis by (simp add: worker_call_def)
  qed
qed (use ok in \<open>simp_all add: worker_call_def\<close>)

lemma rules_ok_mark:
  assumes ok: "rules_ok s"
  shows "rules_ok (worker_mark s)"
proof (cases "worker s")
  case (Added ip)
  have rule: "ip \<in> set (rules s)" using ok Added by (simp add: rules_ok_def)
  moreover have "texts_ok s" using ok by (simp add: rules_ok_def)
  ultimately have "canon ip" by (auto simp: texts_ok_def)
  then obtain a where a: "key_addr a" "ip = AddrString a" unfolding canon_def by blast
  define b' where "b' = mark_installed ip (blk s)"
  let ?s = "s\<lparr>worker := Idle, blk := b'\<rparr>"
  have b: "b' = blk s \<or> (\<exists>e. map_of (blocked (blk s)) a = Some e
      \<and> b' = (blk s)\<lparr>blocked := map_put a (e\<lparr>Firewall := True\<rparr>) (blocked (blk s))\<rparr>)"
    by (auto simp: b'_def mark_installed_def a(2) ParseRemote_AddrString [OF a(1)] split: option.split)
  then have f: "fwHooks b' = fwHooks (blk s)" "fwQueue b' = fwQueue (blk s)" "fwPending b' = fwPending (blk s)"
    "\<And>x. map_of (blocked b') x = None \<longleftrightarrow> map_of (blocked (blk s)) x = None" by (auto split: if_splits)
  have t: "todo_ops ?s = todo_ops s" using f Added by (simp add: todo_ops_def)
  have h: "held ?s = held s" using f by (simp add: fun_eq_iff held_def listed_def)
  have e0: "\<forall>(a, e) \<in> set (blocked (blk s)). key_addr a \<and> entryIP e = AddrString a"
    using ok by (simp add: rules_ok_def entries_ok_def)
  have "\<exists>e0. (x, e0) \<in> set (blocked (blk s)) \<and> entryIP e = entryIP e0"
    if "(x, e) \<in> set (blocked b')" for x e
    using b
  proof (elim disjE exE conjE)
    assume "b' = blk s"
    with that show ?thesis by auto
  next
    fix u assume u: "map_of (blocked (blk s)) a = Some u"
      and b': "b' = (blk s)\<lparr>blocked := map_put a (u\<lparr>Firewall := True\<rparr>) (blocked (blk s))\<rparr>"
    from that have "x = a \<and> e = u\<lparr>Firewall := True\<rparr> \<or> (x, e) \<in> set (blocked (blk s))"
      by (auto simp: b' map_put_def set_map_delete)
    moreover have "(a, u) \<in> set (blocked (blk s))" using u by (rule map_of_SomeD)
    ultimately show ?thesis by (elim disjE conjE) (rule exI [of _ u], simp, rule exI [of _ e], simp)
  qed
  with e0 have e: "entries_ok b'" unfolding entries_ok_def by fastforce
  have m: "marked_ok ?s" using b ok rule a(2) by (auto simp: rules_ok_def marked_ok_def map_put_def set_map_delete)
  have x: "texts_ok ?s" using ok t f by (simp add: rules_ok_def texts_ok_def)
  have "blocker_ok b'" using ok by (simp add: b'_def blocker_ok_mark rules_ok_def)
  then have "rules_ok ?s" using ok t h e m x f(1) by (simp add: rules_ok_def)
  then show ?thesis by (simp add: worker_mark_def Added b'_def)
qed (use ok in \<open>simp_all add: worker_mark_def\<close>)

text \<open>The sections of the blocker.\<close>

lemma retry_extends:
  assumes "set ips \<subseteq> P" and "\<forall>x \<in> P. canon x"
  shows "fwHooks (retry_from ips b) = fwHooks b \<and> blocked (retry_from ips b) = blocked b
    \<and> set (fwPending (retry_from ips b)) \<subseteq> set (fwPending b)
    \<and> (\<exists>r. fwQueue (retry_from ips b) = fwQueue b @ r \<and> set r \<subseteq> FwRemove ` P
         \<and> (\<forall>x \<in> set (fwPending b). x \<in> set (fwPending (retry_from ips b)) \<or> FwRemove x \<in> set r \<or> listed b x))"
  using assms(1)
proof (induction ips b rule: retry_from.induct)
  case (1 b)
  show ?case by simp
next
  case (2 ip ips b)
  then have ip: "ip \<in> P" "set ips \<subseteq> P" by simp_all
  consider (wanted) "wanted ip b" | (room) "\<not> wanted ip b" "length (fwQueue b) < fwQueueCap"
    | (full) "\<not> wanted ip b" "\<not> length (fwQueue b) < fwQueueCap" by blast
  then show ?case
  proof cases
    case wanted
    then have "listed b ip" using wanted_listed assms(2) ip(1) by blast
    with 2(1) [OF wanted ip(2)] wanted show ?thesis by (simp add: listed_def) blast
  next
    case room
    from 2(2) [OF room ip(2)] obtain r where
      "fwQueue (retry_from ips (b\<lparr>fwQueue := fwQueue b @ [FwRemove ip], fwPending := removeAll ip (fwPending b)\<rparr>)) = fwQueue b @ (FwRemove ip # r)"
      "set r \<subseteq> FwRemove ` P" by auto
    with 2(2) [OF room ip(2)] room ip(1) show ?thesis
      by (intro conjI exI [of _ "FwRemove ip # r"]) (auto simp: listed_def)
  next
    case full
    then show ?thesis by simp
  qed
qed

lemma install_extends:
  assumes "key_addr a" and "entryIP e = AddrString a" and "\<not> Firewall e"
  shows "extends b (queueAdd (AddrString a) (install a e b))" and "extends b (install a e b)"
  using assms by (auto simp: extends_def queueAdd_def map_put_def set_map_delete canon_def listed_def
      split: if_splits)

lemma extends_trans_same:
  assumes "extends b b'" and "blocked b'' = blocked b'" "fwHooks b'' = fwHooks b'" "fwQueue b'' = fwQueue b'" "fwPending b'' = fwPending b'"
  shows "extends b b''"
  using assms by (simp add: extends_def listed_def)

lemma apply_extends:
  assumes "key_addr a"
  shows "extends b (apply_block now a r h l d b)"
proof -
  let ?e = "apply_entry now (cfg b) a r h l d"
  have e: "entryIP ?e = AddrString a" "\<not> Firewall ?e" by (simp_all add: apply_entry_def)
  show ?thesis
    using install_extends [OF assms e, of b] e(1)
    by (auto simp: apply_block_def Let_def requestSave_def intro: extends_trans_same)
qed

lemma Block_extends: "extends b (snd (Block now ip r d b))"
proof (cases "ParseRemote ip")
  case None
  then show ?thesis by (simp add: Block_def extends_same)
next
  case (Some a)
  then have k: "key_addr a" by (rule ParseRemote_key)
  show ?thesis
  proof (cases "Safe b a")
    case False
    have "extends b (requestSave (queueAdd (AddrString a) (install a e b)))"
      if "entryIP e = AddrString a" "\<not> Firewall e" for e
      by (rule extends_trans_same [OF install_extends(1) [OF k that]]) (simp_all add: requestSave_def)
    with Some False show ?thesis by (simp add: Block_def Let_def)
  qed (simp add: Some Block_def extends_same)
qed

text \<open>The steps under which a block and its queued rule are published together.\<close>

fun sec_whole :: "sec \<Rightarrow> bool" where
  "sec_whole (SecInstall a e) = False"
| "sec_whole (SecQueueAdd ip) = False"
| "sec_whole (SecApply now a reason hits level dur) = key_addr a"
| "sec_whole c = True"

lemma sec_extends:
  assumes "sec_whole c" and "\<forall>x \<in> set (fwPending b). canon x"
  shows "extends b (sec_do c b)"
proof (cases c)
  case (SecTrack a now u)
  obtain b' t where w: "withTrack a now (use_fn u) b = (b', t)" by fastforce
  then obtain sh where "b' = put_shard (addrShardIndex a) sh b" by (rule withTrack_frame)
  with w SecTrack show ?thesis by (simp add: extends_same)
next
  case SecRetry
  from retry_extends [OF subset_refl assms(2), of b] show ?thesis
    unfolding SecRetry sec_do.simps retryPendingRemoves_def extends_def listed_def by auto
qed (use assms(1) in \<open>auto simp: extends_same close_safe_def Let_def apply_extends Block_extends SetFirewallSync_def requestSave_def
       split: option.split\<close>)

fun is_removing :: "worker_state \<Rightarrow> bool" where
  "is_removing (Removing ip) = True"
| "is_removing w = False"

definition label_whole :: "ABSys \<Rightarrow> ab_label \<Rightarrow> bool" where
  "label_whole s l =
     (case l of
        LSec c \<Rightarrow> sec_whole c
      | LCall ok \<Rightarrow> ok \<or> \<not> is_removing (worker s)
      | LRestart now c \<Rightarrow> False
      | _ \<Rightarrow> True)"

definition ab_whole :: "ABSys \<Rightarrow> ab_label \<Rightarrow> ABSys \<Rightarrow> bool" where
  "ab_whole s l s' \<longleftrightarrow> s' = ab_do l s \<and> label_whole s l"

text \<open>A start whose state file names the kernel's rules, and none when there is no file.\<close>

definition rules_match :: "persisted option \<Rightarrow> string list \<Rightarrow> bool" where
  "rules_match st rs \<longleftrightarrow>
     (case st of
        None \<Rightarrow> rs = []
      | Some p \<Rightarrow> (\<forall>e \<in> set (Blocks p). canon (entryIP e))
          \<and> set rs = {entryIP e | e. e \<in> set (Blocks p) \<and> Firewall e \<and> \<not> entryDry e})"

definition ab_clean :: "ABSys \<Rightarrow> bool" where
  "ab_clean s \<longleftrightarrow> (\<exists>now c st rs. s = boot now c st rs \<and> rules_match st rs)"

lemma load_blocks_any:
  assumes "\<forall>e \<in> set es. canon (entryIP e)" and "entries_ok b"
  shows "entries_ok (fold (load_block now) es b)
    \<and> (\<forall>(a, e) \<in> set (blocked (fold (load_block now) es b)). (a, e) \<in> set (blocked b) \<or> e \<in> set es)
    \<and> (\<forall>x \<in> set (fwPending (fold (load_block now) es b)). x \<in> set (fwPending b) \<or> canon x)
    \<and> (\<forall>x. listed b x \<or> x \<in> set (fwPending b) \<longrightarrow>
         listed (fold (load_block now) es b) x \<or> x \<in> set (fwPending (fold (load_block now) es b)))
    \<and> (\<forall>e \<in> set es. Firewall e \<and> \<not> entryDry e \<longrightarrow>
         listed (fold (load_block now) es b) (entryIP e) \<or> entryIP e \<in> set (fwPending (fold (load_block now) es b)))
    \<and> fwQueue (fold (load_block now) es b) = fwQueue b"
  using assms
proof (induction es arbitrary: b)
  case Nil
  then show ?case by auto
next
  case (Cons e es)
  obtain a where a: "key_addr a" "entryIP e = AddrString a" using Cons.prems(1) by (auto simp: canon_def)
  let ?b = "load_block now e b"
  note eff = load_block_effect [OF a, of now b]
  have ok: "entries_ok ?b" using Cons.prems(2) a
    by (auto simp: eff entries_ok_def map_put_def set_map_delete)
  have bl: "\<forall>(x, u) \<in> set (blocked ?b). (x, u) \<in> set (blocked b) \<or> u = e"
    by (auto simp: eff map_put_def set_map_delete)
  have pe: "\<forall>x \<in> set (fwPending ?b). x \<in> set (fwPending b) \<or> canon x"
    using a by (auto simp: eff canon_def)
  have mo: "listed ?b x \<or> x \<in> set (fwPending ?b)" if "listed b x \<or> x \<in> set (fwPending b)" for x
    using that by (auto simp: eff listed_def)
  have ne: "Firewall e \<and> \<not> entryDry e \<longrightarrow> listed ?b (entryIP e) \<or> entryIP e \<in> set (fwPending ?b)"
    using a by (auto simp: eff listed_def)
  have q: "fwQueue ?b = fwQueue b" by (simp add: eff)
  have c: "\<forall>e \<in> set es. canon (entryIP e)" using Cons.prems(1) by simp
  let ?r = "fold (load_block now) es ?b"
  note ih = Cons.IH [OF c ok]
  have keep: "listed ?r x \<or> x \<in> set (fwPending ?r)" if "listed ?b x \<or> x \<in> set (fwPending ?b)" for x
    using ih that by blast
  have A: "\<forall>(x, u) \<in> set (blocked ?r). (x, u) \<in> set (blocked b) \<or> u \<in> set (e # es)"
    using ih bl by fastforce
  have B: "\<forall>x \<in> set (fwPending ?r). x \<in> set (fwPending b) \<or> canon x"
    using ih pe by blast
  have C: "\<forall>x. listed b x \<or> x \<in> set (fwPending b) \<longrightarrow> listed ?r x \<or> x \<in> set (fwPending ?r)"
    using mo keep by blast
  have D: "\<forall>u \<in> set (e # es). Firewall u \<and> \<not> entryDry u \<longrightarrow> listed ?r (entryIP u) \<or> entryIP u \<in> set (fwPending ?r)"
    using ih ne keep by auto
  have "fold (load_block now) (e # es) b = ?r" by simp
  then show ?case using ih A B C D q by (simp only:)
qed

lemma load_levels_queue:
  "fwQueue (fold load_level hs b) = fwQueue b \<and> fwHooks (fold load_level hs b) = fwHooks b"
  by (induction hs arbitrary: b) (auto simp: load_level_def split: option.splits)

lemma rules_ok_boot:
  assumes "rules_match st rs"
  shows "rules_ok (boot now c st rs)"
proof -
  let ?s = "boot now c st rs"
  define b0 where "b0 = (publish (empty_blocker (Normalize c)))
      \<lparr>safeNets := Some (defaultSafeNets @ List.map_filter whitelistNet (Whitelist (Normalize c))),
       fwEnabled := FirewallSync (Normalize c)\<rparr>"
  have z: "blocked b0 = []" "fwPending b0 = []" "fwQueue b0 = []"
    by (simp_all add: b0_def publish_def empty_blocker_def)
  have N: "NewBlocker now c st = loadState now st b0"
    by (simp add: NewBlocker_def Let_def SetWhitelist_empty publish_def empty_blocker_def b0_def)
  have f: "rules ?s = rs" "worker ?s = Idle" "inflight ?s = []" "blocked (blk ?s) = blocked (NewBlocker now c st)"
    "fwPending (blk ?s) = fwPending (NewBlocker now c st)" "fwQueue (blk ?s) = fwQueue (NewBlocker now c st)"
    "fwHooks (blk ?s) = (True, True)" by (simp_all add: boot_def SetFirewall_def)
  have ok: "blocker_ok (blk ?s)" by (simp add: boot_def blocker_ok_hooks blocker_ok_New)
  show ?thesis
  proof (cases st)
    case None
    with assms have "rs = []" by (simp add: rules_match_def)
    moreover have "NewBlocker now c st = b0" using N by (simp add: loadState_def None)
    ultimately show ?thesis using ok f z
      by (simp add: rules_ok_def entries_ok_def marked_ok_def texts_ok_def todo_ops_def)
  next
    case (Some p)
    let ?b = "fold (load_block now) (Blocks p) b0"
    have p: "\<forall>e \<in> set (Blocks p). canon (entryIP e)"
      "set rs = {entryIP e | e. e \<in> set (Blocks p) \<and> Firewall e \<and> \<not> entryDry e}"
      using assms Some by (simp_all add: rules_match_def)
    have n: "NewBlocker now c st = publish (fold load_level (History p) ?b)" using N Some by (simp add: loadState_def)
    have g: "blocked (blk ?s) = blocked ?b" "fwPending (blk ?s) = fwPending ?b" "fwQueue (blk ?s) = fwQueue ?b"
      unfolding f n by (simp_all add: publish_def load_levels_frame load_levels_queue)
    have e0: "entries_ok b0" by (simp add: entries_ok_def z)
    note L = load_blocks_any [OF p(1) e0, of now]
    have en: "entries_ok (blk ?s)" using L by (simp add: entries_ok_def g)
    have ma: "marked_ok ?s" using L p(2) en
      unfolding marked_ok_def entries_ok_def g f by (fastforce simp: z)
    have te: "texts_ok ?s" using L p z by (auto simp: texts_ok_def todo_ops_def f(1-3) g)
    have "held ?s x" if "x \<in> set rs" for x using L that p(2) by (auto simp: held_def listed_def g)
    with ok f g L z en ma te show ?thesis by (simp add: rules_ok_def todo_ops_def)
  qed
qed

text \<open>Lifting by key.\<close>

lemma fold_forget_frame:
  "fwHooks (fold forget ks b) = fwHooks b" "fwQueue (fold forget ks b) = fwQueue b"
  "fwPending (fold forget ks b) = fwPending b"
  "set (blocked (fold forget ks b)) \<subseteq> set (blocked b)"
  by (induction ks arbitrary: b) (auto simp: set_map_delete, fastforce simp: set_map_delete)

lemma fold_unlist_frame:
  "fwHooks (fold unlist ks b) = fwHooks b" "fwQueue (fold unlist ks b) = fwQueue b"
  "fwPending (fold unlist ks b) = fwPending b"
  "set (blocked (fold unlist ks b)) \<subseteq> set (blocked b)"
  "map_of (blocked (fold unlist ks b)) = (\<lambda>a. if a \<in> set ks then None else map_of (blocked b) a)"
  by (induction ks arbitrary: b) (auto simp: set_map_delete fun_eq_iff, fastforce simp: set_map_delete)

lemma rules_ok_lift_by:
  assumes ok: "rules_ok s" and bok: "blocker_ok b'"
    and same: "fwHooks b' = fwHooks (blk s)" "fwQueue b' = fwQueue (blk s)" "fwPending b' = fwPending (blk s)"
      "set (blocked b') \<subseteq> set (blocked (blk s))"
    and left: "map_of (blocked b') = (\<lambda>a. if a \<in> set (map fst (filter P (blocked (blk s)))) then None else map_of (blocked (blk s)) a)"
  shows "rules_ok (s\<lparr>blk := b', inflight := inflight s @ map (entryIP \<circ> snd) (filter P (blocked (blk s)))\<rparr>)"
proof (rule rules_ok_lift [OF ok bok same])
  have e: "\<forall>(a, e) \<in> set (blocked (blk s)). key_addr a \<and> entryIP e = AddrString a"
    using ok by (simp add: rules_ok_def entries_ok_def)
  fix a e assume "(a, e) \<in> set (blocked (blk s))" "map_of (blocked b') a = None"
  then have "a \<in> set (map fst (filter P (blocked (blk s))))"
    using left by (auto simp: map_of_eq_None_iff image_iff split: if_splits)
  then obtain u where "(a, u) \<in> set (filter P (blocked (blk s)))" by auto
  with e show "AddrString a \<in> set (map (entryIP \<circ> snd) (filter P (blocked (blk s))))" by force
next
  show "\<forall>x \<in> set (map (entryIP \<circ> snd) (filter P (blocked (blk s)))). canon x"
    using ok by (auto simp: rules_ok_def entries_ok_def canon_def)
qed

lemma rules_ok_lift_safe: "rules_ok s \<Longrightarrow> rules_ok (lift_section lift_safe s)"
  using rules_ok_lift_by [of s "fst (lift_safe (blk s))" "\<lambda>(a, e). Safe (blk s) a"]
  by (auto simp: lift_section_def lift_safe_def Let_def fold_forget fold_forget_frame rules_ok_def
      intro: blocker_ok_fold)

lemma rules_ok_lift_expired: "rules_ok s \<Longrightarrow> rules_ok (lift_section (lift_expired now) s)"
  using rules_ok_lift_by [of s "fst (lift_expired now (blk s))" "\<lambda>(a, e). Expired now e"]
  by (auto simp: lift_section_def lift_expired_def Let_def fold_unlist_frame rules_ok_def
      intro: blocker_ok_fold)

lemma rules_ok_unblock: "rules_ok s \<Longrightarrow> rules_ok (unblock_section ip s)"
proof (cases "ParseRemote ip")
  case (Some a)
  assume ok: "rules_ok s"
  let ?l = "if map_of (blocked (blk s)) a = None then [] else [AddrString a]"
  have "rules_ok (s\<lparr>blk := forget a (blk s), inflight := inflight s @ ?l\<rparr>)"
  proof (rule rules_ok_lift [OF ok])
    show "blocker_ok (forget a (blk s))" using ok by (auto simp: rules_ok_def)
    show "AddrString x \<in> set ?l"
      if "(x, e) \<in> set (blocked (blk s))" "map_of (blocked (forget a (blk s))) x = None" for x e
      using that by (force simp: map_of_eq_None_iff image_iff split: if_splits)
    show "\<forall>x \<in> set ?l. canon x" using ParseRemote_key [OF Some] unfolding canon_def by auto
  qed (auto simp: set_map_delete)
  then show ?thesis
    by (cases "map_of (blocked (blk s)) a") (simp_all add: unblock_section_def Some)
qed (simp add: unblock_section_def)

lemma rules_ok_step:
  assumes ok: "rules_ok s" and whole: "label_whole s l"
  shows "rules_ok (ab_do l s)"
proof (cases l)
  case (LSec c)
  have "extends (blk s) (sec_do c (blk s))"
    by (rule sec_extends) (use ok whole LSec in \<open>auto simp: label_whole_def rules_ok_def texts_ok_def\<close>)
  moreover have "blocker_ok (sec_do c (blk s))" using ok by (simp add: rules_ok_def blocker_ok_sec)
  ultimately show ?thesis using rules_ok_extends [OF ok] LSec by simp
next
  case LSaveRequest
  let ?s = "s\<lparr>dirty := True\<rparr>"
  have d: "rules_ok ?s" using ok
    by (auto simp: rules_ok_def marked_ok_def texts_ok_def todo_ops_def held_def [abs_def])
  have "rules_ok (?s\<lparr>blk := (blk ?s)\<lparr>saveOnce := False\<rparr>\<rparr>)"
    by (rule rules_ok_extends [OF d extends_same]) (use d in \<open>simp_all add: rules_ok_def\<close>)
  then show ?thesis using ok LSaveRequest by (simp add: save_request_def)
next
  case (LCall good)
  have "good" if "worker s = Removing ip" for ip using whole LCall that by (simp add: label_whole_def)
  then show ?thesis using LCall rules_ok_call [OF ok] by simp
next
  case (LSaveTick now)
  then show ?thesis using ok
    by (auto simp: save_tick_def rules_ok_def marked_ok_def texts_ok_def todo_ops_def held_def [abs_def])
qed (use ok whole in \<open>simp_all add: label_whole_def rules_ok_lift_safe rules_ok_lift_expired rules_ok_unblock
    rules_ok_removal rules_ok_take rules_ok_decide rules_ok_mark\<close>)

interpretation abrules: transition_system ab_clean ab_whole rules_ok
proof unfold_locales
  show "ab_clean s \<Longrightarrow> rules_ok s" for s
    by (auto simp: ab_clean_def rules_ok_boot)
  show "rules_ok s \<Longrightarrow> ab_whole s l s' \<Longrightarrow> rules_ok s'" for s l s'
    by (simp add: ab_whole_def rules_ok_step)
qed


text \<open>A run of the system.\<close>

fun whole_run :: "ab_label list \<Rightarrow> ABSys \<Rightarrow> bool" where
  "whole_run [] s = True"
| "whole_run (l # ls) s = (label_whole s l \<and> whole_run ls (ab_do l s))"

lemma whole_run_reach:
  "reach ab_clean ab_whole s \<Longrightarrow> whole_run ls s \<Longrightarrow> reach ab_clean ab_whole (fold ab_do ls s)"
proof (induction ls arbitrary: s)
  case (Cons l ls)
  then have "ab_whole s l (ab_do l s)" by (simp add: ab_whole_def)
  with Cons.prems(1) have "reach ab_clean ab_whole (ab_do l s)" by (rule reach_step)
  with Cons show ?case by simp
qed simp

definition example_boot :: ABSys where
  "example_boot = boot 0 example_policy None []"

definition block_run :: "ab_label list" where
  "block_run = [LSec (SecBlock 5 ''198.51.100.7:443'' '''' 0), LTake, LDecide, LCall True, LMark]"

definition rule_facts :: "ABSys \<Rightarrow> string list \<times> bool option \<times> bool" where
  "rule_facts s = (rules s, map_option (\<lambda>e. Firewall e \<and> \<not> entryDry e) (map_of (blocked (blk s)) (Addr4 [198, 51, 100, 7])),
     worker s = Idle \<and> fwQueue (blk s) = [] \<and> fwPending (blk s) = [] \<and> inflight s = [])"


section \<open>Rules left behind\<close>

text \<open>
  \<open>Block\<close> and \<open>apply\<close> publish the block in one critical section and queue its rule after leaving it.
\<close>

lemma Block_two_sections:
  assumes "ParseRemote ip = Some a" and "\<not> Safe b a"
  shows "\<exists>e. entryIP e = AddrString a
    \<and> snd (Block now ip reason dur b) = sec_do SecSave (sec_do (SecQueueAdd (AddrString a)) (sec_do (SecInstall a e) b))"
  by (rule exI [of _ "\<lparr>entryIP = AddrString a, Reason = (if reason = [] then ReasonManual else reason), Hits = 0,
      Level = (case map_of (history b) a of Some prev \<Rightarrow> prev + 1 | None \<Rightarrow> 1), BlockedAt = now,
      ExpiresAt = (let d = (if dur = 0 then BlockDuration (cfg b) else dur) in if d > 0 then Some (now + d) else None),
      Firewall = False, entryDry = False\<rparr>"]) (simp add: Block_def Let_def assms)

definition manual_entry :: Entry where
  "manual_entry = \<lparr>entryIP = ''198.51.100.7'', Reason = ReasonManual, Hits = 0, Level = 1, BlockedAt = 5,
     ExpiresAt = Some (5 + 15 * time_Minute), Firewall = False, entryDry = False\<rparr>"

text \<open>An operator unblocks the address between the two halves of its block.\<close>

definition race_run :: "ab_label list" where
  "race_run =
     [LSec (SecInstall (Addr4 [198, 51, 100, 7]) manual_entry), LUnblock ''198.51.100.7'', LRemoval 0,
      LSec (SecQueueAdd ''198.51.100.7''), LTake, LDecide, LCall True, LTake, LDecide, LCall True, LMark]"

text \<open>
  The state file is written while the rule is still queued, and the address is marked afterwards
  without a request to save; the server then restarts after the block has lapsed.
\<close>

definition restart_run :: "ab_label list" where
  "restart_run =
     [LSec (SecBlock 5 ''198.51.100.7:443'' '''' 0), LSaveRequest, LSaveTick 6, LTake, LDecide, LCall True, LMark,
      LSaveRequest, LSaveTick 7, LRestart (6 + 60 * time_Minute) example_policy]"

lemma fold_do_reach: "reach ab_init ab_step s \<Longrightarrow> reach ab_init ab_step (fold ab_do ls s)"
proof (induction ls arbitrary: s)
  case (Cons l ls)
  have "reach ab_init ab_step (ab_do l s)"
    using Cons.prems by (rule reach_step) (simp only: ab_step_def)
  with Cons.IH show ?case by simp
qed simp

lemma example_boot_reach: "reach ab_init ab_step example_boot"
  by (rule reach_init) (auto simp: ab_init_def example_boot_def)

definition nothing_left :: "ABSys \<Rightarrow> bool" where
  "nothing_left s \<longleftrightarrow> worker s = Idle \<and> fwQueue (blk s) = [] \<and> fwPending (blk s) = [] \<and> inflight s = []
     \<and> blocked (blk s) = []"

definition outcome :: "ABSys \<Rightarrow> bool \<times> string list" where
  "outcome s = (nothing_left s, rules s)"


end
