(* ===== verification/Autoblock_Guard.thy ===== *)
theory Autoblock_Guard
  imports Autoblock_Firewall
begin

text \<open>
  The listener that consults the blocker (\<open>internal/server/guardlistener.go\<close>): accepting, the wrapped
  connections it hands out and their closing. The result is that the blocker's gauge of open
  connections never exceeds the connections an address really holds, so nobody is refused for
  concurrency who is within the limit.
\<close>

section \<open>Listener and connections\<close>

record GuardConn =
  connAddr :: netip_addr
  bytesRead :: int
  connClosed :: bool

datatype accept_result = AcceptError | AcceptPlain string | AcceptGuard GuardConn | AcceptWaiting

definition newGuardListener :: "Blocker option \<Rightarrow> bool" where
  "newGuardListener ab = (case ab of None \<Rightarrow> False | Some b \<Rightarrow> Enabled (cfg b))"

definition new_conn :: "netip_addr \<Rightarrow> GuardConn" where
  "new_conn a = \<lparr>connAddr = a, bytesRead = 0, connClosed = False\<rparr>"

text \<open>
  \<open>Accept\<close> over the connections the inner listener delivers (\<open>None\<close> is its error), with the clock
  readings of each. It goes on past refused connections and ends waiting when there are no more.
\<close>

fun Accept :: "((nat \<Rightarrow> instant) \<times> string option) list \<Rightarrow> Blocker \<Rightarrow> Blocker \<times> accept_result" where
  "Accept [] b = (b, AcceptWaiting)"
| "Accept ((clk, None) # cs) b = (b, AcceptError)"
| "Accept ((clk, Some remote) # cs) b =
     (case ParseRemote remote of
        None \<Rightarrow> (b, AcceptPlain remote)
      | Some a \<Rightarrow>
          (case ConnOpened clk a b of
             (b', ok) \<Rightarrow> if ok then (b', AcceptGuard (new_conn a)) else Accept cs b'))"

definition conn_Read :: "int \<Rightarrow> GuardConn \<Rightarrow> GuardConn" where
  "conn_Read n c = (if n > 0 then c\<lparr>bytesRead := bytesRead c + n\<rparr> else c)"

definition conn_Close :: "(nat \<Rightarrow> instant) \<Rightarrow> GuardConn \<Rightarrow> Blocker \<Rightarrow> GuardConn \<times> Blocker" where
  "conn_Close clk c b =
     (if connClosed c then (c, b)
      else (c\<lparr>connClosed := True\<rparr>, ConnClosed clk (connAddr c) (bytesRead c = 0) b))"

section \<open>The gauge\<close>

definition gauge :: "netip_addr \<Rightarrow> Blocker \<Rightarrow> int" where
  "gauge a b = (case map_of (tracks (trackShards b (addrShardIndex a))) a of Some t \<Rightarrow> concurrent t | None \<Rightarrow> 0)"

lemma gauge_cong: "trackShards b' = trackShards b \<Longrightarrow> gauge a b' = gauge a b"
  by (simp add: gauge_def)

lemma gauge_nonneg: "blocker_ok b \<Longrightarrow> 0 \<le> gauge a b"
  using tracks_ok_known [of "addrShardIndex a" "trackShards b (addrShardIndex a)" a]
  by (simp add: gauge_def blocker_ok_def)

lemma map_of_dropQuiet:
  assumes "tracks_ok i sh"
  shows "(case map_of (tracks (dropQuiet c sh)) a of Some t \<Rightarrow> concurrent t | None \<Rightarrow> 0)
    = (case map_of (tracks sh) a of Some t \<Rightarrow> concurrent t | None \<Rightarrow> 0)"
proof -
  have d: "distinct (map fst (tracks sh))" using assms by (simp add: tracks_ok_def)
  have "map_of (tracks (dropQuiet c sh)) a
      = (case map_of (tracks sh) a of Some t \<Rightarrow> if \<not> (concurrent t \<le> 0 \<and> lastSeen t < c) then Some t else None | None \<Rightarrow> None)"
    using map_of_filter_vals [OF d, of "\<lambda>t. \<not> (concurrent t \<le> 0 \<and> lastSeen t < c)" a] by (simp add: dropQuiet_def)
  then show ?thesis using tracks_ok_known [OF assms, of a] by (auto split: option.splits)
qed

lemma gauge_withTrack:
  assumes "blocker_ok b" and w: "withTrack a now fn b = (b', t)"
  shows "a' \<noteq> a \<Longrightarrow> gauge a' b' = gauge a' b"
    and "\<exists>t0. t = fn t0 \<and> concurrent t0 = gauge a b \<and> (gauge a b' = concurrent t \<or> gauge a b = 0 \<and> gauge a b' = 0)"
proof -
  let ?sh = "trackShards b (addrShardIndex a)"
  have ok: "tracks_ok (addrShardIndex a) ?sh" using assms(1) by (simp add: blocker_ok_def)
  have keep: "(case map_of (tracks sh) x of Some t \<Rightarrow> concurrent t | None \<Rightarrow> 0)
      = (case map_of (tracks ?sh) x of Some t \<Rightarrow> concurrent t | None \<Rightarrow> 0)"
    if "sh = ?sh \<or> (\<exists>c. sh = dropQuiet c (?sh\<lparr>sweptAt := now\<rparr>))" for sh x
    using that map_of_dropQuiet [of "addrShardIndex a" "?sh\<lparr>sweptAt := now\<rparr>"] ok by auto
  from w show "gauge a' b' = gauge a' b" if ne: "a' \<noteq> a"
  proof (cases rule: withTrack_cases)
    case (kept sh t0)
    then have "sh = ?sh \<or> (\<exists>c. sh = dropQuiet c (?sh\<lparr>sweptAt := now\<rparr>))" by blast
    from keep [OF this] kept(1) ne show ?thesis
      by (cases "addrShardIndex a' = addrShardIndex a") (simp_all add: gauge_def)
  next
    case (passing sh t0)
    from keep [OF passing(3)] passing(1) show ?thesis
      by (cases "addrShardIndex a' = addrShardIndex a") (simp_all add: gauge_def)
  qed
  from w show "\<exists>t0. t = fn t0 \<and> concurrent t0 = gauge a b \<and> (gauge a b' = concurrent t \<or> gauge a b = 0 \<and> gauge a b' = 0)"
  proof (cases rule: withTrack_cases)
    case (kept sh t0)
    then show ?thesis by (intro exI [of _ t0]) (simp add: gauge_def)
  next
    case (passing sh t0)
    from keep [OF passing(3), of a] passing show ?thesis by (intro exI [of _ t0]) (simp add: gauge_def)
  qed
qed

lemma withTrack_cfg: "withTrack a now fn b = (b', t) \<Longrightarrow> cfg b' = cfg b \<and> safeNets b' = safeNets b"
  by (erule withTrack_frame) simp

lemma apply_block_keeps: "trackShards (apply_block now a r h l d b) = trackShards b \<and> cfg (apply_block now a r h l d b) = cfg b"
  by (simp add: apply_block_def Let_def requestSave_def queueAdd_def)

lemma trip_keeps: "trackShards (trip now now' a r h b) = trackShards b \<and> cfg (trip now now' a r h b) = cfg b"
  by (simp add: trip_def Let_def apply_block_keeps)

lemma gauge_trip [simp]: "gauge x (trip now now' a r h b) = gauge x b"
  by (rule gauge_cong) (simp add: trip_keeps)

lemma gauge_free:
  assumes "blocker_ok b"
  shows "x \<noteq> a \<Longrightarrow> gauge x (fst (withTrack a now free_slot b)) = gauge x b"
    and "gauge a (fst (withTrack a now free_slot b)) \<le> max 0 (gauge a b - 1)"
proof -
  obtain b' t where w: "withTrack a now free_slot b = (b', t)" by fastforce
  show "x \<noteq> a \<Longrightarrow> gauge x (fst (withTrack a now free_slot b)) = gauge x b"
    using gauge_withTrack(1) [OF assms w] w by simp
  obtain t0 where "t = free_slot t0" "concurrent t0 = gauge a b" "gauge a b' = concurrent t \<or> gauge a b = 0 \<and> gauge a b' = 0"
    using gauge_withTrack(2) [OF assms w] by blast
  then show "gauge a (fst (withTrack a now free_slot b)) \<le> max 0 (gauge a b - 1)"
    using gauge_nonneg [OF assms, of a] w by (cases "concurrent t0 > 0") (auto simp: free_slot_def)
qed

text \<open>Opening a connection: the gauge moves only when it is served, by at most one.\<close>

lemma gauge_ConnOpened:
  assumes ok: "blocker_ok b" and o: "ConnOpened clk a b = (b', served)"
  shows "gauge x b' \<le> gauge x b + (if x = a \<and> served then 1 else 0)" and "cfg b' = cfg b"
proof -
  obtain b1 t where w: "withTrack a (clk 0) count_open b = (b1, t)" by fastforce
  have ok1: "blocker_ok b1" using blocker_ok_track_then [OF w ok] by simp
  have c1: "cfg b1 = cfg b" using withTrack_cfg [OF w] by simp
  have g: "gauge x b1 \<le> gauge x b + (if x = a then 1 else 0)"
    using gauge_withTrack [OF ok w] by (cases "x = a") (auto simp: count_open_def)
  have z: "gauge a b1 \<le> max 0 (gauge a b + 1)"
    using gauge_withTrack(2) [OF ok w] by (auto simp: count_open_def)
  have refused: "gauge x (trip_conn clk' a r h b1) \<le> gauge x b" if "\<not> DryRun (cfg b)" for clk' r h
    using gauge_free(1) [OF ok1, of x a "clk' 0"] gauge_free(2) [OF ok1, of a "clk' 0"] g z that c1 gauge_nonneg [OF ok, of a]
    by (cases "x = a") (auto simp: trip_conn_def)
  have dry: "gauge x (trip_conn clk' a r h c) = gauge x c" if "DryRun (cfg c)" for clk' r h c
    using that by (simp add: trip_conn_def)
  have tc: "cfg (trip_conn clk' a r h c) = cfg c" for clk' r h c
    using withTrack_cfg [of a "clk' 0" free_slot c] by (cases "withTrack a (clk' 0) free_slot c") (simp add: trip_conn_def trip_keeps)
  show "gauge x b' \<le> gauge x b + (if x = a \<and> served then 1 else 0)"
    using o g refused dry tc c1 gauge_nonneg [OF ok, of x]
    by (auto simp: ConnOpened_def w Let_def split: if_splits)
  show "cfg b' = cfg b" using o tc c1 by (auto simp: ConnOpened_def w Let_def split: if_splits)
qed

lemma gauge_ConnClosed:
  assumes ok: "blocker_ok b" and en: "Enabled (cfg b)"
  shows "x \<noteq> a \<Longrightarrow> gauge x (ConnClosed clk a ab b) = gauge x b"
    and "gauge a (ConnClosed clk a ab b) \<le> max 0 (gauge a b - 1)"
    and "cfg (ConnClosed clk a ab b) = cfg b"
proof -
  obtain b1 t where w: "withTrack a (clk 0) (count_close ab) b = (b1, t)" by fastforce
  have c: "concurrent (count_close ab u) = (if concurrent u > 0 then concurrent u - 1 else concurrent u)" for u
    by (simp add: count_close_def free_slot_def Let_def)
  have s: "gauge x (close_safe a b) = (if x = a then (if gauge a b > 0 then gauge a b - 1 else gauge a b) else gauge x b)" for x
    by (auto simp: close_safe_def gauge_def free_slot_def Let_def split: option.splits)
  show "x \<noteq> a \<Longrightarrow> gauge x (ConnClosed clk a ab b) = gauge x b"
    using en s [of x] gauge_withTrack(1) [OF ok w] by (simp add: ConnClosed_def w)
  show "gauge a (ConnClosed clk a ab b) \<le> max 0 (gauge a b - 1)"
    using en s [of a] gauge_withTrack(2) [OF ok w] gauge_nonneg [OF ok, of a]
    by (auto simp: ConnClosed_def w c split: if_splits)
  show "cfg (ConnClosed clk a ab b) = cfg b"
    using withTrack_cfg [OF w]
    by (auto simp: ConnClosed_def w trip_keeps close_safe_def Let_def split: option.splits)
qed

section \<open>The guarded listener\<close>

record Guard =
  guarded :: Blocker
  open_conns :: "GuardConn list"

datatype guard_label =
    GAccept "((nat \<Rightarrow> instant) \<times> string option) list"
  | GRead nat int
  | GClose nat "nat \<Rightarrow> instant"
  | GHTTP "nat \<Rightarrow> instant" string string
  | GBlock instant string string duration
  | GUnblock string
  | GExpire instant
  | GCollect instant
  | GWhitelist "string list"

definition guard_accept :: "((nat \<Rightarrow> instant) \<times> string option) list \<Rightarrow> Guard \<Rightarrow> Guard" where
  "guard_accept cs g =
     (case Accept cs (guarded g) of
        (b, AcceptGuard c) \<Rightarrow> g\<lparr>guarded := b, open_conns := c # open_conns g\<rparr>
      | (b, r) \<Rightarrow> g\<lparr>guarded := b\<rparr>)"

definition guard_close :: "nat \<Rightarrow> (nat \<Rightarrow> instant) \<Rightarrow> Guard \<Rightarrow> Guard" where
  "guard_close i clk g =
     (if i < length (open_conns g)
      then (case conn_Close clk (open_conns g ! i) (guarded g) of
              (c, b) \<Rightarrow> g\<lparr>guarded := b, open_conns := (open_conns g)[i := c]\<rparr>)
      else g)"

fun guard_do :: "guard_label \<Rightarrow> Guard \<Rightarrow> Guard" where
  "guard_do (GAccept cs) g = guard_accept cs g"
| "guard_do (GRead i n) g =
     (if i < length (open_conns g) then g\<lparr>open_conns := (open_conns g)[i := conn_Read n (open_conns g ! i)]\<rparr> else g)"
| "guard_do (GClose i clk) g = guard_close i clk g"
| "guard_do (GHTTP clk r reason) g = g\<lparr>guarded := RecordHTTP clk r reason (guarded g)\<rparr>"
| "guard_do (GBlock now ip r d) g = g\<lparr>guarded := snd (Block now ip r d (guarded g))\<rparr>"
| "guard_do (GUnblock ip) g = g\<lparr>guarded := snd (Unblock ip (guarded g))\<rparr>"
| "guard_do (GExpire now) g = g\<lparr>guarded := expire now (guarded g)\<rparr>"
| "guard_do (GCollect now) g = g\<lparr>guarded := gcTracks now (guarded g)\<rparr>"
| "guard_do (GWhitelist es) g = g\<lparr>guarded := SetWhitelist es (guarded g)\<rparr>"

definition holds_open :: "netip_addr \<Rightarrow> Guard \<Rightarrow> nat" where
  "holds_open a g = length (filter (\<lambda>c. connAddr c = a \<and> \<not> connClosed c) (open_conns g))"

definition guard_ok :: "Guard \<Rightarrow> bool" where
  "guard_ok g \<longleftrightarrow> blocker_ok (guarded g) \<and> Enabled (cfg (guarded g))
     \<and> (\<forall>a. gauge a (guarded g) \<le> int (holds_open a g))"

definition guard_init :: "Guard \<Rightarrow> bool" where
  "guard_init g \<longleftrightarrow> (\<exists>now c st. g = \<lparr>guarded = SetFirewall True True (NewBlocker now c st), open_conns = []\<rparr>
     \<and> newGuardListener (Some (guarded g)))"

definition guard_step :: "Guard \<Rightarrow> guard_label \<Rightarrow> Guard \<Rightarrow> bool" where
  "guard_step g l g' \<longleftrightarrow> g' = guard_do l g"

text \<open>Accepting and closing.\<close>

lemma Accept_gauge:
  assumes "blocker_ok b" and "Accept cs b = (b', r)"
  shows "blocker_ok b' \<and> cfg b' = cfg b
    \<and> gauge x b' \<le> gauge x b + (if r = AcceptGuard (new_conn x) then 1 else 0)
    \<and> (\<forall>c. r = AcceptGuard c \<longrightarrow> c = new_conn (connAddr c))"
  using assms
proof (induction cs b rule: Accept.induct)
  case (3 clk remote cs b)
  show ?case
  proof (cases "ParseRemote remote")
    case None
    with 3 show ?thesis by auto
  next
    case (Some a)
    obtain b1 s where o: "ConnOpened clk a b = (b1, s)" by fastforce
    have ok: "blocker_ok b1" using blocker_ok_ConnOpened [OF 3(2), of clk a] o by simp
    note g = gauge_ConnOpened(1) [OF 3(2) o, where x = x] gauge_ConnOpened(2) [OF 3(2) o]
    show ?thesis
    proof (cases s)
      case True
      have "b' = b1" "r = AcceptGuard (new_conn a)" using 3(3) Some o True by simp_all
      with g ok True show ?thesis by (auto simp: new_conn_def)
    next
      case False
      have "Accept cs b1 = (b', r)" using 3(3) Some o False by simp
      with 3(1) [OF Some o [symmetric] False ok] g False show ?thesis by auto
    qed
  qed
qed auto

lemma length_filter_update:
  assumes "i < length xs"
  shows "int (length (filter P (xs[i := x]))) = int (length (filter P xs)) - (if P (xs ! i) then 1 else 0) + (if P x then 1 else 0)"
proof -
  have e: "take i xs @ xs ! i # drop (Suc i) xs = xs" by (rule id_take_nth_drop [OF assms, symmetric])
  have "length (filter P (take i xs @ y # drop (Suc i) xs))
      = length (filter P (take i xs)) + (if P y then 1 else 0) + length (filter P (drop (Suc i) xs))" for y
    by simp
  from this [of "xs ! i"] this [of x] show ?thesis
    unfolding e upd_conv_take_nth_drop [OF assms] by simp
qed

lemma guard_ok_accept: "guard_ok g \<Longrightarrow> guard_ok (guard_accept cs g)"
proof -
  assume ok: "guard_ok g"
  obtain b r where a: "Accept cs (guarded g) = (b, r)" by fastforce
  have "blocker_ok (guarded g)" using ok by (simp add: guard_ok_def)
  note A = Accept_gauge [OF this a]
  show ?thesis
  proof (cases r)
    case (AcceptGuard c)
    have c: "c = new_conn (connAddr c)" using A AcceptGuard by blast
    have "gauge x b \<le> int (holds_open x (g\<lparr>guarded := b, open_conns := c # open_conns g\<rparr>))" for x
    proof (cases "connAddr c = x")
      case True
      with A [of x] ok c show ?thesis unfolding AcceptGuard
        using c by (auto simp: guard_ok_def holds_open_def new_conn_def dest: spec [of _ x])
    next
      case False
      then have "c \<noteq> new_conn x" by (auto simp: new_conn_def)
      with A [of x] ok False show ?thesis unfolding AcceptGuard
        by (auto simp: guard_ok_def holds_open_def dest: spec [of _ x])
    qed
    with a A ok AcceptGuard show ?thesis by (simp add: guard_accept_def guard_ok_def)
  qed (use a A ok in \<open>auto simp: guard_accept_def guard_ok_def holds_open_def intro: order_trans\<close>)
qed

lemma gauge_drop:
  fixes G G' :: int
  shows "(p \<Longrightarrow> 0 < n) \<Longrightarrow> G \<le> int n \<Longrightarrow> (\<not> p \<Longrightarrow> G' = G) \<Longrightarrow> (p \<Longrightarrow> G' \<le> max 0 (G - 1))
    \<Longrightarrow> G' \<le> int n - (if p then 1 else 0)"
  by (cases p) auto

lemma guard_ok_close: "guard_ok g \<Longrightarrow> guard_ok (guard_close i clk g)"
proof (cases "i < length (open_conns g) \<and> \<not> connClosed (open_conns g ! i)")
  case True
  assume ok: "guard_ok g"
  let ?c = "open_conns g ! i"
  let ?b = "ConnClosed clk (connAddr ?c) (bytesRead ?c = 0) (guarded g)"
  have b: "blocker_ok (guarded g)" "Enabled (cfg (guarded g))" using ok by (simp_all add: guard_ok_def)
  have "gauge x ?b \<le> int (holds_open x (g\<lparr>guarded := ?b, open_conns := (open_conns g)[i := ?c\<lparr>connClosed := True\<rparr>]\<rparr>))" for x
  proof -
    have h: "int (holds_open x (g\<lparr>guarded := ?b, open_conns := (open_conns g)[i := ?c\<lparr>connClosed := True\<rparr>]\<rparr>))
        = int (holds_open x g) - (if connAddr ?c = x then 1 else 0)"
      using True by (simp add: holds_open_def length_filter_update)
    have "connAddr ?c = x \<Longrightarrow> 0 < holds_open x g"
      using True nth_mem [of i "open_conns g"] by (auto simp: holds_open_def filter_empty_conv)
    moreover have "gauge x (guarded g) \<le> int (holds_open x g)" using ok by (simp add: guard_ok_def)
    moreover have "connAddr ?c \<noteq> x \<Longrightarrow> gauge x ?b = gauge x (guarded g)"
      by (rule gauge_ConnClosed(1) [OF b]) simp
    moreover have "connAddr ?c = x \<Longrightarrow> gauge x ?b \<le> max 0 (gauge x (guarded g) - 1)"
      by (erule subst) (rule gauge_ConnClosed(2) [OF b])
    ultimately show ?thesis unfolding h by (rule gauge_drop)
  qed
  with True b gauge_ConnClosed(3) [OF b] show ?thesis
    by (simp add: guard_close_def conn_Close_def guard_ok_def blocker_ok_ConnClosed)
next
  case False
  assume "guard_ok g"
  with False show ?thesis by (auto simp: guard_close_def conn_Close_def)
qed

text \<open>The other operations do not touch the gauge.\<close>

definition same_gauge :: "Blocker \<Rightarrow> Blocker \<Rightarrow> bool" where
  "same_gauge b b' \<longleftrightarrow> cfg b' = cfg b \<and> (\<forall>a. gauge a b' = gauge a b)"

lemma same_gauge_tracks: "cfg b' = cfg b \<Longrightarrow> trackShards b' = trackShards b \<Longrightarrow> same_gauge b b'"
  by (auto simp: same_gauge_def intro: gauge_cong)

lemma same_gauge_trans: "same_gauge b c \<Longrightarrow> same_gauge c d \<Longrightarrow> same_gauge b d"
  by (simp add: same_gauge_def)

lemma same_gauge_fold:
  "(\<And>x b. cfg (f x b) = cfg b \<and> trackShards (f x b) = trackShards b) \<Longrightarrow>
   cfg (fold f xs b) = cfg b \<and> trackShards (fold f xs b) = trackShards b"
  by (induction xs arbitrary: b) simp_all

lemma same_gauge_HTTP: "blocker_ok b \<Longrightarrow> same_gauge b (RecordHTTP clk r reason b)"
proof (cases "ParseRemote r")
  case (Some a)
  assume ok: "blocker_ok b"
  obtain b1 t where w: "withTrack a (clk 0) (count_http reason) b = (b1, t)" by fastforce
  have c: "concurrent (count_http reason u) = concurrent u" for u by (simp add: count_http_def)
  have "gauge x b1 = gauge x b" for x
    using gauge_withTrack [OF ok w] c by (cases "x = a") force+
  then have "same_gauge b b1" using withTrack_cfg [OF w] by (simp add: same_gauge_def)
  moreover have "same_gauge b1 (trip now now' a rs h b1)" for now now' rs h
    by (rule same_gauge_tracks) (simp_all add: trip_keeps)
  ultimately have "same_gauge b (trip now now' a rs h b1)" for now now' rs h by (rule same_gauge_trans)
  with \<open>same_gauge b b1\<close> Some show ?thesis
    by (simp add: RecordHTTP_def Let_def w same_gauge_tracks split: option.split)
qed (simp add: RecordHTTP_def same_gauge_tracks)

lemma same_gauge_Block: "same_gauge b (snd (Block now ip r d b))"
  by (rule same_gauge_tracks; cases "ParseRemote ip") (simp_all add: Block_def Let_def requestSave_def queueAdd_def)

lemma queueRemove_tracks: "cfg (queueRemove ip b) = cfg b \<and> trackShards (queueRemove ip b) = trackShards b"
  by (simp add: queueRemove_def)

lemma same_gauge_Unblock: "same_gauge b (snd (Unblock ip b))"
  by (rule same_gauge_tracks; cases "ParseRemote ip") (simp_all add: Unblock_def Let_def requestSave_def queueRemove_tracks)

lemma retry_tracks: "cfg (retry_from ips b) = cfg b \<and> trackShards (retry_from ips b) = trackShards b"
  by (induction ips b rule: retry_from.induct) simp_all

lemma same_gauge_expire: "same_gauge b (expire now b)"
  by (rule same_gauge_tracks)
     (simp_all add: expire_def lift_expired_def Let_def requestSave_def retryPendingRemoves_def retry_tracks
       same_gauge_fold [of queueRemove] same_gauge_fold [of unlist] queueRemove_tracks)

lemma same_gauge_whitelist: "same_gauge b (SetWhitelist es b)"
  by (rule same_gauge_tracks)
     (simp_all add: SetWhitelist_def liftSafeBlocks_def lift_safe_def Let_def requestSave_def
       same_gauge_fold [of queueRemove] same_gauge_fold [of forget] queueRemove_tracks)

lemma same_gauge_gc: "blocker_ok b \<Longrightarrow> same_gauge b (gcTracks now b)"
proof -
  have "same_gauge b (fold (\<lambda>i b. put_shard i (dropQuiet c (trackShards b i)) b) is b)"
    if "blocker_ok b" for c "is" b using that
  proof (induction "is" arbitrary: b)
    case Nil
    then show ?case by (simp add: same_gauge_tracks)
  next
    case (Cons i "is")
    let ?b = "put_shard i (dropQuiet c (trackShards b i)) b"
    have t: "tracks_ok i (trackShards b i)" using Cons.prems by (simp add: blocker_ok_def)
    then have "blocker_ok ?b" using Cons.prems by (intro blocker_ok_put_shard tracks_ok_dropQuiet)
    moreover have "gauge a ?b = gauge a b" for a
      using map_of_dropQuiet [OF t, of c a] by (simp add: gauge_def)
    then have "same_gauge b ?b" by (simp add: same_gauge_def)
    ultimately show ?case using Cons.IH [of ?b] same_gauge_trans by simp
  qed
  then show "blocker_ok b \<Longrightarrow> same_gauge b (gcTracks now b)" by (simp add: gcTracks_def Let_def)
qed

lemma guard_ok_same: "guard_ok g \<Longrightarrow> blocker_ok b \<Longrightarrow> same_gauge (guarded g) b \<Longrightarrow> guard_ok (g\<lparr>guarded := b\<rparr>)"
  by (simp add: guard_ok_def same_gauge_def holds_open_def)

lemma guard_ok_read: "guard_ok g \<Longrightarrow> guard_ok (guard_do (GRead i n) g)"
proof (cases "i < length (open_conns g)")
  case True
  assume ok: "guard_ok g"
  have "connAddr (conn_Read n c) = connAddr c \<and> connClosed (conn_Read n c) = connClosed c" for c
    by (simp add: conn_Read_def)
  then have "int (holds_open a (g\<lparr>open_conns := (open_conns g)[i := conn_Read n (open_conns g ! i)]\<rparr>)) = int (holds_open a g)" for a
    using True by (simp add: holds_open_def length_filter_update)
  with ok True show ?thesis by (simp add: guard_ok_def)
qed simp

lemma guard_ok_step: "guard_ok g \<Longrightarrow> guard_ok (guard_do l g)"
proof -
  assume ok: "guard_ok g"
  then have b: "blocker_ok (guarded g)" by (simp add: guard_ok_def)
  show ?thesis
    by (cases l) (use ok b guard_ok_read [OF ok] in \<open>simp_all add: guard_ok_accept guard_ok_close guard_ok_same blocker_ok_RecordHTTP
      same_gauge_HTTP blocker_ok_Block same_gauge_Block blocker_ok_Unblock same_gauge_Unblock blocker_ok_expire same_gauge_expire
      blocker_ok_gc same_gauge_gc blocker_ok_SetWhitelist same_gauge_whitelist del: guard_do.simps(2)\<close>)
qed

lemma gauge_New: "gauge a (SetFirewall x y (NewBlocker now c st)) = 0"
proof -
  have l: "trackShards (loadState now st b) = trackShards b" for b
  proof (cases st)
    case (Some p)
    have "cfg (fold (load_block now) es c) = cfg c \<and> trackShards (fold (load_block now) es c) = trackShards c" for es c
      by (rule same_gauge_fold) (auto simp: load_block_def split: option.splits)
    moreover have "cfg (fold load_level es c) = cfg c \<and> trackShards (fold load_level es c) = trackShards c" for es c
      by (rule same_gauge_fold) (auto simp: load_level_def split: option.splits)
    ultimately show ?thesis by (simp add: loadState_def Some publish_def)
  qed (simp add: loadState_def)
  then show ?thesis
    by (simp add: SetFirewall_def gauge_def NewBlocker_def Let_def SetWhitelist_empty publish_def empty_blocker_def)
qed

interpretation guards: transition_system guard_init guard_step guard_ok
proof unfold_locales
  show "guard_init g \<Longrightarrow> guard_ok g" for g
    by (auto simp: guard_init_def guard_ok_def newGuardListener_def blocker_ok_hooks blocker_ok_New gauge_New)
  show "guard_ok g \<Longrightarrow> guard_step g l g' \<Longrightarrow> guard_ok g'" for g l g'
    by (simp add: guard_step_def guard_ok_step)
qed

text \<open>
  C34. Nobody is refused for connections it does not hold. Whatever was accepted, closed twice, refused,
  garbage-collected, blocked, unblocked or whitelisted before, the gauge of an address is at most
  the number of its wrapped connections still open; so when the listener refuses a connection from an
  address that is not blocked, either that address already holds at least \<open>MaxConcurrent\<close> open
  connections, or it has opened more than \<open>MaxConnections\<close> in its window, and enforcement is on.
\<close>

theorem guard_refusals_justified:
  assumes "reach guard_init guard_step g"
  shows "0 \<le> gauge a (guarded g) \<and> gauge a (guarded g) \<le> int (holds_open a g)
    \<and> (\<not> snd (ConnOpened clk a (guarded g)) \<longrightarrow>
         Blocked (guarded g) a
         \<or> \<not> DryRun (cfg (guarded g)) \<and> \<not> Safe (guarded g) a
           \<and> (over (MaxConcurrent (cfg (guarded g))) (int (holds_open a g) + 1)
              \<or> over (MaxConnections (cfg (guarded g))) (conns (snd (withTrack a (clk 0) count_open (guarded g))))))"
proof -
  have ok: "blocker_ok (guarded g)" and g: "gauge a (guarded g) \<le> int (holds_open a g)"
    using guards.reach_inv [OF assms] by (auto simp: guard_ok_def)
  obtain b1 t where w: "withTrack a (clk 0) count_open (guarded g) = (b1, t)" by fastforce
  obtain t0 where "t = count_open t0" "concurrent t0 = gauge a (guarded g)"
    using gauge_withTrack(2) [OF ok w] by blast
  then have t: "concurrent t \<le> int (holds_open a g) + 1" using g by (simp add: count_open_def)
  have "\<not> snd (ConnOpened clk a (guarded g)) \<longrightarrow> Blocked (guarded g) a
     \<or> \<not> DryRun (cfg (guarded g)) \<and> \<not> Safe (guarded g) a
       \<and> (over (MaxConcurrent (cfg (guarded g))) (concurrent t) \<or> over (MaxConnections (cfg (guarded g))) (conns t))"
    by (auto simp: ConnOpened_def w Let_def)
  with t ok g w gauge_nonneg [OF ok, of a] show ?thesis by (auto simp: over_def)
qed

definition example_guard :: Guard where
  "example_guard = \<lparr>guarded = SetFirewall True True (NewBlocker 0 (example_policy\<lparr>MaxConcurrent := 1\<rparr>) None), open_conns = []\<rparr>"

definition guard_facts :: "Guard \<Rightarrow> bool \<times> bool \<times> nat" where
  "guard_facts g = (snd (ConnOpened (\<lambda>i. 9) (Addr4 [198, 51, 100, 7]) (guarded g)),
     Blocked (guarded g) (Addr4 [198, 51, 100, 7]), holds_open (Addr4 [198, 51, 100, 7]) g)"

lemma guard_refusals_justified_witness:
  "let g = guard_do (GAccept [((\<lambda>i. 5), Some ''198.51.100.7:40000'')]) example_guard in
     \<not> snd (ConnOpened (\<lambda>i. 9) (Addr4 [198, 51, 100, 7]) (guarded g)) \<and> \<not> DryRun (cfg (guarded g))
     \<and> \<not> Safe (guarded g) (Addr4 [198, 51, 100, 7])"
proof -
  let ?g = "guard_do (GAccept [((\<lambda>i. 5), Some ''198.51.100.7:40000'')]) example_guard"
  have "Enabled (cfg (guarded example_guard))" by code_simp
  then have "reach guard_init guard_step example_guard"
    by (intro reach_init) (auto simp: guard_init_def example_guard_def newGuardListener_def)
  then have r: "reach guard_init guard_step ?g" by (rule reach_step) (simp only: guard_step_def)
  have "guard_facts ?g = (False, False, 1)" by code_simp
  with guard_refusals_justified [OF r, of "Addr4 [198, 51, 100, 7]" "\<lambda>i. 9"] show ?thesis
    by (simp add: guard_facts_def Let_def)
qed

end
