(* ===== verification/Auth_Manager.thy ===== *)
theory Auth_Manager
  imports IP_Access Router_VHost
begin

text \<open>
  Accounts and sessions of the administration interface, \<open>internal/auth/manager.go\<close> and
  \<open>internal/auth/persist.go\<close>: users with their two indices, logins with the lockout of guessing,
  sessions, API keys, and the two files both survive a restart in. A \<open>*User\<close> is its position in the
  list of user objects, as the three maps of the manager share it. Operations that compute a password
  hash outside the manager's lock are given as the sections before and after. SHA-256, bcrypt's
  comparison and IDNA are parameters; random values, hashes, clock readings and the outcomes of
  writes are arguments. A file holds the value its JSON carries.
\<close>

section \<open>Data\<close>

definition RoleAdmin :: string where "RoleAdmin = ''admin''"
definition RoleReseller :: string where "RoleReseller = ''reseller''"
definition RoleUser :: string where "RoleUser = ''user''"

record User =
  ID :: string
  Username :: string
  Email :: string
  Password :: string \<comment> \<open>the bcrypt hash\<close>
  Role :: string
  Domains :: "string list option" \<comment> \<open>\<open>None\<close> is a nil slice\<close>
  APIKey :: string
  APIKeyHash :: string
  FullAPIKey :: string
  Enabled :: bool
  CreatedAt :: instant
  UpdatedAt :: instant
  LastLogin :: instant
  EnabledSet :: bool
  lastLoginNanos :: int

record Session =
  sToken :: string
  sUserID :: string
  sUsername :: string
  sRole :: string
  sDomains :: "string list option"
  sCreatedAt :: instant
  sExpiresAt :: instant
  sPasswordFP :: string

text \<open>What a file holds: an array with possible nulls, or a null.\<close>

datatype 'a json_file = Absent | Unreadable | Holds "'a option list option"

record Manager =
  objs :: "User list"
  users :: "(string \<times> nat) list"
  usersByID :: "string \<rightharpoonup> nat"
  usersByAPIKeyHash :: "string \<rightharpoonup> nat"
  sessions :: "(string \<times> Session) list"
  sessionsDirty :: bool
  dataDir :: string
  apiKey :: string
  allowLegacyPlaintextKey :: bool
  loginAttempts :: "string \<rightharpoonup> instant list"
  sessionTTL :: duration
  usersJson :: "User json_file"
  sessionsJson :: "Session json_file"

record auth_env =
  sha256 :: "string \<Rightarrow> bytes"
  bcrypt_ok :: "string \<Rightarrow> string \<Rightarrow> bool" \<comment> \<open>\<open>bcrypt.CompareHashAndPassword\<close>: hash, password\<close>

datatype auth_err =
    CredentialsRequired | InvalidRole | InvalidUsername | UserExists | HashFailed | BootstrapComplete
  | NoEntropy | PersistFailed | TooManyAttempts | InvalidCredentials | UserDisabled | InvalidAPIKey
  | InvalidSession | SessionExpired | ErrUserNotFound | NoSuchUser | ErrLastAdmin | InvalidCurrentPassword
  | ParseFailed

definition obj :: "Manager \<Rightarrow> nat \<Rightarrow> User" where
  "obj m p = objs m ! p"

definition put_obj :: "nat \<Rightarrow> User \<Rightarrow> Manager \<Rightarrow> Manager" where
  "put_obj p u m = m\<lparr>objs := (objs m)[p := u]\<rparr>"

text \<open>\<open>append([]string(nil), xs...)\<close> is nil for an empty \<open>xs\<close>.\<close>

definition copy_slice :: "string list option \<Rightarrow> string list option" where
  "copy_slice xs = (case xs of None \<Rightarrow> None | Some ys \<Rightarrow> if ys = [] then None else Some ys)"

definition slice_elems :: "string list option \<Rightarrow> string list" where
  "slice_elems xs = (case xs of None \<Rightarrow> [] | Some ys \<Rightarrow> ys)"

definition hexEncode :: "bytes \<Rightarrow> string" where
  "hexEncode bs = concat (map (\<lambda>b. [hexDigits ! (unat b div 16), hexDigits ! (unat b mod 16)]) bs)"

definition passwordFingerprint :: "auth_env \<Rightarrow> string \<Rightarrow> string" where
  "passwordFingerprint env hash = hexEncode (take 8 (sha256 env hash))"

definition hashAPIKey :: "auth_env \<Rightarrow> string \<Rightarrow> string" where
  "hashAPIKey env key = hexEncode (sha256 env key)"

definition latestLastLogin :: "User \<Rightarrow> instant" where
  "latestLastLogin u = (if lastLoginNanos u \<noteq> 0 then lastLoginNanos u else LastLogin u)"

definition cloneUser :: "User \<Rightarrow> User" where
  "cloneUser u =
     u\<lparr>LastLogin := latestLastLogin u, lastLoginNanos := 0, EnabledSet := False,
       Domains := (case Domains u of None \<Rightarrow> None | Some ds \<Rightarrow> copy_slice (Some ds))\<rparr>"

definition cloneSession :: "Session \<Rightarrow> Session" where
  "cloneSession s = s\<lparr>sDomains := copy_slice (sDomains s)\<rparr>"

section \<open>Roles and names\<close>

definition isValidRole :: "string \<Rightarrow> bool" where
  "isValidRole role \<longleftrightarrow> role = RoleAdmin \<or> role = RoleReseller \<or> role = RoleUser"

definition name_char :: "char \<Rightarrow> bool" where
  "name_char c \<longleftrightarrow> is_lower c \<or> is_upper c \<or> is_digit c \<or> c = CHR ''_'' \<or> c = CHR ''-''"

definition isValidUsername :: "string \<Rightarrow> bool" where
  "isValidUsername name \<longleftrightarrow> 3 \<le> length name \<and> length name \<le> 32 \<and> list_all name_char name"

definition rolePermissions :: "string \<rightharpoonup> string list" where
  "rolePermissions =
     [RoleAdmin \<mapsto>
        [''domain:read'', ''domain:create'', ''domain:update'', ''domain:delete'',
         ''user:read'', ''user:create'', ''user:update'', ''user:delete'',
         ''system:read'', ''system:config'', ''backup:manage'', ''cert:manage''],
      RoleReseller \<mapsto>
        [''domain:read'', ''domain:create'', ''domain:update'', ''domain:delete'',
         ''user:read'', ''system:read'', ''cert:manage''],
      RoleUser \<mapsto> [''domain:read'', ''system:read'']]"

definition HasPermission :: "string \<Rightarrow> string \<Rightarrow> bool" where
  "HasPermission role perm = (case rolePermissions role of None \<Rightarrow> False | Some perms \<Rightarrow> perm \<in> set perms)"

definition CanManageDomain ::
  "(string \<Rightarrow> string) \<Rightarrow> (string \<Rightarrow> string option) \<Rightarrow> User \<Rightarrow> string \<Rightarrow> bool" where
  "CanManageDomain uni toASCII user domain =
     (if Role user = RoleAdmin then True
      else (let want = CanonicalHost uni toASCII domain in
            \<exists>d \<in> set (slice_elems (Domains user)).
              d = domain \<or> (want \<noteq> [] \<and> CanonicalHost uni toASCII d = want)))"

section \<open>The files\<close>

text \<open>
  Fields without a JSON name are not written, and an empty list of domains is omitted. Writing is a
  temporary file and a rename, so that a write that fails leaves the file as it was.
\<close>

definition persisted_user :: "User \<Rightarrow> User" where
  "persisted_user u = u\<lparr>FullAPIKey := [], EnabledSet := False, lastLoginNanos := 0, Domains := copy_slice (Domains u)\<rparr>"

datatype save_result = Written | NoDirectory | WriteFailed

definition sync_login :: "User \<Rightarrow> User" where
  "sync_login u = (if lastLoginNanos u \<noteq> 0 then u\<lparr>LastLogin := lastLoginNanos u\<rparr> else u)"

definition sync_logins :: "Manager \<Rightarrow> Manager" where
  "sync_logins m = m\<lparr>objs := map (\<lambda>p. if p \<in> snd ` set (users m) then sync_login (obj m p) else obj m p) [0..<length (objs m)]\<rparr>"

definition saveUsers :: "save_result \<Rightarrow> Manager \<Rightarrow> bool \<times> Manager" where
  "saveUsers res m =
     (if dataDir m = [] then (True, m)
      else if res = NoDirectory then (False, m)
      else (let m = sync_logins m in
            if res = Written
            then (True, m\<lparr>usersJson := Holds (Some (map (\<lambda>(_, p). Some (persisted_user (obj m p))) (users m)))\<rparr>)
            else (False, m)))"

definition snapshotSessions :: "instant \<Rightarrow> Manager \<Rightarrow> Session list" where
  "snapshotSessions now m = map snd (filter (\<lambda>(_, s). \<not> now > sExpiresAt s) (sessions m))"

definition persisted_session :: "Session \<Rightarrow> Session" where
  "persisted_session s = s\<lparr>sDomains := copy_slice (sDomains s)\<rparr>"

definition writeSessions :: "bool \<Rightarrow> Session list \<Rightarrow> Manager \<Rightarrow> Manager" where
  "writeSessions ok out m =
     (if dataDir m = [] then m\<lparr>sessionsDirty := False\<rparr>
      else if ok
      then m\<lparr>sessionsJson := Holds (Some (map (\<lambda>s. Some (persisted_session s)) out)), sessionsDirty := False\<rparr>
      else m\<lparr>sessionsDirty := True\<rparr>)"

definition saveSessions :: "instant \<Rightarrow> bool \<Rightarrow> Manager \<Rightarrow> Manager" where
  "saveSessions now ok m = writeSessions ok (snapshotSessions now m) m"

text \<open>Loading: a missing file is a fresh install, anything else that cannot be read is an error.\<close>

definition load_user :: "User \<Rightarrow> Manager \<Rightarrow> Manager" where
  "load_user u m =
     (let p = length (objs m);
          m = m\<lparr>objs := objs m @ [u], users := map_put (Username u) p (users m),
                usersByID := (usersByID m)(ID u \<mapsto> p)\<rparr>
      in if APIKeyHash u \<noteq> [] then m\<lparr>usersByAPIKeyHash := (usersByAPIKeyHash m)(APIKeyHash u \<mapsto> p)\<rparr> else m)"

fun load_users_from :: "User option list \<Rightarrow> Manager \<Rightarrow> auth_err option \<times> Manager" where
  "load_users_from [] m = (None, m)"
| "load_users_from (None # us) m = (Some ParseFailed, m)"
| "load_users_from (Some u # us) m = load_users_from us (load_user u m)"

definition loadUsers :: "Manager \<Rightarrow> auth_err option \<times> Manager" where
  "loadUsers m =
     (if dataDir m = [] then (None, m)
      else case usersJson m of
             Absent \<Rightarrow> (None, m)
           | Unreadable \<Rightarrow> (Some ParseFailed, m)
           | Holds None \<Rightarrow> (Some ParseFailed, m)
           | Holds (Some us) \<Rightarrow> load_users_from us m)"

definition load_session :: "instant \<Rightarrow> Session option \<Rightarrow> Manager \<Rightarrow> Manager" where
  "load_session now entry m =
     (case entry of
        None \<Rightarrow> m
      | Some s \<Rightarrow>
          if sToken s = [] \<or> now > sExpiresAt s then m
          else m\<lparr>sessions := map_put (sToken s) s (sessions m)\<rparr>)"

definition loadSessions :: "instant \<Rightarrow> Manager \<Rightarrow> Manager" where
  "loadSessions now m =
     (if dataDir m = [] then m
      else case sessionsJson m of
             Holds (Some ss) \<Rightarrow> fold (load_session now) ss m
           | _ \<Rightarrow> m)"

definition empty_manager :: "string \<Rightarrow> string \<Rightarrow> User json_file \<Rightarrow> Session json_file \<Rightarrow> Manager" where
  "empty_manager dir key uj sj =
     \<lparr>objs = [], users = [], usersByID = Map.empty, usersByAPIKeyHash = Map.empty, sessions = [],
      sessionsDirty = False, dataDir = dir, apiKey = key, allowLegacyPlaintextKey = False,
      loginAttempts = Map.empty, sessionTTL = 0, usersJson = uj, sessionsJson = sj\<rparr>"

definition NewManager :: "instant \<Rightarrow> string \<Rightarrow> string \<Rightarrow> User json_file \<Rightarrow> Session json_file \<Rightarrow> auth_err + Manager" where
  "NewManager now dir key uj sj =
     (case loadUsers (empty_manager dir key uj sj) of
        (Some e, _) \<Rightarrow> Inl e
      | (None, m) \<Rightarrow> Inr (loadSessions now m))"

section \<open>Lockout\<close>

definition maxLoginAttempts :: nat where "maxLoginAttempts = 5"
definition loginLockoutWindow :: duration where "loginLockoutWindow = 15 * 60 * 1000000000"

definition authGateFor :: "string \<Rightarrow> u32" where
  "authGateFor name =
     foldl (\<lambda>(h :: u32) c. (h XOR ucast (byte_of_char c)) * 16777619) 2166136261 name mod 256"

definition attempts :: "Manager \<Rightarrow> string \<Rightarrow> instant list" where
  "attempts m key = (case loginAttempts m key of None \<Rightarrow> [] | Some ts \<Rightarrow> ts)"

definition isLockedOut :: "instant \<Rightarrow> string \<Rightarrow> Manager \<Rightarrow> bool \<times> Manager" where
  "isLockedOut now key m =
     (let recent = filter (\<lambda>t. t > now - loginLockoutWindow) (attempts m key)
      in (maxLoginAttempts \<le> length recent, m\<lparr>loginAttempts := (loginAttempts m)(key \<mapsto> recent)\<rparr>))"

definition recordFailedAttempt :: "instant \<Rightarrow> string \<Rightarrow> Manager \<Rightarrow> Manager" where
  "recordFailedAttempt now key m = m\<lparr>loginAttempts := (loginAttempts m)(key \<mapsto> attempts m key @ [now])\<rparr>"

definition clearFailedAttempts :: "string \<Rightarrow> Manager \<Rightarrow> Manager" where
  "clearFailedAttempts key m = m\<lparr>loginAttempts := (loginAttempts m)(key := None)\<rparr>"

definition cleanupLoginAttempts :: "instant \<Rightarrow> Manager \<Rightarrow> Manager" where
  "cleanupLoginAttempts now m =
     m\<lparr>loginAttempts :=
         (\<lambda>key. case loginAttempts m key of
                  None \<Rightarrow> None
                | Some ts \<Rightarrow> if \<exists>t \<in> set ts. t > now - loginLockoutWindow then Some ts else None)\<rparr>"

definition lockoutClientKey :: "string \<Rightarrow> string" where
  "lockoutClientKey ip0 =
     (let ip = drop_zone ip0 in
      case ParseIP ip of
        None \<Rightarrow> ip
      | Some p \<Rightarrow>
          (case To4 p of
             Some p4 \<Rightarrow> IPString p4
           | None \<Rightarrow> IPString (and_bytes p (CIDRMask 64 128)) @ ''/64''))"

definition lockoutKey :: "string \<Rightarrow> string \<Rightarrow> string" where
  "lockoutKey name ip = (if ip = [] then name else name @ ''|'' @ lockoutClientKey ip)"

text \<open>The key of the checks of one's own password.\<close>

definition chpwKey :: "string \<Rightarrow> string" where
  "chpwKey name = CHR 0x00 # ''chpw|'' @ name"

section \<open>Accounts\<close>

definition zero_login :: instant where "zero_login = - (2 ^ 63)" \<comment> \<open>\<open>time.Time{}\<close>\<close>

definition userExists :: "string \<Rightarrow> Manager \<Rightarrow> bool" where
  "userExists name m \<longleftrightarrow> map_of (users m) name \<noteq> None"

definition prefix8 :: "string \<Rightarrow> string" where
  "prefix8 key = (if length key > 8 then take 8 key else key)"

definition new_user ::
  "auth_env \<Rightarrow> (nat \<Rightarrow> instant) \<Rightarrow> string \<Rightarrow> string \<Rightarrow> string \<Rightarrow> string \<Rightarrow> string list option \<Rightarrow>
   string \<Rightarrow> string \<Rightarrow> User" where
  "new_user env clk name email hash role domains key uid =
     \<lparr>ID = uid, Username = name, Email = email, Password = hash, Role = role,
      Domains = copy_slice domains, APIKey = prefix8 key, APIKeyHash = hashAPIKey env key,
      FullAPIKey = key, Enabled = True, CreatedAt = clk 0, UpdatedAt = clk 1, LastLogin = zero_login,
      EnabledSet = False, lastLoginNanos = 0\<rparr>"

definition createUserLocked ::
  "auth_env \<Rightarrow> (nat \<Rightarrow> instant) \<Rightarrow> string \<Rightarrow> string \<Rightarrow> string \<Rightarrow> string \<Rightarrow> string list option \<Rightarrow>
   string option \<Rightarrow> string option \<Rightarrow> save_result \<Rightarrow> Manager \<Rightarrow> (auth_err + User) \<times> Manager" where
  "createUserLocked env clk name email hash role domains newKey newID res m =
     (if userExists name m then (Inl UserExists, m)
      else case newKey of
        None \<Rightarrow> (Inl NoEntropy, m)
      | Some key \<Rightarrow>
          (case newID of
             None \<Rightarrow> (Inl NoEntropy, m)
           | Some uid \<Rightarrow>
               (let u = new_user env clk name email hash role domains key uid;
                    m1 = load_user u m
                in case saveUsers res m1 of
                     (True, m2) \<Rightarrow> (Inr (cloneUser u), m2)
                   | (False, m2) \<Rightarrow>
                       (Inl PersistFailed,
                        m2\<lparr>users := map_delete name (users m2), usersByID := (usersByID m2)(uid := None),
                           usersByAPIKeyHash := (usersByAPIKeyHash m2)(APIKeyHash u := None)\<rparr>))))"

text \<open>The checks before the hash, and the hash; \<open>hashed\<close> is what hashing the password gives.\<close>

definition create_checks :: "string \<Rightarrow> string \<Rightarrow> string \<Rightarrow> string option \<Rightarrow> Manager \<Rightarrow> auth_err + string" where
  "create_checks name password role hashed m =
     (if name = [] \<or> password = [] then Inl CredentialsRequired
      else if \<not> isValidRole role then Inl InvalidRole
      else if \<not> isValidUsername name then Inl InvalidUsername
      else if userExists name m then Inl UserExists
      else case hashed of None \<Rightarrow> Inl HashFailed | Some h \<Rightarrow> Inr h)"

definition first_admin_checks :: "string \<Rightarrow> string \<Rightarrow> string option \<Rightarrow> Manager \<Rightarrow> auth_err + string" where
  "first_admin_checks name password hashed m =
     (if name = [] \<or> password = [] then Inl CredentialsRequired
      else if \<not> isValidUsername name then Inl InvalidUsername
      else if users m \<noteq> [] then Inl BootstrapComplete
      else case hashed of None \<Rightarrow> Inl HashFailed | Some h \<Rightarrow> Inr h)"

definition createFirstAdminLocked ::
  "auth_env \<Rightarrow> (nat \<Rightarrow> instant) \<Rightarrow> string \<Rightarrow> string \<Rightarrow> string \<Rightarrow> string option \<Rightarrow> string option \<Rightarrow>
   save_result \<Rightarrow> Manager \<Rightarrow> (auth_err + User) \<times> Manager" where
  "createFirstAdminLocked env clk name email hash newKey newID res m =
     (if users m \<noteq> [] then (Inl BootstrapComplete, m)
      else createUserLocked env clk name email hash RoleAdmin None newKey newID res m)"

definition CreateUser ::
  "auth_env \<Rightarrow> (nat \<Rightarrow> instant) \<Rightarrow> string \<Rightarrow> string \<Rightarrow> string \<Rightarrow> string \<Rightarrow> string list option \<Rightarrow>
   string option \<Rightarrow> string option \<Rightarrow> string option \<Rightarrow> save_result \<Rightarrow> Manager \<Rightarrow> (auth_err + User) \<times> Manager" where
  "CreateUser env clk name email password role domains hashed newKey newID res m =
     (case create_checks name password role hashed m of
        Inl e \<Rightarrow> (Inl e, m)
      | Inr h \<Rightarrow> createUserLocked env clk name email h role domains newKey newID res m)"

definition CreateFirstAdmin ::
  "auth_env \<Rightarrow> (nat \<Rightarrow> instant) \<Rightarrow> string \<Rightarrow> string \<Rightarrow> string \<Rightarrow> string option \<Rightarrow> string option \<Rightarrow>
   string option \<Rightarrow> save_result \<Rightarrow> Manager \<Rightarrow> (auth_err + User) \<times> Manager" where
  "CreateFirstAdmin env clk name email password hashed newKey newID res m =
     (case first_admin_checks name password hashed m of
        Inl e \<Rightarrow> (Inl e, m)
      | Inr h \<Rightarrow> createFirstAdminLocked env clk name email h newKey newID res m)"

definition invalidateUserSessionsLocked :: "instant \<Rightarrow> bool \<Rightarrow> string \<Rightarrow> Manager \<Rightarrow> Manager" where
  "invalidateUserSessionsLocked now ok uid m =
     (if \<exists>ts \<in> set (sessions m). sUserID (snd ts) = uid
      then saveSessions now ok (m\<lparr>sessions := filter (\<lambda>ts. sUserID (snd ts) \<noteq> uid) (sessions m)\<rparr>)
      else m)"

definition otherEnabledAdminLocked :: "nat \<Rightarrow> Manager \<Rightarrow> bool" where
  "otherEnabledAdminLocked skip m \<longleftrightarrow>
     (\<exists>np \<in> set (users m). snd np \<noteq> skip \<and> Role (obj m (snd np)) = RoleAdmin \<and> Enabled (obj m (snd np)))"

text \<open>
  The hash before the lock, when the user is there already; and the locked section, which hashes
  itself (\<open>late\<close>) when the user has appeared since.
\<close>

definition update_hash :: "string \<Rightarrow> User \<Rightarrow> string option \<Rightarrow> Manager \<Rightarrow> auth_err + string" where
  "update_hash name updates hashed m =
     (if Password updates \<noteq> [] \<and> userExists name m
      then (case hashed of None \<Rightarrow> Inl HashFailed | Some h \<Rightarrow> Inr h)
      else Inr [])"

definition updated_user :: "User \<Rightarrow> string \<Rightarrow> instant \<Rightarrow> User \<Rightarrow> User" where
  "updated_user updates hash now u =
     (let u = (if Email updates \<noteq> [] then u\<lparr>Email := Email updates\<rparr> else u);
          u = (if Password updates \<noteq> [] then u\<lparr>Password := hash\<rparr> else u);
          u = (if Role updates \<noteq> [] \<and> isValidRole (Role updates) then u\<lparr>Role := Role updates\<rparr> else u);
          u = (case Domains updates of None \<Rightarrow> u | Some ds \<Rightarrow> u\<lparr>Domains := copy_slice (Some ds)\<rparr>);
          u = (if EnabledSet updates then u\<lparr>Enabled := Enabled updates\<rparr> else u)
      in u\<lparr>UpdatedAt := now\<rparr>)"

definition revokes :: "User \<Rightarrow> bool" where
  "revokes updates \<longleftrightarrow> Password updates \<noteq> [] \<or> (EnabledSet updates \<and> \<not> Enabled updates)"

definition updateUserLocked ::
  "(nat \<Rightarrow> instant) \<Rightarrow> string \<Rightarrow> User \<Rightarrow> string \<Rightarrow> string option \<Rightarrow> bool \<Rightarrow> save_result \<Rightarrow> bool \<Rightarrow> Manager \<Rightarrow>
   auth_err option \<times> Manager" where
  "updateUserLocked clk name updates early late keepAdmin res ok m =
     (case map_of (users m) name of
        None \<Rightarrow> (Some ErrUserNotFound, m)
      | Some p \<Rightarrow>
          (let u = obj m p in
           if keepAdmin \<and> EnabledSet updates \<and> \<not> Enabled updates \<and> Role u = RoleAdmin \<and> Enabled u \<and>
              \<not> otherEnabledAdminLocked p m
           then (Some ErrLastAdmin, m)
           else if Password updates \<noteq> [] \<and> early = [] \<and> late = None
           then (Some HashFailed,
                 if Email updates \<noteq> [] then put_obj p (u\<lparr>Email := Email updates\<rparr>) m else m)
           else (let hash = (if early \<noteq> [] then early else (case late of None \<Rightarrow> [] | Some h \<Rightarrow> h));
                     (saved, m2) = saveUsers res (put_obj p (updated_user updates hash (clk 0) u) m);
                     m3 = (if revokes updates then invalidateUserSessionsLocked (clk 1) ok (ID u) m2 else m2)
                 in (if saved then None else Some PersistFailed, m3))))"

definition updateUser ::
  "(nat \<Rightarrow> instant) \<Rightarrow> string \<Rightarrow> User \<Rightarrow> string option \<Rightarrow> bool \<Rightarrow> save_result \<Rightarrow> bool \<Rightarrow> Manager \<Rightarrow>
   auth_err option \<times> Manager" where
  "updateUser clk name updates hashed keepAdmin res ok m =
     (case update_hash name updates hashed m of
        Inl e \<Rightarrow> (Some e, m)
      | Inr early \<Rightarrow> updateUserLocked clk name updates early hashed keepAdmin res ok m)"

definition deleteUser :: "instant \<Rightarrow> string \<Rightarrow> bool \<Rightarrow> save_result \<Rightarrow> bool \<Rightarrow> Manager \<Rightarrow> auth_err option \<times> Manager" where
  "deleteUser now name keepAdmin res ok m =
     (case map_of (users m) name of
        None \<Rightarrow> (Some ErrUserNotFound, m)
      | Some p \<Rightarrow>
          (let u = obj m p in
           if keepAdmin \<and> Role u = RoleAdmin \<and> Enabled u \<and> \<not> otherEnabledAdminLocked p m
           then (Some ErrLastAdmin, m)
           else (let m1 = m\<lparr>users := map_delete name (users m), usersByID := (usersByID m)(ID u := None)\<rparr>;
                     m1 = (if APIKeyHash u \<noteq> []
                           then m1\<lparr>usersByAPIKeyHash := (usersByAPIKeyHash m1)(APIKeyHash u := None)\<rparr> else m1);
                     (saved, m2) = saveUsers res m1
                 in (if saved then None else Some PersistFailed, invalidateUserSessionsLocked now ok (ID u) m2))))"

definition RegenerateAPIKey ::
  "auth_env \<Rightarrow> instant \<Rightarrow> string \<Rightarrow> string option \<Rightarrow> save_result \<Rightarrow> Manager \<Rightarrow> (auth_err + string) \<times> Manager" where
  "RegenerateAPIKey env now name newKey res m =
     (case map_of (users m) name of
        None \<Rightarrow> (Inl ErrUserNotFound, m)
      | Some p \<Rightarrow>
          (case newKey of
             None \<Rightarrow> (Inl NoEntropy, m)
           | Some key \<Rightarrow>
               (let u = obj m p;
                    index = (if APIKeyHash u \<noteq> [] then (usersByAPIKeyHash m)(APIKeyHash u := None) else usersByAPIKeyHash m);
                    m1 = put_obj p (u\<lparr>APIKey := prefix8 key, APIKeyHash := hashAPIKey env key, UpdatedAt := now\<rparr>) m;
                    m1 = m1\<lparr>usersByAPIKeyHash := index(hashAPIKey env key \<mapsto> p)\<rparr>
                in case saveUsers res m1 of
                     (True, m2) \<Rightarrow> (Inr key, m2)
                   | (False, m2) \<Rightarrow>
                       (let index = (usersByAPIKeyHash m2)(APIKeyHash (obj m2 p) := None);
                            m3 = put_obj p ((obj m2 p)\<lparr>APIKey := APIKey u, APIKeyHash := APIKeyHash u\<rparr>) m2
                        in (Inl PersistFailed,
                            m3\<lparr>usersByAPIKeyHash :=
                                 (if APIKeyHash u \<noteq> [] then index(APIKeyHash u \<mapsto> p) else index)\<rparr>)))))"

section \<open>Logins and sessions\<close>

definition sessionLifetime :: "Manager \<Rightarrow> duration" where
  "sessionLifetime m = (if sessionTTL m > 0 then sessionTTL m else 24 * 3600 * 1000000000)"

definition SetSessionTTL :: "int \<Rightarrow> Manager \<Rightarrow> Manager" where
  "SetSessionTTL hours m = (if hours > 0 then m\<lparr>sessionTTL := wrap64 (hours * 3600 * 1000000000)\<rparr> else m)"

definition SetGlobalAPIKey :: "string \<Rightarrow> Manager \<Rightarrow> Manager" where
  "SetGlobalAPIKey key m = m\<lparr>apiKey := key\<rparr>"

definition SetAllowLegacyPlaintextKey :: "bool \<Rightarrow> Manager \<Rightarrow> Manager" where
  "SetAllowLegacyPlaintextKey on m = m\<lparr>allowLegacyPlaintextKey := on\<rparr>"

text \<open>
  An attempt to prove a password: the lockout check with the snapshot of the account, the comparison
  outside the lock with its bookkeeping, and what success leads to. The gate of the attempt's key is held
  throughout.
\<close>

type_synonym account = "(nat \<times> User) option"

definition account_of :: "string \<Rightarrow> Manager \<Rightarrow> account" where
  "account_of name m = (case map_of (users m) name of None \<Rightarrow> None | Some p \<Rightarrow> Some (p, obj m p))"

definition attempt_begin :: "instant \<Rightarrow> string \<Rightarrow> string \<Rightarrow> Manager \<Rightarrow> (auth_err + account) \<times> Manager" where
  "attempt_begin now key name m =
     (case isLockedOut now key m of
        (True, m1) \<Rightarrow> (Inl TooManyAttempts, m1)
      | (False, m1) \<Rightarrow> (Inr (account_of name m1), m1))"

definition login_compare ::
  "auth_env \<Rightarrow> instant \<Rightarrow> string \<Rightarrow> account \<Rightarrow> string \<Rightarrow> Manager \<Rightarrow> (auth_err + nat \<times> User) \<times> Manager" where
  "login_compare env now key a password m =
     (case a of
        None \<Rightarrow> (Inl InvalidCredentials, recordFailedAttempt now key m)
      | Some (p, u) \<Rightarrow>
          if \<not> Enabled u then (Inl UserDisabled, recordFailedAttempt now key m)
          else if \<not> bcrypt_ok env (Password u) password then (Inl InvalidCredentials, recordFailedAttempt now key m)
          else (Inr (p, u), clearFailedAttempts key m))"

definition new_session :: "auth_env \<Rightarrow> (nat \<Rightarrow> instant) \<Rightarrow> string \<Rightarrow> string \<Rightarrow> User \<Rightarrow> Manager \<Rightarrow> Session" where
  "new_session env clk token name u m =
     \<lparr>sToken = token, sUserID = ID u, sUsername = name, sRole = Role u, sDomains = Some (slice_elems (Domains u)),
      sCreatedAt = clk 0, sExpiresAt = clk 1 + sessionLifetime m,
      sPasswordFP = passwordFingerprint env (Password u)\<rparr>"

definition maxSessionsPerUser :: nat where "maxSessionsPerUser = 50"

text \<open>The oldest session of a user: the first in the order of the iteration with the least creation time.\<close>

fun oldest_of :: "string \<Rightarrow> (string \<times> Session) list \<Rightarrow> Session option" where
  "oldest_of uid [] = None"
| "oldest_of uid ((t, s) # ss) =
     (if sUserID s \<noteq> uid then oldest_of uid ss
      else case oldest_of uid ss of
             None \<Rightarrow> Some s
           | Some o' \<Rightarrow> if sCreatedAt o' < sCreatedAt s then Some o' else Some s)"

definition sessions_of :: "string \<Rightarrow> (string \<times> Session) list \<Rightarrow> (string \<times> Session) list" where
  "sessions_of uid ss = filter (\<lambda>ts. sUserID (snd ts) = uid) ss"

text \<open>Each round of the loop removes a session, so there are at most as many rounds as sessions.\<close>

fun evict :: "nat \<Rightarrow> string \<Rightarrow> nat \<Rightarrow> (string \<times> Session) list \<Rightarrow> (string \<times> Session) list" where
  "evict 0 uid limit ss = ss"
| "evict (Suc k) uid limit ss =
     (if length (sessions_of uid ss) \<le> limit then ss
      else case oldest_of uid ss of
             None \<Rightarrow> ss
           | Some s \<Rightarrow> evict k uid limit (map_delete (sToken s) ss))"

definition evictOldestSessionsLocked :: "string \<Rightarrow> nat \<Rightarrow> Manager \<Rightarrow> Manager" where
  "evictOldestSessionsLocked uid limit m = m\<lparr>sessions := evict (length (sessions m)) uid limit (sessions m)\<rparr>"

text \<open>The account is looked at again under the lock the session is inserted under.\<close>

definition insert_session ::
  "instant \<Rightarrow> string \<Rightarrow> nat \<times> User \<Rightarrow> Session \<Rightarrow> Manager \<Rightarrow> (auth_err + Session) \<times> Manager" where
  "insert_session now name a s m =
     (case a of (p, u) \<Rightarrow>
        if map_of (users m) name = Some p \<and> Enabled (obj m p) \<and> Password (obj m p) = Password u
        then (Inr (cloneSession s),
              evictOldestSessionsLocked (ID u) maxSessionsPerUser
                ((put_obj p ((obj m p)\<lparr>lastLoginNanos := now\<rparr>) m)\<lparr>sessions := map_put (sToken s) s (sessions m)\<rparr>))
        else (Inl InvalidCredentials, m))"

definition AuthenticateFrom ::
  "auth_env \<Rightarrow> (nat \<Rightarrow> instant) \<Rightarrow> string \<Rightarrow> string \<Rightarrow> string \<Rightarrow> string option \<Rightarrow> bool \<Rightarrow> Manager \<Rightarrow>
   (auth_err + Session) \<times> Manager" where
  "AuthenticateFrom env clk name password clientIP token ok m =
     (let key = lockoutKey name clientIP in
      case attempt_begin (clk 0) key name m of
        (Inl e, m1) \<Rightarrow> (Inl e, m1)
      | (Inr a, m1) \<Rightarrow>
          (case login_compare env (clk 1) key a password m1 of
             (Inl e, m2) \<Rightarrow> (Inl e, m2)
           | (Inr (p, u), m2) \<Rightarrow>
               (case token of
                  None \<Rightarrow> (Inl NoEntropy, m2)
                | Some t \<Rightarrow>
                    (case insert_session (clk 4) name (p, u) (new_session env (\<lambda>i. clk (2 + i)) t name u m2) m2 of
                       (Inl e, m3) \<Rightarrow> (Inl e, m3)
                     | (Inr s, m3) \<Rightarrow> (Inr s, saveSessions (clk 5) ok m3)))))"

definition ValidateSession :: "auth_env \<Rightarrow> instant \<Rightarrow> string \<Rightarrow> Manager \<Rightarrow> (auth_err + Session) \<times> Manager" where
  "ValidateSession env now token m =
     (case map_of (sessions m) token of
        None \<Rightarrow> (Inl InvalidSession, m)
      | Some s \<Rightarrow>
          (let dropped = m\<lparr>sessions := map_delete token (sessions m)\<rparr> in
           if now > sExpiresAt s then (Inl SessionExpired, dropped)
           else case usersByID m (sUserID s) of
             None \<Rightarrow> (Inl InvalidSession, dropped)
           | Some p \<Rightarrow>
               if \<not> Enabled (obj m p) \<or>
                  (sPasswordFP s \<noteq> [] \<and> sPasswordFP s \<noteq> passwordFingerprint env (Password (obj m p)))
               then (Inl InvalidSession, dropped)
               else (Inr (cloneSession s), m)))"

definition logout_drop :: "string \<Rightarrow> Manager \<Rightarrow> Manager" where
  "logout_drop token m = m\<lparr>sessions := map_delete token (sessions m)\<rparr>"

definition Logout :: "instant \<Rightarrow> bool \<Rightarrow> string \<Rightarrow> Manager \<Rightarrow> Manager" where
  "Logout now ok token m = saveSessions now ok (logout_drop token m)"

definition sweep_sessions :: "instant \<Rightarrow> Manager \<Rightarrow> Manager" where
  "sweep_sessions now m = m\<lparr>sessions := filter (\<lambda>ts. \<not> now > sExpiresAt (snd ts)) (sessions m)\<rparr>"

definition CleanupSessions :: "instant \<Rightarrow> instant \<Rightarrow> bool \<Rightarrow> Manager \<Rightarrow> Manager" where
  "CleanupSessions now now' ok m =
     (let m1 = sweep_sessions now m in
      if (\<exists>ts \<in> set (sessions m). now > sExpiresAt (snd ts)) \<or> sessionsDirty m1
      then saveSessions now' ok m1 else m1)"

section \<open>One's own password\<close>

definition own_compare ::
  "auth_env \<Rightarrow> instant \<Rightarrow> string \<Rightarrow> account \<Rightarrow> string \<Rightarrow> Manager \<Rightarrow> (auth_err + nat \<times> User) \<times> Manager" where
  "own_compare env now key a password m =
     (case a of
        None \<Rightarrow> (Inl NoSuchUser, m)
      | Some (p, u) \<Rightarrow>
          if \<not> bcrypt_ok env (Password u) password then (Inl InvalidCurrentPassword, recordFailedAttempt now key m)
          else (Inr (p, u), clearFailedAttempts key m))"

definition VerifyPassword ::
  "auth_env \<Rightarrow> (nat \<Rightarrow> instant) \<Rightarrow> string \<Rightarrow> string \<Rightarrow> Manager \<Rightarrow> auth_err option \<times> Manager" where
  "VerifyPassword env clk name password m =
     (case attempt_begin (clk 0) (chpwKey name) name m of
        (Inl e, m1) \<Rightarrow> (Some e, m1)
      | (Inr a, m1) \<Rightarrow>
          (case own_compare env (clk 1) (chpwKey name) a password m1 of
             (Inl e, m2) \<Rightarrow> (Some e, m2)
           | (Inr _, m2) \<Rightarrow> (None, m2)))"

definition change_commit ::
  "(nat \<Rightarrow> instant) \<Rightarrow> string \<Rightarrow> nat \<times> User \<Rightarrow> string \<Rightarrow> save_result \<Rightarrow> bool \<Rightarrow> Manager \<Rightarrow> auth_err option \<times> Manager" where
  "change_commit clk name a hash res ok m =
     (case a of (p, u) \<Rightarrow>
        if map_of (users m) name \<noteq> Some p \<or> Password (obj m p) \<noteq> Password u then (Some InvalidCurrentPassword, m)
        else (let (saved, m2) = saveUsers res (put_obj p ((obj m p)\<lparr>Password := hash, UpdatedAt := clk 0\<rparr>) m)
              in (if saved then None else Some PersistFailed, invalidateUserSessionsLocked (clk 1) ok (ID (obj m2 p)) m2)))"

definition ChangePassword ::
  "auth_env \<Rightarrow> (nat \<Rightarrow> instant) \<Rightarrow> string \<Rightarrow> string \<Rightarrow> string option \<Rightarrow> save_result \<Rightarrow> bool \<Rightarrow> Manager \<Rightarrow>
   auth_err option \<times> Manager" where
  "ChangePassword env clk name current hashed res ok m =
     (case attempt_begin (clk 0) (chpwKey name) name m of
        (Inl e, m1) \<Rightarrow> (Some e, m1)
      | (Inr a, m1) \<Rightarrow>
          (case own_compare env (clk 1) (chpwKey name) a current m1 of
             (Inl e, m2) \<Rightarrow> (Some e, m2)
           | (Inr pu, m2) \<Rightarrow>
               (case hashed of
                  None \<Rightarrow> (Some HashFailed, m2)
                | Some h \<Rightarrow> change_commit (\<lambda>i. clk (2 + i)) name pu h res ok m2)))"

section \<open>API keys and the middleware\<close>

definition global_admin :: User where
  "global_admin =
     \<lparr>ID = ''admin'', Username = ''admin'', Email = [], Password = [], Role = RoleAdmin, Domains = None,
      APIKey = [], APIKeyHash = [], FullAPIKey = [], Enabled = True, CreatedAt = zero_login,
      UpdatedAt = zero_login, LastLogin = zero_login, EnabledSet = False, lastLoginNanos = 0\<rparr>"

fun legacy_scan :: "Manager \<Rightarrow> string \<Rightarrow> (string \<times> nat) list \<Rightarrow> User option" where
  "legacy_scan m key [] = None"
| "legacy_scan m key ((name, p) # us) =
     (let u = obj m p in
      if \<not> Enabled u \<or> APIKeyHash u \<noteq> [] \<or> APIKey u = [] then legacy_scan m key us
      else if key = APIKey u then Some (cloneUser u)
      else legacy_scan m key us)"

definition AuthenticateAPIKey :: "auth_env \<Rightarrow> string \<Rightarrow> Manager \<Rightarrow> auth_err + User" where
  "AuthenticateAPIKey env key m =
     (if apiKey m \<noteq> [] \<and> key = apiKey m then Inr global_admin
      else (let h = hashAPIKey env key;
                slow = (if allowLegacyPlaintextKey m
                        then (case legacy_scan m key (users m) of None \<Rightarrow> Inl InvalidAPIKey | Some u \<Rightarrow> Inr u)
                        else Inl InvalidAPIKey)
            in case usersByAPIKeyHash m h of
                 None \<Rightarrow> slow
               | Some p \<Rightarrow>
                   if Enabled (obj m p) \<and> h = APIKeyHash (obj m p) then Inr (cloneUser (obj m p)) else slow))"

definition GetUser :: "string \<Rightarrow> Manager \<Rightarrow> User option" where
  "GetUser name m = (case map_of (users m) name of None \<Rightarrow> None | Some p \<Rightarrow> Some (cloneUser (obj m p)))"

definition GetUserByID :: "string \<Rightarrow> Manager \<Rightarrow> User option" where
  "GetUserByID uid m = (case usersByID m uid of None \<Rightarrow> None | Some p \<Rightarrow> Some (cloneUser (obj m p)))"

definition ListUsers :: "Manager \<Rightarrow> User list" where
  "ListUsers m = map (\<lambda>(_, p). cloneUser (obj m p)) (users m)"

definition hasPathPrefixBoundary :: "string \<Rightarrow> string \<Rightarrow> bool" where
  "hasPathPrefixBoundary path pre \<longleftrightarrow>
     path = pre \<or> (if HasSuffix pre ''/'' then HasPrefix path pre else HasPrefix path (pre @ ''/''))"

definition isPublicEndpoint :: "string \<Rightarrow> bool" where
  "isPublicEndpoint path \<longleftrightarrow>
     (\<exists>p \<in> set [''/api/v1/health'', ''/api/v1/auth/login'', ''/_uwas/dashboard'']. hasPathPrefixBoundary path p)"

datatype auth_verdict = Public | Unauthorized | As User

definition auth_Middleware :: "auth_env \<Rightarrow> instant \<Rightarrow> string \<Rightarrow> header \<Rightarrow> Manager \<Rightarrow> auth_verdict \<times> Manager" where
  "auth_Middleware env now path h m =
     (if isPublicEndpoint path then (Public, m)
      else (let auth = HeaderGet h ''Authorization'';
                by_key = (if HasPrefix auth ''Bearer '' then AuthenticateAPIKey env (TrimPrefix auth ''Bearer '') m
                          else Inl InvalidAPIKey);
                token = HeaderGet h ''X-Session-Token''
            in case by_key of
                 Inr u \<Rightarrow> (As u, m)
               | Inl _ \<Rightarrow>
                   if token = [] then (Unauthorized, m)
                   else (case ValidateSession env now token m of
                           (Inl _, m1) \<Rightarrow> (Unauthorized, m1)
                         | (Inr s, m1) \<Rightarrow>
                             (case GetUserByID (sUserID s) m1 of
                                None \<Rightarrow> (Unauthorized, m1)
                              | Some u \<Rightarrow> (As u, m1)))))"

end
