(* ===== verification/Auth_Tables.thy ===== *)
theory Auth_Tables
  imports Auth_Manager
begin

text \<open>
  The tables of the account manager: the map of users and its two indices describe the same accounts
  after every operation, failed writes and their roll-backs included, and the file the users are written to
  loads into tables that agree again. On these tables the look-up of an API key is what a search of all
  accounts would find.
\<close>

section \<open>Tables that agree\<close>

definition listed :: "Manager \<Rightarrow> nat \<Rightarrow> bool" where
  "listed m p \<longleftrightarrow> p \<in> snd ` set (users m)"

definition tables_ok :: "Manager \<Rightarrow> bool" where
  "tables_ok m \<longleftrightarrow>
     distinct (map fst (users m)) \<and>
     (\<forall>n p. (n, p) \<in> set (users m) \<longrightarrow> p < length (objs m) \<and> Username (obj m p) = n) \<and>
     (\<forall>i p. usersByID m i = Some p \<longleftrightarrow> listed m p \<and> ID (obj m p) = i) \<and>
     (\<forall>h p. usersByAPIKeyHash m h = Some p \<longleftrightarrow> listed m p \<and> APIKeyHash (obj m p) = h \<and> h \<noteq> [])"

text \<open>What the tables depend on: the maps and the three names of each object.\<close>

definition names_of :: "User \<Rightarrow> string \<times> string \<times> string" where
  "names_of u = (ID u, Username u, APIKeyHash u)"

definition tables :: "Manager \<Rightarrow> (string \<times> nat) list \<times> (string \<rightharpoonup> nat) \<times> (string \<rightharpoonup> nat) \<times> (string \<times> string \<times> string) list" where
  "tables m = (users m, usersByID m, usersByAPIKeyHash m, map names_of (objs m))"

lemma tables_names:
  assumes "map names_of (objs m') = map names_of (objs m)" "p < length (objs m)"
  shows "ID (obj m' p) = ID (obj m p)" "Username (obj m' p) = Username (obj m p)"
    "APIKeyHash (obj m' p) = APIKeyHash (obj m p)"
proof -
  have "length (objs m') = length (objs m)" using assms(1) by (rule map_eq_imp_length_eq)
  then have "names_of (obj m' p) = names_of (obj m p)"
    using assms nth_map [of p "objs m" names_of] nth_map [of p "objs m'" names_of] by (simp add: obj_def)
  then show "ID (obj m' p) = ID (obj m p)" "Username (obj m' p) = Username (obj m p)"
    "APIKeyHash (obj m' p) = APIKeyHash (obj m p)" by (simp_all add: names_of_def)
qed

lemma listed_bound: "tables_ok m \<Longrightarrow> listed m p \<Longrightarrow> p < length (objs m)"
  by (force simp: tables_ok_def listed_def)

lemma tables_ok_cong:
  assumes t: "tables m' = tables m" and ok: "tables_ok m"
  shows "tables_ok m'"
proof -
  have n: "map names_of (objs m') = map names_of (objs m)" and eq: "users m' = users m"
      "usersByID m' = usersByID m" "usersByAPIKeyHash m' = usersByAPIKeyHash m"
    using t by (simp_all add: tables_def)
  have len: "length (objs m') = length (objs m)" using n by (rule map_eq_imp_length_eq)
  have bound: "(k, p) \<in> set (users m) \<Longrightarrow> p < length (objs m)" for k p using ok by (simp add: tables_ok_def)
  have "listed m' = listed m" by (simp add: fun_eq_iff listed_def eq)
  with ok bound tables_names [OF n] listed_bound [OF ok] show ?thesis
    unfolding tables_ok_def eq len by (auto 4 3)
qed

lemma tables_put_obj: "p < length (objs m) \<Longrightarrow> names_of u = names_of (obj m p) \<Longrightarrow> tables (put_obj p u m) = tables m"
  by (simp add: tables_def put_obj_def obj_def map_update) (metis list_update_id length_map nth_map)

lemma put_obj_simps [simp]:
  "users (put_obj p u m) = users m" "usersByID (put_obj p u m) = usersByID m"
  "usersByAPIKeyHash (put_obj p u m) = usersByAPIKeyHash m" "sessions (put_obj p u m) = sessions m"
  "dataDir (put_obj p u m) = dataDir m" "length (objs (put_obj p u m)) = length (objs m)"
  "usersJson (put_obj p u m) = usersJson m" "sessionsJson (put_obj p u m) = sessionsJson m"
  "loginAttempts (put_obj p u m) = loginAttempts m" "sessionsDirty (put_obj p u m) = sessionsDirty m"
  "listed (put_obj p u m) = listed m"
  by (simp_all add: put_obj_def listed_def fun_eq_iff)

lemma obj_put_obj: "p < length (objs m) \<Longrightarrow> obj (put_obj p u m) q = (if q = p then u else obj m q)"
  by (simp add: put_obj_def obj_def)

section \<open>Saving keeps the tables\<close>

lemma names_of_sync [simp]: "names_of (sync_login u) = names_of u"
  by (simp add: sync_login_def names_of_def)

lemma sync_logins_simps [simp]:
  "users (sync_logins m) = users m" "usersByID (sync_logins m) = usersByID m"
  "usersByAPIKeyHash (sync_logins m) = usersByAPIKeyHash m" "sessions (sync_logins m) = sessions m"
  "length (objs (sync_logins m)) = length (objs m)" "dataDir (sync_logins m) = dataDir m"
  "usersJson (sync_logins m) = usersJson m" "sessionsJson (sync_logins m) = sessionsJson m"
  "loginAttempts (sync_logins m) = loginAttempts m" "sessionsDirty (sync_logins m) = sessionsDirty m"
  by (simp_all add: sync_logins_def)

lemma obj_sync_logins:
  "p < length (objs m) \<Longrightarrow> obj (sync_logins m) p = (if listed m p then sync_login (obj m p) else obj m p)"
  by (simp add: sync_logins_def obj_def listed_def)

lemma tables_sync_logins [simp]: "tables (sync_logins m) = tables m"
proof -
  have "map names_of (objs (sync_logins m)) = map names_of (objs m)"
    by (rule nth_equalityI) (simp_all add: sync_logins_def obj_def)
  then show ?thesis by (simp add: tables_def)
qed

definition users_file :: "Manager \<Rightarrow> User json_file" where
  "users_file m = Holds (Some (map (\<lambda>(_, p). Some (persisted_user (obj m p))) (users m)))"

lemma saveUsers_usersJson:
  "usersJson (snd (saveUsers res m)) =
     (if dataDir m \<noteq> [] \<and> res = Written then users_file (sync_logins m) else usersJson m)"
  by (cases res) (simp_all add: saveUsers_def Let_def users_file_def)

lemma sessions_update_tables [simp]:
  "tables (m\<lparr>sessions := ss\<rparr>) = tables m" "tables (m\<lparr>loginAttempts := la\<rparr>) = tables m"
  "tables (writeSessions ok out m) = tables m" "tables (saveSessions now ok m) = tables m"
  "tables (m\<lparr>usersJson := uj\<rparr>) = tables m"
  by (simp_all add: tables_def writeSessions_def saveSessions_def)

lemma saveUsers_tables [simp]: "tables (snd (saveUsers res m)) = tables m"
  by (simp add: saveUsers_def Let_def)

lemma saveUsers_simps [simp]:
  "users (snd (saveUsers res m)) = users m" "usersByID (snd (saveUsers res m)) = usersByID m"
  "usersByAPIKeyHash (snd (saveUsers res m)) = usersByAPIKeyHash m"
  "sessions (snd (saveUsers res m)) = sessions m" "sessionsJson (snd (saveUsers res m)) = sessionsJson m"
  "length (objs (snd (saveUsers res m))) = length (objs m)" "dataDir (snd (saveUsers res m)) = dataDir m"
  "loginAttempts (snd (saveUsers res m)) = loginAttempts m" "listed (snd (saveUsers res m)) p = listed m p"
  by (simp_all add: saveUsers_def Let_def listed_def)

lemma sync_login_fields [simp]:
  "ID (sync_login u) = ID u" "Username (sync_login u) = Username u" "Password (sync_login u) = Password u"
  "Enabled (sync_login u) = Enabled u" "APIKeyHash (sync_login u) = APIKeyHash u" "Role (sync_login u) = Role u"
  "APIKey (sync_login u) = APIKey u" "Domains (sync_login u) = Domains u"
  by (simp_all add: sync_login_def)

lemma saveUsers_obj:
  assumes "p < length (objs m)"
  shows "obj (snd (saveUsers res m)) p = obj m p \<or> obj (snd (saveUsers res m)) p = sync_login (obj m p)"
proof -
  have "obj (m'\<lparr>usersJson := uj\<rparr>) p = obj m' p" for m' uj by (simp add: obj_def)
  with assms show ?thesis by (simp add: saveUsers_def Let_def obj_sync_logins)
qed

lemma saveUsers_obj_fields [simp]:
  assumes "p < length (objs m)"
  shows "ID (obj (snd (saveUsers res m)) p) = ID (obj m p)"
    "Password (obj (snd (saveUsers res m)) p) = Password (obj m p)"
    "Enabled (obj (snd (saveUsers res m)) p) = Enabled (obj m p)"
    "APIKeyHash (obj (snd (saveUsers res m)) p) = APIKeyHash (obj m p)"
    "Username (obj (snd (saveUsers res m)) p) = Username (obj m p)"
  using saveUsers_obj [OF assms, of res] by auto

section \<open>Every operation keeps them\<close>

lemma tables_ok_extend:
  assumes ok: "tables_ok m"
    and same: "users m' = users m" "usersByID m' = usersByID m" "usersByAPIKeyHash m' = usersByAPIKeyHash m"
    and more: "length (objs m) \<le> length (objs m')"
    and names: "\<And>p. listed m p \<Longrightarrow> names_of (obj m' p) = names_of (obj m p)"
  shows "tables_ok m'"
proof -
  have l: "listed m' = listed m" by (simp add: fun_eq_iff listed_def same)
  have u: "(n, p) \<in> set (users m) \<Longrightarrow> listed m p" for n p by (force simp: listed_def)
  have n: "listed m p \<Longrightarrow> ID (obj m' p) = ID (obj m p) \<and> Username (obj m' p) = Username (obj m p) \<and>
      APIKeyHash (obj m' p) = APIKeyHash (obj m p)" for p
    using names [of p] by (simp add: names_of_def)
  show ?thesis
    unfolding tables_ok_def same l
    using ok n u more by (fastforce simp: tables_ok_def)
qed

lemma tables_okD:
  assumes ok: "tables_ok m"
  shows "distinct (map fst (users m))"
    and "(n, p) \<in> set (users m) \<Longrightarrow> p < length (objs m) \<and> Username (obj m p) = n"
    and "usersByID m i = Some p \<longleftrightarrow> listed m p \<and> ID (obj m p) = i"
    and "usersByAPIKeyHash m h = Some p \<longleftrightarrow> listed m p \<and> APIKeyHash (obj m p) = h \<and> h \<noteq> []"
  using ok by (simp_all add: tables_ok_def)

lemma account_listed:
  assumes "tables_ok m" "map_of (users m) n = Some p"
  shows "listed m p" "p < length (objs m)" "Username (obj m p) = n"
proof -
  have "(n, p) \<in> set (users m)" using assms(2) by (rule map_of_SomeD)
  then show "listed m p" "p < length (objs m)" "Username (obj m p) = n"
    using tables_okD(2) [OF assms(1)] by (force simp: listed_def)+
qed

lemma load_user_simps [simp]:
  "users (load_user u m) = map_put (Username u) (length (objs m)) (users m)"
  "usersByID (load_user u m) = (usersByID m)(ID u \<mapsto> length (objs m))"
  "usersByAPIKeyHash (load_user u m) =
     (if APIKeyHash u \<noteq> [] then (usersByAPIKeyHash m)(APIKeyHash u \<mapsto> length (objs m)) else usersByAPIKeyHash m)"
  "objs (load_user u m) = objs m @ [u]"
  "sessions (load_user u m) = sessions m" "dataDir (load_user u m) = dataDir m"
  "usersJson (load_user u m) = usersJson m" "sessionsJson (load_user u m) = sessionsJson m"
  "loginAttempts (load_user u m) = loginAttempts m"
  by (simp_all add: load_user_def Let_def)

lemma obj_load_user: "obj (load_user u m) p = (if p < length (objs m) then obj m p else [u] ! (p - length (objs m)))"
  by (simp add: obj_def nth_append)

lemma tables_ok_load_user:
  assumes ok: "tables_ok m" and new: "map_of (users m) (Username u) = None" "usersByID m (ID u) = None"
    "APIKeyHash u \<noteq> [] \<Longrightarrow> usersByAPIKeyHash m (APIKeyHash u) = None"
  shows "tables_ok (load_user u m)"
proof -
  let ?n = "length (objs m)"
  have us: "users (load_user u m) = (Username u, ?n) # users m"
    using new(1) by (simp add: map_put_def map_delete_absent)
  have l: "listed (load_user u m) p \<longleftrightarrow> p = ?n \<or> listed m p" for p unfolding listed_def us by auto
  have b: "listed m p \<Longrightarrow> p < ?n" for p using ok by (rule listed_bound)
  note t = tables_okD [OF ok]
  have i: "listed m p \<Longrightarrow> ID (obj m p) \<noteq> ID u" for p using t(3) [of "ID u" p] new(2) by auto
  have h: "listed m p \<Longrightarrow> APIKeyHash u \<noteq> [] \<Longrightarrow> APIKeyHash (obj m p) \<noteq> APIKeyHash u" for p
    using t(4) [of "APIKeyHash u" p] new(3) by auto
  have d: "Username u \<notin> fst ` set (users m)" using new(1) by (simp add: map_of_eq_None_iff)
  show ?thesis
    unfolding tables_ok_def l
  proof (intro conjI allI impI)
    show "distinct (map fst (users (load_user u m)))" unfolding us using t(1) d by simp
    show "p < length (objs (load_user u m))" "Username (obj (load_user u m) p) = n"
      if "(n, p) \<in> set (users (load_user u m))" for n p
      using that t(2) [of n p] unfolding us by (auto simp: obj_load_user)
    show "usersByID (load_user u m) k = Some p \<longleftrightarrow> (p = ?n \<or> listed m p) \<and> ID (obj (load_user u m) p) = k" for k p
      using t(3) [of k p] b [of p] i [of p] by (auto simp: obj_load_user)
    show "usersByAPIKeyHash (load_user u m) k = Some p \<longleftrightarrow>
        (p = ?n \<or> listed m p) \<and> APIKeyHash (obj (load_user u m) p) = k \<and> k \<noteq> []" for k p
      using t(4) [of k p] b [of p] h [of p] by (auto simp: obj_load_user)
  qed
qed

text \<open>Randomness is fresh: a new identifier is not in use, and neither is the hash of a new key.\<close>

definition fresh_id :: "Manager \<Rightarrow> string option \<Rightarrow> bool" where
  "fresh_id m newID \<longleftrightarrow> (case newID of None \<Rightarrow> True | Some uid \<Rightarrow> usersByID m uid = None)"

definition fresh_key :: "auth_env \<Rightarrow> Manager \<Rightarrow> string option \<Rightarrow> bool" where
  "fresh_key env m newKey \<longleftrightarrow>
     (case newKey of None \<Rightarrow> True | Some key \<Rightarrow> hashAPIKey env key \<noteq> [] \<and> usersByAPIKeyHash m (hashAPIKey env key) = None)"

lemma map_delete_put: "map_of m k = None \<Longrightarrow> map_delete k (map_put k v m) = m"
  using map_delete_absent [of m k] by (simp add: map_put_def map_delete_def)

lemma new_user_simps [simp]:
  "ID (new_user env clk name email hash role domains key uid) = uid"
  "Username (new_user env clk name email hash role domains key uid) = name"
  "APIKeyHash (new_user env clk name email hash role domains key uid) = hashAPIKey env key"
  "Password (new_user env clk name email hash role domains key uid) = hash"
  by (simp_all add: new_user_def)

lemma listed_saved [simp]: "listed (snd (saveUsers res m)) = listed m"
  by (simp add: fun_eq_iff)

lemma tables_ok_saved: "tables_ok m \<Longrightarrow> tables_ok (snd (saveUsers res m))"
  using saveUsers_tables by (rule tables_ok_cong)

lemma saved_obj_names: "p < length (objs m) \<Longrightarrow> names_of (obj (snd (saveUsers res m)) p) = names_of (obj m p)"
  by (simp add: names_of_def)

lemma tables_ok_createUserLocked:
  assumes ok: "tables_ok m" and id: "fresh_id m newID" and key: "fresh_key env m newKey"
  shows "tables_ok (snd (createUserLocked env clk name email hash role domains newKey newID res m))"
proof (cases "userExists name m \<or> newKey = None \<or> newID = None")
  case True
  with ok show ?thesis by (auto simp: createUserLocked_def split: option.split)
next
  case False
  then obtain k uid where new: "newKey = Some k" "newID = Some uid" "map_of (users m) name = None"
    by (auto simp: userExists_def)
  define u where "u = new_user env clk name email hash role domains k uid"
  let ?m1 = "load_user u m"
  have f: "usersByID m uid = None" "hashAPIKey env k \<noteq> []" "usersByAPIKeyHash m (hashAPIKey env k) = None"
    using id key new by (simp_all add: fresh_id_def fresh_key_def)
  have u: "Username u = name" "ID u = uid" "APIKeyHash u = hashAPIKey env k" by (simp_all add: u_def)
  have ok1: "tables_ok ?m1" using ok new f by (intro tables_ok_load_user) (simp_all add: u)
  obtain b m2 where s: "saveUsers res ?m1 = (b, m2)" by fastforce
  then have m2: "m2 = snd (saveUsers res ?m1)" by simp
  have "tables_ok (m2\<lparr>users := map_delete name (users m2), usersByID := (usersByID m2)(uid := None),
      usersByAPIKeyHash := (usersByAPIKeyHash m2)(APIKeyHash u := None)\<rparr>)" (is "tables_ok ?m3")
  proof (rule tables_ok_extend [OF ok])
    show "users ?m3 = users m" using new by (simp add: m2 u map_delete_put)
    show "usersByID ?m3 = usersByID m" using f by (simp add: m2 u fun_upd_idem)
    show "usersByAPIKeyHash ?m3 = usersByAPIKeyHash m" using f by (simp add: m2 u fun_upd_idem)
    show "length (objs m) \<le> length (objs ?m3)" by (simp add: m2)
    fix p assume "listed m p"
    then have p: "p < length (objs m)" using ok by (simp add: listed_bound)
    have "obj ?m3 p = obj m2 p" by (simp add: obj_def)
    with p saved_obj_names [of p ?m1 res] show "names_of (obj ?m3 p) = names_of (obj m p)"
      by (simp add: m2 obj_load_user)
  qed
  moreover have "tables_ok m2" using ok1 by (simp add: m2 tables_ok_saved)
  moreover have "snd (createUserLocked env clk name email hash role domains newKey newID res m) = (if b then m2 else ?m3)"
    using False by (simp add: createUserLocked_def new s Let_def flip: u_def)
  ultimately show ?thesis by simp
qed

lemma invalidate_tables [simp]: "tables (invalidateUserSessionsLocked now ok uid m) = tables m"
  by (simp add: invalidateUserSessionsLocked_def)

lemma tables_ok_invalidate: "tables_ok m \<Longrightarrow> tables_ok (invalidateUserSessionsLocked now ok uid m)"
  using invalidate_tables by (rule tables_ok_cong)

lemma tables_ok_put_obj: "tables_ok m \<Longrightarrow> p < length (objs m) \<Longrightarrow> names_of u = names_of (obj m p) \<Longrightarrow> tables_ok (put_obj p u m)"
  using tables_put_obj by (rule tables_ok_cong)

lemma updated_user_names [simp]: "names_of (updated_user updates hash now u) = names_of u"
  by (simp add: updated_user_def names_of_def Let_def split: option.split)

lemma names_of_email [simp]: "names_of (u\<lparr>Email := e\<rparr>) = names_of u"
  by (simp add: names_of_def)

lemma tables_ok_without:
  assumes ok: "tables_ok m" and p: "map_of (users m) name = Some p" and u: "u = obj m p"
    and m': "users m' = map_delete name (users m)" "usersByID m' = (usersByID m)(ID u := None)"
    "usersByAPIKeyHash m' = (if APIKeyHash u \<noteq> [] then (usersByAPIKeyHash m)(APIKeyHash u := None) else usersByAPIKeyHash m)"
    "objs m' = objs m"
  shows "tables_ok m'"
proof -
  note t = tables_okD [OF ok]
  have o: "obj m' = obj m" by (simp add: fun_eq_iff obj_def m')
  have lp: "listed m p" using ok p by (rule account_listed)
  have name: "listed m q \<Longrightarrow> (Username (obj m q), q) \<in> set (users m)" for q
    using t(2) by (force simp: listed_def)
  have "q \<noteq> p \<longleftrightarrow> Username (obj m q) \<noteq> name" if "listed m q" for q
  proof
    assume "q \<noteq> p"
    moreover have "map_of (users m) (Username (obj m q)) = Some q"
      using t(1) name [OF that] by (simp add: map_of_is_SomeI)
    ultimately show "Username (obj m q) \<noteq> name" using p by auto
  qed (use account_listed(3) [OF ok p] in auto)
  then have l: "listed m' q \<longleftrightarrow> listed m q \<and> q \<noteq> p" for q
    using name [of q] t(2) by (auto simp: listed_def m' set_map_delete) force+
  have i: "listed m q \<Longrightarrow> ID (obj m q) = ID u \<Longrightarrow> q = p" for q
    using t(3) [of "ID u" q] t(3) [of "ID u" p] lp u by simp
  have h: "listed m q \<Longrightarrow> APIKeyHash u \<noteq> [] \<Longrightarrow> APIKeyHash (obj m q) = APIKeyHash u \<Longrightarrow> q = p" for q
    using t(4) [of "APIKeyHash u" q] t(4) [of "APIKeyHash u" p] lp u by simp
  show ?thesis
    unfolding tables_ok_def l o
  proof (intro conjI allI impI)
    show "distinct (map fst (users m'))" using t(1) by (auto simp: m')
    show "q < length (objs m')" "Username (obj m q) = n" if "(n, q) \<in> set (users m')" for n q
      using that t(2) by (auto simp: m' set_map_delete)
    show "usersByID m' k = Some q \<longleftrightarrow> (listed m q \<and> q \<noteq> p) \<and> ID (obj m q) = k" for k q
      using t(3) [of k q] t(3) [of k p] i [of q] lp by (auto simp: m' u)
    show "usersByAPIKeyHash m' k = Some q \<longleftrightarrow> (listed m q \<and> q \<noteq> p) \<and> APIKeyHash (obj m q) = k \<and> k \<noteq> []" for k q
      using t(4) [of k q] t(4) [of k p] h [of q] lp by (auto simp: m' u)
  qed
qed

lemma tables_ok_rekey:
  assumes ok: "tables_ok m" and p: "listed m p" and new: "k \<noteq> []" "usersByAPIKeyHash m k = None"
    and u: "ID u = ID (obj m p)" "Username u = Username (obj m p)" "APIKeyHash u = k"
    and m': "users m' = users m" "usersByID m' = usersByID m" "objs m' = (objs m)[p := u]"
    "usersByAPIKeyHash m' =
       (if APIKeyHash (obj m p) \<noteq> [] then (usersByAPIKeyHash m)(APIKeyHash (obj m p) := None)
        else usersByAPIKeyHash m)(k \<mapsto> p)"
  shows "tables_ok m'"
proof -
  note t = tables_okD [OF ok]
  have b: "p < length (objs m)" using ok p by (rule listed_bound)
  have l: "listed m' q \<longleftrightarrow> listed m q" for q by (simp add: listed_def m')
  have o: "obj m' q = (if q = p then u else obj m q)" for q using b by (simp add: obj_def m')
  have h: "listed m q \<Longrightarrow> APIKeyHash (obj m p) \<noteq> [] \<Longrightarrow> APIKeyHash (obj m q) = APIKeyHash (obj m p) \<Longrightarrow> q = p" for q
    using t(4) [of "APIKeyHash (obj m p)" q] t(4) [of "APIKeyHash (obj m p)" p] p by simp
  have k: "listed m q \<Longrightarrow> APIKeyHash (obj m q) \<noteq> k" for q using t(4) [of k q] new by simp
  show ?thesis
    unfolding tables_ok_def l
  proof (intro conjI allI impI)
    show "distinct (map fst (users m'))" using t(1) by (simp add: m')
    show "q < length (objs m')" "Username (obj m' q) = n" if "(n, q) \<in> set (users m')" for n q
      using that t(2) [of n q] u b by (auto simp: m' o)
    show "usersByID m' i = Some q \<longleftrightarrow> listed m q \<and> ID (obj m' q) = i" for i q
      using t(3) [of i q] u by (auto simp: m' o)
    show "usersByAPIKeyHash m' i = Some q \<longleftrightarrow> listed m q \<and> APIKeyHash (obj m' q) = i \<and> i \<noteq> []" for i q
      using t(4) [of i q] t(4) [of i p] h [of q] k [of q] u p new by (auto simp: m' o)
  qed
qed

lemma tables_ok_RegenerateAPIKey:
  assumes ok: "tables_ok m" and key: "fresh_key env m newKey"
  shows "tables_ok (snd (RegenerateAPIKey env now name newKey res m))"
proof (cases "map_of (users m) name = None \<or> newKey = None")
  case True
  with ok show ?thesis by (auto simp: RegenerateAPIKey_def split: option.split)
next
  case False
  then obtain p k where new: "map_of (users m) name = Some p" "newKey = Some k" by auto
  note p = account_listed [OF ok new(1)]
  let ?u = "obj m p"
  let ?h = "hashAPIKey env k"
  have f: "?h \<noteq> []" "usersByAPIKeyHash m ?h = None" using key new by (simp_all add: fresh_key_def)
  define index where
    "index = (if APIKeyHash ?u \<noteq> [] then (usersByAPIKeyHash m)(APIKeyHash ?u := None) else usersByAPIKeyHash m)"
  define m1 where "m1 = (put_obj p (?u\<lparr>APIKey := prefix8 k, APIKeyHash := ?h, UpdatedAt := now\<rparr>) m)
      \<lparr>usersByAPIKeyHash := index(?h \<mapsto> p)\<rparr>"
  have ok1: "tables_ok m1"
    by (rule tables_ok_rekey [OF ok p(1) f]) (simp_all add: m1_def index_def put_obj_def)
  obtain b m2 where s: "saveUsers res m1 = (b, m2)" by fastforce
  then have m2: "m2 = snd (saveUsers res m1)" by simp
  have len: "length (objs m1) = length (objs m)" by (simp add: m1_def)
  have o1: "obj m1 q = (if q = p then ?u\<lparr>APIKey := prefix8 k, APIKeyHash := ?h, UpdatedAt := now\<rparr> else obj m q)" for q
    using p(2) by (simp add: m1_def obj_put_obj obj_def put_obj_def)
  have h2: "APIKeyHash (obj m2 p) = ?h" using p(2) by (simp add: m2 len o1)
  define m3 where "m3 = put_obj p ((obj m2 p)\<lparr>APIKey := APIKey ?u, APIKeyHash := APIKeyHash ?u\<rparr>) m2"
  let ?index = "(usersByAPIKeyHash m2)(?h := None)"
  let ?m4 = "m3\<lparr>usersByAPIKeyHash := (if APIKeyHash ?u \<noteq> [] then ?index(APIKeyHash ?u \<mapsto> p) else ?index)\<rparr>"
  have "tables_ok ?m4"
  proof (rule tables_ok_extend [OF ok])
    show "users ?m4 = users m" "usersByID ?m4 = usersByID m" by (simp_all add: m3_def m2 m1_def)
    have idx: "?index = index" using f by (auto simp: fun_eq_iff m2 m1_def index_def)
    have "APIKeyHash ?u \<noteq> [] \<Longrightarrow> usersByAPIKeyHash m (APIKeyHash ?u) = Some p"
      using tables_okD(4) [OF ok] p(1) by blast
    then show "usersByAPIKeyHash ?m4 = usersByAPIKeyHash m"
      unfolding idx by (auto simp: index_def fun_eq_iff)
    show "length (objs m) \<le> length (objs ?m4)" by (simp add: m3_def m2 len)
    fix q assume "listed m q"
    then have q: "q < length (objs m)" using ok by (simp add: listed_bound)
    have "obj ?m4 q = obj m3 q" by (simp add: obj_def)
    with q p(2) show "names_of (obj ?m4 q) = names_of (obj m q)"
      by (simp add: m3_def obj_put_obj m2 len names_of_def o1)
  qed
  moreover have "tables_ok m2" using ok1 by (simp add: m2 tables_ok_saved)
  moreover have "snd (RegenerateAPIKey env now name newKey res m) = (if b then m2 else ?m4)"
    by (simp add: RegenerateAPIKey_def new Let_def h2 s flip: index_def m1_def m3_def)
  ultimately show ?thesis by simp
qed

lemma tables_ok_insert_session:
  assumes ok: "tables_ok m"
  shows "tables_ok (snd (insert_session now name a s m))"
proof (cases "map_of (users m) name = Some (fst a)")
  case True
  let ?m = "put_obj (fst a) ((obj m (fst a))\<lparr>lastLoginNanos := now\<rparr>) m"
  have "tables_ok ?m"
    using ok account_listed(2) [OF ok True] by (rule tables_ok_put_obj) (simp add: names_of_def)
  then have "tables_ok (?m\<lparr>sessions := ss\<rparr>)" for ss using sessions_update_tables(1) tables_ok_cong by blast
  with ok show ?thesis by (simp add: insert_session_def case_prod_beta evictOldestSessionsLocked_def)
qed (use ok in \<open>simp add: insert_session_def case_prod_beta\<close>)

section \<open>The users file\<close>

definition accounts_ok :: "User list \<Rightarrow> bool" where
  "accounts_ok us \<longleftrightarrow>
     distinct (map Username us) \<and> distinct (map ID us) \<and> distinct (filter (\<lambda>h. h \<noteq> []) (map APIKeyHash us))"

definition users_file_ok :: "User json_file \<Rightarrow> bool" where
  "users_file_ok uj \<longleftrightarrow> uj = Absent \<or> (\<exists>us. uj = Holds (Some (map Some us)) \<and> accounts_ok us)"

lemma load_users_from_Some [simp]: "load_users_from (map Some us) m = (None, fold load_user us m)"
  by (induction us arbitrary: m) simp_all

lemma fold_load_user_simps [simp]:
  "sessions (fold load_user us m) = sessions m" "sessionsJson (fold load_user us m) = sessionsJson m"
  "usersJson (fold load_user us m) = usersJson m" "dataDir (fold load_user us m) = dataDir m"
  by (induction us arbitrary: m) simp_all

lemma tables_ok_load_users:
  "tables_ok m \<Longrightarrow> accounts_ok us \<Longrightarrow>
   \<forall>u \<in> set us. map_of (users m) (Username u) = None \<and> usersByID m (ID u) = None \<and>
     (APIKeyHash u \<noteq> [] \<longrightarrow> usersByAPIKeyHash m (APIKeyHash u) = None) \<Longrightarrow>
   tables_ok (fold load_user us m)"
proof (induction us arbitrary: m)
  case (Cons u us)
  have "tables_ok (load_user u m)" using Cons.prems by (intro tables_ok_load_user) simp_all
  moreover have "accounts_ok us" using Cons.prems(2) by (auto simp: accounts_ok_def split: if_splits)
  moreover have "\<forall>v \<in> set us. map_of (users (load_user u m)) (Username v) = None \<and>
      usersByID (load_user u m) (ID v) = None \<and>
      (APIKeyHash v \<noteq> [] \<longrightarrow> usersByAPIKeyHash (load_user u m) (APIKeyHash v) = None)"
  proof
    fix v assume v: "v \<in> set us"
    then have i: "Username v \<in> Username ` set us" "ID v \<in> ID ` set us" "APIKeyHash v \<in> APIKeyHash ` set us"
      by simp_all
    have "Username u \<notin> Username ` set us" "ID u \<notin> ID ` set us"
        "APIKeyHash u \<noteq> [] \<Longrightarrow> APIKeyHash u \<notin> APIKeyHash ` set us"
      using Cons.prems(2) by (auto simp: accounts_ok_def)
    with i have "Username v \<noteq> Username u" "ID v \<noteq> ID u" "APIKeyHash u \<noteq> [] \<Longrightarrow> APIKeyHash v \<noteq> APIKeyHash u"
      by metis+
    with v Cons.prems(3) show "map_of (users (load_user u m)) (Username v) = None \<and>
      usersByID (load_user u m) (ID v) = None \<and>
      (APIKeyHash v \<noteq> [] \<longrightarrow> usersByAPIKeyHash (load_user u m) (APIKeyHash v) = None)"
      by simp
  qed
  ultimately show ?case using Cons.IH by simp
qed simp

lemma tables_ok_empty [simp]: "tables_ok (empty_manager dir key uj sj)"
  by (simp add: tables_ok_def empty_manager_def listed_def)

lemma persisted_user_simps [simp]:
  "ID (persisted_user u) = ID u" "Username (persisted_user u) = Username u" "APIKeyHash (persisted_user u) = APIKeyHash u"
  "Password (persisted_user u) = Password u" "Enabled (persisted_user u) = Enabled u"
  by (simp_all add: persisted_user_def)

lemma distinct_listed:
  assumes ok: "tables_ok m" and inj: "\<And>p q. listed m p \<Longrightarrow> listed m q \<Longrightarrow> f p = f q \<Longrightarrow> p = q"
  shows "distinct (map (\<lambda>(_, p). f p) (users m))"
proof -
  have "inj_on (\<lambda>(n, p). f p) (set (users m))"
  proof (rule inj_onI, clarify)
    fix n p k q assume "(n, p) \<in> set (users m)" "(k, q) \<in> set (users m)" "f p = f q"
    moreover from this have "p = q" by (intro inj) (force simp: listed_def)+
    ultimately show "n = k \<and> p = q" using tables_okD(2) [OF ok] by metis
  qed
  moreover have "distinct (users m)" using tables_okD(1) [OF ok] by (simp add: distinct_map)
  ultimately show ?thesis by (simp add: distinct_map)
qed

lemma users_file_ok_saved:
  assumes ok: "tables_ok m"
  shows "users_file_ok (users_file m)"
proof -
  let ?us = "map (\<lambda>(_, p). persisted_user (obj m p)) (users m)"
  note t = tables_okD [OF ok]
  have "map Username ?us = map fst (users m)"
    using t(2) by (auto simp: case_prod_beta)
  then have "distinct (map Username ?us)" using t(1) by (simp only:)
  moreover have "distinct (map (\<lambda>(_, p). ID (obj m p)) (users m))"
    using ok
  proof (rule distinct_listed)
    fix p q assume "listed m p" "listed m q" "ID (obj m p) = ID (obj m q)"
    then show "p = q" using t(3) [of "ID (obj m p)" p] t(3) [of "ID (obj m p)" q] by simp
  qed
  moreover have "distinct (filter (\<lambda>h. h \<noteq> []) (map (\<lambda>(_, p). APIKeyHash (obj m p)) (users m)))"
  proof -
    have d: "distinct (users m)" using t(1) by (simp add: distinct_map)
    have "inj_on (\<lambda>(_, p). APIKeyHash (obj m p)) {np \<in> set (users m). APIKeyHash (obj m (snd np)) \<noteq> []}"
    proof (rule inj_onI, clarify)
      fix n p k q assume a: "(n, p) \<in> set (users m)" "(k, q) \<in> set (users m)"
        "APIKeyHash (obj m p) = APIKeyHash (obj m q)" "APIKeyHash (obj m (snd (n, p))) \<noteq> []"
      then have "listed m p" "listed m q" by (force simp: listed_def)+
      with a have "p = q" using t(4) [of "APIKeyHash (obj m p)" p] t(4) [of "APIKeyHash (obj m p)" q] by simp
      with a show "n = k \<and> p = q" using t(2) by metis
    qed
    with d show ?thesis by (simp add: filter_map distinct_map comp_def case_prod_beta)
  qed
  ultimately have "accounts_ok ?us" by (simp add: accounts_ok_def comp_def case_prod_unfold)
  moreover have "users_file m = Holds (Some (map Some ?us))" by (simp add: users_file_def case_prod_beta)
  ultimately show ?thesis unfolding users_file_ok_def by blast
qed

lemma tables_ok_sync [simp]: "tables_ok m \<Longrightarrow> tables_ok (sync_logins m)"
  using tables_sync_logins by (rule tables_ok_cong)

lemma users_file_ok_saveUsers:
  "tables_ok m \<Longrightarrow> users_file_ok (usersJson m) \<Longrightarrow> users_file_ok (usersJson (snd (saveUsers res m)))"
  by (simp add: saveUsers_usersJson users_file_ok_saved)

definition mgr_good :: "Manager \<Rightarrow> bool" where
  "mgr_good m \<longleftrightarrow> tables_ok m \<and> users_file_ok (usersJson m)"

lemma mgr_good_cong: "tables m' = tables m \<Longrightarrow> usersJson m' = usersJson m \<Longrightarrow> mgr_good m \<Longrightarrow> mgr_good m'"
  using tables_ok_cong [of m' m] by (simp add: mgr_good_def)

lemma mgr_good_saved: "tables_ok m \<Longrightarrow> users_file_ok (usersJson m) \<Longrightarrow> mgr_good (snd (saveUsers res m))"
  by (simp add: mgr_good_def tables_ok_saved users_file_ok_saveUsers)

lemma usersJson_sessions [simp]:
  "usersJson (writeSessions ok out m) = usersJson m" "usersJson (saveSessions now ok m) = usersJson m"
  "usersJson (invalidateUserSessionsLocked now ok uid m) = usersJson m"
  "usersJson (evictOldestSessionsLocked uid limit m) = usersJson m"
  by (simp_all add: writeSessions_def saveSessions_def invalidateUserSessionsLocked_def evictOldestSessionsLocked_def)

lemma mgr_good_createUserLocked:
  assumes ok: "mgr_good m" and id: "fresh_id m newID" and key: "fresh_key env m newKey"
  shows "mgr_good (snd (createUserLocked env clk name email hash role domains newKey newID res m))"
proof -
  have t: "tables_ok (load_user (new_user env clk name email hash role domains k uid) m)"
    if "\<not> userExists name m" "newKey = Some k" "newID = Some uid" for k uid
    using ok id key that
    by (intro tables_ok_load_user) (auto simp: mgr_good_def fresh_id_def fresh_key_def userExists_def)
  have "users_file_ok (usersJson (snd (createUserLocked env clk name email hash role domains newKey newID res m)))"
  proof (cases "userExists name m \<or> newKey = None \<or> newID = None")
    case True
    with ok show ?thesis by (auto simp: createUserLocked_def mgr_good_def split: option.split)
  next
    case False
    then obtain k uid where new: "newKey = Some k" "newID = Some uid" by auto
    let ?m1 = "load_user (new_user env clk name email hash role domains k uid) m"
    have "users_file_ok (usersJson (snd (saveUsers res ?m1)))"
      using ok t [OF _ new] False by (intro users_file_ok_saveUsers) (simp_all add: mgr_good_def)
    then show ?thesis
      using False by (cases "saveUsers res ?m1") (simp add: createUserLocked_def new Let_def split: bool.split)
  qed
  then show ?thesis using ok id key by (simp add: mgr_good_def tables_ok_createUserLocked)
qed

lemma mgr_good_put_obj:
  "mgr_good m \<Longrightarrow> map_of (users m) name = Some p \<Longrightarrow> names_of u = names_of (obj m p) \<Longrightarrow> mgr_good (put_obj p u m)"
  using account_listed(2) [of m name p] by (simp add: mgr_good_def tables_ok_put_obj)

lemma mgr_good_updateUserLocked:
  assumes ok: "mgr_good m"
  shows "mgr_good (snd (updateUserLocked clk name updates early late keepAdmin res ok' m))"
proof (cases "map_of (users m) name")
  case None
  with ok show ?thesis by (simp add: updateUserLocked_def)
next
  case (Some p)
  have put: "mgr_good (put_obj p u m)" if "names_of u = names_of (obj m p)" for u
    using ok Some that by (rule mgr_good_put_obj)
  then have "mgr_good (snd (saveUsers res (put_obj p (updated_user updates h now (obj m p)) m)))" for h now
    using put [of "updated_user updates h now (obj m p)"] by (intro mgr_good_saved) (simp_all add: mgr_good_def)
  moreover have "mgr_good m' \<Longrightarrow> mgr_good (invalidateUserSessionsLocked now okk uid m')" for m' now okk uid
    by (rule mgr_good_cong) simp_all
  ultimately show ?thesis
    using ok put by (simp add: updateUserLocked_def Some Let_def case_prod_beta)
qed

lemma mgr_good_change_commit:
  assumes ok: "mgr_good m"
  shows "mgr_good (snd (change_commit clk name a hash res ok' m))"
proof (cases "map_of (users m) name = Some (fst a)")
  case True
  have "mgr_good (put_obj (fst a) ((obj m (fst a))\<lparr>Password := hash, UpdatedAt := clk 0\<rparr>) m)"
    using ok True by (rule mgr_good_put_obj) (simp add: names_of_def)
  then have "mgr_good (snd (saveUsers res (put_obj (fst a) ((obj m (fst a))\<lparr>Password := hash, UpdatedAt := clk 0\<rparr>) m)))"
    unfolding mgr_good_def [of "put_obj p u m" for p u] by (intro mgr_good_saved) simp_all
  moreover have "mgr_good m' \<Longrightarrow> mgr_good (invalidateUserSessionsLocked now okk uid m')" for m' now okk uid
    by (rule mgr_good_cong) simp_all
  ultimately show ?thesis using ok by (simp add: change_commit_def Let_def case_prod_beta)
qed (use ok in \<open>simp add: change_commit_def case_prod_beta\<close>)

lemma mgr_good_deleteUser:
  assumes ok: "mgr_good m"
  shows "mgr_good (snd (deleteUser now name keepAdmin res ok' m))"
proof (cases "map_of (users m) name")
  case None
  with ok show ?thesis by (simp add: deleteUser_def)
next
  case (Some p)
  let ?u = "obj m p"
  let ?m1 = "m\<lparr>users := map_delete name (users m), usersByID := (usersByID m)(ID ?u := None)\<rparr>"
  let ?m2 = "if APIKeyHash ?u \<noteq> [] then ?m1\<lparr>usersByAPIKeyHash := (usersByAPIKeyHash ?m1)(APIKeyHash ?u := None)\<rparr> else ?m1"
  have t: "tables_ok m" and f: "users_file_ok (usersJson m)" using ok by (simp_all add: mgr_good_def)
  have "tables_ok ?m2" by (rule tables_ok_without [OF t Some refl]) simp_all
  moreover have "usersJson ?m2 = usersJson m" by simp
  ultimately have "mgr_good (snd (saveUsers res ?m2))" using f by (intro mgr_good_saved) simp_all
  moreover have "mgr_good m' \<Longrightarrow> mgr_good (invalidateUserSessionsLocked now okk uid m')" for m' now okk uid
    by (rule mgr_good_cong) simp_all
  ultimately show ?thesis using ok by (simp add: deleteUser_def Some Let_def case_prod_beta)
qed

lemma mgr_good_RegenerateAPIKey:
  assumes ok: "mgr_good m" and key: "fresh_key env m newKey"
  shows "mgr_good (snd (RegenerateAPIKey env now name newKey res m))"
proof -
  have "users_file_ok (usersJson (snd (RegenerateAPIKey env now name newKey res m)))"
  proof (cases "map_of (users m) name = None \<or> newKey = None")
    case True
    with ok show ?thesis by (auto simp: RegenerateAPIKey_def mgr_good_def split: option.split)
  next
    case False
    then obtain p k where new: "map_of (users m) name = Some p" "newKey = Some k" by auto
    have t: "tables_ok m" using ok by (simp add: mgr_good_def)
    let ?u = "obj m p"
    let ?index = "if APIKeyHash ?u \<noteq> [] then (usersByAPIKeyHash m)(APIKeyHash ?u := None) else usersByAPIKeyHash m"
    let ?m1 = "(put_obj p (?u\<lparr>APIKey := prefix8 k, APIKeyHash := hashAPIKey env k, UpdatedAt := now\<rparr>) m)
        \<lparr>usersByAPIKeyHash := ?index(hashAPIKey env k \<mapsto> p)\<rparr>"
    have "tables_ok ?m1"
      using key new account_listed(1) [OF t new(1)]
      by (intro tables_ok_rekey [OF t, of p "hashAPIKey env k"]) (simp_all add: fresh_key_def put_obj_def)
    then have "users_file_ok (usersJson (snd (saveUsers res ?m1)))"
      using ok by (intro users_file_ok_saveUsers) (simp_all add: mgr_good_def)
    then show ?thesis
      by (cases "saveUsers res ?m1") (simp add: RegenerateAPIKey_def new Let_def split: bool.split)
  qed
  then show ?thesis using ok key by (simp add: mgr_good_def tables_ok_RegenerateAPIKey)
qed

lemma mgr_good_insert_session: "mgr_good m \<Longrightarrow> mgr_good (snd (insert_session now name a s m))"
  by (simp add: mgr_good_def tables_ok_insert_session) (simp add: insert_session_def case_prod_beta)

section \<open>Restarts\<close>

lemma load_session_tables [simp]:
  "tables (load_session now e m) = tables m" "usersJson (load_session now e m) = usersJson m"
  "sessionsJson (load_session now e m) = sessionsJson m" "dataDir (load_session now e m) = dataDir m"
  "loginAttempts (load_session now e m) = loginAttempts m"
  by (simp_all add: load_session_def split: option.split)

lemma fold_load_session_tables [simp]:
  "tables (fold (load_session now) es m) = tables m" "usersJson (fold (load_session now) es m) = usersJson m"
  "sessionsJson (fold (load_session now) es m) = sessionsJson m" "dataDir (fold (load_session now) es m) = dataDir m"
  "loginAttempts (fold (load_session now) es m) = loginAttempts m"
  by (induction es arbitrary: m) simp_all

lemma loadSessions_tables [simp]:
  "tables (loadSessions now m) = tables m" "usersJson (loadSessions now m) = usersJson m"
  "sessionsJson (loadSessions now m) = sessionsJson m" "dataDir (loadSessions now m) = dataDir m"
  "loginAttempts (loadSessions now m) = loginAttempts m"
  by (simp_all add: loadSessions_def split: json_file.split option.split)

lemma load_user_loginAttempts [simp]: "loginAttempts (fold load_user us m) = loginAttempts m"
  by (induction us arbitrary: m) simp_all

lemma empty_manager_simps [simp]:
  "sessions (empty_manager dir key uj sj) = []" "usersJson (empty_manager dir key uj sj) = uj"
  "sessionsJson (empty_manager dir key uj sj) = sj" "dataDir (empty_manager dir key uj sj) = dir"
  "loginAttempts (empty_manager dir key uj sj) = Map.empty" "users (empty_manager dir key uj sj) = []"
  "usersByID (empty_manager dir key uj sj) = Map.empty" "usersByAPIKeyHash (empty_manager dir key uj sj) = Map.empty"
  by (simp_all add: empty_manager_def)

lemma NewManager_loaded:
  assumes "NewManager now dir key uj sj = Inr m" "users_file_ok uj"
  obtains us where "m = loadSessions now (fold load_user us (empty_manager dir key uj sj))" "accounts_ok us"
proof (cases "dir = [] \<or> uj = Absent")
  case True
  with assms(1) show ?thesis
    by (intro that [of "[]"]) (auto simp: NewManager_def loadUsers_def accounts_ok_def split: if_splits)
next
  case False
  with assms(2) obtain us where "uj = Holds (Some (map Some us))" "accounts_ok us" by (auto simp: users_file_ok_def)
  with False assms(1) show ?thesis by (intro that [of us]) (simp_all add: NewManager_def loadUsers_def)
qed

lemma NewManager_good:
  assumes "NewManager now dir key uj sj = Inr m" "users_file_ok uj"
  shows "mgr_good m" "usersJson m = uj" "sessionsJson m = sj" "dataDir m = dir" "loginAttempts m = Map.empty"
proof -
  obtain us where m: "m = loadSessions now (fold load_user us (empty_manager dir key uj sj))" and us: "accounts_ok us"
    using assms by (rule NewManager_loaded)
  have "tables_ok (fold load_user us (empty_manager dir key uj sj))"
    using us by (intro tables_ok_load_users) simp_all
  then have "tables_ok m" using loadSessions_tables(1) [of now] tables_ok_cong unfolding m by blast
  then show "mgr_good m" using assms(2) by (simp add: mgr_good_def m)
  show "usersJson m = uj" "sessionsJson m = sj" "dataDir m = dir" "loginAttempts m = Map.empty" by (simp_all add: m)
qed

section \<open>Looking up an API key\<close>

text \<open>What the index stands for: a search of all accounts for an enabled one with the hash of the key.\<close>

definition find_account :: "auth_env \<Rightarrow> string \<Rightarrow> Manager \<Rightarrow> (string \<times> nat) option" where
  "find_account env key m =
     find (\<lambda>(_, p). Enabled (obj m p) \<and> APIKeyHash (obj m p) = hashAPIKey env key) (users m)"

definition api_key_reference :: "auth_env \<Rightarrow> string \<Rightarrow> Manager \<Rightarrow> auth_err + User" where
  "api_key_reference env key m =
     (if apiKey m \<noteq> [] \<and> key = apiKey m then Inr global_admin
      else case find_account env key m of
        Some (_, p) \<Rightarrow> Inr (cloneUser (obj m p))
      | None \<Rightarrow>
          if allowLegacyPlaintextKey m
          then (case legacy_scan m key (users m) of None \<Rightarrow> Inl InvalidAPIKey | Some u \<Rightarrow> Inr u)
          else Inl InvalidAPIKey)"

lemma hashAPIKey_nonempty: "length (sha256 env key) = 32 \<Longrightarrow> hashAPIKey env key \<noteq> []"
  by (cases "sha256 env key") (simp_all add: hashAPIKey_def hexEncode_def)

lemma fingerprint_nonempty: "length (sha256 env hash) = 32 \<Longrightarrow> passwordFingerprint env hash \<noteq> []"
  by (cases "sha256 env hash") (simp_all add: passwordFingerprint_def hexEncode_def)

lemma find_account_index:
  assumes ok: "tables_ok m" and h: "hashAPIKey env key \<noteq> []"
  shows "map_option snd (find_account env key m) =
     (case usersByAPIKeyHash m (hashAPIKey env key) of
        None \<Rightarrow> None | Some p \<Rightarrow> if Enabled (obj m p) then Some p else None)"
proof -
  note t = tables_okD(4) [OF ok, of "hashAPIKey env key"]
  have l: "np \<in> set (users m) \<Longrightarrow> listed m (snd np)" for np by (auto simp: listed_def)
  show ?thesis
  proof (cases "find_account env key m")
    case None
    then have "\<forall>np \<in> set (users m). \<not> (Enabled (obj m (snd np)) \<and> APIKeyHash (obj m (snd np)) = hashAPIKey env key)"
      by (auto simp: find_account_def find_None_iff)
    then have "\<not> Enabled (obj m p)" if "usersByAPIKeyHash m (hashAPIKey env key) = Some p" for p
      using that t [of p] by (auto simp: listed_def)
    with None show ?thesis by (auto split: option.split)
  next
    case (Some np)
    then have "np \<in> set (users m)" "Enabled (obj m (snd np))" "APIKeyHash (obj m (snd np)) = hashAPIKey env key"
      by (auto simp: find_account_def find_Some_iff case_prod_beta)
    with h l t [of "snd np"] have "usersByAPIKeyHash m (hashAPIKey env key) = Some (snd np)" by simp
    with Some \<open>Enabled (obj m (snd np))\<close> show ?thesis by simp
  qed
qed

lemma AuthenticateAPIKey_reference:
  assumes ok: "tables_ok m" and h: "hashAPIKey env key \<noteq> []"
  shows "AuthenticateAPIKey env key m = api_key_reference env key m"
proof -
  have e: "usersByAPIKeyHash m (hashAPIKey env key) = Some p \<Longrightarrow> APIKeyHash (obj m p) = hashAPIKey env key" for p
    using tables_okD(4) [OF ok] by blast
  show ?thesis
    using find_account_index [OF ok h] e
    by (cases "find_account env key m"; cases "usersByAPIKeyHash m (hashAPIKey env key)")
      (auto simp: AuthenticateAPIKey_def api_key_reference_def Let_def split: if_splits)
qed



end
