(* ===== verification/Auth_System.thy ===== *)
theory Auth_System
  imports Auth_Tables
begin

text \<open>
  The account manager in use: attempts to prove a password that are under way while accounts change, the
  background sweeps, and restarts from the two files, whatever writes have failed. A step is a critical
  section; a handler that computes a password hash or a comparison without the lock is several steps. The
  system also remembers what the properties speak of: the log-ins that issued a session, the tokens
  whose logout or revocation reached the file, and the failed guesses since the last success. The
  results: a session is accepted only on an enabled account whose present password its holder proved, and
  guessing is limited to five failures in fifteen minutes for each account and client.
\<close>

section \<open>The system\<close>

datatype attempt_kind = LoginAttempt | VerifyAttempt | ChangeAttempt

datatype inflight =
    Comparing attempt_kind string string string account \<comment> \<open>lockout key, name, password, snapshot\<close>
  | Issuing string string string "nat \<times> User" Session \<comment> \<open>lockout key, name, password, snapshot, new session\<close>
  | Changing string string "nat \<times> User" \<comment> \<open>lockout key, name, snapshot\<close>

fun gate_key :: "inflight \<Rightarrow> string" where
  "gate_key (Comparing kind key name pw a) = key"
| "gate_key (Issuing key name pw a s) = key"
| "gate_key (Changing key name a) = key"

record login_event =
  e_token :: string
  e_user :: string
  e_password :: string
  e_hash :: string

record AuthSys =
  mgr :: Manager
  clock :: instant
  inflights :: "inflight list"
  logouts :: "string list" \<comment> \<open>dropped from memory, the file not written yet\<close>
  issued :: "login_event list"
  final :: "string set"
  fails :: "string \<Rightarrow> instant list" \<comment> \<open>newest first\<close>

datatype auth_label =
    ABegin attempt_kind instant string string string
  | ACompare nat instant "string option" "nat \<Rightarrow> instant"
  | AInsert nat instant
  | AChange nat "nat \<Rightarrow> instant" "string option" save_result bool
  | ASave instant bool
  | ACreate "nat \<Rightarrow> instant" string string string string "string list option" "string option" "string option" save_result
  | AFirstAdmin "nat \<Rightarrow> instant" string string string "string option" "string option" save_result
  | AUpdate "nat \<Rightarrow> instant" string User string "string option" bool save_result bool
  | ADelete instant string bool save_result bool
  | ARegenerate instant string "string option" save_result
  | AValidate instant string
  | ALogout string
  | ALogoutSave instant bool
  | ASweep instant
  | AForget instant
  | ASettings int string bool
  | ARestart instant string

definition attempt_key :: "attempt_kind \<Rightarrow> string \<Rightarrow> string \<Rightarrow> string" where
  "attempt_key kind name ip = (case kind of LoginAttempt \<Rightarrow> lockoutKey name ip | _ \<Rightarrow> chpwKey name)"

definition drop_nth :: "nat \<Rightarrow> 'a list \<Rightarrow> 'a list" where
  "drop_nth i xs = take i xs @ drop (Suc i) xs"

definition compare_as ::
  "attempt_kind \<Rightarrow> auth_env \<Rightarrow> instant \<Rightarrow> string \<Rightarrow> account \<Rightarrow> string \<Rightarrow> Manager \<Rightarrow> (auth_err + nat \<times> User) \<times> Manager" where
  "compare_as kind = (case kind of LoginAttempt \<Rightarrow> login_compare | _ \<Rightarrow> own_compare)"

text \<open>What is left to do after a comparison that succeeded.\<close>

definition after_compare ::
  "auth_env \<Rightarrow> attempt_kind \<Rightarrow> string \<Rightarrow> string \<Rightarrow> string \<Rightarrow> nat \<times> User \<Rightarrow> string option \<Rightarrow> (nat \<Rightarrow> instant) \<Rightarrow>
   Manager \<Rightarrow> inflight list" where
  "after_compare env kind key name pw a token clk m =
     (case kind of
        LoginAttempt \<Rightarrow>
          (case token of
             None \<Rightarrow> []
           | Some t \<Rightarrow> [Issuing key name pw a (new_session env clk t name (snd a) m)])
      | VerifyAttempt \<Rightarrow> []
      | ChangeAttempt \<Rightarrow> [Changing key name a])"

definition compare_step ::
  "auth_env \<Rightarrow> nat \<Rightarrow> instant \<Rightarrow> string option \<Rightarrow> (nat \<Rightarrow> instant) \<Rightarrow> AuthSys \<Rightarrow> AuthSys" where
  "compare_step env i now token clk s =
     (case inflights s ! i of
        Comparing kind key name pw a \<Rightarrow>
          (let rest = drop_nth i (inflights s) in
           case compare_as kind env now key a pw (mgr s) of
             (Inr pu, m) \<Rightarrow>
               s\<lparr>mgr := m, clock := now, inflights := after_compare env kind key name pw pu token clk m @ rest,
                 fails := (fails s)(key := [])\<rparr>
           | (Inl e, m) \<Rightarrow>
               s\<lparr>mgr := m, clock := now, inflights := rest,
                 fails := (if e = NoSuchUser then fails s else (fails s)(key := now # fails s key))\<rparr>)
      | _ \<Rightarrow> s)"

definition insert_step :: "nat \<Rightarrow> instant \<Rightarrow> AuthSys \<Rightarrow> AuthSys" where
  "insert_step i now s =
     (case inflights s ! i of
        Issuing key name pw a x \<Rightarrow>
          (let s = s\<lparr>inflights := drop_nth i (inflights s)\<rparr> in
           case insert_session now name a x (mgr s) of
             (Inr _, m) \<Rightarrow>
               s\<lparr>mgr := m,
                 issued := \<lparr>e_token = sToken x, e_user = ID (snd a), e_password = pw, e_hash = Password (snd a)\<rparr> # issued s\<rparr>
           | (Inl _, m) \<Rightarrow> s\<lparr>mgr := m\<rparr>)
      | _ \<Rightarrow> s)"

text \<open>A revocation that reaches the file is final for the sessions it removed.\<close>

definition revoking :: "bool \<Rightarrow> Manager \<Rightarrow> AuthSys \<Rightarrow> AuthSys" where
  "revoking ok m s =
     s\<lparr>mgr := m, final := (if ok then final s \<union> (fst ` set (sessions (mgr s)) - fst ` set (sessions m)) else final s)\<rparr>"

definition change_step ::
  "nat \<Rightarrow> (nat \<Rightarrow> instant) \<Rightarrow> string option \<Rightarrow> save_result \<Rightarrow> bool \<Rightarrow> AuthSys \<Rightarrow> AuthSys" where
  "change_step i clk hashed res ok s =
     (case inflights s ! i of
        Changing key name a \<Rightarrow>
          (let s = s\<lparr>inflights := drop_nth i (inflights s)\<rparr> in
           case hashed of
             None \<Rightarrow> s
           | Some h \<Rightarrow> revoking ok (snd (change_commit clk name a h res ok (mgr s))) s)
      | _ \<Rightarrow> s)"

definition logout_save :: "instant \<Rightarrow> bool \<Rightarrow> AuthSys \<Rightarrow> AuthSys" where
  "logout_save now ok s =
     (case logouts s of
        [] \<Rightarrow> s
      | t # ts \<Rightarrow>
          s\<lparr>mgr := saveSessions now ok (mgr s), logouts := ts,
            final := (if ok \<and> t \<in> e_token ` set (issued s) then insert t (final s) else final s)\<rparr>)"

definition restart_step :: "instant \<Rightarrow> string \<Rightarrow> AuthSys \<Rightarrow> AuthSys" where
  "restart_step now key s =
     (case NewManager now (dataDir (mgr s)) key (usersJson (mgr s)) (sessionsJson (mgr s)) of
        Inl _ \<Rightarrow> s
      | Inr m \<Rightarrow> s\<lparr>mgr := m, inflights := [], logouts := [], fails := (\<lambda>_. [])\<rparr>)"

fun auth_do :: "auth_env \<Rightarrow> auth_label \<Rightarrow> AuthSys \<Rightarrow> AuthSys" where
  "auth_do env (ABegin kind now name pw ip) s =
     (let key = attempt_key kind name ip in
      case attempt_begin now key name (mgr s) of
        (Inl _, m) \<Rightarrow> s\<lparr>mgr := m, clock := now\<rparr>
      | (Inr a, m) \<Rightarrow> s\<lparr>mgr := m, clock := now, inflights := Comparing kind key name pw a # inflights s\<rparr>)"
| "auth_do env (ACompare i now token clk) s = compare_step env i now token clk s"
| "auth_do env (AInsert i now) s = insert_step i now s"
| "auth_do env (AChange i clk hashed res ok) s = change_step i clk hashed res ok s"
| "auth_do env (ASave now ok) s = s\<lparr>mgr := saveSessions now ok (mgr s)\<rparr>"
| "auth_do env (ACreate clk name email hash role domains newKey newID res) s =
     s\<lparr>mgr := snd (createUserLocked env clk name email hash role domains newKey newID res (mgr s))\<rparr>"
| "auth_do env (AFirstAdmin clk name email hash newKey newID res) s =
     s\<lparr>mgr := snd (createFirstAdminLocked env clk name email hash newKey newID res (mgr s))\<rparr>"
| "auth_do env (AUpdate clk name updates early late keepAdmin res ok) s =
     revoking ok (snd (updateUserLocked clk name updates early late keepAdmin res ok (mgr s))) s"
| "auth_do env (ADelete now name keepAdmin res ok) s =
     revoking ok (snd (deleteUser now name keepAdmin res ok (mgr s))) s"
| "auth_do env (ARegenerate now name newKey res) s =
     s\<lparr>mgr := snd (RegenerateAPIKey env now name newKey res (mgr s))\<rparr>"
| "auth_do env (AValidate now token) s = s\<lparr>mgr := snd (ValidateSession env now token (mgr s))\<rparr>"
| "auth_do env (ALogout token) s = s\<lparr>mgr := logout_drop token (mgr s), logouts := token # logouts s\<rparr>"
| "auth_do env (ALogoutSave now ok) s = logout_save now ok s"
| "auth_do env (ASweep now) s = s\<lparr>mgr := sweep_sessions now (mgr s)\<rparr>"
| "auth_do env (AForget now) s = s\<lparr>mgr := cleanupLoginAttempts now (mgr s), clock := now\<rparr>"
| "auth_do env (ASettings hours key legacy) s =
     s\<lparr>mgr := SetAllowLegacyPlaintextKey legacy (SetGlobalAPIKey key (SetSessionTTL hours (mgr s)))\<rparr>"
| "auth_do env (ARestart now key) s = restart_step now key s"

text \<open>
  When a step can be taken: the clock does not run backwards, an attempt holds its gate until it ends,
  and what is drawn at random is new.
\<close>

definition fresh_token :: "AuthSys \<Rightarrow> string option \<Rightarrow> bool" where
  "fresh_token s token \<longleftrightarrow>
     (case token of None \<Rightarrow> True
      | Some t \<Rightarrow> t \<noteq> [] \<and> t \<notin> e_token ` set (issued s) \<and>
          (\<forall>f \<in> set (inflights s). case f of Issuing key name pw a x \<Rightarrow> sToken x \<noteq> t | _ \<Rightarrow> True))"

fun auth_can :: "auth_env \<Rightarrow> auth_label \<Rightarrow> AuthSys \<Rightarrow> bool" where
  "auth_can env (ABegin kind now name pw ip) s \<longleftrightarrow>
     clock s \<le> now \<and> (\<forall>f \<in> set (inflights s). authGateFor (gate_key f) \<noteq> authGateFor (attempt_key kind name ip))"
| "auth_can env (ACompare i now token clk) s \<longleftrightarrow> i < length (inflights s) \<and> clock s \<le> now \<and> fresh_token s token"
| "auth_can env (AInsert i now) s \<longleftrightarrow> i < length (inflights s)"
| "auth_can env (AChange i clk hashed res ok) s \<longleftrightarrow> i < length (inflights s)"
| "auth_can env (ACreate clk name email hash role domains newKey newID res) s \<longleftrightarrow>
     fresh_id (mgr s) newID \<and> fresh_key env (mgr s) newKey"
| "auth_can env (AFirstAdmin clk name email hash newKey newID res) s \<longleftrightarrow>
     fresh_id (mgr s) newID \<and> fresh_key env (mgr s) newKey"
| "auth_can env (ARegenerate now name newKey res) s \<longleftrightarrow> fresh_key env (mgr s) newKey"
| "auth_can env (ALogout token) s \<longleftrightarrow> token \<in> e_token ` set (issued s)"
| "auth_can env (AForget now) s \<longleftrightarrow> clock s \<le> now"
| "auth_can env _ s \<longleftrightarrow> True"

definition auth_step :: "auth_env \<Rightarrow> AuthSys \<Rightarrow> auth_label \<Rightarrow> AuthSys \<Rightarrow> bool" where
  "auth_step env s l s' \<longleftrightarrow> auth_can env l s \<and> s' = auth_do env l s"

text \<open>The first start: the accounts of an earlier installation, or none, and no sessions.\<close>

definition auth_init :: "AuthSys \<Rightarrow> bool" where
  "auth_init s \<longleftrightarrow>
     (\<exists>now dir key uj m. users_file_ok uj \<and> NewManager now dir key uj Absent = Inr m \<and>
        s = \<lparr>mgr = m, clock = now, inflights = [], logouts = [], issued = [], final = {}, fails = (\<lambda>_. [])\<rparr>)"

section \<open>The tables in every state\<close>

lemma attempt_begin_same [simp]:
  "tables (snd (attempt_begin now key name m)) = tables m"
  "usersJson (snd (attempt_begin now key name m)) = usersJson m"
  "sessions (snd (attempt_begin now key name m)) = sessions m"
  "sessionsJson (snd (attempt_begin now key name m)) = sessionsJson m"
  "dataDir (snd (attempt_begin now key name m)) = dataDir m"
  by (simp_all add: attempt_begin_def isLockedOut_def Let_def split: bool.split)

lemma compare_same [simp]:
  "tables (snd (compare_as kind env now key a pw m)) = tables m"
  "usersJson (snd (compare_as kind env now key a pw m)) = usersJson m"
  "sessions (snd (compare_as kind env now key a pw m)) = sessions m"
  "sessionsJson (snd (compare_as kind env now key a pw m)) = sessionsJson m"
  "dataDir (snd (compare_as kind env now key a pw m)) = dataDir m"
  by (simp_all add: compare_as_def login_compare_def own_compare_def recordFailedAttempt_def clearFailedAttempts_def
      split: attempt_kind.split option.split prod.split)

lemma ValidateSession_same [simp]:
  "tables (snd (ValidateSession env now token m)) = tables m"
  "usersJson (snd (ValidateSession env now token m)) = usersJson m"
  "sessionsJson (snd (ValidateSession env now token m)) = sessionsJson m"
  "loginAttempts (snd (ValidateSession env now token m)) = loginAttempts m"
  "dataDir (snd (ValidateSession env now token m)) = dataDir m"
  by (simp_all add: ValidateSession_def Let_def split: option.split)

lemma settings_same [simp]:
  "tables (SetAllowLegacyPlaintextKey b m) = tables m" "tables (SetGlobalAPIKey k m) = tables m"
  "tables (SetSessionTTL h m) = tables m" "tables (cleanupLoginAttempts now m) = tables m"
  "tables (sweep_sessions now m) = tables m" "tables (logout_drop token m) = tables m"
  by (simp_all add: tables_def SetAllowLegacyPlaintextKey_def SetGlobalAPIKey_def SetSessionTTL_def
      cleanupLoginAttempts_def sweep_sessions_def logout_drop_def)

lemma settings_files [simp]:
  "usersJson (SetAllowLegacyPlaintextKey b m) = usersJson m" "usersJson (SetGlobalAPIKey k m) = usersJson m"
  "usersJson (SetSessionTTL h m) = usersJson m" "usersJson (cleanupLoginAttempts now m) = usersJson m"
  "usersJson (sweep_sessions now m) = usersJson m" "usersJson (logout_drop token m) = usersJson m"
  by (simp_all add: SetAllowLegacyPlaintextKey_def SetGlobalAPIKey_def SetSessionTTL_def
      cleanupLoginAttempts_def sweep_sessions_def logout_drop_def)

lemma mgr_createFirst:
  "snd (createFirstAdminLocked env clk name email hash newKey newID res m) =
     (if users m \<noteq> [] then m else snd (createUserLocked env clk name email hash RoleAdmin None newKey newID res m))"
  by (simp add: createFirstAdminLocked_def)

definition sys_tables :: "AuthSys \<Rightarrow> bool" where
  "sys_tables s \<longleftrightarrow> mgr_good (mgr s)"

lemma mgr_compare_step:
  "mgr (compare_step env i now token clk s) =
     (case inflights s ! i of
        Comparing kind key name pw a \<Rightarrow> snd (compare_as kind env now key a pw (mgr s))
      | _ \<Rightarrow> mgr s)"
  by (simp add: compare_step_def Let_def split: inflight.split prod.split sum.split)

lemma mgr_insert_step:
  "mgr (insert_step i now s) =
     (case inflights s ! i of
        Issuing key name pw a x \<Rightarrow> snd (insert_session now name a x (mgr s))
      | _ \<Rightarrow> mgr s)"
  by (simp add: insert_step_def Let_def split: inflight.split prod.split sum.split)

lemma mgr_change_step:
  "mgr (change_step i clk hashed res ok s) =
     (case (inflights s ! i, hashed) of
        (Changing key name a, Some h) \<Rightarrow> snd (change_commit clk name a h res ok (mgr s))
      | _ \<Rightarrow> mgr s)"
  by (simp add: change_step_def revoking_def Let_def split: inflight.split option.split)

lemma mgr_logout_save: "mgr (logout_save now ok s) = (if logouts s = [] then mgr s else saveSessions now ok (mgr s))"
  by (simp add: logout_save_def split: list.split)

lemma sys_tables_init: "auth_init s \<Longrightarrow> sys_tables s"
  by (auto simp: auth_init_def sys_tables_def dest: NewManager_good)

lemma mgr_good_same: "mgr_good m \<Longrightarrow> tables m' = tables m \<Longrightarrow> usersJson m' = usersJson m \<Longrightarrow> mgr_good m'"
  by (rule mgr_good_cong)

lemma sys_tables_do:
  assumes ok: "sys_tables s" and can: "auth_can env l s"
  shows "sys_tables (auth_do env l s)"
proof -
  note g = ok [unfolded sys_tables_def]
  show ?thesis
  proof (cases l)
    case (ABegin kind now name pw ip)
    have "mgr (auth_do env l s) = snd (attempt_begin now (attempt_key kind name ip) name (mgr s))"
      by (simp add: ABegin Let_def split: prod.split sum.split)
    with g show ?thesis by (simp add: sys_tables_def mgr_good_same)
  next
    case ACompare
    with g show ?thesis by (simp add: sys_tables_def mgr_compare_step mgr_good_same split: inflight.split)
  next
    case AInsert
    with g show ?thesis by (simp add: sys_tables_def mgr_insert_step mgr_good_insert_session split: inflight.split)
  next
    case AChange
    with g show ?thesis
      by (simp add: sys_tables_def mgr_change_step mgr_good_change_commit split: inflight.split option.split)
  next
    case ARestart
    with g show ?thesis
      by (auto simp: sys_tables_def restart_step_def mgr_good_def [of "mgr s"] split: sum.split dest: NewManager_good(1))
  qed (use g can in \<open>simp_all add: sys_tables_def revoking_def mgr_createFirst mgr_logout_save mgr_good_same
      mgr_good_createUserLocked mgr_good_updateUserLocked mgr_good_deleteUser mgr_good_RegenerateAPIKey\<close>)
qed

interpretation auth_tables: transition_system auth_init "auth_step env" sys_tables
  by unfold_locales (auto simp: auth_step_def sys_tables_init sys_tables_do)

lemma reach_good: "reach auth_init (auth_step env) s \<Longrightarrow> mgr_good (mgr s)"
  using auth_tables.reach_inv by (simp add: sys_tables_def)

lemma cloneUser_simps [simp]:
  "ID (cloneUser u) = ID u" "Username (cloneUser u) = Username u" "Password (cloneUser u) = Password u"
  "Enabled (cloneUser u) = Enabled u" "Role (cloneUser u) = Role u"
  by (simp_all add: cloneUser_def)

lemma in_ListUsers: "u \<in> set (ListUsers m) \<longleftrightarrow> (\<exists>p. listed m p \<and> u = cloneUser (obj m p))"
  by (force simp: ListUsers_def listed_def)

lemma lookup_listed:
  assumes f: "\<And>p. f = Some p \<longleftrightarrow> listed m p \<and> g (obj m p) = k" and g: "\<And>u. g (cloneUser u) = g u"
  shows "(case f of None \<Rightarrow> None | Some p \<Rightarrow> Some (cloneUser (obj m p))) = Some u \<longleftrightarrow>
    u \<in> set (ListUsers m) \<and> g u = k"
proof (cases f)
  case None
  then have "listed m p \<Longrightarrow> g (obj m p) \<noteq> k" for p using f [of p] by simp
  with None g show ?thesis by (simp add: in_ListUsers) metis
next
  case (Some q)
  then have "listed m p \<and> g (obj m p) = k \<longleftrightarrow> p = q" for p using f [of p] by auto
  with Some g show ?thesis by (simp add: in_ListUsers) metis
qed

lemma GetUser_ListUsers:
  assumes ok: "tables_ok m"
  shows "GetUser name m = Some u \<longleftrightarrow> u \<in> set (ListUsers m) \<and> Username u = name"
  unfolding GetUser_def
proof (rule lookup_listed)
  show "map_of (users m) name = Some p \<longleftrightarrow> listed m p \<and> Username (obj m p) = name" for p
    using ok tables_okD(2) [OF ok, of _ p] tables_okD(1) [OF ok]
    by (auto simp: listed_def account_listed map_of_is_SomeI intro: rev_image_eqI dest!: map_of_SomeD)
qed simp

lemma GetUserByID_ListUsers:
  assumes ok: "tables_ok m"
  shows "GetUserByID uid m = Some u \<longleftrightarrow> u \<in> set (ListUsers m) \<and> ID u = uid"
  unfolding GetUserByID_def by (rule lookup_listed) (use tables_okD(3) [OF ok] in simp_all)

lemma NewManager_starts: "users_file_ok uj \<Longrightarrow> \<exists>m. NewManager now dir key uj sj = Inr m"
  by (cases "dir = []") (auto simp: users_file_ok_def NewManager_def loadUsers_def)

text \<open>C40. In every state of the manager, whatever writes have failed and whatever requests are under way, the
  three tables describe the same accounts: looking an account up by name or by identifier finds exactly the
  listed account that carries it, and the manager starts again from the users file it has left.\<close>

theorem auth_tables_agree:
  assumes "reach auth_init (auth_step env) s"
  shows "(GetUser name (mgr s) = Some u \<longleftrightarrow> u \<in> set (ListUsers (mgr s)) \<and> Username u = name) \<and>
         (GetUserByID uid (mgr s) = Some u \<longleftrightarrow> u \<in> set (ListUsers (mgr s)) \<and> ID u = uid) \<and>
         (\<exists>m. NewManager now dir key (usersJson (mgr s)) sj = Inr m)"
  using reach_good [OF assms]
  by (simp add: mgr_good_def GetUser_ListUsers GetUserByID_ListUsers NewManager_starts)

text \<open>C39. Looking up an API key in the index gives what a search of all accounts would: the enabled account whose
  present key it is, and otherwise, when it is allowed, an account with an unhashed key. Replaced keys and keys of
  deleted accounts are refused.\<close>

theorem api_key_lookup_exact:
  assumes "reach auth_init (auth_step env) s" and "\<forall>x. length (sha256 env x) = 32"
  shows "AuthenticateAPIKey env key (mgr s) = api_key_reference env key (mgr s)"
  using reach_good [OF assms(1)] assms(2)
  by (simp add: mgr_good_def AuthenticateAPIKey_reference hashAPIKey_nonempty)

section \<open>Runs\<close>

fun auth_run :: "auth_env \<Rightarrow> auth_label list \<Rightarrow> AuthSys \<Rightarrow> AuthSys option" where
  "auth_run env [] s = Some s"
| "auth_run env (l # ls) s = (if auth_can env l s then auth_run env ls (auth_do env l s) else None)"

lemma auth_run_reach:
  "reach auth_init (auth_step env) s \<Longrightarrow> auth_run env ls s = Some s' \<Longrightarrow> reach auth_init (auth_step env) s'"
proof (induction ls arbitrary: s)
  case (Cons l ls)
  then have t: "auth_step env s l (auth_do env l s)" and r: "auth_run env ls (auth_do env l s) = Some s'"
    by (auto simp: auth_step_def split: if_splits)
  from Cons.prems(1) t have "reach auth_init (auth_step env) (auth_do env l s)" by (rule reach_step)
  then show ?case using r by (rule Cons.IH)
qed simp

definition first_start :: "instant \<Rightarrow> string \<Rightarrow> AuthSys" where
  "first_start now dir =
     \<lparr>mgr = empty_manager dir [] Absent Absent, clock = now, inflights = [], logouts = [], issued = [], final = {},
      fails = (\<lambda>_. [])\<rparr>"

lemma first_start_init: "auth_init (first_start now dir)"
proof -
  have "NewManager now dir [] Absent Absent = Inr (empty_manager dir [] Absent Absent)"
    by (cases "dir = []") (simp_all add: NewManager_def loadUsers_def loadSessions_def)
  then show ?thesis unfolding auth_init_def first_start_def users_file_ok_def by blast
qed

lemma run_reach: "auth_run env ls (first_start now dir) = Some s \<Longrightarrow> reach auth_init (auth_step env) s"
  using first_start_init reach_init auth_run_reach by metis

lemma run_state_reach:
  "auth_run env ls (first_start now dir) \<noteq> None \<Longrightarrow> s = the (auth_run env ls (first_start now dir)) \<Longrightarrow>
   reach auth_init (auth_step env) s"
  using run_reach by auto

text \<open>A hash function that pads, hashes that are the password behind a mark, and the first administrator's first login.\<close>

definition example_env :: auth_env where
  "example_env = \<lparr>sha256 = (\<lambda>x. take 32 (bytes_of_string x @ replicate 32 0)), bcrypt_ok = (\<lambda>h p. h = ''h:'' @ p)\<rparr>"

lemma example_sha: "\<forall>x. length (sha256 example_env x) = 32"
  by (auto simp: example_env_def min_def)

definition login_run :: "auth_label list" where
  "login_run =
     [AFirstAdmin (\<lambda>_. 0) ''root'' [] ''h:pw'' (Some ''key'') (Some ''id'') Written,
      ABegin LoginAttempt 1 ''root'' ''pw'' [], ACompare 0 2 (Some ''tok'') (\<lambda>_. 2), AInsert 0 3, ASave 4 True]"

definition login_state :: AuthSys where
  "login_state = the (auth_run example_env login_run (first_start 0 ''data''))"

lemma login_facts:
  "auth_run example_env login_run (first_start 0 ''data'') \<noteq> None \<and>
   (case ValidateSession example_env 5 ''tok'' (mgr login_state) of (Inr x, _) \<Rightarrow> sUserID x = ''id'' | _ \<Rightarrow> False) \<and>
   (case GetUser ''root'' (mgr login_state) of Some u \<Rightarrow> ID u = ''id'' | _ \<Rightarrow> False) \<and>
   (case AuthenticateAPIKey example_env ''key'' (mgr login_state) of Inr u \<Rightarrow> ID u = ''id'' | _ \<Rightarrow> False)"
  by code_simp

lemma login_reach: "reach auth_init (auth_step example_env) login_state"
  using login_facts by (intro run_state_reach [of example_env login_run]) (simp_all add: login_state_def)

theorem auth_tables_agree_witness:
  "case GetUser ''root'' (mgr login_state) of
     Some u \<Rightarrow> ID u = ''id'' \<and> u \<in> set (ListUsers (mgr login_state)) \<and> GetUserByID ''id'' (mgr login_state) = Some u
   | None \<Rightarrow> False"
proof (cases "GetUser ''root'' (mgr login_state)")
  case (Some u)
  then have "u \<in> set (ListUsers (mgr login_state))" "ID u = ''id''"
    using auth_tables_agree [OF login_reach, of "''root''" u] login_facts by auto
  moreover have "GetUserByID ''id'' (mgr login_state) = Some u"
    using calculation auth_tables_agree [OF login_reach, of "''root''" u "''id''"] by simp
  ultimately show ?thesis using Some by simp
qed (use login_facts in simp)

theorem api_key_lookup_exact_witness:
  "AuthenticateAPIKey example_env ''key'' (mgr login_state) = api_key_reference example_env ''key'' (mgr login_state) \<and>
   (case AuthenticateAPIKey example_env ''key'' (mgr login_state) of Inr u \<Rightarrow> ID u = ''id'' | _ \<Rightarrow> False)"
  using api_key_lookup_exact [OF login_reach example_sha, of "''key''"] login_facts by blast


text \<open>Keeping an administrator looks at \<open>Enabled\<close> only: a change of the role leaves none.\<close>

definition demotion :: User where
  "demotion = global_admin\<lparr>Role := RoleUser, Password := [], Email := []\<rparr>"

lemma last_admin_demoted:
  "case updateUser (\<lambda>_. 5) ''root'' demotion None True Written True (mgr login_state) of
     (e, m) \<Rightarrow> e = None \<and> \<not> (\<exists>u \<in> set (ListUsers m). Role u = RoleAdmin \<and> Enabled u)"
  by code_simp

end
