(* ===== verification/Auth_Sessions.thy ===== *)
theory Auth_Sessions
  imports Auth_System
begin

text \<open>
  Where an accepted session comes from. In every state, the sessions in memory, in the file and about to be
  inserted each go back to a log-in that proved a password, under the hash the session's fingerprint names;
  sessions whose logout or revocation reached the file are in neither place, so that no restart brings them back.
\<close>

section \<open>The invariant\<close>

definition file_sessions :: "Session json_file \<Rightarrow> Session list" where
  "file_sessions f = (case f of Holds (Some es) \<Rightarrow> List.map_filter id es | _ \<Rightarrow> [])"

definition tokens :: "Manager \<Rightarrow> string set" where
  "tokens m = fst ` set (sessions m)"

definition file_tokens :: "Manager \<Rightarrow> string set" where
  "file_tokens m = sToken ` set (file_sessions (sessionsJson m))"

definition backed :: "auth_env \<Rightarrow> login_event list \<Rightarrow> Session \<Rightarrow> bool" where
  "backed env es x \<longleftrightarrow>
     (\<exists>e \<in> set es. e_token e = sToken x \<and> e_user e = sUserID x \<and>
        sPasswordFP x = passwordFingerprint env (e_hash e) \<and> bcrypt_ok env (e_hash e) (e_password e))"

fun issuing_ok :: "auth_env \<Rightarrow> login_event list \<Rightarrow> inflight \<Rightarrow> bool" where
  "issuing_ok env es (Issuing key name pw a x) \<longleftrightarrow>
     sUserID x = ID (snd a) \<and> sPasswordFP x = passwordFingerprint env (Password (snd a)) \<and>
     bcrypt_ok env (Password (snd a)) pw \<and> sToken x \<notin> e_token ` set es"
| "issuing_ok env es f \<longleftrightarrow> True"

fun issuing_token :: "inflight \<Rightarrow> string option" where
  "issuing_token (Issuing key name pw a x) = Some (sToken x)"
| "issuing_token f = None"

definition sess_inv :: "auth_env \<Rightarrow> AuthSys \<Rightarrow> bool" where
  "sess_inv env s \<longleftrightarrow>
     (\<forall>t x. (t, x) \<in> set (sessions (mgr s)) \<longrightarrow> sToken x = t \<and> backed env (issued s) x) \<and>
     (\<forall>x \<in> set (file_sessions (sessionsJson (mgr s))). backed env (issued s) x) \<and>
     (dataDir (mgr s) = [] \<longrightarrow> file_sessions (sessionsJson (mgr s)) = []) \<and>
     (\<forall>f \<in> set (inflights s). issuing_ok env (issued s) f) \<and>
     distinct (List.map_filter issuing_token (inflights s)) \<and>
     set (logouts s) \<subseteq> e_token ` set (issued s) \<and> set (logouts s) \<inter> tokens (mgr s) = {} \<and>
     final s \<subseteq> e_token ` set (issued s) \<and> final s \<inter> tokens (mgr s) = {} \<and> final s \<inter> file_tokens (mgr s) = {}"

section \<open>Operations that only remove sessions\<close>

text \<open>What such an operation does to the file: nothing, or it writes a part of what is left in memory.\<close>

definition file_within :: "Manager \<Rightarrow> bool" where
  "file_within m \<longleftrightarrow> set (file_sessions (sessionsJson m)) \<subseteq> persisted_session ` snd ` set (sessions m)"

definition trimmed :: "bool \<Rightarrow> Manager \<Rightarrow> Manager \<Rightarrow> bool" where
  "trimmed ok m m' \<longleftrightarrow>
     set (sessions m') \<subseteq> set (sessions m) \<and> dataDir m' = dataDir m \<and>
     (sessions m' = sessions m \<and> sessionsJson m' = sessionsJson m \<or>
      (\<not> ok \<or> dataDir m = []) \<and> sessionsJson m' = sessionsJson m \<or>
      file_within m' \<and> dataDir m \<noteq> [])"

lemma persisted_session_simps [simp]:
  "sToken (persisted_session x) = sToken x" "sUserID (persisted_session x) = sUserID x"
  "sPasswordFP (persisted_session x) = sPasswordFP x" "sExpiresAt (persisted_session x) = sExpiresAt x"
  "backed env es (persisted_session x) = backed env es x"
  by (simp_all add: persisted_session_def backed_def)

lemma trimmed_same: "sessions m' = sessions m \<Longrightarrow> sessionsJson m' = sessionsJson m \<Longrightarrow> dataDir m' = dataDir m \<Longrightarrow> trimmed ok m m'"
  by (simp add: trimmed_def)

lemma trimmed_trans: "sessions m1 = sessions m \<Longrightarrow> sessionsJson m1 = sessionsJson m \<Longrightarrow> dataDir m1 = dataDir m \<Longrightarrow>
    trimmed ok m1 m' \<Longrightarrow> trimmed ok m m'"
  by (simp add: trimmed_def)

lemma map_filter_Some [simp]: "List.map_filter id (map (\<lambda>x. Some (f x)) xs) = map f xs"
  by (induction xs) (simp_all add: List.map_filter_simps)

lemma file_sessions_Holds [simp]: "file_sessions (Holds (Some (map (\<lambda>x. Some (f x)) xs))) = map f xs"
  by (simp add: file_sessions_def)

lemma saveSessions_file:
  "sessions (saveSessions now ok m) = sessions m" "dataDir (saveSessions now ok m) = dataDir m"
  "(\<not> ok \<or> dataDir m = []) \<and> sessionsJson (saveSessions now ok m) = sessionsJson m \<or>
   file_within (saveSessions now ok m) \<and> dataDir m \<noteq> []"
proof -
  have "set (map persisted_session (snapshotSessions now m)) \<subseteq> persisted_session ` snd ` set (sessions m)"
    by (auto simp: snapshotSessions_def)
  then show "(\<not> ok \<or> dataDir m = []) \<and> sessionsJson (saveSessions now ok m) = sessionsJson m \<or>
      file_within (saveSessions now ok m) \<and> dataDir m \<noteq> []"
    by (auto simp: saveSessions_def writeSessions_def file_within_def)
qed (simp_all add: saveSessions_def writeSessions_def)

lemma trimmed_saveSessions: "trimmed ok m (saveSessions now ok m)"
  using saveSessions_file(3) [of ok m now] saveSessions_file(1,2) [of now ok m] by (auto simp: trimmed_def)

lemma trimmed_invalidate: "trimmed ok m (invalidateUserSessionsLocked now ok uid m)"
proof -
  let ?m = "m\<lparr>sessions := filter (\<lambda>ts. sUserID (snd ts) \<noteq> uid) (sessions m)\<rparr>"
  have "trimmed ok m (saveSessions now ok ?m)"
    using saveSessions_file(3) [of ok ?m now] saveSessions_file(1,2) [of now ok ?m] by (auto simp: trimmed_def)
  then show ?thesis by (simp add: invalidateUserSessionsLocked_def trimmed_same)
qed

lemma trimmed_updateUserLocked: "trimmed ok m (snd (updateUserLocked clk name updates early late keepAdmin res ok m))"
proof (cases "map_of (users m) name")
  case None
  then show ?thesis by (simp add: updateUserLocked_def trimmed_same)
next
  case (Some p)
  have "trimmed ok m (invalidateUserSessionsLocked now ok uid (snd (saveUsers res (put_obj p u m))))" for now uid u
    using trimmed_invalidate by (rule trimmed_trans [rotated 3]) simp_all
  then show ?thesis
    by (simp add: updateUserLocked_def Some Let_def case_prod_beta trimmed_same)
qed

lemma trimmed_change_commit: "trimmed ok m (snd (change_commit clk name a hash res ok m))"
proof -
  have "trimmed ok m (invalidateUserSessionsLocked now ok uid (snd (saveUsers res (put_obj p u m))))" for now uid u p
    using trimmed_invalidate by (rule trimmed_trans [rotated 3]) simp_all
  then show ?thesis by (simp add: change_commit_def Let_def case_prod_beta trimmed_same)
qed

lemma trimmed_deleteUser: "trimmed ok m (snd (deleteUser now name keepAdmin res ok m))"
proof (cases "map_of (users m) name")
  case None
  then show ?thesis by (simp add: deleteUser_def trimmed_same)
next
  case (Some p)
  have "trimmed ok m (invalidateUserSessionsLocked now ok uid (snd (saveUsers res m1)))"
    if "sessions m1 = sessions m" "sessionsJson m1 = sessionsJson m" "dataDir m1 = dataDir m" for m1 uid
    using trimmed_invalidate by (rule trimmed_trans [rotated 3]) (simp_all add: that)
  then show ?thesis
    by (simp add: deleteUser_def Some Let_def case_prod_beta trimmed_same)
qed

section \<open>The invariant holds\<close>

lemma sess_invD:
  assumes "sess_inv env s"
  shows "(t, x) \<in> set (sessions (mgr s)) \<Longrightarrow> sToken x = t"
    and "(t, x) \<in> set (sessions (mgr s)) \<Longrightarrow> backed env (issued s) x"
    and "x \<in> set (file_sessions (sessionsJson (mgr s))) \<Longrightarrow> backed env (issued s) x"
    and "dataDir (mgr s) = [] \<Longrightarrow> file_sessions (sessionsJson (mgr s)) = []"
    and "f \<in> set (inflights s) \<Longrightarrow> issuing_ok env (issued s) f"
    and "distinct (List.map_filter issuing_token (inflights s))"
    and "t \<in> set (logouts s) \<Longrightarrow> t \<in> e_token ` set (issued s) \<and> t \<notin> tokens (mgr s)"
    and "t \<in> final s \<Longrightarrow> t \<in> e_token ` set (issued s) \<and> t \<notin> tokens (mgr s) \<and> t \<notin> file_tokens (mgr s)"
  using assms unfolding sess_inv_def by blast+

lemma sess_invI:
  assumes "\<And>t x. (t, x) \<in> set (sessions (mgr s)) \<Longrightarrow> sToken x = t \<and> backed env (issued s) x"
    and "\<And>x. x \<in> set (file_sessions (sessionsJson (mgr s))) \<Longrightarrow> backed env (issued s) x"
    and "dataDir (mgr s) = [] \<Longrightarrow> file_sessions (sessionsJson (mgr s)) = []"
    and "\<And>f. f \<in> set (inflights s) \<Longrightarrow> issuing_ok env (issued s) f"
    and "distinct (List.map_filter issuing_token (inflights s))"
    and "\<And>t. t \<in> set (logouts s) \<Longrightarrow> t \<in> e_token ` set (issued s) \<and> t \<notin> tokens (mgr s)"
    and "\<And>t. t \<in> final s \<Longrightarrow> t \<in> e_token ` set (issued s) \<and> t \<notin> tokens (mgr s) \<and> t \<notin> file_tokens (mgr s)"
  shows "sess_inv env s"
  unfolding sess_inv_def using assms by blast

lemma tokens_issued:
  assumes "sess_inv env s" "t \<in> tokens (mgr s)"
  shows "t \<in> e_token ` set (issued s)"
proof -
  obtain x where x: "(t, x) \<in> set (sessions (mgr s))" using assms(2) by (auto simp: tokens_def)
  show ?thesis using sess_invD(1) [OF assms(1) x] sess_invD(2) [OF assms(1) x] by (force simp: backed_def)
qed

lemma file_within_tokens:
  assumes "file_within m" "\<And>t x. (t, x) \<in> set (sessions m) \<Longrightarrow> sToken x = t"
  shows "file_tokens m \<subseteq> tokens m"
proof
  fix t assume "t \<in> file_tokens m"
  then obtain k x where "(k, x) \<in> set (sessions m)" "t = sToken x"
    using assms(1) by (auto simp: file_within_def file_tokens_def)
  then show "t \<in> tokens m" using assms(2) by (force simp: tokens_def)
qed

lemma sess_inv_trim:
  assumes inv: "sess_inv env s" and t: "trimmed ok (mgr s) m'"
  shows "sess_inv env (revoking ok m' s)"
proof -
  note D = sess_invD [OF inv]
  have sub: "set (sessions m') \<subseteq> set (sessions (mgr s))" and dir: "dataDir m' = dataDir (mgr s)"
    using t by (simp_all add: trimmed_def)
  have tok: "t \<in> tokens m' \<Longrightarrow> t \<in> tokens (mgr s)" for t using sub by (auto simp: tokens_def)
  have b: "(k, x) \<in> set (sessions m') \<Longrightarrow> sToken x = k \<and> backed env (issued s) x" for k x
    using D(1,2) sub by blast
  have final: "t \<in> final (revoking ok m' s) \<Longrightarrow> t \<in> final s \<or> (ok \<and> t \<in> tokens (mgr s) \<and> t \<notin> tokens m')" for t
    by (auto simp: revoking_def tokens_def split: if_splits)
  consider "sessionsJson m' = sessionsJson (mgr s)" "sessions m' = sessions (mgr s) \<or> \<not> ok \<or> dataDir m' = []"
    | "file_within m'" "dataDir m' \<noteq> []"
    using t by (auto simp: trimmed_def)
  then have kept: "(x \<in> set (file_sessions (sessionsJson m')) \<longrightarrow> backed env (issued s) x) \<and>
      (t \<in> final (revoking ok m' s) \<longrightarrow> t \<notin> file_tokens m') \<and>
      (dataDir m' = [] \<longrightarrow> file_sessions (sessionsJson m') = [])" for x t
  proof cases
    case 1
    then have f: "file_tokens m' = file_tokens (mgr s)" by (simp add: file_tokens_def)
    have "tokens m' = tokens (mgr s) \<or> \<not> ok \<or> file_tokens m' = {}"
      using 1(2) D(4) dir f by (auto simp: tokens_def file_tokens_def)
    then have "t \<in> final (revoking ok m' s) \<longrightarrow> t \<notin> file_tokens m'"
      using final [of t] D(8) [of t] f by auto
    then show ?thesis using 1(1) D(3,4) dir by simp
  next
    case 2
    have "file_tokens m' \<subseteq> tokens m'" using 2(1) b by (intro file_within_tokens) blast+
    then have "t \<in> final (revoking ok m' s) \<longrightarrow> t \<notin> file_tokens m'"
      using final [of t] D(8) [of t] tok [of t] by blast
    moreover have "x \<in> set (file_sessions (sessionsJson m')) \<longrightarrow> backed env (issued s) x"
      using 2(1) b by (auto simp: file_within_def)
    ultimately show ?thesis using 2(2) by simp
  qed
  have same: "mgr (revoking ok m' s) = m'" "issued (revoking ok m' s) = issued s"
      "inflights (revoking ok m' s) = inflights s" "logouts (revoking ok m' s) = logouts s"
    by (simp_all add: revoking_def)
  show ?thesis
  proof (rule sess_invI, unfold same)
    fix t assume "t \<in> final (revoking ok m' s)"
    then show "t \<in> e_token ` set (issued s) \<and> t \<notin> tokens m' \<and> t \<notin> file_tokens m'"
      using final [of t] kept [of _ t] D(8) [of t] tok [of t] tokens_issued [OF inv, of t] by blast
  next
    fix t assume "t \<in> set (logouts s)"
    then show "t \<in> e_token ` set (issued s) \<and> t \<notin> tokens m'" using D(7) [of t] tok [of t] by blast
  qed (use b kept D(5,6) in blast)+
qed

lemma sess_inv_mgr:
  assumes "sess_inv env s" "trimmed False (mgr s) m'"
  shows "sess_inv env (s\<lparr>mgr := m'\<rparr>)"
  using sess_inv_trim [OF assms] by (simp add: revoking_def)

lemma sess_inv_other: "sess_inv env (s\<lparr>clock := c\<rparr>) = sess_inv env s" "sess_inv env (s\<lparr>fails := f\<rparr>) = sess_inv env s"
  by (simp_all add: sess_inv_def)

lemma set_drop_nth: "set (drop_nth i xs) \<subseteq> set xs"
  by (auto simp: drop_nth_def dest: in_set_takeD in_set_dropD)

lemma drop_nth_split: "i < length xs \<Longrightarrow> xs = take i xs @ xs ! i # drop (Suc i) xs"
  by (rule id_take_nth_drop)

declare map_filter_append [simp]

lemma distinct_drop_nth:
  assumes "i < length xs" "distinct (List.map_filter f xs)"
  shows "distinct (List.map_filter f (drop_nth i xs))"
    and "f (xs ! i) = Some t \<Longrightarrow> t \<notin> set (List.map_filter f (drop_nth i xs))"
proof -
  have "distinct (List.map_filter f (take i xs @ xs ! i # drop (Suc i) xs))"
    using assms drop_nth_split by metis
  then show "distinct (List.map_filter f (drop_nth i xs))"
    and "f (xs ! i) = Some t \<Longrightarrow> t \<notin> set (List.map_filter f (drop_nth i xs))"
    by (auto simp: drop_nth_def List.map_filter_simps split: option.splits)
qed

lemma issuing_tokenI: "Issuing key name pw a x \<in> set fs \<Longrightarrow> sToken x \<in> set (List.map_filter issuing_token fs)"
  by (force simp: List.map_filter_def)

lemma issuing_tokenE:
  assumes "t \<in> set (List.map_filter issuing_token fs)"
  obtains key name pw a x where "Issuing key name pw a x \<in> set fs" "t = sToken x"
proof -
  obtain f where "f \<in> set fs" "issuing_token f = Some t" using assms by (auto simp: List.map_filter_def)
  with that show ?thesis by (cases f) simp_all
qed

lemma sess_inv_inflights:
  assumes "sess_inv env s" "\<And>f. f \<in> set fs \<Longrightarrow> issuing_ok env (issued s) f" "distinct (List.map_filter issuing_token fs)"
  shows "sess_inv env (s\<lparr>inflights := fs\<rparr>)"
  using assms(1) unfolding sess_inv_def by (simp add: assms(2,3))

lemma sess_inv_drop:
  assumes "sess_inv env s" "i < length (inflights s)"
  shows "sess_inv env (s\<lparr>inflights := drop_nth i (inflights s)\<rparr>)"
  using assms(1)
proof (rule sess_inv_inflights)
  show "issuing_ok env (issued s) f" if "f \<in> set (drop_nth i (inflights s))" for f
    using that set_drop_nth [of i "inflights s"] sess_invD(5) [OF assms(1)] by blast
  show "distinct (List.map_filter issuing_token (drop_nth i (inflights s)))"
    using assms(2) sess_invD(6) [OF assms(1)] by (rule distinct_drop_nth)
qed

text \<open>The session of a log-in that succeeds.\<close>

lemma set_evict: "set (evict n uid limit ss) \<subseteq> set ss"
proof (induction n arbitrary: ss)
  case (Suc n)
  have "set (evict n uid limit (map_delete k ss)) \<subseteq> set ss" for k
    using Suc.IH [of "map_delete k ss"] by (auto simp: set_map_delete)
  then show ?case by (auto split: option.split)
qed simp

lemma insert_session_sessions:
  "sessionsJson (snd (insert_session now name a x m)) = sessionsJson m"
  "dataDir (snd (insert_session now name a x m)) = dataDir m"
  "set (sessions (snd (insert_session now name a x m))) \<subseteq> insert (sToken x, x) (set (sessions m))"
proof -
  have "set (evict n (ID (snd a)) maxSessionsPerUser (map_put (sToken x) x (sessions m))) \<subseteq>
      insert (sToken x, x) (set (sessions m))" for n
    using set_evict [of n "ID (snd a)" maxSessionsPerUser "map_put (sToken x) x (sessions m)"]
    by (auto simp: map_put_def set_map_delete)
  then show "set (sessions (snd (insert_session now name a x m))) \<subseteq> insert (sToken x, x) (set (sessions m))"
    by (auto simp: insert_session_def case_prod_beta evictOldestSessionsLocked_def simp del: evict.simps)
qed (simp_all add: insert_session_def case_prod_beta evictOldestSessionsLocked_def)

lemma backed_mono: "backed env es x \<Longrightarrow> set es \<subseteq> set es' \<Longrightarrow> backed env es' x"
  by (auto simp: backed_def)

lemma sess_inv_insert:
  assumes inv: "sess_inv env s" and i: "i < length (inflights s)"
  shows "sess_inv env (insert_step i now s)"
proof (cases "inflights s ! i")
  case (Issuing key name pw a x)
  let ?s = "s\<lparr>inflights := drop_nth i (inflights s)\<rparr>"
  have d: "sess_inv env ?s" using inv i by (rule sess_inv_drop)
  have "Issuing key name pw a x \<in> set (inflights s)" using Issuing i nth_mem by metis
  then have x: "sUserID x = ID (snd a)" "sPasswordFP x = passwordFingerprint env (Password (snd a))"
      "bcrypt_ok env (Password (snd a)) pw" "sToken x \<notin> e_token ` set (issued s)"
    using inv by (auto simp: sess_inv_def)
  obtain r m where ins: "insert_session now name a x (mgr s) = (r, m)" by fastforce
  show ?thesis
  proof (cases r)
    case (Inl e)
    then have "m = mgr s" using ins by (auto simp: insert_session_def case_prod_beta split: if_splits)
    with d Inl ins show ?thesis by (simp add: insert_step_def Issuing Let_def)
  next
    case (Inr y)
    let ?e = "\<lparr>e_token = sToken x, e_user = ID (snd a), e_password = pw, e_hash = Password (snd a)\<rparr>"
    have m: "sessionsJson m = sessionsJson (mgr s)" "dataDir m = dataDir (mgr s)"
        "set (sessions m) \<subseteq> insert (sToken x, x) (set (sessions (mgr s)))"
      using ins Inr insert_session_sessions [of now name a x "mgr s"] by simp_all
    have new: "backed env (?e # issued s) x" using x by (simp add: backed_def)
    have old: "backed env (issued s) z \<Longrightarrow> backed env (?e # issued s) z" for z by (auto intro: backed_mono)
    have tok: "t \<in> tokens m \<Longrightarrow> t = sToken x \<or> t \<in> tokens (mgr s)" for t using m(3) by (force simp: tokens_def)
    have kept: "file_tokens m = file_tokens (mgr s)" using m(1) by (simp add: file_tokens_def)
    note D = sess_invD [OF inv]
    have other: "issuing_ok env (?e # issued s) f" if f: "f \<in> set (drop_nth i (inflights s))" for f
    proof (cases f)
      case f': (Issuing key' name' pw' a' x')
      then have "sToken x' \<in> set (List.map_filter issuing_token (drop_nth i (inflights s)))"
        using f issuing_tokenI by metis
      moreover have "sToken x \<notin> set (List.map_filter issuing_token (drop_nth i (inflights s)))"
        using i D(6) by (rule distinct_drop_nth(2)) (simp add: Issuing)
      ultimately have "sToken x' \<noteq> sToken x" by metis
      moreover have "issuing_ok env (issued s) f" using f set_drop_nth [of i "inflights s"] D(5) by blast
      ultimately show ?thesis using f' by simp
    qed simp_all
    have s': "insert_step i now s = ?s\<lparr>mgr := m, issued := ?e # issued s\<rparr>"
      using ins Inr by (simp add: insert_step_def Issuing Let_def)
    show ?thesis
      unfolding s'
    proof (rule sess_invI)
      fix t y assume "(t, y) \<in> set (sessions (mgr (?s\<lparr>mgr := m, issued := ?e # issued s\<rparr>)))"
      then have "(t, y) = (sToken x, x) \<or> (t, y) \<in> set (sessions (mgr s))" using m(3) by auto
      then show "sToken y = t \<and> backed env (issued (?s\<lparr>mgr := m, issued := ?e # issued s\<rparr>)) y"
        using D(1,2) new old by auto
    next
      fix y assume "y \<in> set (file_sessions (sessionsJson (mgr (?s\<lparr>mgr := m, issued := ?e # issued s\<rparr>))))"
      then show "backed env (issued (?s\<lparr>mgr := m, issued := ?e # issued s\<rparr>)) y" using D(3) m(1) old by simp
    next
      fix t assume t: "t \<in> set (logouts (?s\<lparr>mgr := m, issued := ?e # issued s\<rparr>))"
      then have "t \<noteq> sToken x" using D(7) x(4) by force
      then show "t \<in> e_token ` set (issued (?s\<lparr>mgr := m, issued := ?e # issued s\<rparr>)) \<and>
          t \<notin> tokens (mgr (?s\<lparr>mgr := m, issued := ?e # issued s\<rparr>))"
        using t D(7) [of t] tok [of t] by auto
    next
      fix t assume t: "t \<in> final (?s\<lparr>mgr := m, issued := ?e # issued s\<rparr>)"
      then have "t \<noteq> sToken x" using D(8) x(4) by force
      then show "t \<in> e_token ` set (issued (?s\<lparr>mgr := m, issued := ?e # issued s\<rparr>)) \<and>
          t \<notin> tokens (mgr (?s\<lparr>mgr := m, issued := ?e # issued s\<rparr>)) \<and>
          t \<notin> file_tokens (mgr (?s\<lparr>mgr := m, issued := ?e # issued s\<rparr>))"
        using t D(8) [of t] tok [of t] kept by auto
    qed (use other m D(4) distinct_drop_nth(1) [OF i D(6)] in simp_all)
  qed
qed (use inv in \<open>simp_all add: insert_step_def\<close>)

lemma compare_ok:
  "compare_as kind env now key a pw m = (Inr (p, u), m') \<Longrightarrow> bcrypt_ok env (Password u) pw"
  by (auto simp: compare_as_def login_compare_def own_compare_def split: attempt_kind.splits option.splits if_splits)

lemma sess_inv_compare:
  assumes inv: "sess_inv env s" and can: "auth_can env (ACompare i now token clk) s"
  shows "sess_inv env (compare_step env i now token clk s)"
proof (cases "inflights s ! i")
  case (Comparing kind key name pw a)
  have i: "i < length (inflights s)" using can by simp
  obtain r m where c: "compare_as kind env now key a pw (mgr s) = (r, m)" by fastforce
  let ?rest = "drop_nth i (inflights s)"
  have "trimmed False (mgr s) m"
    using compare_same(3-5) [of kind env now key a pw "mgr s"] c by (intro trimmed_same) simp_all
  with inv have "sess_inv env (s\<lparr>mgr := m\<rparr>)" by (rule sess_inv_mgr)
  then have m: "sess_inv env (s\<lparr>mgr := m, inflights := ?rest\<rparr>)" using sess_inv_drop i by fastforce
  show ?thesis
  proof (cases r)
    case (Inl e)
    then show ?thesis
      using m c by (simp add: compare_step_def Comparing sess_inv_def)
  next
    case (Inr pu)
    let ?new = "after_compare env kind key name pw pu token clk m"
    have "sess_inv env (s\<lparr>mgr := m, inflights := ?new @ ?rest\<rparr>)"
    proof (cases "\<exists>t. kind = LoginAttempt \<and> token = Some t")
      case True
      then obtain t where t: "kind = LoginAttempt" "token = Some t" by auto
      let ?x = "new_session env clk t name (snd pu) m"
      have new: "?new = [Issuing key name pw pu ?x]" by (simp add: after_compare_def t)
      have x: "sToken ?x = t" "sUserID ?x = ID (snd pu)" "sPasswordFP ?x = passwordFingerprint env (Password (snd pu))"
        by (simp_all add: new_session_def)
      have f: "t \<notin> e_token ` set (issued s)" and g: "sToken y \<noteq> t"
        if "Issuing k n w b y \<in> set (inflights s)" for k n w b y
        using can that by (auto simp: fresh_token_def t)
      have fresh: "t \<notin> e_token ` set (issued s)" using can by (simp add: fresh_token_def t)
      have "t \<notin> set (List.map_filter issuing_token ?rest)"
      proof
        assume "t \<in> set (List.map_filter issuing_token ?rest)"
        then obtain k n w b y where "Issuing k n w b y \<in> set ?rest" "t = sToken y" by (rule issuing_tokenE)
        then show False using g set_drop_nth [of i "inflights s"] by blast
      qed
      moreover have "bcrypt_ok env (Password (snd pu)) pw"
        using c Inr compare_ok [of kind env now key a pw "mgr s" "fst pu" "snd pu" m] by simp
      ultimately have "issuing_ok env (issued s) f" if "f \<in> set (?new @ ?rest)" for f
        using that sess_invD(5) [OF m, of f] x fresh by (auto simp: new)
      moreover have "distinct (List.map_filter issuing_token (?new @ ?rest))"
        using sess_invD(6) [OF m] \<open>t \<notin> set (List.map_filter issuing_token ?rest)\<close> x(1)
        by (simp add: new List.map_filter_simps)
      ultimately have "sess_inv env (s\<lparr>mgr := m, inflights := ?rest, inflights := ?new @ ?rest\<rparr>)"
        by (intro sess_inv_inflights [OF m]) simp_all
      then show ?thesis by simp
    next
      case False
      then have n: "List.map_filter issuing_token ?new = []" "\<And>f. f \<in> set ?new \<Longrightarrow> issuing_ok env (issued s) f"
        by (cases kind; cases token; simp add: after_compare_def List.map_filter_simps)+
      then have "sess_inv env (s\<lparr>mgr := m, inflights := ?rest, inflights := ?new @ ?rest\<rparr>)"
        using sess_invD(5,6) [OF m] by (intro sess_inv_inflights [OF m]) auto
      then show ?thesis by simp
    qed
    then show ?thesis
      using c Inr by (simp add: compare_step_def Comparing sess_inv_def)
  qed
qed (use inv in \<open>simp_all add: compare_step_def\<close>)

lemma sess_inv_logout:
  assumes inv: "sess_inv env s" and t: "token \<in> e_token ` set (issued s)"
  shows "sess_inv env (s\<lparr>mgr := logout_drop token (mgr s), logouts := token # logouts s\<rparr>)"
proof -
  have "trimmed False (mgr s) (logout_drop token (mgr s))"
    by (auto simp: trimmed_def logout_drop_def set_map_delete)
  with inv have "sess_inv env (s\<lparr>mgr := logout_drop token (mgr s)\<rparr>)" by (rule sess_inv_mgr)
  moreover have "token \<notin> tokens (logout_drop token (mgr s))"
    by (auto simp: tokens_def logout_drop_def set_map_delete)
  ultimately show ?thesis using t by (simp add: sess_inv_def)
qed

lemma sess_inv_logout_save:
  assumes inv: "sess_inv env s"
  shows "sess_inv env (logout_save now ok s)"
proof (cases "logouts s")
  case (Cons t ts)
  let ?m = "saveSessions now ok (mgr s)"
  let ?s = "s\<lparr>mgr := ?m\<rparr>"
  have "trimmed False (mgr s) ?m"
    using saveSessions_file(3) [of ok "mgr s" now] saveSessions_file(1,2) [of now ok "mgr s"] by (auto simp: trimmed_def)
  with inv have s: "sess_inv env ?s" by (rule sess_inv_mgr)
  have same: "tokens ?m = tokens (mgr s)" using saveSessions_file(1) by (simp add: tokens_def)
  have t: "t \<in> e_token ` set (issued s)" "t \<notin> tokens ?m" using sess_invD(7) [OF inv, of t] Cons same by auto
  have "t \<notin> file_tokens ?m" if ok
    using saveSessions_file(3) [of ok "mgr s" now]
  proof
    assume "(\<not> ok \<or> dataDir (mgr s) = []) \<and> sessionsJson ?m = sessionsJson (mgr s)"
    then show ?thesis using that sess_invD(4) [OF inv] by (simp add: file_tokens_def)
  next
    assume "file_within ?m \<and> dataDir (mgr s) \<noteq> []"
    then have "file_tokens ?m \<subseteq> tokens ?m"
      using sess_invD(1) [OF s] by (intro file_within_tokens) auto
    with t show ?thesis by blast
  qed
  then show ?thesis using s t Cons by (auto simp: logout_save_def sess_inv_def)
qed (use inv in \<open>simp add: logout_save_def\<close>)

lemma fold_load_session:
  "set (sessions (fold (load_session now) es m)) \<subseteq>
     set (sessions m) \<union> {(sToken x, x) | x. Some x \<in> set es}"
proof (induction es arbitrary: m)
  case (Cons e es)
  have "set (sessions (load_session now e m)) \<subseteq> set (sessions m) \<union> {(sToken x, x) | x. Some x \<in> {e}}"
    by (auto simp: load_session_def map_put_def set_map_delete split: option.splits)
  with Cons.IH [of "load_session now e m"] show ?case by (simp del: fold_load_session_tables) blast
qed simp

lemma NewManager_sessions:
  assumes "NewManager now dir key uj sj = Inr m" "users_file_ok uj"
  shows "set (sessions m) \<subseteq> {(sToken x, x) | x. x \<in> set (file_sessions sj)}"
proof -
  obtain us where m: "m = loadSessions now (fold load_user us (empty_manager dir key uj sj))"
    using assms by (rule NewManager_loaded)
  let ?m = "fold load_user us (empty_manager dir key uj sj)"
  have "x \<in> set (file_sessions (Holds (Some es)))" if "Some x \<in> set es" for x es
    using that by (force simp: file_sessions_def List.map_filter_def)
  then have f: "set (sessions (fold (load_session now) es ?m)) \<subseteq>
      {(sToken x, x) | x. x \<in> set (file_sessions (Holds (Some es)))}" for es
    using fold_load_session [of now es ?m] by auto
  show ?thesis
  proof (cases "dir = []")
    case False
    with f show ?thesis by (cases sj) (auto simp: m loadSessions_def split: option.split)
  qed (simp add: m loadSessions_def)
qed

lemma sess_inv_restart:
  assumes inv: "sess_inv env s" and ok: "mgr_good (mgr s)"
  shows "sess_inv env (restart_step now key s)"
proof (cases "NewManager now (dataDir (mgr s)) key (usersJson (mgr s)) (sessionsJson (mgr s))")
  case (Inr m)
  have u: "users_file_ok (usersJson (mgr s))" using ok by (simp add: mgr_good_def)
  note g = NewManager_good [OF Inr u]
  note D = sess_invD [OF inv]
  have sub: "(t, x) \<in> set (sessions m) \<Longrightarrow> t = sToken x \<and> x \<in> set (file_sessions (sessionsJson (mgr s)))" for t x
    using NewManager_sessions [OF Inr u] by blast
  then have tok: "t \<in> tokens m \<Longrightarrow> t \<in> file_tokens (mgr s)" for t by (force simp: tokens_def file_tokens_def)
  have f: "file_tokens m = file_tokens (mgr s)" by (simp add: file_tokens_def g)
  show ?thesis
    unfolding restart_step_def Inr sum.case
  proof (rule sess_invI, simp_all add: g f List.map_filter_simps)
    fix t x assume "(t, x) \<in> set (sessions m)"
    then show "sToken x = t \<and> backed env (issued s) x" using sub D(3) by blast
  next
    fix t assume "t \<in> final s"
    then show "t \<in> e_token ` set (issued s) \<and> t \<notin> tokens m \<and> t \<notin> file_tokens (mgr s)"
      using D(8) [of t] tok [of t] by blast
  qed (use D(3,4) in blast)+
qed (use inv in \<open>simp add: restart_step_def\<close>)

lemma saveUsers_pair:
  assumes "saveUsers res m = (b, m')"
  shows "sessions m' = sessions m \<and> sessionsJson m' = sessionsJson m \<and> dataDir m' = dataDir m"
  using assms saveUsers_simps(4,5,7) [of res m] by simp

lemma trimmed_createUserLocked:
  "trimmed ok m (snd (createUserLocked env clk name email hash role domains newKey newID res m))"
  by (rule trimmed_same)
    (auto simp: createUserLocked_def Let_def dest!: saveUsers_pair split: option.split prod.split bool.split)

lemma trimmed_RegenerateAPIKey: "trimmed ok m (snd (RegenerateAPIKey env now name newKey res m))"
  by (rule trimmed_same)
    (auto simp: RegenerateAPIKey_def Let_def dest!: saveUsers_pair split: option.split prod.split bool.split)

lemma trimmed_others:
  "trimmed False m (snd (ValidateSession env now token m))" "trimmed False m (sweep_sessions now m)"
  "trimmed False m (cleanupLoginAttempts now m)"
  "trimmed False m (SetAllowLegacyPlaintextKey b (SetGlobalAPIKey k (SetSessionTTL h m)))"
  "trimmed False m (snd (attempt_begin now key name m))" "trimmed False m (saveSessions now ok m)"
proof -
  show "trimmed False m (snd (ValidateSession env now token m))"
    by (auto simp: trimmed_def ValidateSession_def Let_def set_map_delete split: option.split)
  show "trimmed False m (sweep_sessions now m)" by (auto simp: trimmed_def sweep_sessions_def)
  show "trimmed False m (saveSessions now ok m)"
    using saveSessions_file(3) [of ok m now] saveSessions_file(1,2) [of now ok m] by (auto simp: trimmed_def)
qed (simp_all add: trimmed_same cleanupLoginAttempts_def SetAllowLegacyPlaintextKey_def SetGlobalAPIKey_def SetSessionTTL_def)

definition sess_sys :: "auth_env \<Rightarrow> AuthSys \<Rightarrow> bool" where
  "sess_sys env s \<longleftrightarrow> sys_tables s \<and> sess_inv env s"

lemma sess_inv_clock: "sess_inv env s \<Longrightarrow> sess_inv env (s\<lparr>clock := c\<rparr>)"
  by (simp add: sess_inv_def)

lemma sess_inv_begin:
  assumes inv: "sess_inv env s"
  shows "sess_inv env (auth_do env (ABegin kind now name pw ip) s)"
proof -
  let ?key = "attempt_key kind name ip"
  obtain r m where b: "attempt_begin now ?key name (mgr s) = (r, m)" by fastforce
  have "sess_inv env (s\<lparr>mgr := m\<rparr>)" using sess_inv_mgr [OF inv trimmed_others(5) [of "mgr s" now ?key name]] b by simp
  then have c: "sess_inv env (s\<lparr>mgr := m, clock := now\<rparr>)" using sess_inv_clock by fastforce
  have "sess_inv env (s\<lparr>mgr := m, clock := now, inflights := Comparing kind ?key name pw a # inflights s\<rparr>)" for a
    using sess_invD(5,6) [OF c] by (intro sess_inv_inflights [OF c]) (auto simp: List.map_filter_simps)
  with b c show ?thesis by (simp add: Let_def split: sum.split)
qed

lemma sess_inv_change:
  assumes inv: "sess_inv env s" and i: "i < length (inflights s)"
  shows "sess_inv env (change_step i clk hashed res ok s)"
  using sess_inv_drop [OF inv i] sess_inv_trim [OF sess_inv_drop [OF inv i], of ok] trimmed_change_commit inv
  by (simp add: change_step_def Let_def split: inflight.split option.split)

lemma sess_sys_do:
  assumes inv: "sess_sys env s" and can: "auth_can env l s"
  shows "sess_sys env (auth_do env l s)"
proof -
  have i: "sess_inv env s" and t: "mgr_good (mgr s)" using inv by (simp_all add: sess_sys_def sys_tables_def)
  have "sess_inv env (auth_do env l s)"
  proof (cases l)
    case ACompare
    with i can show ?thesis using sess_inv_compare by simp
  next
    case (ACreate clk name email hash role domains newKey newID res)
    then show ?thesis using i trimmed_createUserLocked by (auto intro: sess_inv_mgr)
  next
    case (AFirstAdmin clk name email hash newKey newID res)
    have "trimmed False (mgr s) (snd (createFirstAdminLocked env clk name email hash newKey newID res (mgr s)))"
      by (simp add: mgr_createFirst trimmed_createUserLocked trimmed_same)
    with AFirstAdmin i show ?thesis by (simp add: sess_inv_mgr)
  next
    case (AForget now)
    have "sess_inv env (s\<lparr>mgr := cleanupLoginAttempts now (mgr s)\<rparr>)" using i trimmed_others(3) by (rule sess_inv_mgr)
    then show ?thesis using sess_inv_clock AForget by fastforce
  next
    case ABegin
    then show ?thesis using i sess_inv_begin by simp
  qed (use i t can in \<open>simp_all add: sess_inv_insert sess_inv_change sess_inv_mgr sess_inv_trim sess_inv_logout
      sess_inv_logout_save sess_inv_restart trimmed_others trimmed_updateUserLocked trimmed_deleteUser
      trimmed_RegenerateAPIKey\<close>)
  moreover have "sys_tables (auth_do env l s)" using inv can by (simp add: sess_sys_def sys_tables_do)
  ultimately show ?thesis by (simp add: sess_sys_def)
qed

lemma sess_sys_init:
  assumes "auth_init s"
  shows "sess_sys env s"
proof -
  obtain now dir key uj m where s: "users_file_ok uj" "NewManager now dir key uj Absent = Inr m"
      "s = \<lparr>mgr = m, clock = now, inflights = [], logouts = [], issued = [], final = {}, fails = (\<lambda>_. [])\<rparr>"
    using assms by (auto simp: auth_init_def)
  have "sessions m = []" using NewManager_sessions [OF s(2,1)] by (simp add: file_sessions_def)
  moreover have "sessionsJson m = Absent" using NewManager_good(3) [OF s(2,1)] .
  ultimately have "sess_inv env s" by (simp add: s(3) sess_inv_def file_sessions_def List.map_filter_simps tokens_def)
  with assms show ?thesis by (simp add: sess_sys_def sys_tables_init)
qed

interpretation auth_sessions: transition_system auth_init "auth_step env" "sess_sys env"
  by unfold_locales (auto simp: auth_step_def sess_sys_init sess_sys_do)

definition accounts :: "Manager \<Rightarrow> User list" where
  "accounts m = map (\<lambda>(_, p). obj m p) (users m)"

lemma ValidateSession_accepts:
  assumes "ValidateSession env now token m = (Inr x, m')"
  obtains y p where "map_of (sessions m) token = Some y" "x = cloneSession y" "usersByID m (sUserID y) = Some p"
    "Enabled (obj m p)" "sPasswordFP y = [] \<or> sPasswordFP y = passwordFingerprint env (Password (obj m p))"
    "now \<le> sExpiresAt y"
  using assms by (auto simp: ValidateSession_def Let_def split: option.splits if_splits)

text \<open>C37. Whoever presents a session that is accepted has logged in as the account it is accepted for, with a password that
  verified against a hash with the fingerprint of the account's present one; the account is still there and
  enabled, the session has not expired, and its logout or revocation has never reached the file. This holds in every
  interleaving of log-ins, changes of accounts and restarts, and whichever writes have failed.\<close>

theorem session_proves_password:
  assumes "reach auth_init (auth_step env) s" and "\<forall>x. length (sha256 env x) = 32"
    and "ValidateSession env now token (mgr s) = (Inr x, m')"
  shows "token \<notin> final s \<and> now \<le> sExpiresAt x \<and>
    (\<exists>e u. e \<in> set (issued s) \<and> e_token e = token \<and> u \<in> set (accounts (mgr s)) \<and> Enabled u \<and> ID u = e_user e \<and>
       bcrypt_ok env (e_hash e) (e_password e) \<and>
       passwordFingerprint env (e_hash e) = passwordFingerprint env (Password u))"
proof -
  have inv: "sess_inv env s" and t: "tables_ok (mgr s)"
    using auth_sessions.reach_inv [OF assms(1)] by (simp_all add: sess_sys_def sys_tables_def mgr_good_def)
  obtain y p where y: "map_of (sessions (mgr s)) token = Some y" "x = cloneSession y"
      "usersByID (mgr s) (sUserID y) = Some p" "Enabled (obj (mgr s) p)"
      "sPasswordFP y = [] \<or> sPasswordFP y = passwordFingerprint env (Password (obj (mgr s) p))" "now \<le> sExpiresAt y"
    using assms(3) by (rule ValidateSession_accepts)
  have m: "(token, y) \<in> set (sessions (mgr s))" using y(1) by (rule map_of_SomeD)
  then have f: "token \<notin> final s" using sess_invD(8) [OF inv, of token] by (force simp: tokens_def)
  obtain e where e: "e \<in> set (issued s)" "e_token e = sToken y" "e_user e = sUserID y"
      "sPasswordFP y = passwordFingerprint env (e_hash e)" "bcrypt_ok env (e_hash e) (e_password e)"
    using sess_invD(2) [OF inv m] by (auto simp: backed_def)
  have u: "obj (mgr s) p \<in> set (accounts (mgr s))" "ID (obj (mgr s) p) = sUserID y"
    using tables_okD(3) [OF t, of "sUserID y" p] y(3) by (force simp: accounts_def listed_def)+
  have "sPasswordFP y \<noteq> []" using assms(2) by (simp add: e(4) fingerprint_nonempty)
  then have "passwordFingerprint env (e_hash e) = passwordFingerprint env (Password (obj (mgr s) p))"
    using y(5) e(4) by simp
  then show ?thesis
    using f e u y(2,4,6) sess_invD(1) [OF inv m]
    by (intro conjI exI [of _ e] exI [of _ "obj (mgr s) p"]) (simp_all add: cloneSession_def)
qed

theorem session_proves_password_witness:
  "\<exists>x m' e. ValidateSession example_env 5 ''tok'' (mgr login_state) = (Inr x, m') \<and> e \<in> set (issued login_state) \<and>
     e_token e = ''tok'' \<and> bcrypt_ok example_env (e_hash e) (e_password e)"
proof -
  obtain x m' where x: "ValidateSession example_env 5 ''tok'' (mgr login_state) = (Inr x, m')"
    using login_facts by (auto split: prod.splits sum.splits)
  show ?thesis using session_proves_password [OF login_reach example_sha x] x by blast
qed

end
