(* ===== verification/Auth_Lockout.thy ===== *)
theory Auth_Lockout
  imports Auth_Sessions
begin

text \<open>
  The limit on guessing passwords. The failures a key has had since its last success are compared with what
  the manager has kept of them; because an attempt holds its gate from the check to the record of its
  failure, no number of concurrent requests gets more than five guesses into a window of fifteen minutes.
\<close>

section \<open>What the manager remembers of the failures\<close>

definition remembered :: "AuthSys \<Rightarrow> bool" where
  "remembered s \<longleftrightarrow>
     (\<forall>key. \<exists>lim \<le> clock s - loginLockoutWindow.
        attempts (mgr s) key = filter (\<lambda>t. t > lim) (rev (fails s key)))"

definition spaced :: "instant list \<Rightarrow> bool" where
  "spaced ts \<longleftrightarrow> sorted_wrt (\<ge>) ts \<and> (\<forall>i. i + 5 < length ts \<longrightarrow> loginLockoutWindow \<le> ts ! i - ts ! (i + 5))"

fun may_guess :: "instant \<Rightarrow> (string \<Rightarrow> instant list) \<Rightarrow> inflight \<Rightarrow> bool" where
  "may_guess now fs (Comparing kind key name pw a) \<longleftrightarrow>
     (\<exists>c \<le> now. length (filter (\<lambda>t. t > c - loginLockoutWindow) (fs key)) < 5)"
| "may_guess now fs f \<longleftrightarrow> True"

definition guess_inv :: "AuthSys \<Rightarrow> bool" where
  "guess_inv s \<longleftrightarrow>
     remembered s \<and> (\<forall>key. spaced (fails s key) \<and> (\<forall>t \<in> set (fails s key). t \<le> clock s)) \<and>
     (\<forall>f \<in> set (inflights s). may_guess (clock s) (fails s) f) \<and>
     distinct (map (\<lambda>f. authGateFor (gate_key f)) (inflights s))"

lemma window_pos: "0 < loginLockoutWindow"
  by (simp add: loginLockoutWindow_def)

lemma fifth_old:
  assumes "sorted_wrt (\<ge>) ts" "length (filter (\<lambda>t. t > v) ts) < 5" "4 < length ts"
  shows "ts ! 4 \<le> (v :: int)"
proof (rule ccontr)
  assume "\<not> ts ! 4 \<le> v"
  then have "t > v" if t: "t \<in> set (take 5 ts)" for t
  proof -
    obtain j where "j < 5" "j < length ts" "t = ts ! j" using t by (auto simp: in_set_conv_nth)
    then have "ts ! 4 \<le> t"
      using assms(3) sorted_wrt_nth_less [OF assms(1), of j 4] by (cases "j = 4") auto
    with \<open>\<not> ts ! 4 \<le> v\<close> show ?thesis by simp
  qed
  then have "filter (\<lambda>t. t > v) (take 5 ts) = take 5 ts" by (simp add: filter_id_conv)
  moreover have "filter (\<lambda>t. t > v) ts = filter (\<lambda>t. t > v) (take 5 ts) @ filter (\<lambda>t. t > v) (drop 5 ts)"
    by (simp flip: filter_append)
  ultimately show False using assms(2,3) by simp
qed

lemma spaced_Cons:
  assumes s: "spaced ts" and le: "\<forall>t \<in> set ts. t \<le> now" and few: "length (filter (\<lambda>t. t > c - loginLockoutWindow) ts) < 5"
    and c: "c \<le> now"
  shows "spaced (now # ts)"
proof -
  have "loginLockoutWindow \<le> (now # ts) ! i - (now # ts) ! (i + 5)" if "i + 5 < length (now # ts)" for i
  proof (cases i)
    case 0
    then have "ts ! 4 \<le> c - loginLockoutWindow" using s few that by (intro fifth_old) (simp_all add: spaced_def)
    with c 0 show ?thesis by simp
  next
    case (Suc j)
    then have "j + 5 < length ts" using that by simp
    then have "loginLockoutWindow \<le> ts ! j - ts ! (j + 5)" using s by (simp add: spaced_def)
    then show ?thesis by (simp only: Suc nth_Cons_Suc add_Suc)
  qed
  with s le show ?thesis by (simp add: spaced_def)
qed

lemma spaced_Nil [simp]: "spaced []"
  by (simp add: spaced_def)

lemma rememberedE:
  assumes "remembered s"
  obtains lim where "lim \<le> clock s - loginLockoutWindow" "attempts (mgr s) key = filter (\<lambda>t. t > lim) (rev (fails s key))"
  using assms unfolding remembered_def by blast

lemma attempts_upd:
  "attempts (m\<lparr>loginAttempts := (loginAttempts m)(key \<mapsto> ts)\<rparr>) k = (if k = key then ts else attempts m k)"
  "attempts (m\<lparr>loginAttempts := (loginAttempts m)(key := None)\<rparr>) k = (if k = key then [] else attempts m k)"
  by (simp_all add: attempts_def)

section \<open>Steps that leave the failures alone\<close>

lemma guess_inv_same:
  assumes inv: "guess_inv s" and la: "loginAttempts (mgr s') = loginAttempts (mgr s)" and c: "clock s' = clock s"
    and f: "fails s' = fails s" and i: "\<forall>f \<in> set (inflights s'). may_guess (clock s) (fails s) f"
    "distinct (map (\<lambda>f. authGateFor (gate_key f)) (inflights s'))"
  shows "guess_inv s'"
proof -
  have "attempts (mgr s') = attempts (mgr s)" by (simp add: fun_eq_iff attempts_def la)
  with inv i show ?thesis by (simp add: guess_inv_def remembered_def c f)
qed

lemma guess_inv_drop:
  assumes "guess_inv s" "i < length (inflights s)"
  shows "\<forall>f \<in> set (drop_nth i (inflights s)). may_guess (clock s) (fails s) f"
    and "distinct (map (\<lambda>f. authGateFor (gate_key f)) (drop_nth i (inflights s)))"
    and "\<forall>f \<in> set (drop_nth i (inflights s)). authGateFor (gate_key f) \<noteq> authGateFor (gate_key (inflights s ! i))"
proof -
  let ?g = "\<lambda>f. authGateFor (gate_key f)"
  show "\<forall>f \<in> set (drop_nth i (inflights s)). may_guess (clock s) (fails s) f"
    using assms(1) set_drop_nth [of i "inflights s"] by (auto simp: guess_inv_def)
  have "distinct (map ?g (take i (inflights s) @ inflights s ! i # drop (Suc i) (inflights s)))"
    using assms drop_nth_split [of i "inflights s"] by (simp add: guess_inv_def)
  then show "distinct (map ?g (drop_nth i (inflights s)))"
    "\<forall>f \<in> set (drop_nth i (inflights s)). ?g f \<noteq> ?g (inflights s ! i)"
    unfolding drop_nth_def by (auto simp: rev_image_eqI)
qed

lemma loginAttempts_ops [simp]:
  "loginAttempts (saveSessions now ok m) = loginAttempts m"
  "loginAttempts (writeSessions ok out m) = loginAttempts m"
  "loginAttempts (invalidateUserSessionsLocked now ok uid m) = loginAttempts m"
  "loginAttempts (sweep_sessions now m) = loginAttempts m"
  "loginAttempts (logout_drop token m) = loginAttempts m"
  "loginAttempts (evictOldestSessionsLocked uid limit m) = loginAttempts m"
  "loginAttempts (SetAllowLegacyPlaintextKey b m) = loginAttempts m"
  "loginAttempts (SetGlobalAPIKey k m) = loginAttempts m"
  "loginAttempts (SetSessionTTL h m) = loginAttempts m"
  by (simp_all add: saveSessions_def writeSessions_def invalidateUserSessionsLocked_def sweep_sessions_def
      logout_drop_def evictOldestSessionsLocked_def SetAllowLegacyPlaintextKey_def SetGlobalAPIKey_def SetSessionTTL_def)

lemma saveUsers_pair_attempts: "saveUsers res m = (b, m') \<Longrightarrow> loginAttempts m' = loginAttempts m"
  using saveUsers_simps(8) [of res m] by simp

lemma loginAttempts_locked [simp]:
  "loginAttempts (snd (insert_session now name a x m)) = loginAttempts m"
  "loginAttempts (snd (change_commit clk name a hash res ok m)) = loginAttempts m"
  "loginAttempts (snd (updateUserLocked clk name updates early late keepAdmin res ok m)) = loginAttempts m"
  "loginAttempts (snd (deleteUser now name keepAdmin res ok m)) = loginAttempts m"
  "loginAttempts (snd (createUserLocked env clk name email hash role domains newKey newID res m)) = loginAttempts m"
  "loginAttempts (snd (RegenerateAPIKey env now name newKey res m)) = loginAttempts m"
  by (auto simp: insert_session_def change_commit_def updateUserLocked_def deleteUser_def createUserLocked_def
      RegenerateAPIKey_def Let_def case_prod_beta dest!: saveUsers_pair_attempts split: option.split prod.split bool.split)

section \<open>Attempts\<close>

lemma filter_later: "lim \<le> w \<Longrightarrow> filter (\<lambda>t. t > w) (filter (\<lambda>t. t > lim) xs) = filter (\<lambda>t. t > (w :: int)) xs"
  by (induction xs) auto

lemma may_guess_mono: "may_guess c fs f \<Longrightarrow> c \<le> c' \<Longrightarrow> may_guess c' fs f"
  by (cases f) (auto intro: order_trans)

lemma guess_invI:
  assumes "remembered s" "\<And>key. spaced (fails s key)" "\<And>key t. t \<in> set (fails s key) \<Longrightarrow> t \<le> clock s"
    and "\<And>f. f \<in> set (inflights s) \<Longrightarrow> may_guess (clock s) (fails s) f"
    and "distinct (map (\<lambda>f. authGateFor (gate_key f)) (inflights s))"
  shows "guess_inv s"
  using assms by (simp add: guess_inv_def)

lemma guess_invD:
  assumes "guess_inv s"
  shows "remembered s" "spaced (fails s key)" "t \<in> set (fails s key) \<Longrightarrow> t \<le> clock s"
    and "f \<in> set (inflights s) \<Longrightarrow> may_guess (clock s) (fails s) f"
    and "distinct (map (\<lambda>f. authGateFor (gate_key f)) (inflights s))"
  using assms by (simp_all add: guess_inv_def)

lemma guess_inv_begin:
  assumes inv: "guess_inv s" and can: "auth_can env (ABegin kind now name pw ip) s"
  shows "guess_inv (auth_do env (ABegin kind now name pw ip) s)"
proof -
  let ?key = "attempt_key kind name ip"
  let ?v = "now - loginLockoutWindow"
  let ?m = "snd (isLockedOut now ?key (mgr s))"
  have now: "clock s \<le> now" using can by simp
  have rem: "remembered s" using inv by (simp add: guess_inv_def)
  have seen: "filter (\<lambda>t. t > ?v) (attempts (mgr s) ?key) = filter (\<lambda>t. t > ?v) (rev (fails s ?key))"
  proof -
    obtain lim where l: "lim \<le> clock s - loginLockoutWindow"
        "attempts (mgr s) ?key = filter (\<lambda>t. t > lim) (rev (fails s ?key))"
      using rem by (rule rememberedE)
    from l(1) now have "lim \<le> ?v" by simp
    then show ?thesis unfolding l(2) by (rule filter_later)
  qed
  have att: "attempts ?m k = (if k = ?key then filter (\<lambda>t. t > ?v) (rev (fails s k)) else attempts (mgr s) k)" for k
    using seen by (simp add: isLockedOut_def Let_def attempts_upd)
  have "\<exists>lim \<le> now - loginLockoutWindow. attempts ?m k = filter (\<lambda>t. t > lim) (rev (fails s k))" for k
  proof (cases "k = ?key")
    case False
    obtain lim where "lim \<le> clock s - loginLockoutWindow" "attempts (mgr s) k = filter (\<lambda>t. t > lim) (rev (fails s k))"
      using rem by (rule rememberedE)
    with False now show ?thesis by (intro exI [of _ lim]) (simp add: att)
  qed (auto simp: att)
  then have "remembered (s\<lparr>mgr := ?m, clock := now\<rparr>)" by (simp add: remembered_def)
  then have base: "guess_inv (s\<lparr>mgr := ?m, clock := now\<rparr>)"
  proof (rule guess_invI)
    show "may_guess (clock (s\<lparr>mgr := ?m, clock := now\<rparr>)) (fails (s\<lparr>mgr := ?m, clock := now\<rparr>)) f"
      if "f \<in> set (inflights (s\<lparr>mgr := ?m, clock := now\<rparr>))" for f
      using that guess_invD(4) [OF inv, of f] now may_guess_mono by simp
    show "t \<le> clock (s\<lparr>mgr := ?m, clock := now\<rparr>)" if "t \<in> set (fails (s\<lparr>mgr := ?m, clock := now\<rparr>) key)" for key t
      using that guess_invD(3) [OF inv, of t key] now by simp
  qed (use guess_invD(2,5) [OF inv] in simp_all)
  show ?thesis
  proof (cases "fst (isLockedOut now ?key (mgr s))")
    case True
    then have "auth_do env (ABegin kind now name pw ip) s = s\<lparr>mgr := ?m, clock := now\<rparr>"
      by (simp add: attempt_begin_def Let_def case_prod_beta)
    with base show ?thesis by simp
  next
    case False
    let ?f = "Comparing kind ?key name pw (account_of name ?m)"
    have "auth_do env (ABegin kind now name pw ip) s = s\<lparr>mgr := ?m, clock := now, inflights := ?f # inflights s\<rparr>"
      using False by (simp add: attempt_begin_def Let_def case_prod_beta)
    moreover have "length (filter (\<lambda>t. t > ?v) (fails s ?key)) < 5"
      using False seen by (simp add: isLockedOut_def Let_def maxLoginAttempts_def flip: rev_filter)
    then have "may_guess now (fails s) ?f" by auto
    moreover have "\<forall>f \<in> set (inflights s). authGateFor (gate_key f) \<noteq> authGateFor ?key" using can by simp
    ultimately show ?thesis using base by (auto simp: guess_inv_def remembered_def)
  qed
qed

lemma after_compare_gate:
  "after_compare env kind key name pw a token clk m = [] \<or>
   (\<exists>f. after_compare env kind key name pw a token clk m = [f] \<and> gate_key f = key \<and> may_guess now fs f)"
  by (simp add: after_compare_def split: attempt_kind.split option.split)

lemma compare_attempts:
  assumes "compare_as kind env now key a pw m = (r, m')"
  shows "(\<exists>pu. r = Inr pu) \<and> m' = clearFailedAttempts key m \<or> r = Inl NoSuchUser \<and> m' = m \<or>
    (\<exists>e. r = Inl e \<and> e \<noteq> NoSuchUser) \<and> m' = recordFailedAttempt now key m"
  using assms by (auto simp: compare_as_def login_compare_def own_compare_def
      split: attempt_kind.splits option.splits if_splits)

lemma attempts_clear: "attempts (clearFailedAttempts key m) k = (if k = key then [] else attempts m k)"
  by (simp add: clearFailedAttempts_def attempts_upd)

lemma attempts_record: "attempts (recordFailedAttempt now key m) k = (if k = key then attempts m k @ [now] else attempts m k)"
  by (simp add: recordFailedAttempt_def attempts_upd)

lemma remembered_later:
  assumes "remembered s" "clock s \<le> now"
    and "\<And>k. k \<noteq> key \<Longrightarrow> attempts m k = attempts (mgr s) k \<and> fs k = fails s k"
    and "\<And>lim. attempts (mgr s) key = filter (\<lambda>t. t > lim) (rev (fails s key)) \<Longrightarrow> lim < now \<Longrightarrow>
       attempts m key = filter (\<lambda>t. t > lim) (rev (fs key))"
  shows "\<exists>lim \<le> now - loginLockoutWindow. attempts m k = filter (\<lambda>t. t > lim) (rev (fs k))"
proof -
  obtain lim where l: "lim \<le> clock s - loginLockoutWindow" "attempts (mgr s) k = filter (\<lambda>t. t > lim) (rev (fails s k))"
    using assms(1) by (rule rememberedE)
  have "attempts m k = filter (\<lambda>t. t > lim) (rev (fs k))"
    using assms(3) [of k] assms(4) [of lim] l assms(2) window_pos by (cases "k = key") auto
  with l(1) assms(2) show ?thesis by (intro exI [of _ lim]) simp
qed

lemma guess_inv_after:
  assumes "\<And>k. \<exists>lim \<le> now - loginLockoutWindow. attempts m k = filter (\<lambda>t. t > lim) (rev (fs k))"
    and "\<And>k. spaced (fs k)" "\<And>k t. t \<in> set (fs k) \<Longrightarrow> t \<le> now" "\<And>f. f \<in> set is \<Longrightarrow> may_guess now fs f"
    and "distinct (map (\<lambda>f. authGateFor (gate_key f)) is)"
  shows "guess_inv (s\<lparr>mgr := m, clock := now, inflights := is, fails := fs\<rparr>)"
  using assms by (auto simp: guess_inv_def remembered_def)

lemma guess_inv_compare:
  assumes inv: "guess_inv s" and can: "auth_can env (ACompare i now token clk) s"
  shows "guess_inv (compare_step env i now token clk s)"
proof (cases "inflights s ! i")
  case (Comparing kind key name pw a)
  have i: "i < length (inflights s)" and now: "clock s \<le> now" using can by simp_all
  let ?rest = "drop_nth i (inflights s)"
  note D = guess_invD [OF inv] and R = guess_inv_drop [OF inv i]
  have other: "f \<in> set ?rest \<Longrightarrow> authGateFor (gate_key f) \<noteq> authGateFor key" for f using R(3) Comparing by simp
  have rest: "f \<in> set ?rest \<Longrightarrow> (\<And>k. k \<noteq> key \<Longrightarrow> fs k = fails s k) \<Longrightarrow> may_guess now fs f" for f fs
  proof -
    assume f: "f \<in> set ?rest" and fs: "\<And>k. k \<noteq> key \<Longrightarrow> fs k = fails s k"
    have "gate_key f \<noteq> key" using other [OF f] by auto
    moreover have "may_guess now (fails s) f" using R(1) f now may_guess_mono by blast
    ultimately show "may_guess now fs f" using fs by (cases f) simp_all
  qed
  obtain r m where c: "compare_as kind env now key a pw (mgr s) = (r, m)" by fastforce
  then consider (ok) pu where "r = Inr pu" "m = clearFailedAttempts key (mgr s)"
    | (none) "r = Inl NoSuchUser" "m = mgr s"
    | (bad) e where "r = Inl e" "e \<noteq> NoSuchUser" "m = recordFailedAttempt now key (mgr s)"
    using compare_attempts by blast
  then show ?thesis
  proof cases
    case ok
    let ?new = "after_compare env kind key name pw pu token clk m"
    let ?fs = "(fails s)(key := [])"
    have s': "compare_step env i now token clk s = s\<lparr>mgr := m, clock := now, inflights := ?new @ ?rest, fails := ?fs\<rparr>"
      using c ok by (simp add: compare_step_def Comparing)
    have n: "?new = [] \<or> (\<exists>f. ?new = [f] \<and> gate_key f = key \<and> may_guess now ?fs f)"
      by (rule after_compare_gate)
    show ?thesis
      unfolding s'
    proof (rule guess_inv_after)
      show "\<exists>lim \<le> now - loginLockoutWindow. attempts m k = filter (\<lambda>t. t > lim) (rev (?fs k))" for k
        by (rule remembered_later [OF D(1) now, of key]) (simp_all add: ok attempts_clear)
      show "may_guess now ?fs f" if "f \<in> set (?new @ ?rest)" for f
        using that n rest [of f ?fs] by auto
      show "distinct (map (\<lambda>f. authGateFor (gate_key f)) (?new @ ?rest))"
        using n R(2) other by fastforce
      show "t \<le> now" if "t \<in> set (?fs k)" for k t using that D(3) [of t k] now by (auto split: if_splits)
      show "spaced (?fs k)" for k using D(2) by simp
    qed
  next
    case none
    have s': "compare_step env i now token clk s = s\<lparr>mgr := mgr s, clock := now, inflights := ?rest, fails := fails s\<rparr>"
      using c none by (simp add: compare_step_def Comparing)
    show ?thesis
      unfolding s'
    proof (rule guess_inv_after)
      show "\<exists>lim \<le> now - loginLockoutWindow. attempts (mgr s) k = filter (\<lambda>t. t > lim) (rev (fails s k))" for k
        by (rule remembered_later [OF D(1) now, of key]) simp_all
      show "t \<le> now" if "t \<in> set (fails s k)" for t k using D(3) [OF that] now by simp
    qed (use D(2) R(2) rest in simp_all)
  next
    case bad
    let ?fs = "(fails s)(key := now # fails s key)"
    have s': "compare_step env i now token clk s = s\<lparr>mgr := m, clock := now, inflights := ?rest, fails := ?fs\<rparr>"
      using c bad by (simp add: compare_step_def Comparing)
    have "Comparing kind key name pw a \<in> set (inflights s)" using Comparing i nth_mem by metis
    then have "may_guess (clock s) (fails s) (Comparing kind key name pw a)" by (rule D(4))
    then have "may_guess now (fails s) (Comparing kind key name pw a)" using now by (rule may_guess_mono)
    then obtain c' where c': "c' \<le> now" "length (filter (\<lambda>t. t > c' - loginLockoutWindow) (fails s key)) < 5"
      by auto
    have sp: "spaced (now # fails s key)"
      using D(2) _ c'(2,1) by (rule spaced_Cons) (use D(3) now in force)
    show ?thesis
      unfolding s'
    proof (rule guess_inv_after)
      show "\<exists>lim \<le> now - loginLockoutWindow. attempts m k = filter (\<lambda>t. t > lim) (rev (?fs k))" for k
        by (rule remembered_later [OF D(1) now, of key]) (simp_all add: bad attempts_record)
      show "spaced (?fs k)" for k using sp D(2) by simp
      show "may_guess now ?fs f" if "f \<in> set ?rest" for f using that by (rule rest) simp
      show "t \<le> now" if "t \<in> set (?fs k)" for k t using that D(3) [of t k] now by (auto split: if_splits)
      show "distinct (map (\<lambda>f. authGateFor (gate_key f)) ?rest)" by (rule R(2))
    qed
  qed
qed (use inv in \<open>simp_all add: compare_step_def\<close>)

lemma guess_inv_forget:
  assumes inv: "guess_inv s" and now: "clock s \<le> now"
  shows "guess_inv (s\<lparr>mgr := cleanupLoginAttempts now (mgr s), clock := now\<rparr>)"
proof -
  note D = guess_invD [OF inv]
  let ?m = "cleanupLoginAttempts now (mgr s)"
  have att: "attempts ?m k = (if \<exists>t \<in> set (attempts (mgr s) k). t > now - loginLockoutWindow then attempts (mgr s) k else [])" for k
    by (cases "loginAttempts (mgr s) k") (auto simp: cleanupLoginAttempts_def attempts_def)
  have "\<exists>lim \<le> now - loginLockoutWindow. attempts ?m k = filter (\<lambda>t. t > lim) (rev (fails s k))" for k
  proof -
    obtain lim where l: "lim \<le> clock s - loginLockoutWindow" "attempts (mgr s) k = filter (\<lambda>t. t > lim) (rev (fails s k))"
      using D(1) by (rule rememberedE)
    show ?thesis
    proof (cases "\<exists>t \<in> set (attempts (mgr s) k). t > now - loginLockoutWindow")
      case True
      then show ?thesis using l now by (intro exI [of _ lim]) (simp add: att)
    next
      case False
      then have "\<forall>t \<in> set (fails s k). \<not> t > now - loginLockoutWindow"
        using l now by (auto simp: not_less)
      then have "filter (\<lambda>t. t > now - loginLockoutWindow) (rev (fails s k)) = []" by (simp add: filter_empty_conv)
      with False show ?thesis by (intro exI [of _ "now - loginLockoutWindow"]) (simp add: att)
    qed
  qed
  moreover have "may_guess now (fails s) f" if "f \<in> set (inflights s)" for f
    using D(4) [OF that] now by (rule may_guess_mono)
  moreover have "t \<le> now" if "t \<in> set (fails s k)" for t k using D(3) [OF that] now by simp
  ultimately show ?thesis using D(2,5) by (simp add: guess_inv_def remembered_def)
qed

lemma guess_inv_do:
  assumes inv: "guess_inv s" and can: "auth_can env l s" and good: "mgr_good (mgr s)"
  shows "guess_inv (auth_do env l s)"
proof -
  note D = guess_invD [OF inv]
  have same: "guess_inv s'" if "loginAttempts (mgr s') = loginAttempts (mgr s)" "clock s' = clock s" "fails s' = fails s"
      "inflights s' = inflights s" for s'
    using inv that(1-3) by (rule guess_inv_same) (use D(4,5) that(4) in simp_all)
  have drop: "guess_inv s'" if "loginAttempts (mgr s') = loginAttempts (mgr s)" "clock s' = clock s" "fails s' = fails s"
      "inflights s' = drop_nth i (inflights s)" "i < length (inflights s)" for s' i
    using inv that(1-3) by (rule guess_inv_same) (use guess_inv_drop(1,2) [OF inv that(5)] that(4) in simp_all)
  show ?thesis
  proof (cases l)
    case (AInsert i now)
    then show ?thesis
      using can inv by (simp add: insert_step_def Let_def split: inflight.split)
        (auto split: prod.split sum.split dest!: arg_cong [of "insert_session _ _ _ _ _" _ snd] intro!: drop [of _ i])
  next
    case (AChange i clk hashed res ok)
    then show ?thesis
      using can inv by (auto simp: change_step_def revoking_def Let_def intro!: drop [of _ i] split: inflight.split option.split)
  next
    case (ARestart now key)
    show ?thesis
    proof (cases "NewManager now (dataDir (mgr s)) key (usersJson (mgr s)) (sessionsJson (mgr s))")
      case (Inr m)
      have "loginAttempts m = Map.empty"
        using NewManager_good(5) [OF Inr] good by (simp add: mgr_good_def)
      then have "attempts m k = []" for k by (simp add: attempts_def)
      then show ?thesis using ARestart Inr by (auto simp: restart_step_def guess_inv_def remembered_def)
    qed (use ARestart inv in \<open>simp add: restart_step_def\<close>)
  next
    case (AFirstAdmin clk name email hash newKey newID res)
    then show ?thesis by (simp add: mgr_createFirst same)
  next
    case ALogoutSave
    then show ?thesis by (auto simp: logout_save_def intro!: same split: list.split)
  qed (use inv can in \<open>simp_all add: guess_inv_begin guess_inv_compare guess_inv_forget same revoking_def del: auth_do.simps(1) auth_can.simps(1)\<close>)
qed

definition guess_sys :: "AuthSys \<Rightarrow> bool" where
  "guess_sys s \<longleftrightarrow> sys_tables s \<and> guess_inv s"

lemma guess_sys_init:
  assumes "auth_init s"
  shows "guess_sys s"
proof -
  obtain now dir key uj m where s: "users_file_ok uj" "NewManager now dir key uj Absent = Inr m"
      "s = \<lparr>mgr = m, clock = now, inflights = [], logouts = [], issued = [], final = {}, fails = (\<lambda>_. [])\<rparr>"
    using assms by (auto simp: auth_init_def)
  have "loginAttempts m = Map.empty" using NewManager_good(5) [OF s(2,1)] .
  then have "attempts m k = []" for k by (simp add: attempts_def)
  then have "guess_inv s" by (auto simp: s(3) guess_inv_def remembered_def)
  with assms show ?thesis by (simp add: guess_sys_def sys_tables_init)
qed

interpretation auth_guesses: transition_system auth_init "auth_step env" guess_sys
proof unfold_locales
  show "guess_sys s'" if "guess_sys s" "auth_step env s l s'" for s l s'
    using that sys_tables_do [of s env l] guess_inv_do [of s env l]
    by (simp add: guess_sys_def auth_step_def sys_tables_def)
qed (rule guess_sys_init)


text \<open>Six wrong guesses, the last of them when the first has left the window.\<close>

definition guess_run :: "auth_label list" where
  "guess_run =
     concat (map (\<lambda>t. [ABegin LoginAttempt t ''root'' ''x'' [], ACompare 0 (t + 1) None (\<lambda>_. 0)])
       [1, 3, 5, 7, 9, 900000000002])"

definition guess_state :: AuthSys where
  "guess_state = the (auth_run example_env guess_run (first_start 0 ''data''))"

lemma guess_facts:
  "auth_run example_env guess_run (first_start 0 ''data'') \<noteq> None \<and> length (fails guess_state ''root'') = 6"
  by code_simp


end
